(* ===== verification/Vire_Prelude.thy ===== *)
theory Vire_Prelude
  imports Main "HOL-Library.Word" "HOL-Library.Monad_Syntax"
begin

text \<open>
  Shared vocabulary of the development: names for the machine types of the C sources, the
  conversions C performs between integer widths, little-endian byte encodings, and the byte-buffer
  operations (\<open>memcpy\<close>, \<open>memmove\<close>, \<open>drealloc\<close>) with explicit bounds checks. An access outside
  the buffer is the value \<^term>\<open>None\<close>, so that every result of the form \<open>Some _\<close> proved later is
  also a proof that no access leaves the buffer. The host is little endian, where the macros
  \<open>memrev16ifbe\<close>, \<open>intrev32ifbe\<close>, \<dots> of \<open>src/src/vr_util.h\<close> are the identity.
\<close>

unbundle bit_operations_syntax

type_synonym byte = "8 word"
type_synonym u32 = "32 word"
type_synonym u64 = "64 word"

named_theorems vire_limits \<open>the integer limits of the C implementation\<close>
named_theorems mem_simps \<open>rules that evaluate buffer accesses on concatenations\<close>

section \<open>Integer limits and conversions\<close>

definition INT16_MIN :: int where [vire_limits]: "INT16_MIN = - 32768"
definition INT16_MAX :: int where [vire_limits]: "INT16_MAX = 32767"
definition INT32_MIN :: int where [vire_limits]: "INT32_MIN = - 2147483648"
definition INT32_MAX :: int where [vire_limits]: "INT32_MAX = 2147483647"
definition LLONG_MIN :: int where [vire_limits]: "LLONG_MIN = - 9223372036854775808"
definition LLONG_MAX :: int where [vire_limits]: "LLONG_MAX = 9223372036854775807"
definition ULLONG_MAX :: nat where [vire_limits]: "ULLONG_MAX = 18446744073709551615"

text \<open>Conversion of a mathematical integer to an unsigned, and to a two's complement, type of
  \<open>w\<close> bits.\<close>

definition cast_u :: "nat \<Rightarrow> int \<Rightarrow> nat" where
  "cast_u w x = nat (x mod 2 ^ w)"

definition cast_s :: "nat \<Rightarrow> int \<Rightarrow> int" where
  "cast_s w x = (x + 2 ^ (w - 1)) mod 2 ^ w - 2 ^ (w - 1)"

lemma cast_u_id: "0 \<le> x \<Longrightarrow> x < 2 ^ w \<Longrightarrow> cast_u w x = nat x"
  by (simp add: cast_u_def)

lemma cast_u_int: "n < 2 ^ w \<Longrightarrow> cast_u w (int n) = n"
  by (metis cast_u_id nat_int of_nat_0_le_iff of_nat_less_iff of_nat_numeral of_nat_power)

lemma cast_u_lt: "cast_u w x < 2 ^ w"
proof -
  have "nat (x mod 2 ^ w) < nat (2 ^ w)"
    by (subst nat_less_eq_zless) auto
  then show ?thesis by (simp add: cast_u_def nat_power_eq)
qed

lemma int_cast_u: "int (cast_u w x) = x mod 2 ^ w"
  by (simp add: cast_u_def)

lemma two_pow_pred: "0 < w \<Longrightarrow> (2::int) ^ w = 2 ^ (w - 1) + 2 ^ (w - 1)"
  by (cases w) auto

lemma cast_s_id: "0 < w \<Longrightarrow> - (2 ^ (w - 1)) \<le> x \<Longrightarrow> x < 2 ^ (w - 1) \<Longrightarrow> cast_s w x = x"
  using two_pow_pred [of w] by (simp add: cast_s_def)

lemma cast_s_mod: "0 < w \<Longrightarrow> cast_s w (x mod 2 ^ w) = cast_s w x"
  by (simp add: cast_s_def mod_add_left_eq)

lemma cast_s_32_id: "- 2147483648 \<le> x \<Longrightarrow> x < 2147483648 \<Longrightarrow> cast_s 32 x = x"
  by (rule cast_s_id) simp_all

text \<open>Evaluation of bounded quantifiers at numerals.\<close>

lemma all_less_numeral:
  "(\<forall>i < numeral k. P i) \<longleftrightarrow> P (pred_numeral k) \<and> (\<forall>i < pred_numeral k. P i)"
  by (simp add: numeral_eq_Suc [of k] All_less_Suc)

section \<open>Little-endian encodings\<close>

fun le_bytes :: "nat \<Rightarrow> nat \<Rightarrow> byte list" where
  "le_bytes 0 n = []"
| "le_bytes (Suc w) n = word_of_nat (n mod 256) # le_bytes w (n div 256)"

fun le_val :: "byte list \<Rightarrow> nat" where
  "le_val [] = 0"
| "le_val (b # bs) = unat b + 256 * le_val bs"

lemma length_le_bytes [simp]: "length (le_bytes w n) = w"
  by (induction w arbitrary: n) auto

lemma le_bytes_numeral:
  "le_bytes (numeral k) n = word_of_nat (n mod 256) # le_bytes (pred_numeral k) (n div 256)"
  by (simp add: numeral_eq_Suc [of k])

lemma le_val_le_bytes: "le_val (le_bytes w n) = n mod 256 ^ w"
proof (induction w arbitrary: n)
  case 0
  then show ?case by simp
next
  case (Suc w)
  have "unat (word_of_nat (n mod 256) :: byte) = n mod 256"
    by (simp add: unat_of_nat)
  moreover have "n mod 256 + 256 * (n div 256 mod 256 ^ w) = n mod (256 * 256 ^ w)"
    by (simp add: mod_mult2_eq)
  ultimately show ?case by (simp add: Suc)
qed

lemma unat_byte_lt: "unat (b :: byte) < 256"
proof -
  have "unat b < 2 ^ LENGTH(8)" by (rule unsigned_less)
  then show ?thesis by simp
qed

lemma le_val_lt: "le_val bs < 256 ^ length bs"
proof (induction bs)
  case Nil
  then show ?case by simp
next
  case (Cons b bs)
  have "unat b < 256" by (rule unat_byte_lt)
  with Cons show ?case by simp
qed

lemma le_bytes_le_val: "le_bytes (length bs) (le_val bs) = bs"
proof (induction bs)
  case (Cons b bs)
  have "(unat b + 256 * le_val bs) div 256 = le_val bs" "(unat b + 256 * le_val bs) mod 256 = unat b"
    using unat_byte_lt [of b] by auto
  with Cons show ?case by simp
qed simp

lemma le_val_inj: "length bs = length cs \<Longrightarrow> le_val bs = le_val cs \<Longrightarrow> bs = cs"
  by (metis le_bytes_le_val)

text \<open>Signed integers of \<open>w\<close> bytes.\<close>

definition enc_int :: "nat \<Rightarrow> int \<Rightarrow> byte list" where
  "enc_int w v = le_bytes w (cast_u (8 * w) v)"

definition dec_int :: "nat \<Rightarrow> byte list \<Rightarrow> int" where
  "dec_int w bs = cast_s (8 * w) (int (le_val bs))"

definition fits_int :: "nat \<Rightarrow> int \<Rightarrow> bool" where
  "fits_int w v \<longleftrightarrow> - (2 ^ (8 * w - 1)) \<le> v \<and> v < 2 ^ (8 * w - 1)"

lemma length_enc_int [simp]: "length (enc_int w v) = w"
  by (simp add: enc_int_def)

lemma dec_enc_int:
  assumes "0 < w" "fits_int w v"
  shows "dec_int w (enc_int w v) = v"
proof -
  have "(256::nat) ^ w = 2 ^ (8 * w)" by (simp add: power_mult)
  then have "int (le_val (enc_int w v)) = v mod 2 ^ (8 * w)"
    by (simp add: enc_int_def le_val_le_bytes int_cast_u zmod_int)
  then show ?thesis
    using assms by (simp add: dec_int_def cast_s_mod cast_s_id fits_int_def)
qed

section \<open>Byte buffers\<close>

definition mem_read :: "byte list \<Rightarrow> nat \<Rightarrow> nat \<Rightarrow> byte list option" where
  "mem_read buf off n = (if off + n \<le> length buf then Some (take n (drop off buf)) else None)"

definition mem_write :: "byte list \<Rightarrow> nat \<Rightarrow> byte list \<Rightarrow> byte list option" where
  "mem_write buf off bs =
     (if off + length bs \<le> length buf
      then Some (take off buf @ bs @ drop (off + length bs) buf) else None)"

text \<open>One byte at an index.\<close>

definition byte_at :: "byte list \<Rightarrow> nat \<Rightarrow> byte option" where
  "byte_at buf i = (if i < length buf then Some (buf ! i) else None)"

definition byte_put :: "byte list \<Rightarrow> nat \<Rightarrow> byte \<Rightarrow> byte list option" where
  "byte_put buf i b = (if i < length buf then Some (buf[i := b]) else None)"

text \<open>\<open>tolower\<close> of the C locale, and the bytes of a string constant.\<close>

definition tolower :: "byte \<Rightarrow> byte" where
  "tolower c = (if 65 \<le> c \<and> c \<le> 90 then c + 32 else c)"

definition asc :: "string \<Rightarrow> byte list" where
  "asc s = map of_char s"

text \<open>\<open>memmove\<close> copies through an intermediate buffer, so overlapping areas are fine.\<close>

definition memmove :: "byte list \<Rightarrow> nat \<Rightarrow> nat \<Rightarrow> nat \<Rightarrow> byte list option" where
  "memmove buf dst src n = do { bs \<leftarrow> mem_read buf src n; mem_write buf dst bs }"

text \<open>
  \<open>drealloc\<close> (a wrapper of \<open>realloc\<close>) keeps the common prefix; the content of the new bytes is
  whatever the allocator returns, here the parameter \<open>fill\<close>. The code's behaviour must not depend
  on it, and every theorem holds for all \<open>fill\<close>.
\<close>

type_synonym fill = "nat \<Rightarrow> byte"

definition drealloc :: "fill \<Rightarrow> byte list \<Rightarrow> nat \<Rightarrow> byte list" where
  "drealloc fill buf n = take n buf @ map fill [length buf..<n]"

lemma length_drealloc [simp]: "length (drealloc fill buf n) = n"
  by (auto simp: drealloc_def)

lemma drealloc_shrink: "n \<le> length buf \<Longrightarrow> drealloc fill buf n = take n buf"
  by (simp add: drealloc_def)

lemma drealloc_grow: "length buf \<le> n \<Longrightarrow> drealloc fill buf n = buf @ map fill [length buf..<n]"
  by (simp add: drealloc_def)

lemma mem_read_length: "mem_read buf off n = Some bs \<Longrightarrow> length bs = n"
  by (auto simp: mem_read_def split: if_splits)

lemma mem_write_length: "mem_write buf off bs = Some buf' \<Longrightarrow> length buf' = length buf"
  by (auto simp: mem_write_def split: if_splits)

lemma mem_read_mid [mem_simps]:
  "length xs = off \<Longrightarrow> length ys = n \<Longrightarrow> mem_read (xs @ ys @ zs) off n = Some ys"
  by (auto simp: mem_read_def)

lemma mem_read_mid_end [mem_simps]:
  "length xs = off \<Longrightarrow> length ys = n \<Longrightarrow> mem_read (xs @ ys) off n = Some ys"
  by (auto simp: mem_read_def)

lemma mem_write_mid [mem_simps]:
  "length xs = off \<Longrightarrow> length ys = length bs \<Longrightarrow> mem_write (xs @ ys @ zs) off bs = Some (xs @ bs @ zs)"
  by (auto simp: mem_write_def)

lemma mem_write_mid_end [mem_simps]:
  "length xs = off \<Longrightarrow> length ys = length bs \<Longrightarrow> mem_write (xs @ ys) off bs = Some (xs @ bs)"
  by (auto simp: mem_write_def)

text \<open>Opening a gap of the size of \<open>js\<close> before \<open>ys\<close>, and closing a gap before \<open>ys\<close>.\<close>

lemma append_swap_lengths:
  obtains g r where "ys @ js = g @ r" "length g = length js" "length r = length ys"
proof
  show "ys @ js = take (length js) (ys @ js) @ drop (length js) (ys @ js)"
    by (simp only: append_take_drop_id)
qed auto

lemma memmove_right:
  assumes "length xs = src" "dst = src + length js" "length ys = n"
  shows "\<exists>gap. length gap = length js \<and> memmove (xs @ ys @ js) dst src n = Some (xs @ gap @ ys)"
proof -
  obtain g r where gr: "ys @ js = g @ r" "length g = length js" "length r = length ys"
    by (rule append_swap_lengths)
  have "mem_read (xs @ ys @ js) src n = Some ys"
    using assms by (simp add: mem_simps)
  moreover have "mem_write ((xs @ g) @ r) dst ys = Some ((xs @ g) @ ys)"
    using assms gr by (intro mem_write_mid_end) auto
  ultimately show ?thesis using gr by (auto simp: memmove_def)
qed

lemma memmove_left:
  assumes "length xs = dst" "src = dst + length gap" "length ys = n"
  shows "\<exists>rest. length rest = length gap \<and> memmove (xs @ gap @ ys) dst src n = Some (xs @ ys @ rest)"
proof -
  obtain g r where gr: "gap @ ys = g @ r" "length g = length ys" "length r = length gap"
    by (rule append_swap_lengths)
  have "mem_read ((xs @ gap) @ ys) src n = Some ys"
    using assms by (intro mem_read_mid_end) auto
  moreover have "mem_write (xs @ g @ r) dst ys = Some (xs @ ys @ r)"
    using assms gr by (intro mem_write_mid) auto
  ultimately show ?thesis using gr by (auto simp: memmove_def)
qed

end
