(* ===== verification/Vire_Interfaces.thy ===== *)
theory Vire_Interfaces
  imports Vire_Prelude "HOL-Library.Sublist"
begin

text \<open>
  The contracts the containers of the server promise to their clients, as locales. A container
  operation returns \<^term>\<open>None\<close> when it would access memory out of bounds, fail an assertion or not
  return, so the laws below (which always promise \<open>Some _\<close>) include the absence of such failures.
  The clients' results (a whole history of operations refines the history on the abstract value) are
  proved once inside the locales and used through the interpretations in the container theories.
\<close>

section \<open>Sets\<close>

datatype 'a set_op = Add_op 'a | Remove_op 'a

fun set_run :: "('s \<Rightarrow> 'a \<Rightarrow> ('s \<times> bool) option) \<Rightarrow> ('s \<Rightarrow> 'a \<Rightarrow> ('s \<times> bool) option) \<Rightarrow>
    's \<Rightarrow> 'a set_op list \<Rightarrow> ('s \<times> bool list) option" where
  "set_run add remove s [] = Some (s, [])"
| "set_run add remove s (Add_op x # ops) =
     do { (s', b) \<leftarrow> add s x; (s'', bs) \<leftarrow> set_run add remove s' ops; Some (s'', b # bs) }"
| "set_run add remove s (Remove_op x # ops) =
     do { (s', b) \<leftarrow> remove s x; (s'', bs) \<leftarrow> set_run add remove s' ops; Some (s'', b # bs) }"

text \<open>The same history on a mathematical set: the final set and the flags returned on the way.\<close>

fun set_spec_run :: "'a set \<Rightarrow> 'a set_op list \<Rightarrow> 'a set \<times> bool list" where
  "set_spec_run A [] = (A, [])"
| "set_spec_run A (Add_op x # ops) =
     (let (B, bs) = set_spec_run (insert x A) ops in (B, (x \<notin> A) # bs))"
| "set_spec_run A (Remove_op x # ops) =
     (let (B, bs) = set_spec_run (A - {x}) ops in (B, (x \<in> A) # bs))"

fun set_op_arg :: "'a set_op \<Rightarrow> 'a" where
  "set_op_arg (Add_op x) = x"
| "set_op_arg (Remove_op x) = x"

locale set_impl =
  fixes repr :: "'s \<Rightarrow> 'a set \<Rightarrow> bool"
    and add :: "'s \<Rightarrow> 'a \<Rightarrow> ('s \<times> bool) option"
    and remove :: "'s \<Rightarrow> 'a \<Rightarrow> ('s \<times> bool) option"
    and find :: "'s \<Rightarrow> 'a \<Rightarrow> bool option"
    and admissible :: "'a \<Rightarrow> bool"
    and capacity :: nat
  assumes repr_finite: "repr s A \<Longrightarrow> finite A"
    and repr_add: "repr s A \<Longrightarrow> admissible x \<Longrightarrow> card A < capacity \<Longrightarrow>
           \<exists>s'. add s x = Some (s', x \<notin> A) \<and> repr s' (insert x A)"
    and repr_remove: "repr s A \<Longrightarrow> \<exists>s'. remove s x = Some (s', x \<in> A) \<and> repr s' (A - {x})"
    and repr_find: "repr s A \<Longrightarrow> find s x = Some (x \<in> A)"
begin

lemma run_refines:
  assumes "repr s A" "\<forall>op \<in> set ops. admissible (set_op_arg op)" "card A + length ops \<le> capacity"
  shows "\<exists>s'. set_run add remove s ops = Some (s', snd (set_spec_run A ops)) \<and>
           repr s' (fst (set_spec_run A ops))"
  using assms
proof (induction ops arbitrary: s A)
  case Nil
  then show ?case by simp
next
  case (Cons op ops)
  show ?case
  proof (cases op)
    case (Add_op x)
    have "card A < capacity" "admissible x" using Cons.prems Add_op by auto
    from repr_add [OF Cons.prems(1) this(2,1)]
    obtain s' where s': "add s x = Some (s', x \<notin> A)" "repr s' (insert x A)" by blast
    have "card (insert x A) \<le> Suc (card A)" by (rule card_insert_le_m1) auto
    with Cons.prems have "card (insert x A) + length ops \<le> capacity" by simp
    from Cons.IH [OF s'(2) _ this] Cons.prems(2) s'(1) Add_op show ?thesis
      by (auto split: prod.splits)
  next
    case (Remove_op x)
    from repr_remove [OF Cons.prems(1)]
    obtain s' where s': "remove s x = Some (s', x \<in> A)" "repr s' (A - {x})" by blast
    have "card (A - {x}) \<le> card A" by (rule card_mono) (use repr_finite Cons.prems in auto)
    with Cons.prems have "card (A - {x}) + length ops \<le> capacity" by simp
    from Cons.IH [OF s'(2) _ this] Cons.prems(2) s'(1) Remove_op show ?thesis
      by (auto split: prod.splits)
  qed
qed

end

section \<open>Maps\<close>

text \<open>
  Keys are compared by an equivalence \<open>eq\<close> (for the dictionaries: the comparison callback of the
  dictionary type), so the abstract value is a function that respects it. The flag of \<open>put\<close> says
  that the key was new, the flag of \<open>del\<close> that it was present. \<open>stored\<close> is the value that \<open>put\<close>
  keeps of its argument (the dictionaries may duplicate it). \<open>weight\<close> measures the storage in use
  and \<open>cost\<close> what one insertion may add to it.
\<close>

datatype ('k, 'v) map_op = Put_op 'k 'v | Del_op 'k | Get_op 'k

datatype 'v map_res = Flag bool | Val "'v option"

definition map_upd :: "('k \<Rightarrow> 'k \<Rightarrow> bool) \<Rightarrow> ('k \<Rightarrow> 'v option) \<Rightarrow> 'k \<Rightarrow> 'v option \<Rightarrow> ('k \<Rightarrow> 'v option)" where
  "map_upd eq m k x = (\<lambda>k'. if eq k k' then x else m k')"

fun map_run :: "('s \<Rightarrow> 'k \<Rightarrow> 'v \<Rightarrow> ('s \<times> bool) option) \<Rightarrow> ('s \<Rightarrow> 'k \<Rightarrow> ('s \<times> bool) option) \<Rightarrow>
    ('s \<Rightarrow> 'k \<Rightarrow> 'v option option) \<Rightarrow> 's \<Rightarrow> ('k, 'v) map_op list \<Rightarrow> ('s \<times> 'v map_res list) option" where
  "map_run put del get s [] = Some (s, [])"
| "map_run put del get s (Put_op k v # ops) =
     do { (s', b) \<leftarrow> put s k v; (s'', rs) \<leftarrow> map_run put del get s' ops; Some (s'', Flag b # rs) }"
| "map_run put del get s (Del_op k # ops) =
     do { (s', b) \<leftarrow> del s k; (s'', rs) \<leftarrow> map_run put del get s' ops; Some (s'', Flag b # rs) }"
| "map_run put del get s (Get_op k # ops) =
     do { x \<leftarrow> get s k; (s'', rs) \<leftarrow> map_run put del get s ops; Some (s'', Val x # rs) }"

fun map_spec_run :: "('k \<Rightarrow> 'k \<Rightarrow> bool) \<Rightarrow> ('v \<Rightarrow> 'v) \<Rightarrow> ('k \<Rightarrow> 'v option) \<Rightarrow> ('k, 'v) map_op list \<Rightarrow>
    ('k \<Rightarrow> 'v option) \<times> 'v map_res list" where
  "map_spec_run eq st m [] = (m, [])"
| "map_spec_run eq st m (Put_op k v # ops) =
     (let (m', rs) = map_spec_run eq st (map_upd eq m k (Some (st v))) ops in (m', Flag (m k = None) # rs))"
| "map_spec_run eq st m (Del_op k # ops) =
     (let (m', rs) = map_spec_run eq st (map_upd eq m k None) ops in (m', Flag (m k \<noteq> None) # rs))"
| "map_spec_run eq st m (Get_op k # ops) =
     (let (m', rs) = map_spec_run eq st m ops in (m', Val (m k) # rs))"

fun map_op_cost :: "('k \<Rightarrow> 'v \<Rightarrow> nat) \<Rightarrow> ('k, 'v) map_op \<Rightarrow> nat" where
  "map_op_cost cost (Put_op k v) = cost k v"
| "map_op_cost cost (Del_op k) = 0"
| "map_op_cost cost (Get_op k) = 0"

locale map_impl =
  fixes repr :: "'s \<Rightarrow> ('k \<Rightarrow> 'v option) \<Rightarrow> bool"
    and eq :: "'k \<Rightarrow> 'k \<Rightarrow> bool"
    and stored :: "'v \<Rightarrow> 'v"
    and put :: "'s \<Rightarrow> 'k \<Rightarrow> 'v \<Rightarrow> ('s \<times> bool) option"
    and del :: "'s \<Rightarrow> 'k \<Rightarrow> ('s \<times> bool) option"
    and get :: "'s \<Rightarrow> 'k \<Rightarrow> 'v option option"
    and weight :: "'s \<Rightarrow> nat"
    and cost :: "'k \<Rightarrow> 'v \<Rightarrow> nat"
    and capacity :: nat
  assumes repr_put: "repr s m \<Longrightarrow> weight s + cost k v \<le> capacity \<Longrightarrow>
           \<exists>s'. put s k v = Some (s', m k = None) \<and> repr s' (map_upd eq m k (Some (stored v))) \<and>
             weight s' \<le> weight s + cost k v"
    and repr_del: "repr s m \<Longrightarrow>
           \<exists>s'. del s k = Some (s', m k \<noteq> None) \<and> repr s' (map_upd eq m k None) \<and> weight s' \<le> weight s"
    and repr_get: "repr s m \<Longrightarrow> get s k = Some (m k)"
begin

lemma history_refines:
  assumes "repr s m" "weight s + sum_list (map (map_op_cost cost) ops) \<le> capacity"
  shows "\<exists>s'. map_run put del get s ops = Some (s', snd (map_spec_run eq stored m ops)) \<and>
           repr s' (fst (map_spec_run eq stored m ops))"
  using assms
proof (induction ops arbitrary: s m)
  case Nil
  then show ?case by simp
next
  case (Cons op ops)
  show ?case
  proof (cases op)
    case (Put_op k v)
    from Cons.prems Put_op have "weight s + cost k v \<le> capacity" by simp
    from repr_put [OF Cons.prems(1) this] obtain s' where s': "put s k v = Some (s', m k = None)"
      "repr s' (map_upd eq m k (Some (stored v)))" "weight s' \<le> weight s + cost k v" by blast
    have "weight s' + sum_list (map (map_op_cost cost) ops) \<le> capacity"
      using s'(3) Cons.prems(2) Put_op by simp
    from Cons.IH [OF s'(2) this] s'(1) Put_op show ?thesis by (auto split: prod.splits)
  next
    case (Del_op k)
    from repr_del [OF Cons.prems(1)] obtain s' where s': "del s k = Some (s', m k \<noteq> None)"
      "repr s' (map_upd eq m k None)" "weight s' \<le> weight s" by blast
    have "weight s' + sum_list (map (map_op_cost cost) ops) \<le> capacity"
      using s'(3) Cons.prems(2) Del_op by simp
    from Cons.IH [OF s'(2) this] s'(1) Del_op show ?thesis by (auto split: prod.splits)
  next
    case (Get_op k)
    from Cons.prems Get_op have "weight s + sum_list (map (map_op_cost cost) ops) \<le> capacity" by simp
    from Cons.IH [OF Cons.prems(1) this] repr_get [OF Cons.prems(1)] Get_op show ?thesis
      by (auto split: prod.splits)
  qed
qed

end

section \<open>Queues\<close>

text \<open>A queue accepts values, or refuses them when it is out of memory or full, and gives them back in the order of
  their arrival.\<close>

datatype 'v queue_op = Push_op 'v | Pop_op

fun queue_run :: "('s \<Rightarrow> 'v \<Rightarrow> 's option) \<Rightarrow> ('s \<Rightarrow> ('s \<times> 'v option) option) \<Rightarrow> 's \<Rightarrow> 'v queue_op list \<Rightarrow> ('s \<times> 'v list) option" where
  "queue_run push pop s [] = Some (s, [])"
| "queue_run push pop s (Push_op v # ops) = do { s' \<leftarrow> push s v; queue_run push pop s' ops }"
| "queue_run push pop s (Pop_op # ops) = do {
     (s', r) \<leftarrow> pop s;
     (s'', out) \<leftarrow> queue_run push pop s' ops;
     Some (s'', case r of None \<Rightarrow> out | Some v \<Rightarrow> v # out)
   }"

fun queue_pushed :: "'v queue_op list \<Rightarrow> 'v list" where
  "queue_pushed [] = []"
| "queue_pushed (Push_op v # ops) = v # queue_pushed ops"
| "queue_pushed (Pop_op # ops) = queue_pushed ops"

locale queue_impl =
  fixes repr :: "'s \<Rightarrow> 'v list \<Rightarrow> bool"
    and push :: "'s \<Rightarrow> 'v \<Rightarrow> 's option"
    and pop :: "'s \<Rightarrow> ('s \<times> 'v option) option"
    and cap :: nat
  assumes push_law: "repr s vs \<Longrightarrow> length vs < cap \<Longrightarrow> \<exists>s'. push s v = Some s' \<and> (repr s' (vs @ [v]) \<or> repr s' vs)"
    and pop_law: "repr s vs \<Longrightarrow> \<exists>s'. pop s = Some (s', if vs = [] then None else Some (hd vs)) \<and> repr s' (tl vs)"
begin

lemma fifo_order:
  "repr s vs \<Longrightarrow> length vs + length ops \<le> cap \<Longrightarrow>
   \<exists>s' out acc rest. queue_run push pop s ops = Some (s', out) \<and> repr s' rest \<and> vs @ acc = out @ rest \<and> subseq acc (queue_pushed ops)"
proof (induction ops arbitrary: s vs)
  case Nil
  then show ?case by (intro exI [of _ s] exI [of _ "[]"] exI [of _ "[]"] exI [of _ vs]) simp
next
  case (Cons op ops)
  show ?case
  proof (cases op)
    case (Push_op v)
    then obtain s1 vs1 where s1: "push s v = Some s1" "repr s1 vs1" "vs1 = vs @ [v] \<or> vs1 = vs"
      using push_law [OF Cons.prems(1), of v] Cons.prems(2) by auto
    then have "length vs1 + length ops \<le> cap" using Cons.prems(2) by auto
    then obtain s' out acc rest where r: "queue_run push pop s1 ops = Some (s', out)" "repr s' rest"
      "vs1 @ acc = out @ rest" "subseq acc (queue_pushed ops)" using Cons.IH [OF s1(2)] by blast
    let ?acc = "if vs1 = vs then acc else v # acc"
    have "vs @ ?acc = out @ rest" "subseq ?acc (v # queue_pushed ops)" using r(3,4) s1(3) by auto
    with r(1,2) s1(1) Push_op show ?thesis
      by (intro exI [of _ s'] exI [of _ out] exI [of _ ?acc] exI [of _ rest]) simp
  next
    case Pop_op
    obtain s1 where s1: "pop s = Some (s1, if vs = [] then None else Some (hd vs))" "repr s1 (tl vs)"
      using pop_law [OF Cons.prems(1)] by blast
    have "length (tl vs) + length ops \<le> cap" using Cons.prems(2) by simp
    then obtain s' out acc rest where r: "queue_run push pop s1 ops = Some (s', out)" "repr s' rest"
      "tl vs @ acc = out @ rest" "subseq acc (queue_pushed ops)" using Cons.IH [OF s1(2)] by blast
    let ?out = "if vs = [] then out else hd vs # out"
    have "vs @ acc = ?out @ rest" using r(3) by (cases vs) auto
    with r(1,2,4) s1(1) Pop_op show ?thesis
      by (intro exI [of _ s'] exI [of _ ?out] exI [of _ acc] exI [of _ rest]) simp
  qed
qed

end

end
