(* ===== verification/Vire_Intset.thy ===== *)
theory Vire_Intset
  imports Vire_Prelude Vire_Interfaces
begin

text \<open>
  The sorted integer set of \<open>src/src/vr_intset.c\<close>: a header with an element width (2, 4 or 8 bytes)
  and a length, followed by the elements as a byte array. The model keeps the byte array; reads and
  writes go through \<^const>\<open>mem_read\<close> and \<^const>\<open>mem_write\<close>. \<open>intset_rel\<close> relates the bytes to the
  list of values they encode, and the lemmas show that search, insertion (with an encoding upgrade
  when the value needs it) and removal implement a set of integers.
\<close>

section \<open>The code\<close>

record intset =
  encoding :: nat
  intset_length :: nat
  contents :: "byte list"

definition INTSET_ENC_INT16 :: nat where "INTSET_ENC_INT16 = 2"
definition INTSET_ENC_INT32 :: nat where "INTSET_ENC_INT32 = 4"
definition INTSET_ENC_INT64 :: nat where "INTSET_ENC_INT64 = 8"

lemmas intset_enc_defs = INTSET_ENC_INT16_def INTSET_ENC_INT32_def INTSET_ENC_INT64_def

definition intsetValueEncoding :: "int \<Rightarrow> nat" where
  "intsetValueEncoding v =
     (if v < INT32_MIN \<or> v > INT32_MAX then INTSET_ENC_INT64
      else if v < INT16_MIN \<or> v > INT16_MAX then INTSET_ENC_INT32
      else INTSET_ENC_INT16)"

text \<open>\<open>((intN_t*)is->contents)+pos\<close>: a negative position is outside the array.\<close>

definition read_elem :: "byte list \<Rightarrow> int \<Rightarrow> nat \<Rightarrow> int option" where
  "read_elem bs pos w = (if pos < 0 then None else map_option (dec_int w) (mem_read bs (nat pos * w) w))"

definition write_elem :: "byte list \<Rightarrow> int \<Rightarrow> nat \<Rightarrow> int \<Rightarrow> byte list option" where
  "write_elem bs pos w v = (if pos < 0 then None else mem_write bs (nat pos * w) (enc_int w v))"

definition intsetGetEncoded :: "intset \<Rightarrow> int \<Rightarrow> nat \<Rightarrow> int option" where
  "intsetGetEncoded s pos enc =
     (if enc = INTSET_ENC_INT64 then read_elem (contents s) pos 8
      else if enc = INTSET_ENC_INT32 then read_elem (contents s) pos 4
      else read_elem (contents s) pos 2)"

definition intsetGet_raw :: "intset \<Rightarrow> int \<Rightarrow> int option" where
  "intsetGet_raw s pos = intsetGetEncoded s pos (cast_u 8 (int (encoding s)))"

definition intsetSet_raw :: "intset \<Rightarrow> int \<Rightarrow> int \<Rightarrow> intset option" where
  "intsetSet_raw s pos value =
     (let upd = (\<lambda>bs. s\<lparr>contents := bs\<rparr>) in
      if encoding s = INTSET_ENC_INT64 then map_option upd (write_elem (contents s) pos 8 value)
      else if encoding s = INTSET_ENC_INT32 then map_option upd (write_elem (contents s) pos 4 value)
      else map_option upd (write_elem (contents s) pos 2 value))"

definition intsetNew :: intset where
  "intsetNew = \<lparr>encoding = INTSET_ENC_INT16, intset_length = 0, contents = []\<rparr>"

definition intsetResize :: "fill \<Rightarrow> intset \<Rightarrow> nat \<Rightarrow> intset" where
  "intsetResize fill s len =
     (let size = cast_u 32 (int len * int (encoding s)) in
      s\<lparr>contents := drealloc fill (contents s) size\<rparr>)"

partial_function (option) intsetSearch_loop ::
  "intset \<Rightarrow> int \<Rightarrow> int \<Rightarrow> int \<Rightarrow> int \<Rightarrow> int \<Rightarrow> (int \<times> int \<times> int) option" where
  "intsetSearch_loop s value mn mx mid cur =
     (if mx \<ge> mn then
        do {
          let mid' = cast_s 32 (int (cast_u 32 (int (cast_u 32 mn) + int (cast_u 32 mx))) div 2);
          cur' \<leftarrow> intsetGet_raw s mid';
          if value > cur' then intsetSearch_loop s value (mid' + 1) mx mid' cur'
          else if value < cur' then intsetSearch_loop s value mn (mid' - 1) mid' cur'
          else Some (mn, mid', cur')
        }
      else Some (mn, mid, cur))"

text \<open>Returns the found flag and the value stored through \<open>pos\<close>.\<close>

definition intsetSearch :: "intset \<Rightarrow> int \<Rightarrow> (bool \<times> nat) option" where
  "intsetSearch s value =
     (if intset_length s = 0 then Some (False, 0)
      else do {
        lst \<leftarrow> intsetGet_raw s (cast_s 32 (int (intset_length s) - 1));
        if value > lst then Some (False, intset_length s)
        else do {
          fst \<leftarrow> intsetGet_raw s 0;
          if value < fst then Some (False, 0)
          else do {
            (mn, mid, cur) \<leftarrow>
              intsetSearch_loop s value 0 (cast_s 32 (int (intset_length s) - 1)) (-1) (-1);
            if value = cur then Some (True, cast_u 32 mid) else Some (False, cast_u 32 mn)
          }
        }
      })"

text \<open>The back-to-front loop of the upgrade; \<open>n\<close> is the C variable \<open>length\<close>.\<close>

fun intsetUpgrade_loop :: "intset \<Rightarrow> nat \<Rightarrow> int \<Rightarrow> nat \<Rightarrow> intset option" where
  "intsetUpgrade_loop s curenc prepend 0 = Some s"
| "intsetUpgrade_loop s curenc prepend (Suc n) =
     do {
       v \<leftarrow> intsetGetEncoded s (int n) curenc;
       s' \<leftarrow> intsetSet_raw s (int n + prepend) v;
       intsetUpgrade_loop s' curenc prepend n
     }"

definition intsetUpgradeAndAdd :: "fill \<Rightarrow> intset \<Rightarrow> int \<Rightarrow> intset option" where
  "intsetUpgradeAndAdd fill s value =
     (let curenc = cast_u 8 (int (encoding s));
          newenc = intsetValueEncoding value;
          prepend = (if value < 0 then 1 else 0);
          s1 = intsetResize fill (s\<lparr>encoding := newenc\<rparr>) (cast_u 32 (int (intset_length s) + 1))
      in do {
        s2 \<leftarrow> intsetUpgrade_loop s1 curenc prepend (intset_length s);
        s3 \<leftarrow> (if prepend \<noteq> 0 then intsetSet_raw s2 0 value
               else intsetSet_raw s2 (cast_s 32 (int (intset_length s2))) value);
        Some (s3\<lparr>intset_length := cast_u 32 (int (intset_length s3) + 1)\<rparr>)
      })"

definition intsetMoveTail :: "intset \<Rightarrow> nat \<Rightarrow> nat \<Rightarrow> intset option" where
  "intsetMoveTail s from to =
     (let n = cast_u 32 (int (intset_length s) - int from);
          w = (if encoding s = INTSET_ENC_INT64 then 8
               else if encoding s = INTSET_ENC_INT32 then 4 else 2);
          bytes = cast_u 32 (int n * int w)
      in map_option (\<lambda>bs. s\<lparr>contents := bs\<rparr>) (memmove (contents s) (to * w) (from * w) bytes))"

text \<open>The result carries \<open>*success\<close>.\<close>

definition intsetAdd :: "fill \<Rightarrow> intset \<Rightarrow> int \<Rightarrow> (intset \<times> bool) option" where
  "intsetAdd fill s value =
     (let valenc = intsetValueEncoding value in
      if valenc > encoding s then map_option (\<lambda>s'. (s', True)) (intsetUpgradeAndAdd fill s value)
      else do {
        (found, pos) \<leftarrow> intsetSearch s value;
        if found then Some (s, False)
        else do {
          let s1 = intsetResize fill s (cast_u 32 (int (intset_length s) + 1));
          s2 \<leftarrow> (if pos < intset_length s1 then intsetMoveTail s1 pos (cast_u 32 (int pos + 1))
                 else Some s1);
          s3 \<leftarrow> intsetSet_raw s2 (cast_s 32 (int pos)) value;
          Some (s3\<lparr>intset_length := cast_u 32 (int (intset_length s3) + 1)\<rparr>, True)
        }
      })"

definition intsetRemove :: "fill \<Rightarrow> intset \<Rightarrow> int \<Rightarrow> (intset \<times> bool) option" where
  "intsetRemove fill s value =
     (let valenc = intsetValueEncoding value in
      if valenc \<le> encoding s then
        do {
          (found, pos) \<leftarrow> intsetSearch s value;
          if found then do {
            let len = intset_length s;
            s1 \<leftarrow> (if pos < cast_u 32 (int len - 1)
                   then intsetMoveTail s (cast_u 32 (int pos + 1)) pos else Some s);
            let s2 = intsetResize fill s1 (cast_u 32 (int len - 1));
            Some (s2\<lparr>intset_length := cast_u 32 (int len - 1)\<rparr>, True)
          } else Some (s, False)
        }
      else Some (s, False))"

definition intsetFind :: "intset \<Rightarrow> int \<Rightarrow> bool option" where
  "intsetFind s value =
     (let valenc = intsetValueEncoding value in
      if valenc \<le> encoding s then map_option fst (intsetSearch s value) else Some False)"

text \<open>\<open>rand()\<close> is the parameter \<open>r\<close>; \<open>rand() % 0\<close> is undefined. The remainder is of type
  \<open>unsigned int\<close> and is passed as an \<open>int\<close>.\<close>

definition intsetRandom :: "nat \<Rightarrow> intset \<Rightarrow> int option" where
  "intsetRandom r s =
     (if intset_length s = 0 then None
      else intsetGet_raw s (cast_s 32 (int (r mod intset_length s))))"

text \<open>The outer option is a memory error, the inner one is the return value (0 or 1) with
  \<open>*value\<close>.\<close>

definition intsetGet :: "intset \<Rightarrow> nat \<Rightarrow> int option option" where
  "intsetGet s pos =
     (if pos < intset_length s then map_option Some (intsetGet_raw s (cast_s 32 (int pos)))
      else Some None)"

definition intsetLen :: "intset \<Rightarrow> nat" where
  "intsetLen s = intset_length s"

definition intsetBlobLen :: "intset \<Rightarrow> nat" where
  "intsetBlobLen s = 8 + cast_u 32 (int (intset_length s) * int (encoding s))"


section \<open>Encoded element arrays\<close>

abbreviation enc_list :: "nat \<Rightarrow> int list \<Rightarrow> byte list" where
  "enc_list w vs \<equiv> concat (map (enc_int w) vs)"

lemma length_enc_list [simp]: "length (enc_list w vs) = length vs * w"
  by (induction vs) auto

lemma enc_list_split:
  "i < length vs \<Longrightarrow>
   enc_list w vs = enc_list w (take i vs) @ enc_int w (vs ! i) @ enc_list w (drop (Suc i) vs)"
  by (metis concat.simps(2) concat_append id_take_nth_drop list.simps(9) map_append)

lemma read_elem_enc_list:
  assumes "i < length vs" "0 < w" "fits_int w (vs ! i)"
  shows "read_elem (enc_list w vs @ zs) (int i) w = Some (vs ! i)"
proof -
  have "mem_read (enc_list w vs @ zs) (i * w) w = Some (enc_int w (vs ! i))"
    using assms(1) by (subst enc_list_split [OF assms(1)]) (simp add: mem_simps)
  then show ?thesis using assms(2,3) by (simp add: read_elem_def dec_enc_int)
qed

lemma write_elem_gap:
  assumes "length xs = i * w" "length ys = w"
  shows "write_elem (xs @ ys @ zs) (int i) w v = Some (xs @ enc_int w v @ zs)"
  using assms by (simp add: write_elem_def mem_write_mid)

section \<open>The representation relation\<close>

definition intset_enc_ok :: "nat \<Rightarrow> bool" where
  "intset_enc_ok w \<longleftrightarrow> w = 2 \<or> w = 4 \<or> w = 8"

text \<open>The longest set whose byte size still fits the 32-bit size computations.\<close>

definition INTSET_MAX_LEN :: nat where "INTSET_MAX_LEN = 536870911"

definition intset_rel :: "intset \<Rightarrow> int list \<Rightarrow> bool" where
  "intset_rel s vs \<longleftrightarrow>
     intset_enc_ok (encoding s) \<and> intset_length s = length vs \<and>
     contents s = enc_list (encoding s) vs \<and>
     (\<forall>v \<in> set vs. fits_int (encoding s) v) \<and> sorted_wrt (<) vs \<and> length vs \<le> INTSET_MAX_LEN"

text \<open>\<open>intset_repr s A\<close>: the bytes of \<open>s\<close> represent the set \<open>A\<close>.\<close>

definition intset_repr :: "intset \<Rightarrow> int set \<Rightarrow> bool" where
  "intset_repr s A \<longleftrightarrow> finite A \<and> intset_rel s (sorted_list_of_set A)"

lemma intset_enc_okE:
  assumes "intset_enc_ok w"
  obtains "w = 2" | "w = 4" | "w = 8"
  using assms by (auto simp: intset_enc_ok_def)

lemma intset_enc_ok_facts:
  "intset_enc_ok w \<Longrightarrow> 0 < w \<and> w \<le> 8 \<and> cast_u 8 (int w) = w"
  by (erule intset_enc_okE) (simp_all add: cast_u_def)

lemma intsetGetEncoded_eq:
  "intset_enc_ok w \<Longrightarrow> intsetGetEncoded s pos w = read_elem (contents s) pos w"
  by (erule intset_enc_okE) (simp_all add: intsetGetEncoded_def intset_enc_defs)

lemma intsetGet_raw_eq:
  "intset_enc_ok (encoding s) \<Longrightarrow> intsetGet_raw s pos = read_elem (contents s) pos (encoding s)"
  using intset_enc_ok_facts [of "encoding s"] by (simp add: intsetGet_raw_def intsetGetEncoded_eq)

lemma intsetSet_raw_eq:
  "intset_enc_ok (encoding s) \<Longrightarrow>
   intsetSet_raw s pos v = map_option (\<lambda>bs. s\<lparr>contents := bs\<rparr>) (write_elem (contents s) pos (encoding s) v)"
  by (erule intset_enc_okE) (simp_all add: intsetSet_raw_def intset_enc_defs)

lemma intsetMoveTail_eq:
  "intset_enc_ok (encoding s) \<Longrightarrow> from \<le> intset_length s \<Longrightarrow> intset_length s \<le> INTSET_MAX_LEN \<Longrightarrow>
   intsetMoveTail s from to =
     map_option (\<lambda>bs. s\<lparr>contents := bs\<rparr>)
       (memmove (contents s) (to * encoding s) (from * encoding s)
          ((intset_length s - from) * encoding s))"
  by (erule intset_enc_okE)
     (simp_all add: intsetMoveTail_def intset_enc_defs cast_u_def INTSET_MAX_LEN_def
        nat_diff_distrib nat_mult_distrib flip: of_nat_diff)

lemma intsetResize_eq:
  "intset_enc_ok (encoding s) \<Longrightarrow> len \<le> INTSET_MAX_LEN \<Longrightarrow>
   intsetResize fill s len = s\<lparr>contents := drealloc fill (contents s) (len * encoding s)\<rparr>"
  by (erule intset_enc_okE)
     (simp_all add: intsetResize_def cast_u_def INTSET_MAX_LEN_def nat_mult_distrib)

lemma intset_rel_get:
  assumes "intset_rel s vs" "i < length vs"
  shows "intsetGet_raw s (int i) = Some (vs ! i)"
  using assms read_elem_enc_list [of i vs "encoding s" "[]"] intset_enc_ok_facts [of "encoding s"]
  by (simp add: intset_rel_def intsetGet_raw_eq)

lemma intset_rel_length: "intset_rel s vs \<Longrightarrow> intset_length s = length vs"
  by (simp add: intset_rel_def)

lemma intset_rel_bound: "intset_rel s vs \<Longrightarrow> length vs \<le> 536870911"
  by (simp add: intset_rel_def INTSET_MAX_LEN_def)

lemma intset_rel_mono:
  "intset_rel s vs \<Longrightarrow> i < j \<Longrightarrow> j < length vs \<Longrightarrow> vs ! i < vs ! j"
  by (auto simp: intset_rel_def intro: sorted_wrt_nth_less)

lemma fits_int_mono: "v \<le> w \<Longrightarrow> fits_int v x \<Longrightarrow> fits_int w x"
proof -
  assume "v \<le> w" "fits_int v x"
  then have "(2::int) ^ (8 * v - 1) \<le> 2 ^ (8 * w - 1)" by (intro power_increasing) auto
  with \<open>fits_int v x\<close> show ?thesis unfolding fits_int_def by linarith
qed

lemma intsetValueEncoding_ok: "intset_enc_ok (intsetValueEncoding v)"
  by (simp add: intsetValueEncoding_def intset_enc_ok_def intset_enc_defs)

lemma intsetValueEncoding_fits:
  "LLONG_MIN \<le> v \<Longrightarrow> v \<le> LLONG_MAX \<Longrightarrow> fits_int (intsetValueEncoding v) v"
  by (auto simp: intsetValueEncoding_def fits_int_def intset_enc_defs vire_limits)

lemma intsetValueEncoding_least:
  "intset_enc_ok w \<Longrightarrow> fits_int w v \<Longrightarrow> intsetValueEncoding v \<le> w"
  by (erule intset_enc_okE)
     (auto simp: intsetValueEncoding_def fits_int_def intset_enc_defs vire_limits)


section \<open>Search\<close>

text \<open>Where a value stands in, or would be inserted into, a sorted list.\<close>

definition search_pos :: "int list \<Rightarrow> int \<Rightarrow> bool \<times> nat \<Rightarrow> bool" where
  "search_pos vs v r \<longleftrightarrow>
     (case r of (True, p) \<Rightarrow> p < length vs \<and> vs ! p = v
      | (False, p) \<Rightarrow> p \<le> length vs \<and> (\<forall>i < p. vs ! i < v) \<and> (\<forall>i. p \<le> i \<and> i < length vs \<longrightarrow> v < vs ! i))"

lemma search_mid:
  assumes "0 \<le> mn" "mn \<le> mx" "mx < 536870911"
  shows "cast_s 32 (int (cast_u 32 (int (cast_u 32 mn) + int (cast_u 32 mx))) div 2) = (mn + mx) div 2"
  using assms by (simp add: cast_u_id cast_s_32_id)

lemma intsetSearch_loop_correct:
  assumes rel: "intset_rel s vs"
    and "0 \<le> mn" "mx < int (length vs)" "mn \<le> mx + 1" "mn \<le> mx \<or> cur \<noteq> v"
    and "\<And>i. int i < mn \<Longrightarrow> vs ! i < v" "\<And>i. mx < int i \<Longrightarrow> i < length vs \<Longrightarrow> v < vs ! i"
  shows "\<exists>mn' mid' cur'. intsetSearch_loop s v mn mx mid cur = Some (mn', mid', cur') \<and>
           (if v = cur' then 0 \<le> mid' \<and> mid' < int (length vs) \<and> search_pos vs v (True, nat mid')
            else 0 \<le> mn' \<and> mn' \<le> int (length vs) \<and> search_pos vs v (False, nat mn'))"
  using assms(2-)
proof (induction "nat (mx - mn + 1)" arbitrary: mn mx mid cur rule: less_induct)
  case less
  note bound = intset_rel_bound [OF rel]
  show ?case
  proof (cases "mn \<le> mx")
    case False
    with less.prems have "mn = mx + 1" "cur \<noteq> v" by auto
    then have "search_pos vs v (False, nat mn)"
      using less.prems by (auto simp: search_pos_def nat_less_iff nat_le_iff)
    with False \<open>cur \<noteq> v\<close> less.prems show ?thesis
      by (subst intsetSearch_loop.simps) auto
  next
    case True
    define m where "m = (mn + mx) div 2"
    define k where "k = nat m"
    have m: "mn \<le> m" "m \<le> mx" using True by (auto simp: m_def)
    then have k: "m = int k" "k < length vs" using less.prems by (auto simp: k_def)
    have get: "intsetGet_raw s m = Some (vs ! k)"
      using intset_rel_get [OF rel k(2)] k by simp
    have unfold: "intsetSearch_loop s v mn mx mid cur =
        (if v > vs ! k then intsetSearch_loop s v (m + 1) mx m (vs ! k)
         else if v < vs ! k then intsetSearch_loop s v mn (m - 1) m (vs ! k)
         else Some (mn, m, vs ! k))"
      using True less.prems bound get
      by (subst intsetSearch_loop.simps) (simp add: search_mid flip: m_def)
    consider "v > vs ! k" | "v < vs ! k" | "v = vs ! k" by linarith
    then show ?thesis
    proof cases
      case 1
      have below: "vs ! i < v" if "int i < m + 1" for i
      proof (cases "i = k")
        case False
        with that k have "i < k" by simp
        then have "vs ! i < vs ! k" using k(2) by (rule intset_rel_mono [OF rel])
        with 1 show ?thesis by simp
      qed (use 1 in simp)
      have "nat (mx - (m + 1) + 1) < nat (mx - mn + 1)" using m by simp
      from less.hyps [OF this, of "vs ! k" m] below 1 m less.prems
      show ?thesis by (subst unfold) simp
    next
      case 2
      have above: "v < vs ! i" if "m - 1 < int i" "i < length vs" for i
      proof (cases "i = k")
        case False
        with that k have "k < i" by simp
        then have "vs ! k < vs ! i" using that(2) by (rule intset_rel_mono [OF rel])
        with 2 show ?thesis by simp
      qed (use 2 in simp)
      have "nat (m - 1 - mn + 1) < nat (mx - mn + 1)" using m by simp
      from less.hyps [OF this, of "vs ! k" m] above 2 m less.prems
      show ?thesis by (subst unfold) simp
    next
      case 3
      with k show ?thesis by (subst unfold) (simp add: search_pos_def)
    qed
  qed
qed

lemma intsetSearch_correct:
  assumes rel: "intset_rel s vs"
  shows "\<exists>r. intsetSearch s v = Some r \<and> search_pos vs v r"
proof (cases "vs = []")
  case True
  with rel show ?thesis by (simp add: intsetSearch_def intset_rel_length search_pos_def)
next
  case False
  define n where "n = length vs - 1"
  have n: "length vs = Suc n" "intset_length s = Suc n"
    using False rel by (auto simp: n_def intset_rel_length)
  have nb: "n < 536870911" using intset_rel_bound [OF rel] n by simp
  have last: "intsetGet_raw s (cast_s 32 (int (intset_length s) - 1)) = Some (vs ! n)"
    using intset_rel_get [OF rel, of n] n nb by (simp add: cast_s_32_id)
  have first: "intsetGet_raw s 0 = Some (vs ! 0)"
    using intset_rel_get [OF rel, of 0] n by simp
  have le_last: "vs ! i \<le> vs ! n" if "i \<le> n" for i
    using intset_rel_mono [OF rel, of i n] that n by (cases "i = n") auto
  have ge_first: "vs ! 0 \<le> vs ! i" if "i \<le> n" for i
    using intset_rel_mono [OF rel, of 0 i] that n by (cases "i = 0") auto
  consider "v > vs ! n" | "v \<le> vs ! n" "v < vs ! 0" | "v \<le> vs ! n" "vs ! 0 \<le> v" by linarith
  then show ?thesis
  proof cases
    case 1
    with last n have "intsetSearch s v = Some (False, length vs)" by (simp add: intsetSearch_def)
    moreover have "vs ! i < v" if "i < length vs" for i
      using that n 1 le_last [of i] by linarith
    ultimately show ?thesis by (simp add: search_pos_def)
  next
    case 2
    with last first n have "intsetSearch s v = Some (False, 0)" by (simp add: intsetSearch_def)
    moreover have "v < vs ! i" if "i < length vs" for i
      using that n 2 ge_first [of i] by linarith
    ultimately show ?thesis by (simp add: search_pos_def)
  next
    case 3
    have loop: "\<exists>mn' mid' cur'.
        intsetSearch_loop s v 0 (cast_s 32 (int (intset_length s) - 1)) (-1) (-1) = Some (mn', mid', cur') \<and>
        (if v = cur' then 0 \<le> mid' \<and> mid' < int (length vs) \<and> search_pos vs v (True, nat mid')
         else 0 \<le> mn' \<and> mn' \<le> int (length vs) \<and> search_pos vs v (False, nat mn'))"
      using n nb by (intro intsetSearch_loop_correct [OF rel]) (simp_all add: cast_s_32_id)
    have "cast_u 32 x = nat x" if "0 \<le> x" "x \<le> int (length vs)" for x
      using that n nb by (simp add: cast_u_id)
    with loop 3 last first n show ?thesis
      by (auto simp: intsetSearch_def split: if_splits)
  qed
qed

lemma search_pos_found: "sorted_wrt (<) vs \<Longrightarrow> search_pos vs v (b, p) \<Longrightarrow> b \<longleftrightarrow> v \<in> set vs"
proof (cases b)
  case False
  moreover assume "search_pos vs v (b, p)"
  ultimately have "\<forall>i < p. vs ! i < v" "\<forall>i. p \<le> i \<and> i < length vs \<longrightarrow> v < vs ! i"
    by (auto simp: search_pos_def)
  then have "v \<noteq> vs ! i" if "i < length vs" for i
    using that by (metis less_irrefl not_le)
  with False show ?thesis by (auto simp: in_set_conv_nth)
qed (auto simp: search_pos_def)


section \<open>Insertion and removal\<close>

lemma insert_pos_sorted:
  assumes "sorted_wrt (<) vs" "search_pos vs v (False, p)"
  shows "sorted_wrt (<) (take p vs @ v # drop p vs)"
proof -
  have "\<forall>x \<in> set (take p vs). x < v"
    using assms(2) by (auto simp: search_pos_def in_set_conv_nth)
  moreover have "\<forall>x \<in> set (drop p vs). v < x"
    using assms(2) by (auto simp: search_pos_def in_set_conv_nth)
  moreover have "sorted_wrt (<) (take p vs @ drop p vs)" using assms(1) by simp
  ultimately show ?thesis
    unfolding sorted_wrt_append by (auto intro: order.strict_trans)
qed

lemma set_insert_pos: "set (take p vs @ v # drop p vs) = insert v (set vs)"
  by (metis Un_insert_right append_take_drop_id list.simps(15) set_append)

lemma intset_insert_at:
  assumes rel: "intset_rel s vs" and pos: "search_pos vs v (False, p)"
    and fit: "fits_int (encoding s) v" and room: "length vs < INTSET_MAX_LEN"
    and s1: "s1 = intsetResize fill s (length vs + 1)"
  shows "\<exists>s2 s3. (if p < length vs then intsetMoveTail s1 p (p + 1) else Some s1) = Some s2 \<and>
      intsetSet_raw s2 (int p) v = Some s3 \<and> intset_length s3 = length vs \<and>
      intset_rel (s3\<lparr>intset_length := length vs + 1\<rparr>) (take p vs @ v # drop p vs)"
proof -
  let ?w = "encoding s" and ?pre = "enc_list (encoding s) (take p vs)"
    and ?post = "enc_list (encoding s) (drop p vs)"
  have ok: "intset_enc_ok ?w" and len: "intset_length s = length vs"
    and cont: "contents s = enc_list ?w vs"
    using rel by (auto simp: intset_rel_def)
  have p: "p \<le> length vs" using pos by (simp add: search_pos_def)
  have split: "enc_list ?w vs = ?pre @ ?post"
    by (metis append_take_drop_id concat_append map_append)
  define junk where "junk = map fill [length vs * ?w..<(length vs + 1) * ?w]"
  have "drealloc fill (enc_list ?w vs) ((length vs + 1) * ?w) = enc_list ?w vs @ junk"
    by (simp add: drealloc_grow junk_def)
  then have s1': "s1 = s\<lparr>contents := ?pre @ ?post @ junk\<rparr>"
    using ok room len cont split by (simp add: s1 intsetResize_eq)
  have lj: "length junk = ?w" by (simp add: junk_def)
  obtain gap where gap: "length gap = ?w"
    and s2: "(if p < length vs then intsetMoveTail s1 p (p + 1) else Some s1)
       = Some (s\<lparr>contents := ?pre @ gap @ ?post\<rparr>)"
  proof (cases "p < length vs")
    case True
    have "\<exists>gap. length gap = length junk \<and>
       memmove (?pre @ ?post @ junk) ((p + 1) * ?w) (p * ?w) ((length vs - p) * ?w) = Some (?pre @ gap @ ?post)"
      using p lj by (intro memmove_right) auto
    with True that ok room len lj s1' show ?thesis
      by (auto simp: intsetMoveTail_eq)
  qed (use that [of junk] p s1' lj in auto)
  have "intsetSet_raw (s\<lparr>contents := ?pre @ gap @ ?post\<rparr>) (int p) v
      = Some (s\<lparr>contents := ?pre @ enc_int ?w v @ ?post\<rparr>)"
    using ok gap p by (simp add: intsetSet_raw_eq write_elem_gap)
  moreover have "intset_rel (s\<lparr>contents := ?pre @ enc_int ?w v @ ?post, intset_length := length vs + 1\<rparr>)
      (take p vs @ v # drop p vs)"
    using rel fit room p insert_pos_sorted [OF _ pos] set_insert_pos [of p vs v]
    unfolding intset_rel_def by (auto simp del: set_append)
  ultimately show ?thesis using s2 len by auto
qed

lemma intsetUpgrade_loop_correct:
  assumes "intset_enc_ok c" "intset_enc_ok (encoding s)" "c \<le> encoding s"
    and "n \<le> length vs" "\<forall>v \<in> set vs. fits_int c v"
    and "length mid + n * c = (n + p) * encoding s"
    and "contents s = enc_list c (take n vs) @ mid @ enc_list (encoding s) (drop n vs) @ tail"
  shows "\<exists>mid'. length mid' = p * encoding s \<and>
           intsetUpgrade_loop s c (int p) n = Some (s\<lparr>contents := mid' @ enc_list (encoding s) vs @ tail\<rparr>)"
  using assms
proof (induction n arbitrary: s mid)
  case 0
  then show ?case by (intro exI [of _ mid]) simp
next
  case (Suc n)
  let ?w = "encoding s"
  have n: "n < length vs" using Suc.prems by simp
  have v: "fits_int c (vs ! n)" using Suc.prems n by simp
  have take: "enc_list c (take (Suc n) vs) = enc_list c (take n vs) @ enc_int c (vs ! n)"
    using n by (simp add: take_Suc_conv_app_nth)
  have get: "intsetGetEncoded s (int n) c = Some (vs ! n)"
    using Suc.prems n v intset_enc_ok_facts [of c] read_elem_enc_list [of n "take (Suc n) vs" c]
    by (simp add: intsetGetEncoded_eq)
  define M where "M = enc_int c (vs ! n) @ mid"
  have lM: "length M + n * c = (Suc n + p) * ?w" using Suc.prems(6) by (simp add: M_def)
  have le: "n * c \<le> (n + p) * ?w" using Suc.prems(3) by (intro mult_le_mono) auto
  obtain M1 M2 where M: "M = M1 @ M2" "length M2 = ?w" "length M1 + n * c = (n + p) * ?w"
  proof
    let ?k = "length M - ?w"
    show "M = take ?k M @ drop ?k M" by simp
    show "length (drop ?k M) = ?w" "length (take ?k M) + n * c = (n + p) * ?w" using lM le by auto
  qed
  let ?new = "M1 @ enc_int ?w (vs ! n) @ enc_list ?w (drop (Suc n) vs) @ tail"
  have "contents s = (enc_list c (take n vs) @ M1) @ M2 @ enc_list ?w (drop (Suc n) vs) @ tail"
    using Suc.prems(7) take M(1) by (simp add: M_def)
  moreover have "write_elem \<dots> (int (n + p)) ?w (vs ! n)
       = Some ((enc_list c (take n vs) @ M1) @ enc_int ?w (vs ! n) @ enc_list ?w (drop (Suc n) vs) @ tail)"
    using M n by (intro write_elem_gap) auto
  ultimately have set: "intsetSet_raw s (int n + int p) (vs ! n)
       = Some (s\<lparr>contents := enc_list c (take n vs) @ ?new\<rparr>)"
    using Suc.prems(2) by (simp add: intsetSet_raw_eq)
  have "drop n vs = vs ! n # drop (Suc n) vs" using n by (simp add: Cons_nth_drop_Suc)
  then have "\<exists>mid'. length mid' = p * ?w \<and>
      intsetUpgrade_loop (s\<lparr>contents := enc_list c (take n vs) @ ?new\<rparr>) c (int p) n
        = Some (s\<lparr>contents := mid' @ enc_list ?w vs @ tail\<rparr>)"
    using Suc.prems M Suc.IH [of "s\<lparr>contents := enc_list c (take n vs) @ ?new\<rparr>" M1] by simp
  then show ?case using get set by simp
qed

lemma intset_outside_range:
  assumes "intset_enc_ok c" "fits_int c x" "c < intsetValueEncoding v"
  shows "if v < 0 then v < x else x < v"
proof -
  have "\<not> fits_int c v" using assms intsetValueEncoding_least [of c v] by auto
  then show ?thesis using assms(2) by (auto simp: fits_int_def)
qed

lemma intsetUpgradeAndAdd_correct:
  assumes rel: "intset_rel s vs" and up: "encoding s < intsetValueEncoding v"
    and range: "LLONG_MIN \<le> v" "v \<le> LLONG_MAX" and room: "length vs < INTSET_MAX_LEN"
  shows "\<exists>s'. intsetUpgradeAndAdd fill s v = Some s' \<and>
           intset_rel s' (if v < 0 then v # vs else vs @ [v])"
proof -
  let ?c = "encoding s" and ?w = "intsetValueEncoding v"
  let ?n = "length vs"
  define p :: nat where "p = (if v < 0 then 1 else 0)"
  define s1 where "s1 = intsetResize fill (s\<lparr>encoding := ?w\<rparr>) (Suc ?n)"
  have ok: "intset_enc_ok ?c" "intset_enc_ok ?w" and len: "intset_length s = ?n"
    and cont: "contents s = enc_list ?c vs" and fit: "\<forall>x \<in> set vs. fits_int ?c x"
    using rel intsetValueEncoding_ok by (auto simp: intset_rel_def)
  have le: "?n * ?c \<le> ?n * ?w" using up by (intro mult_le_mono) auto
  have "length (enc_list ?c vs) \<le> (?n + 1) * ?w" 
    using le unfolding length_enc_list add_mult_distrib by linarith
  then have s1': "contents s1 = enc_list ?c vs @ map fill [?n * ?c..<(?n + 1) * ?w]"
    "encoding s1 = ?w" "intset_length s1 = ?n"
    using ok room len cont drealloc_grow [of "enc_list ?c vs" "(?n + 1) * ?w" fill]
    by (simp_all add: s1_def intsetResize_eq)
  define junk where "junk = map fill [?n * ?c..<(?n + 1) * ?w]"
  obtain mid tail where mt: "junk = mid @ tail" "length mid + ?n * ?c = (?n + p) * ?w"
    "length tail = (1 - p) * ?w"
  proof
    let ?k = "(?n + p) * ?w - ?n * ?c"
    show "junk = take ?k junk @ drop ?k junk" by simp
    have "?n * ?c \<le> (?n + p) * ?w" using le by (simp only: add_mult_distrib)
    then show "length (take ?k junk) + ?n * ?c = (?n + p) * ?w" "length (drop ?k junk) = (1 - p) * ?w"
      by (auto simp: junk_def p_def)
  qed
  obtain mid' where mid': "length mid' = p * ?w"
    "intsetUpgrade_loop s1 ?c (int p) ?n = Some (s1\<lparr>contents := mid' @ enc_list ?w vs @ tail\<rparr>)"
    using intsetUpgrade_loop_correct [of ?c s1 ?n vs mid p tail] ok up fit mt s1'
    by (auto simp: junk_def)
  have enc8: "cast_u 8 (int ?c) = ?c" using intset_enc_ok_facts [OF ok(1)] by simp
  have n32: "cast_u 32 (int ?n + 1) = ?n + 1" "cast_s 32 (int ?n) = int ?n"
    using room by (simp_all add: cast_u_id cast_s_32_id INTSET_MAX_LEN_def nat_add_distrib)
  have fit': "fits_int ?w v" "\<forall>x \<in> set vs. fits_int ?w x"
    using range up fit intsetValueEncoding_fits fits_int_mono [of ?c ?w] by auto
  have outside: "\<forall>x \<in> set vs. if v < 0 then v < x else x < v"
    using fit up ok(1) intset_outside_range by blast
  show ?thesis
  proof (cases "v < 0")
    case True
    then have "p = 1" "tail = []" using mt by (simp_all add: p_def)
    then have set: "intsetSet_raw (s1\<lparr>contents := mid' @ enc_list ?w vs @ tail\<rparr>) 0 v
        = Some (s1\<lparr>contents := enc_list ?w (v # vs)\<rparr>)"
      using ok s1' mid' write_elem_gap [of "[]" 0 ?w mid' "enc_list ?w vs" v]
      by (simp add: intsetSet_raw_eq)
    have "intset_rel (s1\<lparr>contents := enc_list ?w (v # vs), intset_length := ?n + 1\<rparr>) (v # vs)"
      using rel room s1' ok fit' outside True by (simp add: intset_rel_def)
    with True set mid' \<open>p = 1\<close> enc8 n32 len s1' show ?thesis
      by (simp add: intsetUpgradeAndAdd_def Let_def flip: s1_def)
  next
    case False
    then have "p = 0" "mid' = []" using mid' by (simp_all add: p_def)
    then have set: "intsetSet_raw (s1\<lparr>contents := mid' @ enc_list ?w vs @ tail\<rparr>) (int ?n) v
        = Some (s1\<lparr>contents := enc_list ?w (vs @ [v])\<rparr>)"
      using ok s1' mt write_elem_gap [of "enc_list ?w vs" ?n ?w tail "[]" v]
      by (simp add: intsetSet_raw_eq)
    have "intset_rel (s1\<lparr>contents := enc_list ?w (vs @ [v]), intset_length := ?n + 1\<rparr>) (vs @ [v])"
      using rel room s1' ok fit' outside False by (simp add: intset_rel_def sorted_wrt_append)
    with False set mid' \<open>p = 0\<close> enc8 n32 len s1' show ?thesis
      by (simp add: intsetUpgradeAndAdd_def Let_def flip: s1_def)
  qed
qed

lemma intsetAdd_rel:
  assumes rel: "intset_rel s vs" and range: "LLONG_MIN \<le> v" "v \<le> LLONG_MAX"
    and room: "length vs < INTSET_MAX_LEN"
  shows "\<exists>s' vs'. intsetAdd fill s v = Some (s', v \<notin> set vs) \<and>
           intset_rel s' vs' \<and> set vs' = insert v (set vs)"
proof (cases "encoding s < intsetValueEncoding v")
  case True
  have "v \<notin> set vs"
    using True rel intsetValueEncoding_least [of "encoding s" v] by (auto simp: intset_rel_def)
  moreover have "set (if v < 0 then v # vs else vs @ [v]) = insert v (set vs)" by simp
  ultimately show ?thesis
    using True intsetUpgradeAndAdd_correct [OF rel True range room, of fill]
    by (fastforce simp: intsetAdd_def)
next
  case False
  obtain b p where search: "intsetSearch s v = Some (b, p)" and pos: "search_pos vs v (b, p)"
    using intsetSearch_correct [OF rel] by force
  have b: "b \<longleftrightarrow> v \<in> set vs"
    using search_pos_found [OF _ pos] rel by (simp add: intset_rel_def)
  show ?thesis
  proof (cases b)
    case True
    with False search b rel show ?thesis by (auto simp: intsetAdd_def insert_absorb)
  next
    case not: False
    let ?n = "length vs"
    have fit: "fits_int (encoding s) v"
      using False intsetValueEncoding_fits [OF range] fits_int_mono [of _ "encoding s"]
      by (meson not_le)
    have pos': "search_pos vs v (False, p)" using pos not by simp
    then have p: "p \<le> ?n" by (simp add: search_pos_def)
    obtain s2 s3 where ins:
      "(if p < ?n then intsetMoveTail (intsetResize fill s (?n + 1)) p (p + 1)
        else Some (intsetResize fill s (?n + 1))) = Some s2"
      "intsetSet_raw s2 (int p) v = Some s3" "intset_length s3 = ?n"
      "intset_rel (s3\<lparr>intset_length := ?n + 1\<rparr>) (take p vs @ v # drop p vs)"
      using intset_insert_at [OF rel pos' fit room refl] by blast
    have n32: "cast_u 32 (int ?n + 1) = ?n + 1" "cast_s 32 (int p) = int p" "cast_u 32 (int p + 1) = p + 1"
      using room p by (simp_all add: cast_u_id cast_s_32_id INTSET_MAX_LEN_def nat_add_distrib)
    have len: "intset_length s = ?n" "intset_length (intsetResize fill s m) = ?n" for m
      using rel by (simp_all add: intset_rel_def intsetResize_def)
    have "intsetAdd fill s v = Some (s3\<lparr>intset_length := ?n + 1\<rparr>, True)"
      using False search not ins n32 len by (simp add: intsetAdd_def split: if_splits)
    with ins(4) b not set_insert_pos [of p vs v] show ?thesis
      by (intro exI [of _ "s3\<lparr>intset_length := ?n + 1\<rparr>"] exI [of _ "take p vs @ v # drop p vs"])
         (simp del: set_append)
  qed
qed

lemma intset_remove_at:
  assumes rel: "intset_rel s vs" and p: "p < length vs"
  shows "\<exists>s1. (if p < length vs - 1 then intsetMoveTail s (p + 1) p else Some s) = Some s1 \<and>
      intset_rel ((intsetResize fill s1 (length vs - 1))\<lparr>intset_length := length vs - 1\<rparr>)
        (take p vs @ drop (p + 1) vs)"
proof -
  let ?w = "encoding s" and ?pre = "enc_list (encoding s) (take p vs)"
    and ?post = "enc_list (encoding s) (drop (p + 1) vs)"
  have ok: "intset_enc_ok ?w" and len: "intset_length s = length vs"
    and room: "length vs \<le> INTSET_MAX_LEN"
    using rel by (auto simp: intset_rel_def)
  have cont: "contents s = ?pre @ enc_int ?w (vs ! p) @ ?post"
    using rel enc_list_split [OF p] by (simp add: intset_rel_def)
  obtain rest where s1: "length rest = ?w"
    "(if p < length vs - 1 then intsetMoveTail s (p + 1) p else Some s) = Some (s\<lparr>contents := ?pre @ ?post @ rest\<rparr>)"
  proof (cases "p < length vs - 1")
    case True
    have "\<exists>rest. length rest = length (enc_int ?w (vs ! p)) \<and>
       memmove (?pre @ enc_int ?w (vs ! p) @ ?post) (p * ?w) ((p + 1) * ?w) ((length vs - (p + 1)) * ?w)
         = Some (?pre @ ?post @ rest)"
      using p by (intro memmove_left) auto
    with True that ok len room p cont show ?thesis by (auto simp: intsetMoveTail_eq)
  next
    case False
    with p have "?post = []" by simp
    with False that [of "enc_int ?w (vs ! p)"] cont show ?thesis by simp
  qed
  have "length (?pre @ ?post) = (length vs - 1) * ?w" using p by (simp flip: add_mult_distrib)
  then have "drealloc fill (?pre @ ?post @ rest) ((length vs - 1) * ?w) = ?pre @ ?post"
    by (metis append_assoc append_eq_conv_conj drealloc_shrink le_add1 length_append)
  moreover have "sorted_wrt (<) (take p vs @ drop (p + 1) vs)"
  proof -
    have "sorted_wrt (<) (take p vs @ vs ! p # drop (p + 1) vs)"
      using rel p by (simp add: intset_rel_def id_take_nth_drop [symmetric])
    then show ?thesis by (simp add: sorted_wrt_append)
  qed
  moreover have "set (take p vs @ drop (p + 1) vs) \<subseteq> set vs"
    using set_take_subset [of p vs] set_drop_subset [of "p + 1" vs] by auto
  ultimately have "intset_rel ((intsetResize fill (s\<lparr>contents := ?pre @ ?post @ rest\<rparr>) (length vs - 1))
      \<lparr>intset_length := length vs - 1\<rparr>) (take p vs @ drop (p + 1) vs)"
    using rel ok room p by (auto simp: intset_rel_def intsetResize_eq)
  with s1 show ?thesis by auto
qed

lemma set_remove_pos:
  assumes "sorted_wrt (<) (vs :: int list)" "p < length vs"
  shows "set (take p vs @ drop (p + 1) vs) = set vs - {vs ! p}"
proof -
  have "distinct (take p vs @ vs ! p # drop (p + 1) vs)"
    using assms by (simp add: id_take_nth_drop [symmetric] strict_sorted_iff)
  moreover have "set vs = set (take p vs @ vs ! p # drop (p + 1) vs)"
    using assms(2) by (simp add: id_take_nth_drop [symmetric])
  ultimately show ?thesis by auto
qed

lemma intsetRemove_rel:
  assumes rel: "intset_rel s vs"
  shows "\<exists>s' vs'. intsetRemove fill s v = Some (s', v \<in> set vs) \<and>
           intset_rel s' vs' \<and> set vs' = set vs - {v}"
proof (cases "intsetValueEncoding v \<le> encoding s")
  case False
  then have "v \<notin> set vs"
    using rel intsetValueEncoding_least [of "encoding s" v] by (auto simp: intset_rel_def)
  with False rel show ?thesis by (auto simp: intsetRemove_def)
next
  case True
  obtain b p where search: "intsetSearch s v = Some (b, p)" and pos: "search_pos vs v (b, p)"
    using intsetSearch_correct [OF rel] by force
  have b: "b \<longleftrightarrow> v \<in> set vs"
    using search_pos_found [OF _ pos] rel by (simp add: intset_rel_def)
  show ?thesis
  proof (cases b)
    case False
    with True search b rel show ?thesis by (auto simp: intsetRemove_def)
  next
    case found: True
    let ?n = "length vs"
    have p: "p < ?n" "vs ! p = v" using pos found by (auto simp: search_pos_def)
    have "0 \<le> int ?n - 1" "int ?n - 1 < 2 ^ 32" using p intset_rel_bound [OF rel] by auto
    then have n32: "cast_u 32 (int ?n - 1) = ?n - 1" "cast_u 32 (int p + 1) = p + 1"
      using p(1) intset_rel_bound [OF rel] cast_u_id [of "int p + 1" 32]
      by (simp_all add: cast_u_id nat_add_distrib)
    obtain s1 where "(if p < ?n - 1 then intsetMoveTail s (p + 1) p else Some s) = Some s1"
      "intset_rel ((intsetResize fill s1 (?n - 1))\<lparr>intset_length := ?n - 1\<rparr>) (take p vs @ drop (p + 1) vs)"
      using intset_remove_at [OF rel p(1)] by blast
    moreover have "set (take p vs @ drop (p + 1) vs) = set vs - {v}"
      using set_remove_pos [of vs p] rel p by (simp add: intset_rel_def)
    moreover have "intset_length s = ?n" using rel by (rule intset_rel_length)
    ultimately show ?thesis
      using True search found b n32 by (auto simp: intsetRemove_def Let_def split: if_splits)
  qed
qed

section \<open>The set contract\<close>

lemma sorted_list_of_set_eq:
  "sorted_wrt (<) (vs :: int list) \<Longrightarrow> sorted_list_of_set (set vs) = vs"
  by (simp add: strict_sorted_iff sorted_list_of_set.idem_if_sorted_distinct)

lemma intset_reprI: "intset_rel s vs \<Longrightarrow> A = set vs \<Longrightarrow> intset_repr s A"
  by (simp add: intset_repr_def intset_rel_def sorted_list_of_set_eq)

lemma intset_reprD:
  assumes "intset_repr s A"
  obtains vs where "intset_rel s vs" "set vs = A" "length vs = card A" "vs = sorted_list_of_set A"
  using assms by (auto simp: intset_repr_def)

definition int64_range :: "int \<Rightarrow> bool" where
  "int64_range v \<longleftrightarrow> LLONG_MIN \<le> v \<and> v \<le> LLONG_MAX"

interpretation ints: set_impl intset_repr "intsetAdd fill" "intsetRemove fill" intsetFind
  int64_range INTSET_MAX_LEN for fill
proof
  fix s A and v :: int
  assume repr: "intset_repr s A"
  then obtain vs where vs: "intset_rel s vs" "set vs = A" "length vs = card A"
    by (rule intset_reprD)
  show "finite A" using repr by (simp add: intset_repr_def)
  show "\<exists>s'. intsetAdd fill s v = Some (s', v \<notin> A) \<and> intset_repr s' (insert v A)"
    if "int64_range v" "card A < INTSET_MAX_LEN"
    using intsetAdd_rel [OF vs(1), of v fill] that vs
    by (metis int64_range_def intset_reprI)
  show "\<exists>s'. intsetRemove fill s v = Some (s', v \<in> A) \<and> intset_repr s' (A - {v})"
    using intsetRemove_rel [OF vs(1), of fill v] vs by (metis intset_reprI)
  show "intsetFind s v = Some (v \<in> A)"
  proof (cases "intsetValueEncoding v \<le> encoding s")
    case True
    with intsetSearch_correct [OF vs(1), of v] vs search_pos_found [of vs v] show ?thesis
      by (auto simp: intsetFind_def intset_rel_def)
  next
    case False
    with vs intsetValueEncoding_least [of "encoding s" v] show ?thesis
      by (auto simp: intsetFind_def intset_rel_def)
  qed
qed

lemma intsetNew_repr: "intset_repr intsetNew {}"
  by (simp add: intset_repr_def intset_rel_def intsetNew_def intset_enc_ok_def intset_enc_defs
        INTSET_MAX_LEN_def)

definition intset_ex :: intset where
  "intset_ex = \<lparr>encoding = 2, intset_length = 2, contents = [251, 255, 9, 0]\<rparr>"

lemma intsetUpgrade_loop_numeral:
  "intsetUpgrade_loop s c p (numeral k) = do {
     v \<leftarrow> intsetGetEncoded s (int (pred_numeral k)) c;
     s' \<leftarrow> intsetSet_raw s (int (pred_numeral k) + p) v;
     intsetUpgrade_loop s' c p (pred_numeral k)
   }"
  by (simp add: numeral_eq_Suc [of k])

lemmas intset_eval = intsetAdd_def intset_ex_def intsetValueEncoding_def vire_limits intset_enc_defs
  intsetUpgradeAndAdd_def intsetResize_def drealloc_def cast_u_def Let_def intsetGetEncoded_def
  read_elem_def mem_read_def intsetSet_raw_def write_elem_def mem_write_def dec_int_def enc_int_def
  cast_s_def le_bytes_numeral intsetUpgrade_loop_numeral

lemma intset_ex_repr: "intset_repr intset_ex {- 5, 9}"
  by (rule intset_reprI [of _ "[- 5, 9]"])
     (simp_all add: intset_ex_def intset_rel_def intset_enc_ok_def enc_int_def fits_int_def cast_u_def
        INTSET_MAX_LEN_def le_bytes_numeral)

section \<open>Properties\<close>

text \<open>C2: \<open>intsetAdd\<close> on an intset that represents the set \<open>A\<close> returns, for every 64-bit value and
  whatever the allocator leaves in fresh memory, an intset that represents \<open>A\<close> with the value
  inserted; the success flag says whether the value was new. This covers the in-place insertion and
  the upgrade to a wider encoding, and no byte outside the array is accessed.\<close>

theorem intsetAdd_inserts:
  assumes "intset_repr s A" "int64_range v" "card A < INTSET_MAX_LEN"
  shows "\<exists>s'. intsetAdd fill s v = Some (s', v \<notin> A) \<and> intset_repr s' (insert v A)"
  using assms by (rule ints.repr_add)

theorem intsetAdd_inserts_witness:
  "intset_repr intset_ex {- 5, 9} \<and>
   (\<exists>s'. intsetAdd (\<lambda>_. 7) intset_ex 70000 = Some (s', True) \<and> intset_repr s' {70000, - 5, 9}) \<and>
   intsetAdd (\<lambda>_. 7) intset_ex (- 40000) =
     Some (\<lparr>encoding = 4, intset_length = 3,
            contents = [192, 99, 255, 255, 251, 255, 255, 255, 9, 0, 0, 0]\<rparr>, True)"
proof -
  have h: "int64_range 70000" "card {- 5, 9 :: int} < INTSET_MAX_LEN"
    by (simp_all add: int64_range_def vire_limits INTSET_MAX_LEN_def)
  have "intsetAdd (\<lambda>_. 7) intset_ex (- 40000) =
     Some (\<lparr>encoding = 4, intset_length = 3,
            contents = [192, 99, 255, 255, 251, 255, 255, 255, 9, 0, 0, 0]\<rparr>, True)"
    by (simp add: intset_eval)
  with intset_ex_repr intsetAdd_inserts [OF intset_ex_repr h, of "\<lambda>_. 7"] show ?thesis by simp
qed

text \<open>\<open>intsetRemove\<close> returns an intset for the set without the value, and its flag says whether
  the value was a member. No byte outside the array is accessed.\<close>

theorem intsetRemove_deletes:
  assumes "intset_repr s A"
  shows "\<exists>s'. intsetRemove fill s v = Some (s', v \<in> A) \<and> intset_repr s' (A - {v})"
  using assms by (rule ints.repr_remove)

theorem intsetRemove_deletes_witness:
  "\<exists>s'. intsetRemove (\<lambda>_. 0) intset_ex 9 = Some (s', True) \<and> intset_repr s' {- 5}"
  using intsetRemove_deletes [OF intset_ex_repr, of "\<lambda>_. 0" 9] by (simp add: insert_Diff_if)

text \<open>The membership test \<open>intsetFind\<close> (the binary search guarded by the encoding check) and the
  positional read \<open>intsetGet\<close> agree with the represented set: \<open>intsetFind\<close> decides membership, and
  \<open>intsetGet\<close> yields the elements in ascending order and fails exactly past the end.\<close>

theorem intset_reads:
  assumes "intset_repr s A"
  shows "intsetFind s v = Some (v \<in> A) \<and> intsetLen s = card A \<and>
         intsetGet s pos = Some (if pos < card A then Some (sorted_list_of_set A ! pos) else None)"
proof -
  obtain vs where vs: "intset_rel s vs" "length vs = card A" "vs = sorted_list_of_set A"
    using assms by (rule intset_reprD)
  have "intsetGet_raw s (cast_s 32 (int pos)) = Some (vs ! pos)" if "pos < length vs"
    using that intset_rel_get [OF vs(1) that] intset_rel_bound [OF vs(1)]
    by (simp add: cast_s_32_id)
  then show ?thesis
    using vs intset_rel_length [OF vs(1)] ints.repr_find [OF assms]
    by (simp add: intsetGet_def intsetLen_def)
qed

theorem intset_reads_witness:
  "intsetFind intset_ex 9 = Some True \<and> intsetGet intset_ex 0 = Some (Some (- 5)) \<and>
   intsetGet intset_ex 2 = Some None"
  using intset_reads [OF intset_ex_repr, of 9 0] intset_reads [OF intset_ex_repr, of 9 2] by simp

text \<open>C1: any history of additions and removals on a fresh intset, of at most
  \<open>INTSET_MAX_LEN\<close> operations, runs without a memory error and returns the same flags and the same
  final set as the history on a mathematical set.\<close>

theorem intset_history:
  assumes "\<forall>op \<in> set ops. int64_range (set_op_arg op)" "length ops \<le> INTSET_MAX_LEN"
  shows "\<exists>s. set_run (intsetAdd fill) (intsetRemove fill) intsetNew ops = Some (s, snd (set_spec_run {} ops)) \<and>
           intset_repr s (fst (set_spec_run {} ops))"
  using ints.run_refines [OF intsetNew_repr assms(1)] assms(2) by simp

theorem intset_history_witness:
  "\<exists>s. set_run (intsetAdd (\<lambda>_. 0)) (intsetRemove (\<lambda>_. 0)) intsetNew [Add_op 5, Add_op 5, Remove_op 5]
       = Some (s, [True, False, True]) \<and> intset_repr s {}"
  using intset_history [of "[Add_op 5, Add_op 5, Remove_op 5]" "\<lambda>_. 0"]
  by (simp add: int64_range_def vire_limits INTSET_MAX_LEN_def)

text \<open>\<open>intsetBlobLen\<close> is the size of the header plus the size of the element array, and
  \<open>intsetRandom\<close> returns a member of a non-empty set whatever number \<open>rand()\<close> yields.\<close>

theorem intset_blob_and_random:
  assumes "intset_repr s A"
  shows "intsetBlobLen s = 8 + length (contents s) \<and>
         (A \<noteq> {} \<longrightarrow> (\<exists>v \<in> A. intsetRandom r s = Some v))"
proof -
  obtain vs where vs: "intset_rel s vs" "length vs = card A" "set vs = A"
    using assms by (rule intset_reprD)
  note bound = intset_rel_bound [OF vs(1)]
  have "encoding s \<le> 8" using vs(1) by (auto simp: intset_rel_def intset_enc_ok_def)
  then have "length vs * encoding s \<le> 536870911 * 8" using bound by (intro mult_le_mono) auto
  then have "int (length vs) * int (encoding s) < 2 ^ 32"
    by (simp flip: of_nat_mult)
  then have blob: "intsetBlobLen s = 8 + length (contents s)"
    using vs(1) by (simp add: intsetBlobLen_def intset_rel_def cast_u_id nat_mult_distrib)
  have "\<exists>v \<in> A. intsetRandom r s = Some v" if "A \<noteq> {}"
  proof -
    let ?i = "r mod length vs"
    have pos: "length vs > 0" using that vs(3) by auto
    then have i: "?i < length vs" by (rule mod_less_divisor)
    with bound have "?i < 2 ^ 31" by simp
    with pos have "intsetRandom r s = Some (vs ! ?i)"
      using intset_rel_get [OF vs(1) i] intset_rel_length [OF vs(1)] bound
      by (simp add: intsetRandom_def cast_s_32_id)
    then show ?thesis using i vs(3) by auto
  qed
  with blob show ?thesis by blast
qed

theorem intset_blob_and_random_witness:
  "intsetBlobLen intset_ex = 12 \<and> (\<exists>v \<in> {- 5, 9}. intsetRandom 4711 intset_ex = Some v)"
  using intset_blob_and_random [OF intset_ex_repr, of 4711] by (simp add: intset_ex_def)

end
