(* ===== verification/Vire_Dict.thy ===== *)
theory Vire_Dict
  imports Vire_Interfaces "HOL-Library.Multiset"
begin

text \<open>
  The hash tables of \<open>src/src/vr_dict.c\<close>: two tables with chaining and incremental rehashing from the
  first to the second. A chain is a list of entries, a table a list of chains (the \<open>NULL\<close> table is
  the empty list), and a pointer to an entry is its position: table number, bucket index, place in
  the chain. The callbacks of \<open>dictType\<close> are fields of the record, so that every result holds for
  all of them; the destructors only release memory, and the deletions return the entries they are
  called on. The theory shows that every operation keeps the table invariant, whatever phase of the
  rehashing the dictionary is in, and that the dictionary implements a map modulo the key comparison.
\<close>

section \<open>Data\<close>

record ('k, 'v) dictType =
  hashFunction :: "'k \<Rightarrow> u32"
  keyDup :: "('k \<Rightarrow> 'k) option"
  valDup :: "('v \<Rightarrow> 'v) option"
  keyCompare :: "('k \<Rightarrow> 'k \<Rightarrow> bool) option"

type_synonym ('k, 'v) dictEntry = "'k \<times> 'v"

record ('k, 'v) dictht =
  ht_table :: "('k, 'v) dictEntry list list"
  ht_size :: nat
  ht_sizemask :: nat
  ht_used :: nat

record ('k, 'v) dict =
  dict_type :: "('k, 'v) dictType"
  ht0 :: "('k, 'v) dictht"
  ht1 :: "('k, 'v) dictht"
  rehashidx :: int
  iterators :: int

type_synonym entry_ptr = "nat \<times> nat \<times> nat"

definition DICT_HT_INITIAL_SIZE :: nat where "DICT_HT_INITIAL_SIZE = 4"
definition LONG_MAX :: nat where [vire_limits]: "LONG_MAX = 9223372036854775807"
definition dict_force_resize_ratio :: nat where "dict_force_resize_ratio = 5"

definition dictSize :: "('k, 'v) dict \<Rightarrow> nat" where
  "dictSize d = ht_used (ht0 d) + ht_used (ht1 d)"

definition dictIsRehashing :: "('k, 'v) dict \<Rightarrow> bool" where
  "dictIsRehashing d \<longleftrightarrow> rehashidx d \<noteq> - 1"

definition dictHashKey :: "('k, 'v) dict \<Rightarrow> 'k \<Rightarrow> nat" where
  "dictHashKey d key = unat (hashFunction (dict_type d) key)"

definition dictCompareKeys :: "('k, 'v) dictType \<Rightarrow> 'k \<Rightarrow> 'k \<Rightarrow> bool" where
  "dictCompareKeys ty key1 key2 = (case keyCompare ty of Some f \<Rightarrow> f key1 key2 | None \<Rightarrow> key1 = key2)"

definition dictSetKey :: "('k, 'v) dictType \<Rightarrow> 'k \<Rightarrow> 'k" where
  "dictSetKey ty key = (case keyDup ty of Some f \<Rightarrow> f key | None \<Rightarrow> key)"

definition dictSetVal :: "('k, 'v) dictType \<Rightarrow> 'v \<Rightarrow> 'v" where
  "dictSetVal ty val = (case valDup ty of Some f \<Rightarrow> f val | None \<Rightarrow> val)"

text \<open>The test of the chain loops: \<open>key==he->key || dictCompareKeys(d, key, he->key)\<close>.\<close>

definition key_match :: "('k, 'v) dictType \<Rightarrow> 'k \<Rightarrow> 'k \<Rightarrow> bool" where
  "key_match ty key key' \<longleftrightarrow> key = key' \<or> dictCompareKeys ty key key'"

text \<open>Counters of type \<open>unsigned long\<close>, and accesses to a bucket.\<close>

definition ulong_inc :: "nat \<Rightarrow> nat" where "ulong_inc n = cast_u 64 (int n + 1)"
definition ulong_dec :: "nat \<Rightarrow> nat" where "ulong_dec n = cast_u 64 (int n - 1)"

definition bucket_at :: "('k, 'v) dictht \<Rightarrow> nat \<Rightarrow> ('k, 'v) dictEntry list option" where
  "bucket_at t i = (if i < length (ht_table t) then Some (ht_table t ! i) else None)"

definition bucket_set :: "('k, 'v) dictht \<Rightarrow> nat \<Rightarrow> ('k, 'v) dictEntry list \<Rightarrow> ('k, 'v) dictht" where
  "bucket_set t i c = t\<lparr>ht_table := (ht_table t)[i := c]\<rparr>"

definition ht_at :: "('k, 'v) dict \<Rightarrow> nat \<Rightarrow> ('k, 'v) dictht" where
  "ht_at d table = (if table = 0 then ht0 d else ht1 d)"

definition ht_put :: "('k, 'v) dict \<Rightarrow> nat \<Rightarrow> ('k, 'v) dictht \<Rightarrow> ('k, 'v) dict" where
  "ht_put d table t = (if table = 0 then d\<lparr>ht0 := t\<rparr> else d\<lparr>ht1 := t\<rparr>)"

section \<open>Creation and resizing\<close>

definition dictReset :: "('k, 'v) dictht" where
  "dictReset = \<lparr>ht_table = [], ht_size = 0, ht_sizemask = 0, ht_used = 0\<rparr>"

definition dictCreate :: "('k, 'v) dictType \<Rightarrow> ('k, 'v) dict" where
  "dictCreate ty = \<lparr>dict_type = ty, ht0 = dictReset, ht1 = dictReset, rehashidx = - 1, iterators = 0\<rparr>"

partial_function (option) dictNextPower_loop :: "nat \<Rightarrow> nat \<Rightarrow> nat option" where
  "dictNextPower_loop i sz = (if i \<ge> sz then Some i else dictNextPower_loop (i * 2) sz)"

definition dictNextPower :: "nat \<Rightarrow> nat option" where
  "dictNextPower sz =
     (if sz \<ge> LONG_MAX then Some LONG_MAX else dictNextPower_loop DICT_HT_INITIAL_SIZE sz)"

definition dictExpand :: "('k, 'v) dict \<Rightarrow> nat \<Rightarrow> (('k, 'v) dict \<times> bool) option" where
  "dictExpand d sz = do {
     realsize \<leftarrow> dictNextPower sz;
     if dictIsRehashing d \<or> ht_used (ht0 d) > sz then Some (d, False)
     else if realsize = ht_size (ht0 d) then Some (d, False)
     else let n = \<lparr>ht_table = replicate realsize [], ht_size = realsize,
                   ht_sizemask = realsize - 1, ht_used = 0\<rparr>
          in if ht_table (ht0 d) = [] then Some (d\<lparr>ht0 := n\<rparr>, True)
             else Some (d\<lparr>ht1 := n, rehashidx := 0\<rparr>, True)
   }"

text \<open>The local variable of \<open>dictResize\<close> is an \<open>int\<close>.\<close>

definition dictResize :: "bool \<Rightarrow> ('k, 'v) dict \<Rightarrow> (('k, 'v) dict \<times> bool) option" where
  "dictResize dict_can_resize d =
     (if \<not> dict_can_resize \<or> dictIsRehashing d then Some (d, False)
      else let minimal = cast_s 32 (int (ht_used (ht0 d)));
               minimal = (if minimal < int DICT_HT_INITIAL_SIZE then int DICT_HT_INITIAL_SIZE else minimal)
           in dictExpand d (cast_u 64 minimal))"

definition dictExpandIfNeeded :: "bool \<Rightarrow> ('k, 'v) dict \<Rightarrow> (('k, 'v) dict \<times> bool) option" where
  "dictExpandIfNeeded dict_can_resize d =
     (if dictIsRehashing d then Some (d, True)
      else if ht_size (ht0 d) = 0 then dictExpand d DICT_HT_INITIAL_SIZE
      else if ht_used (ht0 d) \<ge> ht_size (ht0 d) \<and>
              (dict_can_resize \<or> ht_used (ht0 d) div ht_size (ht0 d) > dict_force_resize_ratio)
           then dictExpand d (cast_u 64 (int (ht_used (ht0 d)) * 2))
      else Some (d, True))"

section \<open>Incremental rehashing\<close>

text \<open>The loop over the empty buckets: it stops at a non-empty bucket or when the budget of empty
  visits is used up (first component \<open>True\<close>). Running off the table is an invalid access.\<close>

function dictRehash_skip :: "('k, 'v) dictht \<Rightarrow> nat \<Rightarrow> int \<Rightarrow> (bool \<times> nat \<times> int) option" where
  "dictRehash_skip t i empty_visits =
     (if i \<ge> length (ht_table t) then None
      else if ht_table t ! i \<noteq> [] then Some (False, i, empty_visits)
      else if empty_visits - 1 = 0 then Some (True, i + 1, empty_visits - 1)
      else dictRehash_skip t (i + 1) (empty_visits - 1))"
  by pat_completeness auto
termination by (relation "measure (\<lambda>(t, i, _). length (ht_table t) - i)") auto

text \<open>Move a chain, entry by entry, to the heads of the chains of the second table.\<close>

fun dictRehash_move :: "('k, 'v) dict \<Rightarrow> ('k, 'v) dictEntry list \<Rightarrow> ('k, 'v) dict option" where
  "dictRehash_move d [] = Some d"
| "dictRehash_move d (de # des) = do {
     let h = dictHashKey d (fst de) AND ht_sizemask (ht1 d);
     c \<leftarrow> bucket_at (ht1 d) h;
     let t1 = bucket_set (ht1 d) h (de # c);
     dictRehash_move (d\<lparr>ht0 := (ht0 d)\<lparr>ht_used := ulong_dec (ht_used (ht0 d))\<rparr>,
                        ht1 := t1\<lparr>ht_used := ulong_inc (ht_used t1)\<rparr>\<rparr>) des
   }"

fun dictRehash_loop :: "('k, 'v) dict \<Rightarrow> nat \<Rightarrow> int \<Rightarrow> (('k, 'v) dict \<times> bool) option" where
  "dictRehash_loop d 0 empty_visits = Some (d, False)"
| "dictRehash_loop d (Suc n) empty_visits =
     (if ht_used (ht0 d) = 0 then Some (d, False)
      else if ht_size (ht0 d) \<le> cast_u 64 (rehashidx d) then None
      else do {
        (stop, i, empty_visits') \<leftarrow> dictRehash_skip (ht0 d) (nat (rehashidx d)) empty_visits;
        if stop then Some (d\<lparr>rehashidx := int i\<rparr>, True)
        else do {
          c \<leftarrow> bucket_at (ht0 d) i;
          d1 \<leftarrow> dictRehash_move d c;
          dictRehash_loop (d1\<lparr>ht0 := bucket_set (ht0 d1) i [], rehashidx := int i + 1\<rparr>) n empty_visits'
        }
      })"

definition dictRehash :: "('k, 'v) dict \<Rightarrow> nat \<Rightarrow> (('k, 'v) dict \<times> bool) option" where
  "dictRehash d n =
     (if \<not> dictIsRehashing d then Some (d, False)
      else do {
        (d1, early) \<leftarrow> dictRehash_loop d n (int n * 10);
        if early then Some (d1, True)
        else if ht_used (ht0 d1) = 0
             then Some (d1\<lparr>ht0 := ht1 d1, ht1 := dictReset, rehashidx := - 1\<rparr>, False)
             else Some (d1, True)
      })"

definition dictRehashStep :: "('k, 'v) dict \<Rightarrow> ('k, 'v) dict option" where
  "dictRehashStep d = (if iterators d = 0 then map_option fst (dictRehash d 1) else Some d)"

text \<open>\<open>clock j\<close> is the number of milliseconds since the start that the \<open>j\<close>-th call of
  \<open>timeInMilliseconds\<close> in the loop returns.\<close>

partial_function (option) dictRehashMilliseconds ::
  "(nat \<Rightarrow> int) \<Rightarrow> nat \<Rightarrow> ('k, 'v) dict \<Rightarrow> int \<Rightarrow> int \<Rightarrow> (('k, 'v) dict \<times> int) option" where
  "dictRehashMilliseconds clock j d ms rehashes = do {
     (d', more) \<leftarrow> dictRehash d 100;
     if \<not> more then Some (d', rehashes)
     else if clock j > ms then Some (d', rehashes + 100)
     else dictRehashMilliseconds clock (j + 1) d' ms (rehashes + 100)
   }"

section \<open>Lookup and update\<close>

fun chain_find :: "('k, 'v) dictType \<Rightarrow> 'k \<Rightarrow> ('k, 'v) dictEntry list \<Rightarrow> nat option" where
  "chain_find ty key [] = None"
| "chain_find ty key (he # hes) =
     (if key_match ty key (fst he) then Some 0 else map_option Suc (chain_find ty key hes))"

definition dict_idx :: "('k, 'v) dict \<Rightarrow> 'k \<Rightarrow> nat \<Rightarrow> nat" where
  "dict_idx d key table = dictHashKey d key AND ht_sizemask (ht_at d table)"

text \<open>The loop over the tables that \<open>dictFind\<close>, \<open>_dictKeyIndex\<close> and \<open>dictGenericDelete\<close> share: the
  second table is searched during a rehashing only.\<close>

definition dict_search :: "('k, 'v) dict \<Rightarrow> 'k \<Rightarrow> entry_ptr option option" where
  "dict_search d key = do {
     c0 \<leftarrow> bucket_at (ht_at d 0) (dict_idx d key 0);
     case chain_find (dict_type d) key c0 of
       Some p \<Rightarrow> Some (Some (0, dict_idx d key 0, p))
     | None \<Rightarrow>
         if \<not> dictIsRehashing d then Some None
         else do {
           c1 \<leftarrow> bucket_at (ht_at d 1) (dict_idx d key 1);
           Some (map_option (\<lambda>p. (1, dict_idx d key 1, p)) (chain_find (dict_type d) key c1))
         }
   }"

definition entry_at :: "('k, 'v) dict \<Rightarrow> entry_ptr \<Rightarrow> ('k, 'v) dictEntry option" where
  "entry_at d = (\<lambda>(table, i, p). do {
     c \<leftarrow> bucket_at (ht_at d table) i;
     if p < length c then Some (c ! p) else None
   })"

definition entry_set_val :: "('k, 'v) dict \<Rightarrow> entry_ptr \<Rightarrow> 'v \<Rightarrow> ('k, 'v) dict option" where
  "entry_set_val d = (\<lambda>(table, i, p) val. do {
     c \<leftarrow> bucket_at (ht_at d table) i;
     if p < length c
     then Some (ht_put d table (bucket_set (ht_at d table) i (c[p := (fst (c ! p), val)])))
     else None
   })"

definition dictFind :: "('k, 'v) dict \<Rightarrow> 'k \<Rightarrow> entry_ptr option option" where
  "dictFind d key = (if ht_used (ht0 d) + ht_used (ht1 d) = 0 then Some None else dict_search d key)"

definition dictFetchValue :: "('k, 'v) dict \<Rightarrow> 'k \<Rightarrow> 'v option option" where
  "dictFetchValue d key = do {
     r \<leftarrow> dictFind d key;
     case r of None \<Rightarrow> Some None | Some p \<Rightarrow> map_option (\<lambda>e. Some (snd e)) (entry_at d p)
   }"

text \<open>\<open>_dictKeyIndex\<close> returns an \<open>int\<close>: \<open>-1\<close> when the key exists or the table cannot be expanded.\<close>

definition dictKeyIndex :: "bool \<Rightarrow> ('k, 'v) dict \<Rightarrow> 'k \<Rightarrow> (('k, 'v) dict \<times> int) option" where
  "dictKeyIndex dict_can_resize d key = do {
     (d1, ok) \<leftarrow> dictExpandIfNeeded dict_can_resize d;
     if \<not> ok then Some (d1, - 1)
     else do {
       r \<leftarrow> dict_search d1 key;
       case r of
         Some _ \<Rightarrow> Some (d1, - 1)
       | None \<Rightarrow> Some (d1, cast_s 32 (int (dict_idx d1 key (if dictIsRehashing d1 then 1 else 0))))
     }
   }"

text \<open>The value field of the new entry is not set here: it is what the allocator left, \<open>junk\<close>.\<close>

definition dictAddRaw :: "bool \<Rightarrow> 'v \<Rightarrow> ('k, 'v) dict \<Rightarrow> 'k \<Rightarrow> (('k, 'v) dict \<times> entry_ptr option) option" where
  "dictAddRaw dict_can_resize junk d key = do {
     d1 \<leftarrow> (if dictIsRehashing d then dictRehashStep d else Some d);
     (d2, index) \<leftarrow> dictKeyIndex dict_can_resize d1 key;
     if index = - 1 then Some (d2, None)
     else do {
       let table = (if dictIsRehashing d2 then 1 else 0);
       let t = ht_at d2 table;
       c \<leftarrow> (if index < 0 then None else bucket_at t (nat index));
       let t' = bucket_set t (nat index) ((dictSetKey (dict_type d2) key, junk) # c);
       Some (ht_put d2 table (t'\<lparr>ht_used := ulong_inc (ht_used t')\<rparr>), Some (table, nat index, 0))
     }
   }"

definition dictAdd :: "bool \<Rightarrow> 'v \<Rightarrow> ('k, 'v) dict \<Rightarrow> 'k \<Rightarrow> 'v \<Rightarrow> (('k, 'v) dict \<times> bool) option" where
  "dictAdd dict_can_resize junk d key val = do {
     (d1, entry) \<leftarrow> dictAddRaw dict_can_resize junk d key;
     case entry of
       None \<Rightarrow> Some (d1, False)
     | Some p \<Rightarrow> map_option (\<lambda>d2. (d2, True)) (entry_set_val d1 p (dictSetVal (dict_type d1) val))
   }"

text \<open>\<open>dictReplace\<close> follows the pointer that \<open>dictFind\<close> returns without a test.\<close>

definition dictReplace :: "bool \<Rightarrow> 'v \<Rightarrow> ('k, 'v) dict \<Rightarrow> 'k \<Rightarrow> 'v \<Rightarrow> (('k, 'v) dict \<times> bool) option" where
  "dictReplace dict_can_resize junk d key val = do {
     (d1, added) \<leftarrow> dictAdd dict_can_resize junk d key val;
     if added then Some (d1, True)
     else do {
       r \<leftarrow> dictFind d1 key;
       case r of
         None \<Rightarrow> None
       | Some p \<Rightarrow> map_option (\<lambda>d2. (d2, False)) (entry_set_val d1 p (dictSetVal (dict_type d1) val))
     }
   }"

definition dictReplaceRaw :: "bool \<Rightarrow> 'v \<Rightarrow> ('k, 'v) dict \<Rightarrow> 'k \<Rightarrow> (('k, 'v) dict \<times> entry_ptr option) option" where
  "dictReplaceRaw dict_can_resize junk d key = do {
     r \<leftarrow> dictFind d key;
     case r of Some p \<Rightarrow> Some (d, Some p) | None \<Rightarrow> dictAddRaw dict_can_resize junk d key
   }"

text \<open>The second component is the unlinked entry, on which the destructors run unless \<open>nofree\<close>.\<close>

definition dictGenericDelete :: "('k, 'v) dict \<Rightarrow> 'k \<Rightarrow> (('k, 'v) dict \<times> ('k, 'v) dictEntry option) option" where
  "dictGenericDelete d key =
     (if ht_size (ht0 d) = 0 then Some (d, None)
      else do {
        d1 \<leftarrow> (if dictIsRehashing d then dictRehashStep d else Some d);
        r \<leftarrow> dict_search d1 key;
        case r of
          None \<Rightarrow> Some (d1, None)
        | Some (table, idx, p) \<Rightarrow> do {
            c \<leftarrow> bucket_at (ht_at d1 table) idx;
            let t = bucket_set (ht_at d1 table) idx (take p c @ drop (p + 1) c);
            Some (ht_put d1 table (t\<lparr>ht_used := ulong_dec (ht_used t)\<rparr>), Some (c ! p))
          }
      })"

definition dictDelete :: "('k, 'v) dict \<Rightarrow> 'k \<Rightarrow> (('k, 'v) dict \<times> bool) option" where
  "dictDelete d key = map_option (\<lambda>(d', e). (d', e \<noteq> None)) (dictGenericDelete d key)"

text \<open>The loop of \<open>_dictClear\<close>: it releases the chains while entries are left.\<close>

fun dictClear_loop :: "('k, 'v) dictEntry list list \<Rightarrow> nat \<Rightarrow> ('k, 'v) dictEntry list" where
  "dictClear_loop [] used = []"
| "dictClear_loop (c # cs) used =
     (if used = 0 then [] else c @ dictClear_loop cs (cast_u 64 (int used - int (length c))))"

definition dictClear :: "('k, 'v) dictht \<Rightarrow> ('k, 'v) dictht \<times> ('k, 'v) dictEntry list" where
  "dictClear t = (dictReset, dictClear_loop (ht_table t) (ht_used t))"

definition dictEmpty :: "('k, 'v) dict \<Rightarrow> ('k, 'v) dict \<times> ('k, 'v) dictEntry list" where
  "dictEmpty d =
     (d\<lparr>ht0 := fst (dictClear (ht0 d)), ht1 := fst (dictClear (ht1 d)), rehashidx := - 1, iterators := 0\<rparr>,
      snd (dictClear (ht0 d)) @ snd (dictClear (ht1 d)))"

section \<open>The invariant\<close>

text \<open>What the dictionary relies on from the callbacks: the comparison is an equivalence that the hash
  function respects, and a duplicated key compares equal to the original.\<close>

definition dictType_ok :: "('k, 'v) dictType \<Rightarrow> bool" where
  "dictType_ok ty \<longleftrightarrow>
     (\<forall>a b. key_match ty a b \<longrightarrow> key_match ty b a \<and> hashFunction ty a = hashFunction ty b) \<and>
     (\<forall>a b c. key_match ty a b \<longrightarrow> key_match ty b c \<longrightarrow> key_match ty a c) \<and>
     (\<forall>a. key_match ty (dictSetKey ty a) a)"

definition keyclass :: "('k, 'v) dictType \<Rightarrow> 'k \<Rightarrow> 'k set" where
  "keyclass ty k = {k'. key_match ty k k'}"

text \<open>A table in use: a power of two of buckets, each entry in the bucket of its hash, and an exact
  count of the entries.\<close>

definition ht_live :: "('k \<Rightarrow> nat) \<Rightarrow> ('k, 'v) dictht \<Rightarrow> bool" where
  "ht_live hf t \<longleftrightarrow>
     (\<exists>k. 2 \<le> k \<and> k \<le> 31 \<and> length (ht_table t) = 2 ^ k \<and> ht_size t = 2 ^ k \<and> ht_sizemask t = 2 ^ k - 1) \<and>
     ht_used t = length (concat (ht_table t)) \<and>
     (\<forall>i < length (ht_table t). \<forall>e \<in> set (ht_table t ! i). hf (fst e) mod length (ht_table t) = i)"

definition dict_entries :: "('k, 'v) dict \<Rightarrow> ('k, 'v) dictEntry list" where
  "dict_entries d = concat (ht_table (ht0 d)) @ concat (ht_table (ht1 d))"

definition distinct_keys :: "('k, 'v) dictType \<Rightarrow> ('k, 'v) dictEntry list \<Rightarrow> bool" where
  "distinct_keys ty es \<longleftrightarrow> distinct (map (keyclass ty \<circ> fst) es)"

definition DICT_MAX :: nat where "DICT_MAX = 2 ^ 29"

definition dict_common :: "('k, 'v) dict \<Rightarrow> bool" where
  "dict_common d \<longleftrightarrow> dictType_ok (dict_type d) \<and>
     distinct_keys (dict_type d) (dict_entries d) \<and> length (dict_entries d) \<le> DICT_MAX"

definition rehash_state :: "('k, 'v) dict \<Rightarrow> bool" where
  "rehash_state d \<longleftrightarrow> ht_live (dictHashKey d) (ht0 d) \<and> ht_live (dictHashKey d) (ht1 d) \<and>
     0 \<le> rehashidx d \<and> rehashidx d \<le> int (ht_size (ht0 d)) \<and>
     (\<forall>i < nat (rehashidx d). ht_table (ht0 d) ! i = [])"

definition dict_inv :: "('k, 'v) dict \<Rightarrow> bool" where
  "dict_inv d \<longleftrightarrow> dict_common d \<and>
     (if dictIsRehashing d then rehash_state d \<and> rehashidx d < int (ht_size (ht0 d))
      else ht1 d = dictReset \<and> (ht0 d = dictReset \<or> ht_live (dictHashKey d) (ht0 d)))"

definition emap :: "('k, 'v) dictType \<Rightarrow> ('k, 'v) dictEntry list \<Rightarrow> 'k \<Rightarrow> 'v option" where
  "emap ty es k = map_option snd (find (\<lambda>e. key_match ty k (fst e)) es)"

definition dict_map :: "('k, 'v) dict \<Rightarrow> 'k \<Rightarrow> 'v option" where
  "dict_map d = emap (dict_type d) (dict_entries d)"

subsection \<open>Keys and entry lists\<close>

lemma key_match_refl [simp]: "key_match ty k k"
  by (simp add: key_match_def)

lemma dictType_okD:
  assumes "dictType_ok ty"
  shows "key_match ty a b \<Longrightarrow> key_match ty b a"
    and "key_match ty a b \<Longrightarrow> hashFunction ty a = hashFunction ty b"
    and "key_match ty a b \<Longrightarrow> key_match ty b c \<Longrightarrow> key_match ty a c"
    and "key_match ty (dictSetKey ty a) a"
  using assms unfolding dictType_ok_def by blast+

lemma key_match_sym: "dictType_ok ty \<Longrightarrow> key_match ty a b \<longleftrightarrow> key_match ty b a"
  by (meson dictType_okD(1))

lemma keyclass_eq: "dictType_ok ty \<Longrightarrow> keyclass ty a = keyclass ty b \<longleftrightarrow> key_match ty a b"
  unfolding keyclass_def by (metis (mono_tags, lifting) Collect_cong dictType_okD(1,3) key_match_refl mem_Collect_eq)

lemma distinct_keys_mset:
  "mset es = mset es' \<Longrightarrow> distinct_keys ty es \<longleftrightarrow> distinct_keys ty es'"
  unfolding distinct_keys_def by (metis mset_map mset_eq_imp_distinct_iff)

lemma distinct_keys_Cons:
  "dictType_ok ty \<Longrightarrow> distinct_keys ty (e # es) \<longleftrightarrow>
     (\<forall>e' \<in> set es. \<not> key_match ty (fst e) (fst e')) \<and> distinct_keys ty es"
  unfolding distinct_keys_def by (auto simp: keyclass_eq [symmetric])

lemma emap_None: "emap ty es k = None \<longleftrightarrow> (\<forall>e \<in> set es. \<not> key_match ty k (fst e))"
  by (auto simp: emap_def find_None_iff)

lemma emap_Cons: "emap ty (e # es) k = (if key_match ty k (fst e) then Some (snd e) else emap ty es k)"
  by (simp add: emap_def)

lemma emap_Some:
  assumes "dictType_ok ty" "distinct_keys ty es"
  shows "emap ty es k = Some v \<longleftrightarrow> (\<exists>k'. (k', v) \<in> set es \<and> key_match ty k k')"
  using assms(2)
proof (induction es)
  case Nil
  then show ?case by (simp add: emap_def)
next
  case (Cons e es)
  then have *: "\<forall>e' \<in> set es. \<not> key_match ty (fst e) (fst e')" "distinct_keys ty es"
    using assms(1) by (auto simp: distinct_keys_Cons)
  have "\<not> key_match ty k k'" if "key_match ty k (fst e)" "(k', v) \<in> set es" for k'
    using that *(1) dictType_okD(1,3) [OF assms(1)] by (metis fst_conv)
  with Cons.IH [OF *(2)] show ?case
    by (cases e) (auto simp: emap_Cons)
qed

lemma emap_mset:
  assumes "dictType_ok ty" "distinct_keys ty es" "mset es = mset es'"
  shows "emap ty es = emap ty es'"
proof
  fix k
  have "distinct_keys ty es'" using assms distinct_keys_mset by blast
  then have "emap ty es k = Some v \<longleftrightarrow> emap ty es' k = Some v" for v
    using assms emap_Some mset_eq_setD by metis
  then show "emap ty es k = emap ty es' k"
    by (metis not_Some_eq)
qed

lemma emap_insert:
  assumes "dictType_ok ty" "\<forall>e \<in> set es. \<not> key_match ty k (fst e)" "distinct_keys ty es"
    and "key_match ty k' k" "mset es' = add_mset (k', v) (mset es)"
  shows "distinct_keys ty es'" "emap ty es' = map_upd (key_match ty) (emap ty es) k (Some v)"
proof -
  have nm: "\<forall>e \<in> set es. \<not> key_match ty k' (fst e)"
    using assms(1,2,4) dictType_okD(1,3) by metis
  have d: "distinct_keys ty ((k', v) # es)" using nm assms(1,3) by (simp add: distinct_keys_Cons)
  moreover have m: "mset ((k', v) # es) = mset es'" using assms(5) by simp
  ultimately show "distinct_keys ty es'" using distinct_keys_mset by blast
  have "key_match ty x k' \<longleftrightarrow> key_match ty k x" for x
    using assms(1,4) dictType_okD(1,3) by metis
  then show "emap ty es' = map_upd (key_match ty) (emap ty es) k (Some v)"
    unfolding emap_mset [OF assms(1) d m, symmetric] by (auto simp: emap_Cons map_upd_def)
qed

lemma emap_delete:
  assumes "dictType_ok ty" "distinct_keys ty es" "mset es = add_mset e (mset es')" "key_match ty k (fst e)"
  shows "distinct_keys ty es'" "emap ty es' = map_upd (key_match ty) (emap ty es) k None"
proof -
  have m: "mset es = mset (e # es')" using assms(3) by simp
  then have d: "distinct_keys ty (e # es')" using assms(2) distinct_keys_mset by blast
  then show "distinct_keys ty es'" using assms(1) by (simp add: distinct_keys_Cons)
  have "emap ty es' x = None" if "key_match ty k x" for x
    unfolding emap_None
    using d that assms(1,4) dictType_okD(1,3) [OF assms(1)] by (metis distinct_keys_Cons)
  moreover have "key_match ty x (fst e) \<longleftrightarrow> key_match ty k x" for x
    using assms(1,4) dictType_okD(1,3) by metis
  ultimately show "emap ty es' = map_upd (key_match ty) (emap ty es) k None"
    unfolding emap_mset [OF assms(1,2) m] by (auto simp: emap_Cons map_upd_def)
qed

subsection \<open>Tables\<close>

lemma mset_concat_update:
  "i < length xs \<Longrightarrow> mset (concat (xs[i := c])) + mset (xs ! i) = mset (concat xs) + mset c"
proof (induction xs arbitrary: i)
  case (Cons x xs)
  then show ?case by (cases i) (auto simp: ac_simps)
qed simp

lemma length_concat_update:
  "i < length xs \<Longrightarrow> length (concat (xs[i := c])) + length (xs ! i) = length (concat xs) + length c"
  using arg_cong [OF mset_concat_update, of i xs size c] by simp

lemma ulong_inc_id: "n < 2 ^ 63 \<Longrightarrow> ulong_inc n = Suc n"
  by (simp add: ulong_inc_def cast_u_def nat_add_distrib)

lemma ulong_dec_id: "0 < n \<Longrightarrow> n < 2 ^ 63 \<Longrightarrow> ulong_dec n = n - 1"
  by (simp add: ulong_dec_def cast_u_def)

lemma and_sizemask: "(h::nat) AND (2 ^ k - 1) = h mod 2 ^ k"
  by (metis mask_eq_exp_minus_1 take_bit_eq_mask take_bit_eq_mod)

lemma ht_live_idx:
  assumes "ht_live hf t"
  shows "h AND ht_sizemask t = h mod length (ht_table t)" "h mod length (ht_table t) < length (ht_table t)"
    "4 \<le> length (ht_table t)" "length (ht_table t) \<le> 2 ^ 31" "ht_size t = length (ht_table t)"
proof -
  obtain k where k: "2 \<le> k" "k \<le> 31" "length (ht_table t) = 2 ^ k" "ht_size t = 2 ^ k" "ht_sizemask t = 2 ^ k - 1"
    using assms by (auto simp: ht_live_def)
  have "(2::nat) ^ 2 \<le> 2 ^ k" "(2::nat) ^ k \<le> 2 ^ 31" using k by (meson one_le_numeral power_increasing)+
  with k show "h AND ht_sizemask t = h mod length (ht_table t)" "h mod length (ht_table t) < length (ht_table t)"
    "4 \<le> length (ht_table t)" "length (ht_table t) \<le> 2 ^ 31" "ht_size t = length (ht_table t)"
    using and_sizemask [of h k] by auto
qed

lemma ht_live_set:
  assumes "ht_live hf t" "i < length (ht_table t)" "\<forall>e \<in> set c. hf (fst e) mod length (ht_table t) = i"
    and "u = length (concat ((ht_table t)[i := c]))"
  shows "ht_live hf (bucket_set t i c\<lparr>ht_used := u\<rparr>)"
  using assms unfolding ht_live_def bucket_set_def
  by (auto simp: nth_list_update)

subsection \<open>Rehashing\<close>

declare dictRehash_skip.simps [simp del]

lemma dictHashKey_upd [simp]:
  "dictHashKey (d\<lparr>ht0 := t\<rparr>) = dictHashKey d" "dictHashKey (d\<lparr>ht1 := t\<rparr>) = dictHashKey d"
  "dictHashKey (d\<lparr>rehashidx := i\<rparr>) = dictHashKey d"
  by (simp_all add: fun_eq_iff dictHashKey_def)

lemma dictRehash_skip_ok:
  assumes "i \<le> j" "j < length (ht_table t)" "ht_table t ! j \<noteq> []"
  shows "\<exists>stop i' ev'. dictRehash_skip t i ev = Some (stop, i', ev') \<and> i \<le> i' \<and> i' < length (ht_table t) \<and>
     (\<forall>l. i \<le> l \<and> l < i' \<longrightarrow> ht_table t ! l = []) \<and> (\<not> stop \<longrightarrow> ht_table t ! i' \<noteq> []) \<and> (stop \<longrightarrow> i < i')"
  using assms
proof (induction t i ev rule: dictRehash_skip.induct)
  case (1 t i ev)
  show ?case
  proof (cases "ht_table t ! i = []")
    case True
    with 1(2-4) have j: "i + 1 \<le> j" by (metis Suc_eq_plus1 Suc_leI le_neq_implies_less)
    show ?thesis
    proof (cases "ev - 1 = 0")
      case stop: True
      have "\<forall>l. i \<le> l \<and> l < i + 1 \<longrightarrow> ht_table t ! l = []" using True by (auto simp: le_less_Suc_eq)
      with True stop j 1(3) show ?thesis by (subst dictRehash_skip.simps) (auto intro!: exI [of _ True])
    next
      case False
      have "\<exists>stop i' ev'. dictRehash_skip t (i + 1) (ev - 1) = Some (stop, i', ev') \<and> i + 1 \<le> i' \<and>
          i' < length (ht_table t) \<and> (\<forall>l. i + 1 \<le> l \<and> l < i' \<longrightarrow> ht_table t ! l = []) \<and>
          (\<not> stop \<longrightarrow> ht_table t ! i' \<noteq> []) \<and> (stop \<longrightarrow> i + 1 < i')"
        using 1(1) [OF _ _ False j 1(3,4)] True j 1(3) by simp
      then obtain stop i' ev' where *: "dictRehash_skip t (i + 1) (ev - 1) = Some (stop, i', ev')" "i + 1 \<le> i'"
          "i' < length (ht_table t)" "\<forall>l. i + 1 \<le> l \<and> l < i' \<longrightarrow> ht_table t ! l = []"
          "\<not> stop \<longrightarrow> ht_table t ! i' \<noteq> []" "stop \<longrightarrow> i + 1 < i'" by blast
      have "\<forall>l. i \<le> l \<and> l < i' \<longrightarrow> ht_table t ! l = []"
        using *(4) True by (metis Suc_eq_plus1 Suc_leI le_neq_implies_less)
      with * True False j 1(3) show ?thesis by (subst dictRehash_skip.simps) simp
    qed
  next
    case False
    then have "dictRehash_skip t i ev = Some (False, i, ev)"
      using 1(2,3) by (simp add: dictRehash_skip.simps)
    with False 1(2,3) show ?thesis by (intro exI [of _ False] exI [of _ i] exI [of _ ev]) auto
  qed
qed

lemma dictRehash_move_ok:
  assumes "ht_live (dictHashKey d) (ht1 d)" "length c \<le> ht_used (ht0 d)"
    and "ht_used (ht0 d) + ht_used (ht1 d) \<le> DICT_MAX"
  shows "\<exists>t1. dictRehash_move d c = Some (d\<lparr>ht0 := (ht0 d)\<lparr>ht_used := ht_used (ht0 d) - length c\<rparr>, ht1 := t1\<rparr>) \<and>
     ht_live (dictHashKey d) t1 \<and> length (ht_table t1) = length (ht_table (ht1 d)) \<and>
     mset (concat (ht_table t1)) = mset c + mset (concat (ht_table (ht1 d)))"
  using assms
proof (induction c arbitrary: d)
  case Nil
  then show ?case by (auto intro!: exI [of _ "ht1 d"])
next
  case (Cons de des)
  let ?t = "ht1 d" and ?n = "length (ht_table (ht1 d))"
  let ?h = "dictHashKey d (fst de) AND ht_sizemask ?t"
  have h: "?h = dictHashKey d (fst de) mod ?n" "?h < ?n" using ht_live_idx [OF Cons.prems(1)] by simp_all
  let ?c = "ht_table ?t ! ?h"
  let ?t1 = "bucket_set ?t ?h (de # ?c)\<lparr>ht_used := Suc (ht_used ?t)\<rparr>"
  have m: "mset (concat (ht_table ?t1)) = add_mset de (mset (concat (ht_table ?t)))"
    using mset_concat_update [OF h(2), of "de # ?c"] by (simp add: bucket_set_def)
  have u: "ht_used ?t = length (concat (ht_table ?t))" using Cons.prems(1) by (simp add: ht_live_def)
  have live: "ht_live (dictHashKey d) ?t1"
  proof (rule ht_live_set [OF Cons.prems(1) h(2)])
    show "\<forall>e \<in> set (de # ?c). dictHashKey d (fst e) mod ?n = ?h"
      using h Cons.prems(1) by (simp add: ht_live_def)
    show "Suc (ht_used ?t) = length (concat ((ht_table ?t)[?h := de # ?c]))"
      using m u by (metis bucket_set_def dictht.select_convs(1) dictht.surjective dictht.update_convs(1,4) size_add_mset size_mset)
  qed
  let ?d = "d\<lparr>ht0 := (ht0 d)\<lparr>ht_used := ht_used (ht0 d) - 1\<rparr>, ht1 := ?t1\<rparr>"
  have step: "dictRehash_move d (de # des) = dictRehash_move ?d des"
    using h(2) Cons.prems(2,3)
    by (simp add: bucket_at_def Let_def ulong_inc_id ulong_dec_id DICT_MAX_def bucket_set_def)
  have "\<exists>t1. dictRehash_move ?d des = Some (?d\<lparr>ht0 := (ht0 ?d)\<lparr>ht_used := ht_used (ht0 ?d) - length des\<rparr>, ht1 := t1\<rparr>) \<and>
     ht_live (dictHashKey ?d) t1 \<and> length (ht_table t1) = length (ht_table (ht1 ?d)) \<and>
     mset (concat (ht_table t1)) = mset des + mset (concat (ht_table (ht1 ?d)))"
    using live Cons.prems(2,3) by (intro Cons.IH) simp_all
  then obtain t1 where t1: "dictRehash_move ?d des = Some (?d\<lparr>ht0 := (ht0 ?d)\<lparr>ht_used := ht_used (ht0 ?d) - length des\<rparr>, ht1 := t1\<rparr>)"
     "ht_live (dictHashKey ?d) t1" "length (ht_table t1) = length (ht_table (ht1 ?d))"
     "mset (concat (ht_table t1)) = mset des + mset (concat (ht_table (ht1 ?d)))" by blast
  show ?case
    using t1 m step by (intro exI [of _ t1]) (simp add: bucket_set_def)
qed

lemma dict_common_mset:
  assumes "dict_common d" "dict_type d' = dict_type d" "mset (dict_entries d') = mset (dict_entries d)"
  shows "dict_common d'" "dict_map d' = dict_map d"
proof -
  have "length (dict_entries d') = length (dict_entries d)" using assms(3) mset_eq_length by blast
  then show "dict_common d'" using assms distinct_keys_mset unfolding dict_common_def by metis
  show "dict_map d' = dict_map d"
    using assms emap_mset [of "dict_type d" "dict_entries d" "dict_entries d'"]
    by (simp add: dict_map_def dict_common_def)
qed

lemma ht_live_used: "ht_live hf t \<Longrightarrow> ht_used t = length (concat (ht_table t))"
  by (simp add: ht_live_def)

lemma rehash_state_nonempty:
  assumes "rehash_state d" "ht_used (ht0 d) \<noteq> 0"
  shows "\<exists>j. nat (rehashidx d) \<le> j \<and> j < length (ht_table (ht0 d)) \<and> ht_table (ht0 d) ! j \<noteq> []"
proof -
  have "concat (ht_table (ht0 d)) \<noteq> []"
    using assms ht_live_used unfolding rehash_state_def by fastforce
  then obtain c where "c \<in> set (ht_table (ht0 d))" "c \<noteq> []" by auto
  then obtain j where "j < length (ht_table (ht0 d))" "ht_table (ht0 d) ! j \<noteq> []"
    by (metis in_set_conv_nth)
  with assms show ?thesis unfolding rehash_state_def by (metis not_le)
qed

text \<open>One iteration of the outer loop of \<open>dictRehash\<close> on a non-empty old table.\<close>

lemma rehash_one_bucket:
  assumes "dict_common d" "rehash_state d" "i < length (ht_table (ht0 d))" "nat (rehashidx d) \<le> i"
    and "\<forall>l. nat (rehashidx d) \<le> l \<and> l < i \<longrightarrow> ht_table (ht0 d) ! l = []"
  obtains d1 d2 where "dictRehash_move d (ht_table (ht0 d) ! i) = Some d1"
    "d2 = d1\<lparr>ht0 := bucket_set (ht0 d1) i [], rehashidx := int i + 1\<rparr>"
    "rehash_state d2" "dict_type d2 = dict_type d" "iterators d2 = iterators d"
    "mset (dict_entries d2) = mset (dict_entries d)" "rehashidx d2 = int i + 1"
    "ht_size (ht0 d2) = ht_size (ht0 d)"
proof -
  let ?c = "ht_table (ht0 d) ! i" and ?hf = "dictHashKey d"
  have live: "ht_live ?hf (ht0 d)" "ht_live ?hf (ht1 d)" using assms(2) by (auto simp: rehash_state_def)
  note used = ht_live_used [OF live(1)] ht_live_used [OF live(2)]
  note lc = length_concat_update [OF assms(3), of "[]"] and mc = mset_concat_update [OF assms(3), of "[]"]
  have len: "length ?c \<le> ht_used (ht0 d)" using lc used by simp
  have max: "ht_used (ht0 d) + ht_used (ht1 d) \<le> DICT_MAX"
    using assms(1) used by (simp add: dict_common_def dict_entries_def)
  obtain t1 where t1: "dictRehash_move d ?c = Some (d\<lparr>ht0 := (ht0 d)\<lparr>ht_used := ht_used (ht0 d) - length ?c\<rparr>, ht1 := t1\<rparr>)"
     "ht_live ?hf t1" "mset (concat (ht_table t1)) = mset ?c + mset (concat (ht_table (ht1 d)))"
    using dictRehash_move_ok [OF live(2) len max] by blast
  let ?d1 = "d\<lparr>ht0 := (ht0 d)\<lparr>ht_used := ht_used (ht0 d) - length ?c\<rparr>, ht1 := t1\<rparr>"
  let ?d2 = "?d1\<lparr>ht0 := bucket_set (ht0 ?d1) i [], rehashidx := int i + 1\<rparr>"
  have "ht_live ?hf (bucket_set (ht0 d) i []\<lparr>ht_used := ht_used (ht0 d) - length ?c\<rparr>)"
    using live(1) assms(3) by (rule ht_live_set) (use lc used in auto)
  then have live0: "ht_live ?hf (ht0 ?d2)" by (cases "ht0 d") (simp add: bucket_set_def)
  have "ht_table (ht0 d) ! l = []" if "l < i" for l
    using assms(2,5) that unfolding rehash_state_def by (metis not_le)
  moreover have "ht_size (ht0 d) = length (ht_table (ht0 d))" using ht_live_idx(5) [OF live(1)] .
  ultimately have rs: "rehash_state ?d2"
    using live0 t1(2) assms(3) by (auto simp: rehash_state_def bucket_set_def nth_list_update nat_add_distrib less_Suc_eq)
  have "mset (dict_entries ?d2) = mset (dict_entries d)"
    using mc t1(3) by (simp add: dict_entries_def bucket_set_def)
  then show ?thesis by (intro that [OF t1(1) refl rs]) (simp_all add: bucket_set_def)
qed

lemma dictRehash_loop_ok:
  assumes "dict_common d" "rehash_state d"
  shows "\<exists>d' early. dictRehash_loop d n ev = Some (d', early) \<and> rehash_state d' \<and> dict_type d' = dict_type d \<and>
    iterators d' = iterators d \<and> mset (dict_entries d') = mset (dict_entries d) \<and> (early \<longrightarrow> ht_used (ht0 d') \<noteq> 0) \<and>
    ht_size (ht0 d') = ht_size (ht0 d) \<and> rehashidx d \<le> rehashidx d' \<and>
    (n \<noteq> 0 \<and> ht_used (ht0 d) \<noteq> 0 \<longrightarrow> rehashidx d < rehashidx d')"
  using assms
proof (induction n arbitrary: d ev)
  case 0
  then show ?case by (intro exI [of _ d] exI [of _ False]) simp
next
  case (Suc n)
  show ?case
  proof (cases "ht_used (ht0 d) = 0")
    case True
    with Suc.prems show ?thesis by (intro exI [of _ d] exI [of _ False]) simp
  next
    case False
    obtain j where j: "nat (rehashidx d) \<le> j" "j < length (ht_table (ht0 d))" "ht_table (ht0 d) ! j \<noteq> []"
      using rehash_state_nonempty [OF Suc.prems(2) False] by blast
    obtain stop i ev' where i: "dictRehash_skip (ht0 d) (nat (rehashidx d)) ev = Some (stop, i, ev')"
      "nat (rehashidx d) \<le> i" "i < length (ht_table (ht0 d))"
      "\<forall>l. nat (rehashidx d) \<le> l \<and> l < i \<longrightarrow> ht_table (ht0 d) ! l = []" "stop \<longrightarrow> nat (rehashidx d) < i"
      using dictRehash_skip_ok [OF j] by blast
    have r: "0 \<le> rehashidx d" "ht_live (dictHashKey d) (ht0 d)" using Suc.prems(2) by (auto simp: rehash_state_def)
    have len: "ht_size (ht0 d) = length (ht_table (ht0 d))" "length (ht_table (ht0 d)) \<le> 2 ^ 31"
      using ht_live_idx [OF r(2)] by auto
    have "cast_u 64 (rehashidx d) = nat (rehashidx d)"
      using r(1) i(2,3) len(2) by (intro cast_u_id) auto
    then have chk: "\<not> ht_size (ht0 d) \<le> cast_u 64 (rehashidx d)" using i(2,3) len by simp
    show ?thesis
    proof (cases stop)
      case True
      have "ht_table (ht0 d) ! l = []" if "l < i" for l
        using Suc.prems(2) i(4) that unfolding rehash_state_def by (metis not_le)
      then have "rehash_state (d\<lparr>rehashidx := int i\<rparr>)"
        using Suc.prems(2) i(3) len by (simp add: rehash_state_def)
      moreover have "rehashidx d < int i" using True i(5) r(1) by linarith
      ultimately show ?thesis using True False chk i(1)
        by (intro exI [of _ "d\<lparr>rehashidx := int i\<rparr>"] exI [of _ True]) (simp add: dict_entries_def)
    next
      case nostop: False
      obtain d1 d2 where d: "dictRehash_move d (ht_table (ht0 d) ! i) = Some d1"
        "d2 = d1\<lparr>ht0 := bucket_set (ht0 d1) i [], rehashidx := int i + 1\<rparr>"
        "rehash_state d2" "dict_type d2 = dict_type d" "iterators d2 = iterators d"
        "mset (dict_entries d2) = mset (dict_entries d)" "rehashidx d2 = int i + 1"
        "ht_size (ht0 d2) = ht_size (ht0 d)"
        using rehash_one_bucket [OF Suc.prems i(3,2,4)] .
      have lt: "rehashidx d < rehashidx d2" using i(2) r(1) d(7) by linarith
      have step: "dictRehash_loop d (Suc n) ev = dictRehash_loop d2 n ev'"
        using d(1,2) chk False nostop i(1,3) by (simp add: bucket_at_def)
      from Suc.IH [OF dict_common_mset(1) [OF Suc.prems(1) d(4,6)] d(3), of ev']
      obtain d' early where IH: "dictRehash_loop d2 n ev' = Some (d', early)" "rehash_state d'"
        "dict_type d' = dict_type d2" "iterators d' = iterators d2" "mset (dict_entries d') = mset (dict_entries d2)"
        "early \<longrightarrow> ht_used (ht0 d') \<noteq> 0" "ht_size (ht0 d') = ht_size (ht0 d2)" "rehashidx d2 \<le> rehashidx d'"
        by blast
      then show ?thesis unfolding step using d(4-6,8) lt
        by (intro exI [of _ d'] exI [of _ early]) simp
    qed
  qed
qed

text \<open>\<open>dict_same d d'\<close>: the same type and the same entries, up to their places.\<close>

definition dict_same :: "('k, 'v) dict \<Rightarrow> ('k, 'v) dict \<Rightarrow> bool" where
  "dict_same d d' \<longleftrightarrow> dict_type d' = dict_type d \<and> iterators d' = iterators d \<and>
     mset (dict_entries d') = mset (dict_entries d)"

lemma dict_same_refl [simp]: "dict_same d d"
  by (simp add: dict_same_def)

lemma dict_same_trans: "dict_same d d' \<Longrightarrow> dict_same d' d'' \<Longrightarrow> dict_same d d''"
  by (simp add: dict_same_def)

lemma dict_sameD:
  assumes "dict_same d d'" "dict_common d"
  shows "dict_common d'" "dict_map d' = dict_map d" "length (dict_entries d') = length (dict_entries d)"
    "set (dict_entries d') = set (dict_entries d)"
proof -
  show "dict_common d'" "dict_map d' = dict_map d"
    using assms dict_common_mset by (auto simp: dict_same_def)
  show "length (dict_entries d') = length (dict_entries d)" "set (dict_entries d') = set (dict_entries d)"
    using assms(1) unfolding dict_same_def by (metis mset_eq_length, metis mset_eq_setD)
qed

lemma dict_inv_common: "dict_inv d \<Longrightarrow> dict_common d"
  by (simp add: dict_inv_def)

lemma dictRehash_ok:
  assumes "dict_inv d"
  shows "\<exists>d' more. dictRehash d n = Some (d', more) \<and> dict_inv d' \<and> dict_same d d' \<and>
    more = dictIsRehashing d' \<and> (ht_live (dictHashKey d) (ht0 d) \<longrightarrow> ht_live (dictHashKey d') (ht0 d')) \<and>
    (more \<and> 0 < n \<longrightarrow> rehashidx d < rehashidx d' \<and> ht_size (ht0 d') = ht_size (ht0 d))"
proof (cases "dictIsRehashing d")
  case False
  with assms show ?thesis by (intro exI [of _ d] exI [of _ False]) (simp add: dictRehash_def)
next
  case True
  with assms have pre: "dict_common d" "rehash_state d" by (auto simp: dict_inv_def)
  from dictRehash_loop_ok [OF this, of n "int n * 10"]
  obtain d1 early where d1: "dictRehash_loop d n (int n * 10) = Some (d1, early)" "rehash_state d1"
    "dict_same d d1" "early \<longrightarrow> ht_used (ht0 d1) \<noteq> 0" "ht_size (ht0 d1) = ht_size (ht0 d)"
    "rehashidx d \<le> rehashidx d1"
    "n \<noteq> 0 \<and> ht_used (ht0 d) \<noteq> 0 \<longrightarrow> rehashidx d < rehashidx d1"
    unfolding dict_same_def by blast
  have live: "ht_live (dictHashKey d1) (ht0 d1)" "ht_live (dictHashKey d1) (ht1 d1)"
    using d1(2) by (auto simp: rehash_state_def)
  have common: "dict_common d1" using dict_sameD(1) d1(3) pre(1) by blast
  show ?thesis
  proof (cases "ht_used (ht0 d1) = 0")
    case emp: True
    let ?d = "d1\<lparr>ht0 := ht1 d1, ht1 := dictReset, rehashidx := - 1\<rparr>"
    have "concat (ht_table (ht0 d1)) = []" using ht_live_used [OF live(1)] emp by simp
    then have same: "dict_same d1 ?d" by (auto simp: dict_same_def dict_entries_def dictReset_def)
    have "dict_inv ?d" using live(2) dict_sameD(1) [OF same common] by (simp add: dict_inv_def dictIsRehashing_def)
    moreover have "dictRehash d n = Some (?d, False)"
      using True d1(1,4) emp by (simp add: dictRehash_def)
    ultimately show ?thesis using dict_same_trans [OF d1(3) same]
      by (intro exI [of _ ?d] exI [of _ False]) (simp add: dictIsRehashing_def live(2))
  next
    case more: False
    obtain j where "nat (rehashidx d1) \<le> j" "j < length (ht_table (ht0 d1))"
      using rehash_state_nonempty [OF d1(2) more] by blast
    then have lt: "rehashidx d1 < int (ht_size (ht0 d1))"
      using ht_live_idx(5) [OF live(1)] by linarith
    have re: "dictIsRehashing d1" using d1(2) by (auto simp: rehash_state_def dictIsRehashing_def)
    have inv: "dict_inv d1" using common d1(2) lt re by (simp add: dict_inv_def)
    have "ht_used (ht0 d) \<noteq> 0" if "0 < n"
    proof
      assume "ht_used (ht0 d) = 0"
      then have "dictRehash_loop d n (int n * 10) = Some (d, False)" using that by (cases n) simp_all
      with d1(1) more \<open>ht_used (ht0 d) = 0\<close> show False by simp
    qed
    with d1(5,7) re inv True d1(1,3) more live(1) show ?thesis
      by (intro exI [of _ d1] exI [of _ True]) (auto simp: dictRehash_def)
  qed
qed

lemma dictRehashStep_ok:
  assumes "dict_inv d"
  shows "\<exists>d'. dictRehashStep d = Some d' \<and> dict_inv d' \<and> dict_same d d' \<and>
    (ht_live (dictHashKey d) (ht0 d) \<longrightarrow> ht_live (dictHashKey d') (ht0 d'))"
proof (cases "iterators d = 0")
  case True
  from dictRehash_ok [OF assms, of 1] obtain d' more where
    "dictRehash d 1 = Some (d', more)" "dict_inv d'" "dict_same d d'"
    "ht_live (dictHashKey d) (ht0 d) \<longrightarrow> ht_live (dictHashKey d') (ht0 d')" by blast
  with True show ?thesis by (simp add: dictRehashStep_def)
qed (use assms in \<open>simp add: dictRehashStep_def\<close>)

lemma dictRehashMilliseconds_ok:
  assumes "dict_inv d"
  shows "\<exists>d' r. dictRehashMilliseconds clock j d ms rehashes = Some (d', r) \<and> dict_inv d' \<and> dict_same d d' \<and>
    ((\<forall>i. clock i \<le> ms) \<longrightarrow> \<not> dictIsRehashing d')"
  using assms
proof (induction "if dictIsRehashing d then ht_size (ht0 d) - nat (rehashidx d) else 0" arbitrary: d j rehashes rule: less_induct)
  case less
  from dictRehash_ok [OF less.prems, of 100] obtain d1 more where d1: "dictRehash d 100 = Some (d1, more)"
    "dict_inv d1" "dict_same d d1" "more = dictIsRehashing d1"
    "more \<longrightarrow> rehashidx d < rehashidx d1 \<and> ht_size (ht0 d1) = ht_size (ht0 d)" by auto
  show ?case
  proof (cases "more \<and> \<not> clock j > ms")
    case True
    then have "dictIsRehashing d" using d1(1) by (auto simp: dictRehash_def split: if_splits)
    then have "nat (rehashidx d) < ht_size (ht0 d)" "0 \<le> rehashidx d"
      using less.prems by (auto simp: dict_inv_def rehash_state_def)
    then have "ht_size (ht0 d1) - nat (rehashidx d1) < ht_size (ht0 d) - nat (rehashidx d)"
      using True d1(5) by auto
    then have "\<exists>d' r. dictRehashMilliseconds clock (j + 1) d1 ms (rehashes + 100) = Some (d', r) \<and> dict_inv d' \<and> dict_same d1 d' \<and>
        ((\<forall>i. clock i \<le> ms) \<longrightarrow> \<not> dictIsRehashing d')"
      using \<open>dictIsRehashing d\<close> d1(2,4) True by (intro less.hyps) auto
    then obtain d' r where "dictRehashMilliseconds clock (j + 1) d1 ms (rehashes + 100) = Some (d', r)" "dict_inv d'"
      "dict_same d1 d'" "(\<forall>i. clock i \<le> ms) \<longrightarrow> \<not> dictIsRehashing d'" by blast
    with True d1(1) dict_same_trans [OF d1(3)] show ?thesis
      by (intro exI [of _ d'] exI [of _ r]) (subst dictRehashMilliseconds.simps, simp)
  next
    case False
    then have "(\<forall>i. clock i \<le> ms) \<longrightarrow> \<not> more" by (auto simp: not_less)
    with d1 False show ?thesis by (subst dictRehashMilliseconds.simps) auto
  qed
qed

subsection \<open>Resizing\<close>

lemma dictNextPower_loop_ok:
  assumes "j \<le> m" "sz \<le> 2 ^ m"
  shows "\<exists>k. j \<le> k \<and> k \<le> m \<and> dictNextPower_loop (2 ^ j) sz = Some (2 ^ k) \<and> sz \<le> 2 ^ k \<and>
     (k = j \<or> 2 ^ (k - 1) < sz)"
  using assms
proof (induction "m - j" arbitrary: j)
  case 0
  then show ?case by (subst dictNextPower_loop.simps) auto
next
  case (Suc n)
  show ?case
  proof (cases "sz \<le> 2 ^ j")
    case True
    with Suc.prems show ?thesis by (subst dictNextPower_loop.simps) auto
  next
    case False
    have "\<exists>k. Suc j \<le> k \<and> k \<le> m \<and> dictNextPower_loop (2 ^ Suc j) sz = Some (2 ^ k) \<and> sz \<le> 2 ^ k \<and>
       (k = Suc j \<or> 2 ^ (k - 1) < sz)"
      using Suc.hyps(2) Suc.prems by (intro Suc.hyps(1)) auto
    then obtain k where k: "Suc j \<le> k" "k \<le> m" "dictNextPower_loop (2 ^ Suc j) sz = Some (2 ^ k)" "sz \<le> 2 ^ k"
       "k = Suc j \<or> 2 ^ (k - 1) < sz" by blast
    have "dictNextPower_loop (2 ^ j) sz = Some (2 ^ k)"
      using k(3) False by (subst dictNextPower_loop.simps) (simp add: mult.commute)
    with k False show ?thesis by (intro exI [of _ k]) auto
  qed
qed

lemma dictNextPower_ok:
  assumes "sz \<le> 2 ^ m" "2 \<le> m" "m \<le> 62"
  shows "\<exists>k. 2 \<le> k \<and> k \<le> m \<and> dictNextPower sz = Some (2 ^ k) \<and> sz \<le> 2 ^ k \<and> (k = 2 \<or> 2 ^ (k - 1) < sz)"
proof -
  have "(2::nat) ^ m \<le> 2 ^ 62" using assms(3) by (meson one_le_numeral power_increasing)
  then have "\<not> sz \<ge> LONG_MAX" using assms(1) by (simp add: LONG_MAX_def)
  with dictNextPower_loop_ok [OF assms(2,1)] show ?thesis
    by (simp add: dictNextPower_def DICT_HT_INITIAL_SIZE_def)
qed

lemma ht_live_new:
  assumes "2 \<le> k" "k \<le> 31"
  shows "ht_live hf \<lparr>ht_table = replicate (2 ^ k) [], ht_size = 2 ^ k, ht_sizemask = 2 ^ k - 1, ht_used = 0\<rparr>"
  using assms by (auto simp: ht_live_def)

lemma dictExpand_ok:
  fixes d :: "('k, 'v) dict"
  assumes "dict_inv d" "sz \<le> 2 ^ 31"
  obtains d' ok where "dictExpand d sz = Some (d', ok)" "dict_inv d'" "dict_same d d'"
    "ok \<longrightarrow> ht_live (dictHashKey d') (ht0 d')"
    "ok \<longleftrightarrow> \<not> dictIsRehashing d \<and> ht_used (ht0 d) \<le> sz \<and> the (dictNextPower sz) \<noteq> ht_size (ht0 d)"
proof -
  obtain k where k: "2 \<le> k" "k \<le> 31" "dictNextPower sz = Some (2 ^ k)"
    using dictNextPower_ok [OF assms(2)] by auto
  let ?n = "\<lparr>ht_table = replicate (2 ^ k) [], ht_size = 2 ^ k, ht_sizemask = 2 ^ k - 1, ht_used = 0\<rparr> :: ('k, 'v) dictht"
  have live: "ht_live (dictHashKey d) ?n" using k(1,2) by (rule ht_live_new)
  show ?thesis
  proof (cases "\<not> dictIsRehashing d \<and> ht_used (ht0 d) \<le> sz \<and> 2 ^ k \<noteq> ht_size (ht0 d)")
    case False
    then have "dictExpand d sz = Some (d, False)" using k(3) by (auto simp: dictExpand_def)
    then show ?thesis using assms(1) False k(3) by (intro that) auto
  next
    case True
    have st: "ht1 d = dictReset" "ht0 d = dictReset \<or> ht_live (dictHashKey d) (ht0 d)" "rehashidx d = - 1"
      using assms(1) True by (auto simp: dict_inv_def dictIsRehashing_def)
    show ?thesis
    proof (cases "ht_table (ht0 d) = []")
      case emp: True
      let ?d = "d\<lparr>ht0 := ?n\<rparr>"
      have same: "dict_same d ?d" using emp by (simp add: dict_same_def dict_entries_def)
      have "dict_inv ?d" using st dict_sameD(1) [OF same] assms(1) live
        by (simp add: dict_inv_def dictIsRehashing_def)
      moreover have "dictExpand d sz = Some (?d, True)" using True emp k(3) by (simp add: dictExpand_def Let_def)
      ultimately show ?thesis using same live True k(3) by (intro that [of ?d True]) auto
    next
      case nemp: False
      let ?d = "d\<lparr>ht1 := ?n, rehashidx := 0\<rparr>"
      have live0: "ht_live (dictHashKey d) (ht0 d)" using st nemp by (auto simp: dictReset_def)
      have same: "dict_same d ?d" using st by (simp add: dict_same_def dict_entries_def dictReset_def)
      have "dict_inv ?d" using live0 dict_sameD(1) [OF same] assms(1) live ht_live_idx [OF live0]
        by (auto simp: dict_inv_def dictIsRehashing_def rehash_state_def)
      moreover have "dictExpand d sz = Some (?d, True)" using True nemp k(3) by (simp add: dictExpand_def Let_def)
      ultimately show ?thesis using same live0 True k(3) by (intro that [of ?d True]) auto
    qed
  qed
qed

lemma dictExpandIfNeeded_ok:
  assumes "dict_inv d"
  shows "\<exists>d'. dictExpandIfNeeded can_resize d = Some (d', True) \<and> dict_inv d' \<and> dict_same d d' \<and>
    ht_live (dictHashKey d') (ht0 d')"
proof (cases "dictIsRehashing d")
  case True
  with assms show ?thesis by (auto simp: dictExpandIfNeeded_def dict_inv_def rehash_state_def)
next
  case re: False
  show ?thesis
  proof (cases "ht_size (ht0 d) = 0")
    case True
    then have "ht0 d = dictReset"
      using assms re ht_live_idx(3,5) by (fastforce simp: dict_inv_def)
    moreover obtain d' ok where *: "dictExpand d DICT_HT_INITIAL_SIZE = Some (d', ok)" "dict_inv d'" "dict_same d d'"
      "ok \<longrightarrow> ht_live (dictHashKey d') (ht0 d')"
      "ok \<longleftrightarrow> \<not> dictIsRehashing d \<and> ht_used (ht0 d) \<le> DICT_HT_INITIAL_SIZE \<and>
         the (dictNextPower DICT_HT_INITIAL_SIZE) \<noteq> ht_size (ht0 d)"
      using assms by (rule dictExpand_ok [of d DICT_HT_INITIAL_SIZE]) (simp add: DICT_HT_INITIAL_SIZE_def)
    moreover obtain k where "dictNextPower DICT_HT_INITIAL_SIZE = Some (2 ^ k)"
      using dictNextPower_ok [of DICT_HT_INITIAL_SIZE 2] by (auto simp: DICT_HT_INITIAL_SIZE_def)
    ultimately show ?thesis using re True by (auto simp: dictExpandIfNeeded_def dictReset_def)
  next
    case False
    then have live: "ht_live (dictHashKey d) (ht0 d)" "ht1 d = dictReset"
      using assms re by (auto simp: dict_inv_def dictReset_def)
    let ?u = "ht_used (ht0 d)" and ?s = "ht_size (ht0 d)"
    have u: "?u \<le> DICT_MAX"
      using assms ht_live_used [OF live(1)] by (auto simp: dict_inv_def dict_common_def dict_entries_def)
    then have c: "cast_u 64 (int ?u * 2) = ?u * 2"
      using cast_u_id [of "int ?u * 2" 64] by (simp add: DICT_MAX_def)
    show ?thesis
    proof (cases "?u \<ge> ?s \<and> (can_resize \<or> ?u div ?s > dict_force_resize_ratio)")
      case exp: True
      obtain d' ok where *: "dictExpand d (?u * 2) = Some (d', ok)" "dict_inv d'" "dict_same d d'"
        "ok \<longrightarrow> ht_live (dictHashKey d') (ht0 d')"
        "ok \<longleftrightarrow> \<not> dictIsRehashing d \<and> ?u \<le> ?u * 2 \<and> the (dictNextPower (?u * 2)) \<noteq> ?s"
        using assms by (rule dictExpand_ok [of d "?u * 2"]) (use u in \<open>simp add: DICT_MAX_def\<close>)
      obtain k where "dictNextPower (?u * 2) = Some (2 ^ k)" "?u * 2 \<le> 2 ^ k"
        using dictNextPower_ok [of "?u * 2" 31] u by (auto simp: DICT_MAX_def)
      with * re exp False have ok by auto
      with * re exp False c show ?thesis by (auto simp: dictExpandIfNeeded_def)
    next
      case nexp: False
      have "dictExpandIfNeeded can_resize d = Some (d, True)"
        using False re nexp by (auto simp: dictExpandIfNeeded_def)
      then show ?thesis using assms live by auto
    qed
  qed
qed

subsection \<open>Searching\<close>

lemma chain_find_None: "chain_find ty key c = None \<longleftrightarrow> (\<forall>e \<in> set c. \<not> key_match ty key (fst e))"
  by (induction c) auto

lemma chain_find_Some: "chain_find ty key c = Some p \<Longrightarrow> p < length c \<and> key_match ty key (fst (c ! p))"
  by (induction c arbitrary: p) (auto split: if_splits)

text \<open>A valid entry pointer, and the entry it points to.\<close>

definition ptr_valid :: "('k, 'v) dict \<Rightarrow> entry_ptr \<Rightarrow> bool" where
  "ptr_valid d = (\<lambda>(table, i, p). table \<le> 1 \<and> i < length (ht_table (ht_at d table)) \<and>
     p < length (ht_table (ht_at d table) ! i) \<and> ht_live (dictHashKey d) (ht_at d table))"

definition ptr_entry :: "('k, 'v) dict \<Rightarrow> entry_ptr \<Rightarrow> ('k, 'v) dictEntry" where
  "ptr_entry d = (\<lambda>(table, i, p). ht_table (ht_at d table) ! i ! p)"

lemma ptr_valid_entry_at: "ptr_valid d p \<Longrightarrow> entry_at d p = Some (ptr_entry d p)"
  by (auto simp: ptr_valid_def entry_at_def ptr_entry_def bucket_at_def split: prod.splits)

lemma in_concat_nth: "x \<in> set (concat xs) \<longleftrightarrow> (\<exists>i < length xs. x \<in> set (xs ! i))"
  by (metis (no_types, lifting) UN_iff in_set_conv_nth set_concat)

lemma ptr_entry_in: "ptr_valid d p \<Longrightarrow> ptr_entry d p \<in> set (dict_entries d)"
  by (auto simp: ptr_valid_def ptr_entry_def dict_entries_def ht_at_def in_concat_nth simp del: set_concat
        split: prod.splits if_splits)

lemma live_no_match:
  assumes "ht_live (dictHashKey d) t" "dictType_ok (dict_type d)"
    and "\<forall>e \<in> set (ht_table t ! (dictHashKey d key mod length (ht_table t))). \<not> key_match (dict_type d) key (fst e)"
  shows "\<forall>e \<in> set (concat (ht_table t)). \<not> key_match (dict_type d) key (fst e)"
proof
  fix e assume "e \<in> set (concat (ht_table t))"
  then obtain i where i: "i < length (ht_table t)" "e \<in> set (ht_table t ! i)"
    by (auto simp: in_concat_nth simp del: set_concat)
  then have "dictHashKey d (fst e) mod length (ht_table t) = i" using assms(1) by (simp add: ht_live_def)
  moreover have "dictHashKey d (fst e) = dictHashKey d key" if "key_match (dict_type d) key (fst e)"
    using dictType_okD(2) [OF assms(2) that] by (simp add: dictHashKey_def)
  ultimately show "\<not> key_match (dict_type d) key (fst e)" using i(2) assms(3) by auto
qed

lemma dict_search_ok:
  assumes "dict_inv d" "ht_live (dictHashKey d) (ht0 d)"
  shows "\<exists>r. dict_search d key = Some r \<and>
    (case r of None \<Rightarrow> \<forall>e \<in> set (dict_entries d). \<not> key_match (dict_type d) key (fst e)
     | Some p \<Rightarrow> ptr_valid d p \<and> key_match (dict_type d) key (fst (ptr_entry d p)))"
proof -
  have ty: "dictType_ok (dict_type d)" using assms(1) by (simp add: dict_inv_def dict_common_def)
  have ix: "dict_idx d key j = dictHashKey d key mod length (ht_table (ht_at d j))" 
       "dict_idx d key j < length (ht_table (ht_at d j))" if "ht_live (dictHashKey d) (ht_at d j)" for j
    using ht_live_idx [OF that] by (simp_all add: dict_idx_def)
  have l0: "ht_live (dictHashKey d) (ht_at d 0)" using assms(2) by (simp add: ht_at_def)
  let ?c0 = "ht_table (ht_at d 0) ! dict_idx d key 0" and ?c1 = "ht_table (ht_at d 1) ! dict_idx d key 1"
  show ?thesis
  proof (cases "chain_find (dict_type d) key ?c0")
    case (Some p)
    with chain_find_Some [OF Some] ix [OF l0] l0 show ?thesis
      by (auto simp: dict_search_def bucket_at_def ptr_valid_def ptr_entry_def)
  next
    case None
    then have no0: "\<forall>e \<in> set (concat (ht_table (ht0 d))). \<not> key_match (dict_type d) key (fst e)"
      using live_no_match [OF assms(2) ty] ix(1) [OF l0] by (simp add: chain_find_None ht_at_def)
    show ?thesis
    proof (cases "dictIsRehashing d")
      case False
      then have "ht1 d = dictReset" using assms(1) by (simp add: dict_inv_def)
      with None False no0 ix(2) [OF l0] show ?thesis
        by (auto simp: dict_search_def bucket_at_def dict_entries_def dictReset_def)
    next
      case True
      then have l1: "ht_live (dictHashKey d) (ht_at d 1)" 
        using assms(1) by (simp add: dict_inv_def rehash_state_def ht_at_def)
      show ?thesis
      proof (cases "chain_find (dict_type d) key ?c1")
        case (Some p)
        with None True chain_find_Some [OF Some] ix(2) [OF l0] ix [OF l1] l1 show ?thesis
          by (auto simp: dict_search_def bucket_at_def ptr_valid_def ptr_entry_def)
      next
        case no1: None
        then have "\<forall>e \<in> set (concat (ht_table (ht1 d))). \<not> key_match (dict_type d) key (fst e)"
          using live_no_match [of d "ht1 d" key] l1 ty ix(1) [OF l1] by (simp add: chain_find_None ht_at_def)
        with None True no0 no1 ix(2) [OF l0] ix(2) [OF l1] show ?thesis
          by (auto simp: dict_search_def bucket_at_def dict_entries_def)
      qed
    qed
  qed
qed

lemma dictFind_ok:
  assumes "dict_inv d"
  shows "\<exists>r. dictFind d key = Some r \<and>
    (case r of None \<Rightarrow> dict_map d key = None
     | Some p \<Rightarrow> ptr_valid d p \<and> key_match (dict_type d) key (fst (ptr_entry d p)) \<and>
         dict_map d key = Some (snd (ptr_entry d p)))"
proof (cases "dictSize d = 0")
  case True
  have "dict_entries d = []"
    using assms True ht_live_used [of "dictHashKey d" "ht0 d"] ht_live_used [of "dictHashKey d" "ht1 d"]
    by (auto simp: dict_inv_def dictSize_def dict_entries_def rehash_state_def dictReset_def split: if_splits)
  with True show ?thesis by (auto simp: dictFind_def dictSize_def dict_map_def emap_None)
next
  case False
  then have "ht_live (dictHashKey d) (ht0 d)"
    using assms by (auto simp: dict_inv_def rehash_state_def dictSize_def dictReset_def split: if_splits)
  from dict_search_ok [OF assms this, of key] obtain r where r: "dict_search d key = Some r"
    "case r of None \<Rightarrow> \<forall>e \<in> set (dict_entries d). \<not> key_match (dict_type d) key (fst e)
     | Some p \<Rightarrow> ptr_valid d p \<and> key_match (dict_type d) key (fst (ptr_entry d p))" by blast
  have "dictType_ok (dict_type d)" "distinct_keys (dict_type d) (dict_entries d)"
    using assms by (auto simp: dict_inv_def dict_common_def)
  note some = emap_Some [OF this]
  show ?thesis
  proof (cases r)
    case (Some p)
    with r ptr_entry_in [of d p] have "dict_map d key = Some (snd (ptr_entry d p))"
      unfolding dict_map_def some by (cases "ptr_entry d p") auto
    with Some r False show ?thesis by (auto simp: dictFind_def dictSize_def)
  qed (use r False in \<open>auto simp: dictFind_def dictSize_def dict_map_def emap_None\<close>)
qed

lemma dictFetchValue_ok: 
  assumes "dict_inv d"
  shows "dictFetchValue d key = Some (dict_map d key)"
proof -
  obtain r where "dictFind d key = Some r" "case r of None \<Rightarrow> dict_map d key = None
     | Some p \<Rightarrow> ptr_valid d p \<and> key_match (dict_type d) key (fst (ptr_entry d p)) \<and>
         dict_map d key = Some (snd (ptr_entry d p))" 
    using dictFind_ok [OF assms] by blast
  then show ?thesis by (cases r) (simp_all add: dictFetchValue_def ptr_valid_entry_at)
qed

subsection \<open>Updates\<close>

text \<open>Replace one chain of one table.\<close>

definition put_chain :: "('k, 'v) dict \<Rightarrow> nat \<Rightarrow> nat \<Rightarrow> ('k, 'v) dictEntry list \<Rightarrow> nat \<Rightarrow> ('k, 'v) dict" where
  "put_chain d table i c u = ht_put d table (bucket_set (ht_at d table) i c\<lparr>ht_used := u\<rparr>)"

lemma put_chain_simps [simp]:
  "dict_type (put_chain d table i c u) = dict_type d" "iterators (put_chain d table i c u) = iterators d"
  "rehashidx (put_chain d table i c u) = rehashidx d"
  "dictHashKey (put_chain d table i c u) = dictHashKey d"
  "dictIsRehashing (put_chain d table i c u) = dictIsRehashing d"
  by (simp_all add: put_chain_def ht_put_def dictIsRehashing_def)

lemma put_chain_mset:
  assumes "i < length (ht_table (ht_at d table))"
  shows "mset (dict_entries (put_chain d table i c u)) + mset (ht_table (ht_at d table) ! i) =
     mset (dict_entries d) + mset c"
  using assms mset_concat_update [OF assms, of c]
  by (auto simp: put_chain_def ht_put_def ht_at_def bucket_set_def dict_entries_def ac_simps split: if_splits)

lemma put_chain_tables:
  "ht0 (put_chain d table i c u) = (if table = 0 then bucket_set (ht_at d table) i c\<lparr>ht_used := u\<rparr> else ht0 d)"
  "ht1 (put_chain d table i c u) = (if table = 0 then ht1 d else bucket_set (ht_at d table) i c\<lparr>ht_used := u\<rparr>)"
  by (simp_all add: put_chain_def ht_put_def)

lemma put_chain_inv:
  assumes "dict_inv d" "ht_live (dictHashKey d) (ht_at d table)" "i < length (ht_table (ht_at d table))"
    and "table = 0 \<or> dictIsRehashing d" "\<forall>e \<in> set c. dictHashKey d (fst e) mod length (ht_table (ht_at d table)) = i"
    and "u = length (concat ((ht_table (ht_at d table))[i := c]))"
    and "table = 0 \<and> dictIsRehashing d \<and> ht_table (ht_at d table) ! i = [] \<longrightarrow> c = []"
    and "dict_common (put_chain d table i c u)"
  shows "dict_inv (put_chain d table i c u)"
proof -
  let ?t = "bucket_set (ht_at d table) i c\<lparr>ht_used := u\<rparr>"
  have live: "ht_live (dictHashKey d) ?t" by (rule ht_live_set [OF assms(2,3,5,6)])
  show ?thesis
  proof (cases "dictIsRehashing d")
    case True
    then have rs: "rehash_state d" "rehashidx d < int (ht_size (ht0 d))" using assms(1) by (auto simp: dict_inv_def)
    have sz: "ht_size (ht0 (put_chain d table i c u)) = ht_size (ht0 d)"
      by (simp add: put_chain_tables bucket_set_def ht_at_def)
    have "ht_table (ht0 (put_chain d table i c u)) ! l = []" if "l < nat (rehashidx d)" for l
    proof -
      have "ht_table (ht0 d) ! l = []" using rs(1) that by (simp add: rehash_state_def)
      then show ?thesis using assms(3,7) True
        by (auto simp: put_chain_tables bucket_set_def ht_at_def nth_list_update split: if_splits)
    qed
    then have "rehash_state (put_chain d table i c u)"
      using rs(1) live sz unfolding rehash_state_def by (cases "table = 0") (simp_all add: put_chain_tables)
    with rs(2) sz True assms(8) show ?thesis by (simp add: dict_inv_def)
  next
    case False
    with assms(1,4,8) live show ?thesis by (simp add: dict_inv_def put_chain_tables)
  qed
qed

lemma ptr_valid_rehashing:
  assumes "dict_inv d" "ptr_valid d (table, i, p)"
  shows "table = 0 \<or> dictIsRehashing d"
  using assms by (auto simp: dict_inv_def ptr_valid_def ht_at_def dictReset_def split: if_splits)

lemma live_chain_hash:
  "ht_live hf t \<Longrightarrow> i < length (ht_table t) \<Longrightarrow> e \<in> set (ht_table t ! i) \<Longrightarrow> hf (fst e) mod length (ht_table t) = i"
  by (simp add: ht_live_def)

lemma dict_common_keys:
  assumes "dict_common d" "dict_type d' = dict_type d" "length (dict_entries d') \<le> DICT_MAX"
    "distinct_keys (dict_type d) (dict_entries d')"
  shows "dict_common d'"
  using assms by (simp add: dict_common_def)

lemma entry_set_val_ok:
  assumes "dict_inv d" "ptr_valid d q" "key_match (dict_type d) key (fst (ptr_entry d q))"
  obtains d' where "entry_set_val d q v = Some d'" "dict_inv d'"
    "dict_map d' = map_upd (key_match (dict_type d)) (dict_map d) key (Some v)"
    "dict_type d' = dict_type d" "length (dict_entries d') = length (dict_entries d)"
proof -
  obtain table i p where q: "q = (table, i, p)" by (cases q)
  let ?t = "ht_at d table"
  let ?c = "ht_table ?t ! i"
  let ?e = "?c ! p" and ?c' = "?c[p := (fst (?c ! p), v)]" and ?ty = "dict_type d"
  have v: "table \<le> 1" "i < length (ht_table ?t)" "p < length ?c" "ht_live (dictHashKey d) ?t"
    using assms(2) by (auto simp: ptr_valid_def q)
  let ?d = "put_chain d table i ?c' (ht_used ?t)"
  have run: "entry_set_val d q v = Some ?d"
    using v by (simp add: q entry_set_val_def bucket_at_def put_chain_def bucket_set_def)
  have m: "mset ?c = add_mset ?e (mset ?c - {#?e#})" using v(3) by simp
  have "mset (dict_entries ?d) + mset ?c = mset (dict_entries d) + mset ?c'" using put_chain_mset [OF v(2)] .
  then have "mset (dict_entries ?d) + add_mset ?e (mset ?c - {#?e#}) =
     mset (dict_entries d) + add_mset (fst ?e, v) (mset ?c - {#?e#})"
    using m v(3) by (simp add: mset_update)
  then have m1: "add_mset ?e (mset (dict_entries ?d)) = add_mset (fst ?e, v) (mset (dict_entries d))"
    by simp
  have ty: "dictType_ok ?ty" "distinct_keys ?ty (dict_entries d)" using assms(1) by (auto simp: dict_inv_def dict_common_def)
  have "?e \<in> set (dict_entries d)" using ptr_entry_in [OF assms(2)] by (simp add: q ptr_entry_def)
  then obtain es where es: "mset (dict_entries d) = add_mset ?e (mset es)"
    by (metis ex_mset insert_DiffM set_mset_mset)
  have km: "key_match ?ty key (fst ?e)" using assms(3) by (simp add: q ptr_entry_def)
  note del = emap_delete [OF ty es km]
  have m2: "mset (dict_entries ?d) = add_mset (fst ?e, v) (mset es)" using m1 es by simp
  have no: "\<forall>e \<in> set es. \<not> key_match ?ty key (fst e)"
    using del(2) emap_None [of ?ty es key] by (auto simp: map_upd_def)
  note ins = emap_insert [OF ty(1) no del(1) dictType_okD(1) [OF ty(1) km] m2]
  have len: "length (dict_entries ?d) = length (dict_entries d)" 
    using arg_cong [OF m2, of size] arg_cong [OF es, of size] by simp
  have "dict_common ?d"
    using assms(1) len ins(1) by (simp add: dict_inv_def dict_common_def)
  moreover have "\<forall>e \<in> set ?c'. dictHashKey d (fst e) mod length (ht_table ?t) = i"
  proof
    fix e assume "e \<in> set ?c'"
    then have "e = (fst ?e, v) \<or> e \<in> set ?c" using set_update_subset_insert [of ?c p] by auto
    then show "dictHashKey d (fst e) mod length (ht_table ?t) = i"
      using live_chain_hash [OF v(4,2)] nth_mem [OF v(3)] by (metis fst_conv)
  qed
  moreover have "ht_used ?t = length (concat ((ht_table ?t)[i := ?c']))"
    using length_concat_update [OF v(2), of ?c'] ht_live_used [OF v(4)] by simp
  ultimately have "dict_inv ?d"
    using v ptr_valid_rehashing [of d table i p] assms(1,2) by (intro put_chain_inv) (auto simp: q)
  moreover have "dict_map ?d = map_upd (key_match ?ty) (dict_map d) key (Some v)"
    using ins(2) del(2) by (auto simp: dict_map_def map_upd_def fun_eq_iff)
  ultimately show ?thesis using that [OF run] len by simp
qed

text \<open>Unlinking the entry at a valid pointer.\<close>

lemma unlink_ok:
  assumes "dict_inv d" "ptr_valid d (table, i, p)"
    and "key_match (dict_type d) key (fst (ptr_entry d (table, i, p)))"
  defines "c \<equiv> ht_table (ht_at d table) ! i"
  defines "d' \<equiv> put_chain d table i (take p c @ drop (p + 1) c) (ht_used (ht_at d table) - 1)"
  shows "dict_inv d'" "dict_map d' = map_upd (key_match (dict_type d)) (dict_map d) key None"
    "dict_map d key = Some (snd (c ! p))" "Suc (length (dict_entries d')) = length (dict_entries d)"
    "0 < ht_used (ht_at d table)"
proof -
  let ?t = "ht_at d table" and ?ty = "dict_type d" and ?c' = "take p c @ drop (p + 1) c"
  have v: "i < length (ht_table ?t)" "p < length c" "ht_live (dictHashKey d) ?t"
    using assms(2) by (auto simp: ptr_valid_def c_def)
  have m: "mset c = add_mset (c ! p) (mset ?c')" using id_take_nth_drop [OF v(2)]
    by (metis Suc_eq_plus1 add_mset_add_single mset.simps(2) mset_append union_mset_add_mset_right)
  have "mset (dict_entries d') + mset c = mset (dict_entries d) + mset ?c'"
    unfolding d'_def c_def by (rule put_chain_mset [OF v(1)])
  then have m1: "mset (dict_entries d) = add_mset (c ! p) (mset (dict_entries d'))" using m by simp
  have ty: "dictType_ok ?ty" "distinct_keys ?ty (dict_entries d)" using assms(1) by (auto simp: dict_inv_def dict_common_def)
  have km: "key_match ?ty key (fst (c ! p))" using assms(3) by (simp add: ptr_entry_def c_def)
  note del = emap_delete [OF ty m1 km]
  show map: "dict_map d' = map_upd (key_match ?ty) (dict_map d) key None"
    using del(2) by (simp add: dict_map_def d'_def)
  have "c ! p \<in> set (dict_entries d)" using ptr_entry_in [OF assms(2)] by (simp add: ptr_entry_def c_def)
  then show "dict_map d key = Some (snd (c ! p))"
    unfolding dict_map_def emap_Some [OF ty] using km by (intro exI [of _ "fst (c ! p)"]) simp
  show len: "Suc (length (dict_entries d')) = length (dict_entries d)"
    using arg_cong [OF m1, of size] by simp
  have lc: "length (concat ((ht_table ?t)[i := ?c'])) + length c = length (concat (ht_table ?t)) + length ?c'"
    unfolding c_def by (rule length_concat_update [OF v(1)])
  have "c ! p \<in> set (concat (ht_table ?t))"
    using v(1) nth_mem [OF v(2)] unfolding c_def in_concat_nth by blast
  then show "0 < ht_used ?t" unfolding ht_live_used [OF v(3)] by (rule length_pos_if_in_set)
  have "dict_common d'" using assms(1) len del(1) by (simp add: dict_inv_def dict_common_def d'_def)
  moreover have "\<forall>e \<in> set ?c'. dictHashKey d (fst e) mod length (ht_table ?t) = i"
    using live_chain_hash [OF v(3,1)] unfolding c_def by (metis Un_iff in_set_dropD in_set_takeD set_append)
  moreover have "ht_used ?t - 1 = length (concat ((ht_table ?t)[i := ?c']))"
    using lc ht_live_used [OF v(3)] v(2) by simp
  ultimately show "dict_inv d'" unfolding d'_def
    using assms(1) v ptr_valid_rehashing [OF assms(1,2)] by (intro put_chain_inv) (auto simp: c_def)
qed

lemma rehash_first:
  assumes "dict_inv d"
  obtains d1 where "(if dictIsRehashing d then dictRehashStep d else Some d) = Some d1" "dict_inv d1"
    "dict_type d1 = dict_type d" "dict_map d1 = dict_map d" "length (dict_entries d1) = length (dict_entries d)"
    "ht_live (dictHashKey d) (ht0 d) \<Longrightarrow> ht_live (dictHashKey d1) (ht0 d1)"
proof (cases "dictIsRehashing d")
  case True
  obtain d1 where d1: "dictRehashStep d = Some d1" "dict_inv d1" "dict_same d d1"
     "ht_live (dictHashKey d) (ht0 d) \<longrightarrow> ht_live (dictHashKey d1) (ht0 d1)"
    using dictRehashStep_ok [OF assms] by blast
  with True dict_sameD [OF d1(3) dict_inv_common [OF assms]] show ?thesis
    by (intro that [of d1]) (auto simp: dict_same_def)
qed (use assms in \<open>auto intro: that\<close>)

lemma dictGenericDelete_ok:
  assumes "dict_inv d"
  obtains d' e where "dictGenericDelete d key = Some (d', e)" "dict_inv d'" "dict_type d' = dict_type d"
    "dict_map d' = map_upd (key_match (dict_type d)) (dict_map d) key None"
    "dict_map d key = map_option snd e" "length (dict_entries d') \<le> length (dict_entries d)"
proof (cases "ht0 d = dictReset")
  case True
  then have "dict_entries d = []"
    using assms ht_live_idx(3) [of "dictHashKey d" "dictReset"]
    by (auto simp: dict_inv_def dict_entries_def rehash_state_def dictReset_def split: if_splits)
  then have "dict_map d = (\<lambda>_. None)" by (simp add: dict_map_def emap_None fun_eq_iff)
  with True assms show ?thesis
    by (intro that [of d None]) (auto simp: dictGenericDelete_def map_upd_def fun_eq_iff dictReset_def)
next
  case False
  then have live: "ht_live (dictHashKey d) (ht0 d)" using assms by (auto simp: dict_inv_def rehash_state_def split: if_splits)
  have sz: "ht_size (ht0 d) \<noteq> 0" using ht_live_idx(3,5) [OF live] by linarith
  obtain d1 where d1: "(if dictIsRehashing d then dictRehashStep d else Some d) = Some d1" "dict_inv d1"
    "dict_type d1 = dict_type d" "dict_map d1 = dict_map d" "length (dict_entries d1) = length (dict_entries d)"
    "ht_live (dictHashKey d1) (ht0 d1)"
    using rehash_first [OF assms] live by metis
  obtain r where r: "dict_search d1 key = Some r"
    "case r of None \<Rightarrow> \<forall>e \<in> set (dict_entries d1). \<not> key_match (dict_type d1) key (fst e)
     | Some p \<Rightarrow> ptr_valid d1 p \<and> key_match (dict_type d1) key (fst (ptr_entry d1 p))"
    using dict_search_ok [OF d1(2,6)] by blast
  show ?thesis
  proof (cases r)
    case None
    have ok: "dictType_ok (dict_type d1)" using d1(2) by (simp add: dict_inv_def dict_common_def)
    have no: "dict_map d1 key' = None" if "key_match (dict_type d1) key key'" for key'
      unfolding dict_map_def emap_None using r(2) None dictType_okD(3) [OF ok that] by auto
    have "dictGenericDelete d key = Some (d1, None)" using sz d1(1) r(1) None by (simp add: dictGenericDelete_def)
    then show ?thesis using that d1 no by (auto simp: map_upd_def fun_eq_iff)
  next
    case (Some q)
    obtain table i p where q: "q = (table, i, p)" by (cases q)
    have pv: "ptr_valid d1 (table, i, p)" "key_match (dict_type d1) key (fst (ptr_entry d1 (table, i, p)))"
      using r(2) Some q by auto
    note u = unlink_ok [OF d1(2) pv]
    let ?t = "ht_at d1 table"
    have "ht_used ?t < 2 ^ 63"
      using pv(1) d1(2) ht_live_used [of "dictHashKey d1" ?t]
      by (auto simp: ptr_valid_def dict_inv_def dict_common_def DICT_MAX_def dict_entries_def ht_at_def split: if_splits)
    then have "dictGenericDelete d key = Some (put_chain d1 table i (take p (ht_table ?t ! i) @ drop (p + 1) (ht_table ?t ! i))
        (ht_used ?t - 1), Some (ht_table ?t ! i ! p))"
      using sz d1(1) r(1) Some q pv(1) u(5) ulong_dec_id
      by (auto simp: dictGenericDelete_def bucket_at_def ptr_valid_def put_chain_def Let_def bucket_set_def)
    then show ?thesis using u d1(3-5) by (intro that) auto
  qed
qed

text \<open>Linking a new entry at the head of its chain.\<close>

lemma link_ok:
  fixes d :: "('k, 'v) dict" and key :: 'k and v :: 'v
  assumes "dict_inv d" "ht_live (dictHashKey d) (ht0 d)" "length (dict_entries d) < DICT_MAX"
    and "\<forall>e \<in> set (dict_entries d). \<not> key_match (dict_type d) key (fst e)"
  defines "table \<equiv> (if dictIsRehashing d then 1 else 0 :: nat)"
  defines "i \<equiv> dict_idx d key table"
  defines "k' \<equiv> dictSetKey (dict_type d) key"
  defines "d' \<equiv> put_chain d table i ((k', v) # ht_table (ht_at d table) ! i) (Suc (ht_used (ht_at d table)))"
  shows "i < length (ht_table (ht_at d table))" "length (ht_table (ht_at d table)) \<le> 2 ^ 31"
    "ht_used (ht_at d table) < DICT_MAX" "dict_inv d'"
    "dict_map d' = map_upd (key_match (dict_type d)) (dict_map d) key (Some v)"
    "length (dict_entries d') = Suc (length (dict_entries d))"
    "ptr_valid d' (table, i, 0)" "ptr_entry d' (table, i, 0) = (k', v)"
proof -
  let ?t = "ht_at d table" and ?ty = "dict_type d"
  let ?c = "ht_table ?t ! i"
  have live: "ht_live (dictHashKey d) ?t"
    using assms(1,2) by (cases "dictIsRehashing d") (simp_all add: table_def ht_at_def dict_inv_def rehash_state_def)
  note ix = ht_live_idx [OF live]
  have i: "i = dictHashKey d key mod length (ht_table ?t)" using ix(1) by (simp add: i_def dict_idx_def)
  then show il: "i < length (ht_table ?t)" using ix(2) by simp
  show "length (ht_table ?t) \<le> 2 ^ 31" using ix(4) .
  show "ht_used ?t < DICT_MAX" using assms(3) ht_live_used [OF live]
    by (simp add: dict_entries_def ht_at_def split: if_splits)
  have ty: "dictType_ok ?ty" "distinct_keys ?ty (dict_entries d)" using assms(1) by (auto simp: dict_inv_def dict_common_def)
  have km: "key_match ?ty k' key" unfolding k'_def by (rule dictType_okD(4) [OF ty(1)])
  have "mset (dict_entries d') + mset ?c = mset (dict_entries d) + mset ((k', v) # ?c)"
    unfolding d'_def by (rule put_chain_mset [OF il])
  then have m: "mset (dict_entries d') = add_mset (k', v) (mset (dict_entries d))" by simp
  note ins = emap_insert [OF ty(1) assms(4) ty(2) km m]
  show "dict_map d' = map_upd (key_match ?ty) (dict_map d) key (Some v)"
    using ins(2) by (simp add: dict_map_def d'_def)
  show len: "length (dict_entries d') = Suc (length (dict_entries d))" using arg_cong [OF m, of size] by simp
  have "dictHashKey d k' = dictHashKey d key" using dictType_okD(2) [OF ty(1) km] by (simp add: dictHashKey_def)
  then have h: "\<forall>e \<in> set ((k', v) # ?c). dictHashKey d (fst e) mod length (ht_table ?t) = i"
    using live_chain_hash [OF live il] i by auto
  have "dict_common d'" using assms(1,3) len ins(1) by (simp add: dict_inv_def dict_common_def d'_def)
  moreover have u: "Suc (ht_used ?t) = length (concat ((ht_table ?t)[i := (k', v) # ?c]))"
    using length_concat_update [OF il, of "(k', v) # ?c"] ht_live_used [OF live] by simp
  ultimately show "dict_inv d'" unfolding d'_def
    using assms(1) live il h by (intro put_chain_inv) (simp_all add: table_def)
  have "ht_at d' table = bucket_set ?t i ((k', v) # ?c)\<lparr>ht_used := Suc (ht_used ?t)\<rparr>"
    by (simp add: d'_def ht_at_def put_chain_tables)
  moreover from this have "ht_live (dictHashKey d') (ht_at d' table)"
    using ht_live_set [OF live il h u] by (simp add: d'_def)
  ultimately show "ptr_valid d' (table, i, 0)" "ptr_entry d' (table, i, 0) = (k', v)"
    using il by (simp_all add: ptr_valid_def ptr_entry_def bucket_set_def table_def)
qed

lemma dictAddRaw_ok:
  assumes "dict_inv d" "length (dict_entries d) < DICT_MAX"
  obtains (new) d' p where "dictAddRaw can_resize junk d key = Some (d', Some p)" "dict_map d key = None"
      "dict_inv d'" "dict_type d' = dict_type d" "ptr_valid d' p" "ptr_entry d' p = (dictSetKey (dict_type d) key, junk)"
      "dict_map d' = map_upd (key_match (dict_type d)) (dict_map d) key (Some junk)"
      "length (dict_entries d') = Suc (length (dict_entries d))"
  | (old) d' where "dictAddRaw can_resize junk d key = Some (d', None)" "dict_map d key \<noteq> None"
      "dict_inv d'" "dict_type d' = dict_type d" "dict_map d' = dict_map d"
      "length (dict_entries d') = length (dict_entries d)"
proof -
  obtain d1 where d1: "(if dictIsRehashing d then dictRehashStep d else Some d) = Some d1" "dict_inv d1"
    "dict_type d1 = dict_type d" "dict_map d1 = dict_map d" "length (dict_entries d1) = length (dict_entries d)"
    using rehash_first [OF assms(1)] by metis
  obtain d2 where d2: "dictExpandIfNeeded can_resize d1 = Some (d2, True)" "dict_inv d2" "dict_same d1 d2"
    "ht_live (dictHashKey d2) (ht0 d2)"
    using dictExpandIfNeeded_ok [OF d1(2)] by blast
  have same: "dict_type d2 = dict_type d" "dict_map d2 = dict_map d" "length (dict_entries d2) = length (dict_entries d)"
    using dict_sameD [OF d2(3) dict_inv_common [OF d1(2)]] d1 d2(3) by (auto simp: dict_same_def)
  obtain r where r: "dict_search d2 key = Some r"
    "case r of None \<Rightarrow> \<forall>e \<in> set (dict_entries d2). \<not> key_match (dict_type d2) key (fst e)
     | Some p \<Rightarrow> ptr_valid d2 p \<and> key_match (dict_type d2) key (fst (ptr_entry d2 p))"
    using dict_search_ok [OF d2(2,4)] by blast
  show ?thesis
  proof (cases r)
    case (Some p)
    have "dict_map d2 key \<noteq> None"
      using r(2) Some ptr_entry_in [of d2 p] unfolding dict_map_def emap_None by auto
    moreover have "dictAddRaw can_resize junk d key = Some (d2, None)"
      using d1(1) d2(1) r(1) Some by (simp add: dictAddRaw_def dictKeyIndex_def)
    ultimately show ?thesis using old d2(2) same by simp
  next
    case None
    let ?table = "if dictIsRehashing d2 then 1 else 0 :: nat"
    let ?t = "ht_at d2 ?table" and ?i = "dict_idx d2 key ?table"
    have hyp: "length (dict_entries d2) < DICT_MAX" "\<forall>e \<in> set (dict_entries d2). \<not> key_match (dict_type d2) key (fst e)"
      using assms(2) same r(2) None by auto
    note l = link_ok(1-3) [OF d2(2,4) hyp] link_ok(4-8) [OF d2(2,4) hyp, where v = junk]
    have i: "cast_s 32 (int ?i) = int ?i" using l(1,2) by (intro cast_s_32_id) auto
    have "dictAddRaw can_resize junk d key =
      Some (put_chain d2 ?table ?i ((dictSetKey (dict_type d2) key, junk) # ht_table ?t ! ?i) (Suc (ht_used ?t)), Some (?table, ?i, 0))"
      using d1(1) d2(1) r(1) None l(1,3) i ulong_inc_id [of "ht_used ?t"]
      by (simp add: dictAddRaw_def dictKeyIndex_def Let_def bucket_at_def put_chain_def DICT_MAX_def bucket_set_def)
    moreover have "dict_map d key = None" using hyp(2) same(2) by (metis dict_map_def emap_None)
    ultimately show ?thesis using new l(4-8) same by simp
  qed
qed

lemma dictSize_eq: "dict_inv d \<Longrightarrow> dictSize d = length (dict_entries d)"
  using ht_live_used [of "dictHashKey d" "ht0 d"] ht_live_used [of "dictHashKey d" "ht1 d"]
  by (auto simp: dict_inv_def dictSize_def dict_entries_def rehash_state_def dictReset_def split: if_splits)

lemma map_upd_twice [simp]: "map_upd eq (map_upd eq m k x) k y = map_upd eq m k y"
  by (auto simp: map_upd_def fun_eq_iff)

lemma dictAdd_ok:
  assumes "dict_inv d" "length (dict_entries d) < DICT_MAX"
  obtains d' where "dictAdd can_resize junk d key val = Some (d', dict_map d key = None)" "dict_inv d'"
    "dict_type d' = dict_type d"
    "dict_map d' = (if dict_map d key = None
       then map_upd (key_match (dict_type d)) (dict_map d) key (Some (dictSetVal (dict_type d) val)) else dict_map d)"
    "length (dict_entries d') = length (dict_entries d) + (if dict_map d key = None then 1 else 0)"
  using assms
proof (cases rule: dictAddRaw_ok [where can_resize = can_resize and junk = junk and key = key])
  case (new d1 p)
  have ty: "dictType_ok (dict_type d)" using assms(1) by (simp add: dict_inv_def dict_common_def)
  have "key_match (dict_type d1) key (fst (ptr_entry d1 p))"
    using new(4,6) dictType_okD(1,4) [OF ty] by simp
  from entry_set_val_ok [OF new(3,5) this, of "dictSetVal (dict_type d) val"]
  obtain d2 where "entry_set_val d1 p (dictSetVal (dict_type d) val) = Some d2" "dict_inv d2"
    "dict_map d2 = map_upd (key_match (dict_type d1)) (dict_map d1) key (Some (dictSetVal (dict_type d) val))"
    "dict_type d2 = dict_type d1" "length (dict_entries d2) = length (dict_entries d1)" by blast
  with new that show ?thesis by (simp add: dictAdd_def)
next
  case (old d1)
  with that show ?thesis by (auto simp: dictAdd_def)
qed

lemma dictReplace_ok:
  assumes "dict_inv d" "length (dict_entries d) < DICT_MAX"
  obtains d' where "dictReplace can_resize junk d key val = Some (d', dict_map d key = None)" "dict_inv d'"
    "dict_type d' = dict_type d"
    "dict_map d' = map_upd (key_match (dict_type d)) (dict_map d) key (Some (dictSetVal (dict_type d) val))"
    "length (dict_entries d') \<le> length (dict_entries d) + 1"
proof -
  obtain d1 where d1: "dictAdd can_resize junk d key val = Some (d1, dict_map d key = None)" "dict_inv d1"
    "dict_type d1 = dict_type d"
    "dict_map d1 = (if dict_map d key = None
       then map_upd (key_match (dict_type d)) (dict_map d) key (Some (dictSetVal (dict_type d) val)) else dict_map d)"
    "length (dict_entries d1) = length (dict_entries d) + (if dict_map d key = None then 1 else 0)"
    using dictAdd_ok [OF assms] .
  show ?thesis
  proof (cases "dict_map d key = None")
    case True
    with d1 that show ?thesis by (simp add: dictReplace_def)
  next
    case False
    obtain r where r: "dictFind d1 key = Some r" "case r of None \<Rightarrow> dict_map d1 key = None
     | Some p \<Rightarrow> ptr_valid d1 p \<and> key_match (dict_type d1) key (fst (ptr_entry d1 p)) \<and>
         dict_map d1 key = Some (snd (ptr_entry d1 p))"
      using dictFind_ok [OF d1(2)] by blast
    with False d1(4) obtain p where p: "r = Some p" "ptr_valid d1 p" "key_match (dict_type d1) key (fst (ptr_entry d1 p))"
      by (cases r) auto
    from entry_set_val_ok [OF d1(2) p(2,3), of "dictSetVal (dict_type d) val"]
    obtain d2 where "entry_set_val d1 p (dictSetVal (dict_type d) val) = Some d2" "dict_inv d2"
      "dict_map d2 = map_upd (key_match (dict_type d1)) (dict_map d1) key (Some (dictSetVal (dict_type d) val))"
      "dict_type d2 = dict_type d1" "length (dict_entries d2) = length (dict_entries d1)" by blast
    with False d1 r(1) p(1) show ?thesis by (intro that [of d2]) (auto simp: dictReplace_def)
  qed
qed

lemma dictCreate_inv: "dictType_ok ty \<Longrightarrow> dict_inv (dictCreate ty)"
  by (simp add: dict_inv_def dictCreate_def dict_common_def dictIsRehashing_def dict_entries_def dictReset_def distinct_keys_def)

lemma dictCreate_map: "dict_map (dictCreate ty) = (\<lambda>_. None)"
  by (simp add: dict_map_def dictCreate_def dict_entries_def dictReset_def emap_None fun_eq_iff)

lemma dictClear_loop_all:
  "u = length (concat cs) \<Longrightarrow> length (concat cs) < 2 ^ 63 \<Longrightarrow> dictClear_loop cs u = concat cs"
proof (induction cs arbitrary: u)
  case (Cons c cs)
  have "cast_u 64 (int u - int (length c)) = length (concat cs)"
    using Cons.prems cast_u_id [of "int u - int (length c)" 64] by simp
  with Cons show ?case by (cases "u = 0") auto
qed simp

section \<open>Interface\<close>

definition dict_repr :: "('k, 'v) dictType \<Rightarrow> ('k, 'v) dict \<Rightarrow> ('k \<Rightarrow> 'v option) \<Rightarrow> bool" where
  "dict_repr ty d m \<longleftrightarrow> dict_inv d \<and> dict_type d = ty \<and> dict_map d = m"

interpretation dicts: map_impl "dict_repr ty" "key_match ty" "dictSetVal ty" "dictReplace can_resize junk"
  dictDelete dictFetchValue dictSize "\<lambda>_ _. 1" DICT_MAX
  for ty can_resize junk
proof
  fix d m k v
  assume r: "dict_repr ty d m"
  then have inv: "dict_inv d" by (simp add: dict_repr_def)
  show "\<exists>d'. dictReplace can_resize junk d k v = Some (d', m k = None) \<and>
     dict_repr ty d' (map_upd (key_match ty) m k (Some (dictSetVal ty v))) \<and> dictSize d' \<le> dictSize d + 1"
    if "dictSize d + 1 \<le> DICT_MAX"
  proof -
    have "length (dict_entries d) < DICT_MAX" using that dictSize_eq [OF inv] by simp
    from dictReplace_ok [OF inv this, of can_resize junk k v] obtain d' where
      "dictReplace can_resize junk d k v = Some (d', dict_map d k = None)" "dict_inv d'" "dict_type d' = dict_type d"
      "dict_map d' = map_upd (key_match (dict_type d)) (dict_map d) k (Some (dictSetVal (dict_type d) v))"
      "length (dict_entries d') \<le> length (dict_entries d) + 1" .
    with r dictSize_eq [of d'] dictSize_eq [OF inv] show ?thesis by (auto simp: dict_repr_def)
  qed
  show "\<exists>d'. dictDelete d k = Some (d', m k \<noteq> None) \<and> dict_repr ty d' (map_upd (key_match ty) m k None) \<and>
     dictSize d' \<le> dictSize d"
  proof -
    obtain d' e where "dictGenericDelete d k = Some (d', e)" "dict_inv d'" "dict_type d' = dict_type d"
      "dict_map d' = map_upd (key_match (dict_type d)) (dict_map d) k None"
      "dict_map d k = map_option snd e" "length (dict_entries d') \<le> length (dict_entries d)"
      using dictGenericDelete_ok [OF inv] .
    with r dictSize_eq [OF inv] dictSize_eq [of d'] show ?thesis by (auto simp: dict_repr_def dictDelete_def)
  qed
  show "dictFetchValue d k = Some (m k)"
    using r dictFetchValue_ok [OF inv] by (simp add: dict_repr_def)
qed

lemma dict_inv_used:
  assumes "dict_inv d"
  shows "ht_used (ht0 d) = length (concat (ht_table (ht0 d)))" "ht_used (ht1 d) = length (concat (ht_table (ht1 d)))"
  using assms ht_live_used [of "dictHashKey d" "ht0 d"] ht_live_used [of "dictHashKey d" "ht1 d"]
  by (auto simp: dict_inv_def rehash_state_def dictReset_def split: if_splits)

section \<open>Properties\<close>

text \<open>A dictionary in the middle of a rehashing from four to eight buckets, for the examples below.\<close>

definition dictType_ex :: "(nat, nat) dictType" where
  "dictType_ex = \<lparr>hashFunction = word_of_nat, keyDup = None, valDup = None, keyCompare = None\<rparr>"

definition dict_ex :: "(nat, nat) dict" where
  "dict_ex = \<lparr>dict_type = dictType_ex,
     ht0 = \<lparr>ht_table = [[], [(5, 50)], [(2, 20), (6, 60)], []], ht_size = 4, ht_sizemask = 3, ht_used = 3\<rparr>,
     ht1 = \<lparr>ht_table = [[(8, 80)], [], [], [], [(4, 40)], [], [], []], ht_size = 8, ht_sizemask = 7, ht_used = 2\<rparr>,
     rehashidx = 1, iterators = 0\<rparr>"

lemma dictType_ex_ok [simp]: "dictType_ok dictType_ex"
  by (auto simp: dictType_ok_def key_match_def dictCompareKeys_def dictSetKey_def dictType_ex_def)

lemma key_match_ex [simp]: "key_match dictType_ex = (=)"
  by (auto simp: fun_eq_iff key_match_def dictCompareKeys_def dictType_ex_def)

lemma dict_ex_simps [simp]:
  "dict_type dict_ex = dictType_ex" "dictIsRehashing dict_ex" "dictSize dict_ex = 5"
  "dict_entries dict_ex = [(5, 50), (2, 20), (6, 60), (8, 80), (4, 40)]"
  by (simp_all add: dict_ex_def dictIsRehashing_def dictSize_def dict_entries_def)

lemma dict_ex_inv: "dict_inv dict_ex"
proof -
  have "ht_live (dictHashKey dict_ex) (ht0 dict_ex)"
    unfolding ht_live_def
    by (intro conjI exI [of _ 2]) (simp_all add: dict_ex_def All_less_Suc dictHashKey_def dictType_ex_def unat_of_nat)
  moreover have "ht_live (dictHashKey dict_ex) (ht1 dict_ex)"
    unfolding ht_live_def
    by (intro conjI exI [of _ 3]) (simp_all add: dict_ex_def All_less_Suc dictHashKey_def dictType_ex_def unat_of_nat)
  moreover have "dict_common dict_ex"
    by (simp add: dict_common_def distinct_keys_def keyclass_eq DICT_MAX_def)
  moreover have "rehashidx dict_ex = 1" "ht_size (ht0 dict_ex) = 4" "ht_table (ht0 dict_ex) ! 0 = []"
    by (simp_all add: dict_ex_def)
  ultimately show ?thesis by (simp add: dict_inv_def rehash_state_def)
qed

lemma dict_ex_map: "dict_map dict_ex = [5 \<mapsto> 50, 2 \<mapsto> 20, 6 \<mapsto> 60, 8 \<mapsto> 80, 4 \<mapsto> 40]"
  by (auto simp: dict_map_def emap_def fun_eq_iff)

lemma dict_ex_repr: "dict_repr dictType_ex dict_ex [5 \<mapsto> 50, 2 \<mapsto> 20, 6 \<mapsto> 60, 8 \<mapsto> 80, 4 \<mapsto> 40]"
  using dict_ex_inv dict_ex_map by (simp add: dict_repr_def)

text \<open>C3: the dictionary implements a map. From any dictionary that satisfies the invariant, in whatever
  phase of an incremental rehashing, every history of \<open>dictReplace\<close>, \<open>dictDelete\<close> and
  \<open>dictFetchValue\<close> runs without an invalid access and returns the flags and values of the same history
  on the map of its entries, modulo the key comparison. The table expansions and rehashing steps on the
  way are not visible.\<close>

theorem dict_history:
  assumes "dict_repr ty d m" "dictSize d + sum_list (map (map_op_cost (\<lambda>_ _. 1)) ops) \<le> DICT_MAX"
  shows "\<exists>d'. map_run (dictReplace can_resize junk) dictDelete dictFetchValue d ops =
           Some (d', snd (map_spec_run (key_match ty) (dictSetVal ty) m ops)) \<and>
           dict_repr ty d' (fst (map_spec_run (key_match ty) (dictSetVal ty) m ops))"
  using assms by (rule dicts.history_refines)

theorem dict_history_witness:
  "\<exists>d'. map_run (dictReplace True 0) dictDelete dictFetchValue dict_ex [Put_op 6 61, Put_op 7 70, Del_op 5, Get_op 6, Get_op 5]
     = Some (d', [Flag False, Flag True, Flag True, Val (Some 61), Val None]) \<and>
     dict_repr dictType_ex d' [2 \<mapsto> 20, 6 \<mapsto> 61, 7 \<mapsto> 70, 8 \<mapsto> 80, 4 \<mapsto> 40]"
proof -
  let ?ops = "[Put_op 6 61, Put_op 7 70, Del_op 5, Get_op 6, Get_op 5] :: (nat, nat) map_op list"
  let ?m = "[5 \<mapsto> 50, 2 \<mapsto> 20, 6 \<mapsto> 60, 8 \<mapsto> 80, 4 \<mapsto> 40] :: nat \<Rightarrow> nat option"
  have spec: "map_spec_run (=) (dictSetVal dictType_ex) ?m ?ops =
    ([2 \<mapsto> 20, 6 \<mapsto> 61, 7 \<mapsto> 70, 8 \<mapsto> 80, 4 \<mapsto> 40], [Flag False, Flag True, Flag True, Val (Some 61), Val None])"
    by (auto simp: map_upd_def dictSetVal_def dictType_ex_def fun_eq_iff)
  show ?thesis
    using dict_history [OF dict_ex_repr, of ?ops True 0] unfolding key_match_ex spec
    by (simp add: DICT_MAX_def del: map_run.simps)
qed

text \<open>C4: \<open>dictAdd\<close> on every branch: a key that compares equal to an existing one is an error and
  changes nothing; a new key is added with the duplicated value.\<close>

theorem dictAdd_correct:
  assumes "dict_inv d" "dictSize d < DICT_MAX"
  shows "\<exists>d'. dictAdd can_resize junk d key val = Some (d', dict_map d key = None) \<and> dict_inv d' \<and>
     dict_map d' = (if dict_map d key = None
       then map_upd (key_match (dict_type d)) (dict_map d) key (Some (dictSetVal (dict_type d) val)) else dict_map d) \<and>
     dictSize d' = dictSize d + (if dict_map d key = None then 1 else 0)"
proof -
  have "length (dict_entries d) < DICT_MAX" using assms dictSize_eq by metis
  from dictAdd_ok [OF assms(1) this, of can_resize junk key val] show ?thesis
    using assms(1) dictSize_eq by metis
qed

theorem dictAdd_correct_witness:
  "(\<exists>d'. dictAdd False 0 dict_ex 8 81 = Some (d', False) \<and> dict_map d' = dict_map dict_ex) \<and>
   (\<exists>d'. dictAdd False 0 dict_ex 9 90 = Some (d', True) \<and> dict_map d' 9 = Some 90 \<and> dictSize d' = 6)"
  using dictAdd_correct [OF dict_ex_inv, of False 0 8 81] dictAdd_correct [OF dict_ex_inv, of False 0 9 90]
  by (auto simp: dict_ex_map DICT_MAX_def map_upd_def dictSetVal_def dictType_ex_def)

text \<open>C5: one call of \<open>dictRehash\<close> with any budget runs without an invalid access or a failed
  assertion, keeps the invariant and the map, and returns 1 exactly when the rehashing is still going on;
  in this case it has advanced \<open>rehashidx\<close>, so that the rehashing ends after finitely many calls.\<close>

theorem dictRehash_correct:
  assumes "dict_inv d"
  shows "\<exists>d' more. dictRehash d n = Some (d', more) \<and> dict_inv d' \<and> dict_map d' = dict_map d \<and>
     dictSize d' = dictSize d \<and> (more \<longleftrightarrow> dictIsRehashing d') \<and>
     (more \<and> 0 < n \<longrightarrow> rehashidx d < rehashidx d' \<and> rehashidx d' < int (ht_size (ht0 d)))"
proof -
  from dictRehash_ok [OF assms, of n] obtain d' more where *: "dictRehash d n = Some (d', more)" "dict_inv d'"
    "dict_same d d'" "more = dictIsRehashing d'"
    "more \<and> 0 < n \<longrightarrow> rehashidx d < rehashidx d' \<and> ht_size (ht0 d') = ht_size (ht0 d)" by blast
  moreover have "rehashidx d' < int (ht_size (ht0 d'))" if more using *(2,4) that by (simp add: dict_inv_def)
  ultimately show ?thesis
    using dict_sameD(2,3) [OF *(3) dict_inv_common [OF assms]] dictSize_eq [OF assms] dictSize_eq [OF *(2)]
    by (intro exI [of _ d'] exI [of _ more]) auto
qed

theorem dictRehash_correct_witness:
  "\<exists>d' more. dictRehash dict_ex 1 = Some (d', more) \<and> dict_map d' 6 = Some 60 \<and> (more \<longrightarrow> 1 < rehashidx d')"
proof -
  have "rehashidx dict_ex = 1" by (simp add: dict_ex_def)
  with dictRehash_correct [OF dict_ex_inv, of 1] show ?thesis by (auto simp: dict_ex_map)
qed

text \<open>\<open>dictRehashMilliseconds\<close> returns for every behaviour of the clock, keeps the map, and leaves a
  dictionary that is completely rehashed when the clock does not run out.\<close>

theorem dictRehashMilliseconds_correct:
  assumes "dict_inv d"
  shows "\<exists>d' r. dictRehashMilliseconds clock 0 d ms 0 = Some (d', r) \<and> dict_inv d' \<and> dict_map d' = dict_map d \<and>
     ((\<forall>i. clock i \<le> ms) \<longrightarrow> \<not> dictIsRehashing d')"
proof -
  obtain d' r where "dictRehashMilliseconds clock 0 d ms 0 = Some (d', r)" "dict_inv d'" "dict_same d d'"
    "(\<forall>i. clock i \<le> ms) \<longrightarrow> \<not> dictIsRehashing d'"
    using dictRehashMilliseconds_ok [OF assms] by metis
  with dict_sameD(2) [OF this(3) dict_inv_common [OF assms]] show ?thesis by auto
qed

theorem dictRehashMilliseconds_correct_witness:
  "\<exists>d' r. dictRehashMilliseconds (\<lambda>_. 0) 0 dict_ex 1 0 = Some (d', r) \<and> \<not> dictIsRehashing d' \<and> dict_map d' 8 = Some 80"
  using dictRehashMilliseconds_correct [OF dict_ex_inv, of "\<lambda>_. 0" 1] by (auto simp: dict_ex_map)

text \<open>\<open>dictResize\<close> keeps the map; it refuses when resizing is disabled or a rehashing is going on,
  and otherwise gives a dictionary whose newest table is the least power of two, not below four, that has
  room for all entries.\<close>

theorem dictResize_correct:
  assumes "dict_inv d"
  shows "\<exists>d' ok. dictResize can_resize d = Some (d', ok) \<and> dict_inv d' \<and> dict_map d' = dict_map d \<and>
     (ok \<longrightarrow> can_resize \<and> \<not> dictIsRehashing d) \<and>
     (can_resize \<and> \<not> dictIsRehashing d \<longrightarrow>
        (\<exists>k \<ge> 2. ht_size (if dictIsRehashing d' then ht1 d' else ht0 d') = 2 ^ k \<and> dictSize d \<le> 2 ^ k \<and>
           (k = 2 \<or> 2 ^ (k - 1) < dictSize d)))"
proof (cases "can_resize \<and> \<not> dictIsRehashing d")
  case False
  with assms show ?thesis by (intro exI [of _ d] exI [of _ False]) (auto simp: dictResize_def)
next
  case True
  then have h1: "ht1 d = dictReset" using assms(1) by (simp add: dict_inv_def)
  let ?u = "ht_used (ht0 d)" and ?n = "max 4 (ht_used (ht0 d))"
  have u: "dictSize d = ?u" "?u \<le> DICT_MAX"
    using h1 dictSize_eq [OF assms(1)] assms(1) by (auto simp: dictSize_def dictReset_def dict_inv_def dict_common_def)
  then have "cast_s 32 (int ?u) = int ?u" by (intro cast_s_32_id) (auto simp: DICT_MAX_def)
  moreover have "cast_u 64 (int ?n) = ?n"
    using u(2) cast_u_id [of "int ?n" 64] by (simp add: DICT_MAX_def)
  ultimately have run: "dictResize can_resize d = dictExpand d ?n"
    using True by (auto simp: dictResize_def DICT_HT_INITIAL_SIZE_def Let_def max_def)
  have n: "?n \<le> 2 ^ 31" using u(2) by (simp add: DICT_MAX_def)
  from dictExpand_ok [OF assms n] obtain d' ok where d': "dictExpand d ?n = Some (d', ok)" "dict_inv d'" "dict_same d d'"
    by metis
  from dictNextPower_ok [OF n] obtain k where k: "2 \<le> k" "dictNextPower ?n = Some (2 ^ k)" "?n \<le> 2 ^ k"
    "k = 2 \<or> 2 ^ (k - 1) < ?n" by auto
  have "k = 2 \<or> 2 ^ (k - 1) < ?u"
  proof (cases "k = 2")
    case False
    then have "(2::nat) ^ 2 \<le> 2 ^ (k - 1)" using k(1) by (intro power_increasing) auto
    then show ?thesis using k(4) False by auto
  qed simp
  moreover have "ht_size (if dictIsRehashing d' then ht1 d' else ht0 d') = 2 ^ k"
    using d'(1) True k(2) by (auto simp: dictExpand_def Let_def dictIsRehashing_def split: if_splits)
  moreover have "dict_map d' = dict_map d" by (rule dict_sameD(2) [OF d'(3) dict_inv_common [OF assms(1)]])
  ultimately show ?thesis unfolding run using k(1,3) u(1) True d'(1,2)
    by (intro exI [of _ d'] exI [of _ ok]) auto
qed

definition dict_ex2 :: "(nat, nat) dict" where
  "dict_ex2 = \<lparr>dict_type = dictType_ex,
     ht0 = \<lparr>ht_table = [[], [], [], [], [(4, 40)], [], [], []], ht_size = 8, ht_sizemask = 7, ht_used = 1\<rparr>,
     ht1 = dictReset, rehashidx = - 1, iterators = 0\<rparr>"

lemma dict_ex2_inv: "dict_inv dict_ex2" "dictSize dict_ex2 = 1" "\<not> dictIsRehashing dict_ex2"
proof -
  have "ht_live (dictHashKey dict_ex2) (ht0 dict_ex2)"
    unfolding ht_live_def
    by (intro conjI exI [of _ 3]) (simp_all add: dict_ex2_def All_less_Suc dictHashKey_def dictType_ex_def)
  then show "dict_inv dict_ex2" "dictSize dict_ex2 = 1" "\<not> dictIsRehashing dict_ex2"
    by (simp_all add: dict_inv_def dict_common_def distinct_keys_def DICT_MAX_def dictIsRehashing_def
          dict_entries_def dictSize_def dict_ex2_def dictReset_def)
qed

theorem dictResize_correct_witness:
  "\<exists>d'. dictResize True dict_ex2 = Some (d', True) \<and> dictIsRehashing d' \<and> ht_size (ht1 d') = 4 \<and> dict_map d' = dict_map dict_ex2"
proof -
  let ?n = "\<lparr>ht_table = replicate 4 [], ht_size = 4, ht_sizemask = 3, ht_used = 0\<rparr> :: (nat, nat) dictht"
  have "dictNextPower 4 = Some 4"
    by (simp add: dictNextPower_def DICT_HT_INITIAL_SIZE_def LONG_MAX_def dictNextPower_loop.simps)
  then have run: "dictResize True dict_ex2 = Some (dict_ex2\<lparr>ht1 := ?n, rehashidx := 0\<rparr>, True)"
    by (simp add: dictResize_def dictExpand_def dictIsRehashing_def dict_ex2_def DICT_HT_INITIAL_SIZE_def
          cast_s_def cast_u_def Let_def)
  show ?thesis using dictResize_correct [OF dict_ex2_inv(1), of True] run
    by (auto simp: dictIsRehashing_def)
qed

text \<open>\<open>dictEmpty\<close> hands every entry of both tables to the destructors, exactly once, and leaves an
  empty dictionary.\<close>

theorem dictEmpty_correct:
  assumes "dict_inv d"
  shows "snd (dictEmpty d) = dict_entries d \<and> dict_inv (fst (dictEmpty d)) \<and>
     dict_map (fst (dictEmpty d)) = (\<lambda>_. None) \<and> dictSize (fst (dictEmpty d)) = 0"
proof -
  have len: "length (dict_entries d) < 2 ^ 63" and ty: "dictType_ok (dict_type d)"
    using assms by (auto simp: dict_inv_def dict_common_def DICT_MAX_def)
  have "snd (dictClear (ht0 d)) = concat (ht_table (ht0 d))" "snd (dictClear (ht1 d)) = concat (ht_table (ht1 d))"
    using len by (simp_all add: dictClear_def dict_inv_used [OF assms] dictClear_loop_all dict_entries_def)
  then have "snd (dictEmpty d) = dict_entries d" by (simp add: dictEmpty_def dict_entries_def)
  moreover have "fst (dictEmpty d) = dictCreate (dict_type d)"
    by (simp add: dictEmpty_def dictClear_def dictCreate_def)
  ultimately show ?thesis using dictCreate_inv [OF ty] dictCreate_map [of "dict_type d"]
    by (simp add: dictSize_def dictCreate_def dictReset_def)
qed

theorem dictEmpty_correct_witness:
  "snd (dictEmpty dict_ex) = [(5, 50), (2, 20), (6, 60), (8, 80), (4, 40)] \<and> dictSize (fst (dictEmpty dict_ex)) = 0"
  using dictEmpty_correct [OF dict_ex_inv] by simp

end
