(* ===== verification/Vire_Dict_Scan.thy ===== *)
theory Vire_Dict_Scan
  imports Vire_Dict
begin

text \<open>
  The stateless cursor of \<open>dictScan\<close> in \<open>src/src/vr_dict.c\<close>: the bit reversal \<open>rev\<close>, one scan step,
  and the guarantee of the long comment above \<open>dictScan\<close> for scans during which the dictionary is
  changed and resized arbitrarily between the steps. The guarantee holds when a step that meets a
  rehashing dictionary is called with a cursor that the mask of the smaller table covers; without this
  condition it fails, and the example at the end shows how.
\<close>

section \<open>Bit reversal\<close>

function rev_loop :: "nat \<Rightarrow> u64 \<Rightarrow> u64 \<Rightarrow> u64" where
  "rev_loop s msk v =
     (let s' = s div 2 in
      if s' = 0 then v
      else let msk' = msk XOR push_bit s' msk
           in rev_loop s' msk' ((drop_bit s' v AND msk') OR (push_bit s' v AND NOT msk')))"
  by pat_completeness auto
termination by (relation "measure (\<lambda>(s, _, _). s)") auto

declare rev_loop.simps [simp del]

definition rev64 :: "u64 \<Rightarrow> u64" where
  "rev64 v = rev_loop 64 (NOT 0) v"

text \<open>One swap step: with a mask that selects the even blocks of \<open>s\<close> bits, neighbouring blocks change
  places.\<close>

definition rev_mask :: "nat \<Rightarrow> u64 \<Rightarrow> bool" where
  "rev_mask s msk \<longleftrightarrow> (\<forall>n < 64. bit msk n \<longleftrightarrow> even (n div s))"

definition rev_step :: "nat \<Rightarrow> u64 \<Rightarrow> u64 \<Rightarrow> u64" where
  "rev_step s msk v = (drop_bit s v AND msk) OR (push_bit s v AND NOT msk)"

definition rev_swap :: "nat \<Rightarrow> nat \<Rightarrow> nat" where
  "rev_swap s n = (if even (n div s) then n + s else n - s)"

lemma rev_step_bit:
  assumes "rev_mask s msk" "n < 64" 
  shows "bit (rev_step s msk v) n \<longleftrightarrow> bit v (rev_swap s n)"
proof (cases "even (n div s)")
  case True
  with assms show ?thesis by (auto simp: rev_step_def rev_mask_def rev_swap_def bit_simps add.commute)
next
  case False
  then have "s \<le> n" by (metis div_less even_zero not_le)
  with False assms show ?thesis by (auto simp: rev_step_def rev_mask_def rev_swap_def bit_simps)
qed

lemma even_div_2_xor: "even (q div 2) \<noteq> (1 \<le> q \<and> even ((q - 1) div 2)) \<longleftrightarrow> even (q :: nat)"
  by presburger

lemma rev_mask_halve:
  assumes "rev_mask (2 * s) msk" "0 < s"
  shows "rev_mask s (msk XOR push_bit s msk)"
  unfolding rev_mask_def
proof (intro allI impI)
  fix n :: nat assume n: "n < 64"
  let ?q = "n div s"
  have d: "n div (2 * s) = ?q div 2" "(n - s) div (2 * s) = (n - s) div s div 2"
    by (simp_all add: div_mult2_eq mult.commute)
  have q: "s \<le> n \<longleftrightarrow> 1 \<le> ?q" "s \<le> n \<Longrightarrow> (n - s) div s = ?q - 1"
    using assms(2) by (simp_all add: div_greater_zero_iff Suc_le_eq le_div_geq)
  have "bit (msk XOR push_bit s msk) n \<longleftrightarrow> even (?q div 2) \<noteq> (1 \<le> ?q \<and> even ((?q - 1) div 2))"
    using assms(1) n q d by (auto simp: bit_simps rev_mask_def)
  also have "\<dots> \<longleftrightarrow> even ?q" by (rule even_div_2_xor)
  finally show "bit (msk XOR push_bit s msk) n \<longleftrightarrow> even ?q" .
qed

lemma rev_loop_step:
  assumes "rev_mask (2 * s) msk" "0 < s"
  obtains msk' v' where "rev_mask s msk'" "rev_loop (2 * s) msk v = rev_loop s msk' v'"
    "\<And>n. n < 64 \<Longrightarrow> bit v' n \<longleftrightarrow> bit v (rev_swap s n)"
proof -
  let ?m = "msk XOR push_bit s msk"
  have "rev_loop (2 * s) msk v = rev_loop s ?m (rev_step s ?m v)"
    using assms(2) by (subst rev_loop.simps) (simp add: Let_def rev_step_def)
  with rev_mask_halve [OF assms] rev_step_bit that show ?thesis by blast
qed

lemma rev_swap_lt:
  assumes "n < 64" "s \<in> {1, 2, 4, 8, 16, 32}"
  shows "rev_swap s n < 64"
proof -
  define P where "P n \<longleftrightarrow> (\<forall>s \<in> {1, 2, 4, 8, 16, 32}. rev_swap s n < 64)" for n
  have "\<forall>n < 64. P n"
    by (simp add: all_less_numeral) (simp add: P_def rev_swap_def)
  then show ?thesis using assms unfolding P_def by blast
qed

lemma rev_swap_all:
  assumes "n < 64"
  shows "rev_swap 32 (rev_swap 16 (rev_swap 8 (rev_swap 4 (rev_swap 2 (rev_swap 1 n))))) = 63 - n"
proof -
  define P where "P n \<longleftrightarrow> rev_swap 32 (rev_swap 16 (rev_swap 8 (rev_swap 4 (rev_swap 2 (rev_swap 1 n))))) = 63 - n" for n
  have "\<forall>n < 64. P n"
    by (simp add: all_less_numeral) (simp add: P_def rev_swap_def)
  then show ?thesis using assms by (simp add: P_def)
qed

lemma bit_rev64:
  assumes "n < 64"
  shows "bit (rev64 v) n \<longleftrightarrow> bit v (63 - n)"
proof -
  have m: "rev_mask (2 * 32) (NOT 0)" by (simp add: rev_mask_def)
  obtain m1 v1 where 1: "rev_mask 32 m1" "rev_loop (2 * 32) (NOT 0) v = rev_loop 32 m1 v1"
    "\<And>n. n < 64 \<Longrightarrow> bit v1 n \<longleftrightarrow> bit v (rev_swap 32 n)" using rev_loop_step [OF m, of v] by auto
  obtain m2 v2 where 2: "rev_mask 16 m2" "rev_loop 32 m1 v1 = rev_loop 16 m2 v2"
    "\<And>n. n < 64 \<Longrightarrow> bit v2 n \<longleftrightarrow> bit v1 (rev_swap 16 n)" using rev_loop_step [of 16 m1 v1] 1(1) by auto
  obtain m3 v3 where 3: "rev_mask 8 m3" "rev_loop 16 m2 v2 = rev_loop 8 m3 v3"
    "\<And>n. n < 64 \<Longrightarrow> bit v3 n \<longleftrightarrow> bit v2 (rev_swap 8 n)" using rev_loop_step [of 8 m2 v2] 2(1) by auto
  obtain m4 v4 where 4: "rev_mask 4 m4" "rev_loop 8 m3 v3 = rev_loop 4 m4 v4"
    "\<And>n. n < 64 \<Longrightarrow> bit v4 n \<longleftrightarrow> bit v3 (rev_swap 4 n)" using rev_loop_step [of 4 m3 v3] 3(1) by auto
  obtain m5 v5 where 5: "rev_mask 2 m5" "rev_loop 4 m4 v4 = rev_loop 2 m5 v5"
    "\<And>n. n < 64 \<Longrightarrow> bit v5 n \<longleftrightarrow> bit v4 (rev_swap 2 n)" using rev_loop_step [of 2 m4 v4] 4(1) by auto
  have h: "rev_mask (2 * 1) m5" using 5(1) by simp
  obtain m6 v6 where 6: "rev_mask 1 m6" "rev_loop (2 * 1) m5 v5 = rev_loop 1 m6 v6"
    "\<And>n. n < 64 \<Longrightarrow> bit v6 n \<longleftrightarrow> bit v5 (rev_swap 1 n)" by (rule rev_loop_step [OF h zero_less_one, of v5]) (rule that)
  have "rev64 v = v6"
    using 1(2) 2(2) 3(2) 4(2) 5(2) 6(2) by (simp add: rev64_def rev_loop.simps [of "Suc 0"])
  then have "bit (rev64 v) n \<longleftrightarrow>
      bit v (rev_swap 32 (rev_swap 16 (rev_swap 8 (rev_swap 4 (rev_swap 2 (rev_swap 1 n))))))"
    using 1(3) 2(3) 3(3) 4(3) 5(3) 6(3) assms by (simp add: rev_swap_lt)
  with rev_swap_all [OF assms] show ?thesis by simp
qed

lemma rev64_involution [simp]: "rev64 (rev64 v) = v"
  by (rule bit_word_eqI) (simp add: bit_rev64)

lemma rev64_eq_0 [simp]: "rev64 v = 0 \<longleftrightarrow> v = 0"
proof -
  have "rev64 0 = 0" by (rule bit_word_eqI) (simp add: bit_rev64)
  then show ?thesis by (metis rev64_involution)
qed

section \<open>The scan step\<close>

text \<open>The loop over the expansions of the cursor in the larger table. The entries passed to the callback
  are collected in order.\<close>

partial_function (option) dictScan_loop :: "('k, 'v) dictht \<Rightarrow> u64 \<Rightarrow> u64 \<Rightarrow> u64 \<Rightarrow> ('k, 'v) dictEntry list \<Rightarrow>
    (u64 \<times> ('k, 'v) dictEntry list) option" where
  "dictScan_loop t1 m0 m1 v emitted = do {
     c \<leftarrow> bucket_at t1 (unat (v AND m1));
     let v' = (((v OR m0) + 1) AND NOT m0) OR (v AND m0);
     if v' AND (m0 XOR m1) \<noteq> 0 then dictScan_loop t1 m0 m1 v' (emitted @ c)
     else Some (v', emitted @ c)
   }"

definition dictScan :: "('k, 'v) dict \<Rightarrow> u64 \<Rightarrow> (u64 \<times> ('k, 'v) dictEntry list) option" where
  "dictScan d v =
     (if dictSize d = 0 then Some (0, [])
      else do {
        (v1, m0, emitted) \<leftarrow>
          (if \<not> dictIsRehashing d then do {
             let m0 = word_of_nat (ht_sizemask (ht0 d));
             c \<leftarrow> bucket_at (ht0 d) (unat (v AND m0));
             Some (v, m0, c)
           } else do {
             let (t0, t1) = (if ht_size (ht0 d) > ht_size (ht1 d) then (ht1 d, ht0 d) else (ht0 d, ht1 d));
             let m0 = word_of_nat (ht_sizemask t0);
             let m1 = word_of_nat (ht_sizemask t1);
             c \<leftarrow> bucket_at t0 (unat (v AND m0));
             (v1, emitted) \<leftarrow> dictScan_loop t1 m0 m1 v c;
             Some (v1, m0, emitted)
           });
        let v2 = v1 OR NOT m0;
        Some (rev64 (rev64 v2 + 1), emitted)
      })"

section \<open>Cursor arithmetic\<close>

text \<open>The order in which the cursor visits the buckets: the value of the reversed bits.\<close>

definition scan_pos :: "u64 \<Rightarrow> nat" where
  "scan_pos v = unat (rev64 v)"

lemma split_mask: "(x AND NOT (mask k)) + take_bit k x = (x :: u64)"
proof -
  have "(x AND NOT (mask k)) + take_bit k x = (x AND NOT (mask k)) OR take_bit k x"
    by (rule disjunctive_add) (auto simp: bit_simps)
  also have "\<dots> = x" by (rule bit_word_eqI) (auto simp: bit_simps)
  finally show ?thesis .
qed

lemma or_mask_plus_1: "(x OR mask k) + 1 = (x AND NOT (mask k)) + (2 ^ k :: u64)"
proof -
  have "x OR mask k = (x AND NOT (mask k)) OR mask k" by (rule bit_word_eqI) (auto simp: bit_simps)
  also have "\<dots> = (x AND NOT (mask k)) + mask k" by (rule disjunctive_add [symmetric]) (auto simp: bit_simps)
  finally show ?thesis by (simp add: mask_eq_exp_minus_1)
qed

lemma scan_increment: "(((v OR mask k) + 1) AND NOT (mask k)) OR (v AND mask k) = (v :: u64) + 2 ^ k"
proof -
  let ?y = "(v AND NOT (mask k)) + 2 ^ k"
  have "take_bit k (v AND NOT (mask k)) = 0" by (rule bit_word_eqI) (auto simp: bit_simps)
  then have "2 ^ k dvd ?y" by (simp only: take_bit_eq_0_iff dvd_add dvd_refl)
  then have "take_bit k ?y = 0" by (simp only: take_bit_eq_0_iff)
  then have y: "?y AND NOT (mask k) = ?y" using split_mask [of ?y k] by simp
  have "(?y AND NOT (mask k)) OR take_bit k v = (?y AND NOT (mask k)) + take_bit k v"
    by (rule disjunctive_add [symmetric]) (auto simp: bit_simps)
  also have "\<dots> = v + 2 ^ k" unfolding y using split_mask [of v k] by (simp add: algebra_simps)
  finally show ?thesis by (simp add: or_mask_plus_1 take_bit_eq_mask)
qed

lemma word_of_nat_mask: "(word_of_nat (2 ^ k - 1) :: u64) = mask k"
  by (simp add: mask_eq_exp_minus_1 of_nat_diff)

lemma unat_take_bit: "unat (take_bit k v :: u64) = unat v mod 2 ^ k"
  by (metis take_bit_eq_mod unsigned_take_bit_eq)

lemma unat_drop_bit: "unat (drop_bit k v :: u64) = unat v div 2 ^ k"
  by (metis drop_bit_eq_div unat_drop_bit_eq)

lemma unat_2_power:
  assumes "j < 64"
  shows "unat (2 ^ j :: u64) = 2 ^ j"
proof -
  have "(2 :: nat) ^ j < 2 ^ 64" using assms by (intro power_strict_increasing) auto
  moreover have "unat (word_of_nat (2 ^ j) :: u64) = 2 ^ j mod 2 ^ 64" by (simp only: unat_of_nat) simp
  ultimately show ?thesis by simp
qed

lemma unat_and_mask: "unat (v AND mask k :: u64) = unat v mod 2 ^ k"
  by (metis take_bit_eq_mask unat_take_bit)

lemma unat_and_not_mask: "unat (x AND NOT (mask k) :: u64) = unat x div 2 ^ k * 2 ^ k"
proof -
  have "x AND NOT (mask k) = x - take_bit k x" using split_mask [of x k] by (metis add_diff_cancel_right')
  moreover have "take_bit k x \<le> x" by (simp add: word_le_nat_alt unat_take_bit)
  ultimately show ?thesis
    by (simp add: unat_sub unat_take_bit minus_mod_eq_div_mult)
qed

lemma scan_pos_block:
  assumes "k \<le> 64"
  shows "scan_pos v div 2 ^ (64 - k) = scan_pos w div 2 ^ (64 - k) \<longleftrightarrow> unat v mod 2 ^ k = unat w mod 2 ^ k"
proof -
  have bits: "bit (drop_bit (64 - k) (rev64 x)) n \<longleftrightarrow> n < k \<and> bit x (k - 1 - n)" for x n
    using assms by (cases "n < k") (auto simp: bit_simps bit_rev64 dest: bit_imp_le_length)
  have "drop_bit (64 - k) (rev64 v) = drop_bit (64 - k) (rev64 w) \<longleftrightarrow> take_bit k v = take_bit k w"
  proof
    assume eq: "drop_bit (64 - k) (rev64 v) = drop_bit (64 - k) (rev64 w)"
    have "bit v n = bit w n" if "n < k" for n
      using bits [of v "k - 1 - n"] bits [of w "k - 1 - n"] that eq by auto
    then show "take_bit k v = take_bit k w" by (intro bit_word_eqI) (auto simp: bit_simps)
  next
    assume eq: "take_bit k v = take_bit k w"
    have "bit v n = bit w n" if "n < k" for n
      using arg_cong [OF eq, of "\<lambda>x. bit x n"] that by (simp add: bit_simps)
    then show "drop_bit (64 - k) (rev64 v) = drop_bit (64 - k) (rev64 w)"
      by (intro bit_word_eqI) (auto simp: bits)
  qed
  then show ?thesis
    unfolding scan_pos_def word_unat_eq_iff unat_take_bit unat_drop_bit .
qed

lemma scan_pos_next:
  fixes v :: u64
  assumes "0 < k" "k \<le> 63"
  defines "j \<equiv> 64 - k" and "v' \<equiv> rev64 (rev64 (v OR NOT (mask k)) + 1)"
  shows "scan_pos v' = (scan_pos v div 2 ^ j + 1) * 2 ^ j mod 2 ^ 64"
proof -
  have "rev64 (v OR NOT (mask k)) = rev64 v OR mask j"
    using assms by (intro bit_word_eqI) (auto simp: bit_simps bit_rev64)
  then have "scan_pos v' = unat ((rev64 v AND NOT (mask j)) + 2 ^ j)"
    by (simp add: scan_pos_def v'_def or_mask_plus_1)
  also have "\<dots> = (unat (rev64 v AND NOT (mask j)) + unat (2 ^ j :: u64)) mod 2 ^ 64"
    by (simp add: unat_word_ariths)
  also have "unat (2 ^ j :: u64) = 2 ^ j" using assms by (intro unat_2_power) simp
  finally show ?thesis by (simp add: unat_and_not_mask scan_pos_def algebra_simps)
qed

lemma scan_next_covers:
  assumes "0 < k" "k \<le> 63" "unat v1 mod 2 ^ k = unat v mod 2 ^ k"
  defines "v' \<equiv> rev64 (rev64 (v1 OR NOT (mask k)) + 1)"
  shows "v' = 0 \<or> scan_pos v < scan_pos v'"
    and "scan_pos v \<le> scan_pos h \<Longrightarrow> v' = 0 \<or> scan_pos h < scan_pos v' \<Longrightarrow> unat h mod 2 ^ k = unat v mod 2 ^ k"
proof -
  define j where "j = 64 - k"
  let ?B = "scan_pos v div 2 ^ j"
  have "scan_pos v1 div 2 ^ j = ?B" using assms(2,3) scan_pos_block [of k v1 v] by (simp add: j_def)
  then have nxt: "scan_pos v' = (?B + 1) * 2 ^ j mod 2 ^ 64"
    using scan_pos_next [OF assms(1,2), of v1] by (simp add: v'_def j_def)
  have lt: "scan_pos x < 2 ^ 64" for x using unsigned_less [of "rev64 x"] by (simp add: scan_pos_def)
  have j: "j < 64" "(2 :: nat) ^ 64 = 2 ^ k * 2 ^ j" using assms(1,2) by (simp_all add: j_def flip: power_add)
  have "?B < 2 ^ k" using lt [of v] j(2) by (simp add: less_mult_imp_div_less)
  then have top: "(?B + 1) * 2 ^ j \<le> 2 ^ 64" unfolding j(2) by (intro mult_le_mono1) simp
  have low: "?B * 2 ^ j \<le> scan_pos v" "scan_pos v < (?B + 1) * 2 ^ j"
    using dividend_less_div_times [of "2 ^ j" "scan_pos v"] by simp_all
  have zero: "v' = 0 \<longleftrightarrow> (?B + 1) * 2 ^ j = 2 ^ 64"
  proof -
    have "v' = 0 \<longleftrightarrow> scan_pos v' = 0" by (simp add: scan_pos_def unsigned_eq_0_iff)
    also have "\<dots> \<longleftrightarrow> (?B + 1) * 2 ^ j = 2 ^ 64" unfolding nxt using top by (cases "(?B + 1) * 2 ^ j = 2 ^ 64") auto
    finally show ?thesis .
  qed
  have nxt': "scan_pos v' = (?B + 1) * 2 ^ j" if "v' \<noteq> 0"
    using nxt top that zero by (metis le_neq_implies_less mod_less)
  then show "v' = 0 \<or> scan_pos v < scan_pos v'" using low(2) by (cases "v' = 0") simp_all
  assume h: "scan_pos v \<le> scan_pos h" "v' = 0 \<or> scan_pos h < scan_pos v'"
  have "scan_pos h < (?B + 1) * 2 ^ j" using h(2) zero nxt' lt [of h] by auto
  then have "scan_pos h div 2 ^ j = ?B"
    using order_trans [OF low(1) h(1)] by (intro div_nat_eqI) (simp_all add: mult.commute)
  then show "unat h mod 2 ^ k = unat v mod 2 ^ k" using assms(2) scan_pos_block [of k h v] by (simp add: j_def)
qed

lemma mask_xor: "k0 \<le> k1 \<Longrightarrow> unat (v AND (mask k0 XOR mask k1) :: u64) = unat v mod 2 ^ k1 div 2 ^ k0 * 2 ^ k0"
proof -
  assume "k0 \<le> k1"
  then have "v AND (mask k0 XOR mask k1) = (v AND mask k1) AND NOT (mask k0)"
    by (intro bit_word_eqI) (auto simp: bit_simps)
  then show ?thesis by (simp only: unat_and_not_mask unat_and_mask)
qed

lemma dictScan_loop_ok:
  assumes "length (ht_table t1) = 2 ^ k1" "k0 \<le> k1" "k1 \<le> 31" "b < 2 ^ k0" "i < 2 ^ (k1 - k0)"
  shows "dictScan_loop t1 (mask k0) (mask k1) (word_of_nat (b + i * 2 ^ k0)) em =
     Some (word_of_nat (b + 2 ^ k1), em @ concat (map (\<lambda>l. ht_table t1 ! (b + l * 2 ^ k0)) [i..<2 ^ (k1 - k0)]))"
  using assms(5)
proof (induction "2 ^ (k1 - k0) - i" arbitrary: i em rule: less_induct)
  case less
  let ?n = "(2 :: nat) ^ (k1 - k0)" and ?v = "word_of_nat (b + i * 2 ^ k0) :: u64"
  let ?v' = "word_of_nat (b + Suc i * 2 ^ k0) :: u64"
  have pw: "(2 :: nat) ^ k1 = ?n * 2 ^ k0" using assms(2) by (simp flip: power_add)
  have "(2 :: nat) ^ k1 \<le> 2 ^ 31" using assms(3) by (intro power_increasing) auto
  then have big: "x < 2 * 2 ^ k1 \<Longrightarrow> unat (word_of_nat x :: u64) = x" for x
    by (simp add: unat_of_nat)
  have lt: "b + l * 2 ^ k0 < 2 ^ k1" if "l < ?n" for l
  proof -
    have "b + l * 2 ^ k0 < Suc l * 2 ^ k0" using assms(4) by simp
    also have "\<dots> \<le> 2 ^ k1" unfolding pw using that by (intro mult_le_mono1) simp
    finally show ?thesis .
  qed
  have idx: "unat (?v AND mask k1) = b + i * 2 ^ k0"
    using lt [OF less.prems] big by (simp only: unat_and_mask) simp
  have nxt: "(((?v OR mask k0) + 1) AND NOT (mask k0)) OR (?v AND mask k0) = ?v'"
    unfolding scan_increment by (simp add: algebra_simps)
  have v': "unat ?v' = b + Suc i * 2 ^ k0"
  proof (rule big)
    have "(2 :: nat) ^ k0 \<le> 2 ^ k1" using assms(2) by (intro power_increasing) auto
    then show "b + Suc i * 2 ^ k0 < 2 * 2 ^ k1" using lt [OF less.prems] unfolding mult_Suc by linarith
  qed
  have step: "dictScan_loop t1 (mask k0) (mask k1) ?v em =
     (if ?v' AND (mask k0 XOR mask k1) \<noteq> 0 then dictScan_loop t1 (mask k0) (mask k1) ?v' (em @ ht_table t1 ! (b + i * 2 ^ k0))
      else Some (?v', em @ ht_table t1 ! (b + i * 2 ^ k0)))"
    by (subst dictScan_loop.simps) (simp add: idx bucket_at_def assms(1) lt [OF less.prems] nxt Let_def del: of_nat_add of_nat_mult)
  have upt: "[i..<?n] = i # [Suc i..<?n]" using less.prems by (simp add: upt_conv_Cons)
  have u: "unat (?v' AND (mask k0 XOR mask k1)) = (b + Suc i * 2 ^ k0) mod 2 ^ k1 div 2 ^ k0 * 2 ^ k0"
    by (simp only: mask_xor [OF assms(2)] v')
  have cond: "?v' AND (mask k0 XOR mask k1) \<noteq> 0 \<longleftrightarrow> (b + Suc i * 2 ^ k0) mod 2 ^ k1 div 2 ^ k0 * 2 ^ k0 \<noteq> 0"
    unfolding u [symmetric] unsigned_eq_0_iff ..
  show ?case
  proof (cases "Suc i < ?n")
    case True
    then have "?v' AND (mask k0 XOR mask k1) \<noteq> 0" unfolding cond using lt [OF True] assms(4) by (simp add: div_greater_zero_iff)
    with less.hyps [OF _ True, of "em @ ht_table t1 ! (b + i * 2 ^ k0)"] less.prems step upt show ?thesis by simp
  next
    case False
    then have i: "Suc i = ?n" using less.prems by simp
    then have e: "b + Suc i * 2 ^ k0 = b + 2 ^ k1" using pw by simp
    have "b < 2 ^ k1" using assms(4) lt [of 0] by simp
    then have "(b + Suc i * 2 ^ k0) mod 2 ^ k1 div 2 ^ k0 * 2 ^ k0 = 0" unfolding e using assms(4) by simp
    with cond have "?v' AND (mask k0 XOR mask k1) = 0" by blast
    then show ?thesis unfolding step upt e [symmetric] using i by simp
  qed
qed

section \<open>One step\<close>

text \<open>The size of the table whose mask the cursor is advanced with, and the place of an entry in the
  order of the scan.\<close>

definition scan_small :: "('k, 'v) dict \<Rightarrow> nat" where
  "scan_small d = (if dictIsRehashing d then min (ht_size (ht0 d)) (ht_size (ht1 d)) else ht_size (ht0 d))"

definition entry_pos :: "('k, 'v) dictType \<Rightarrow> ('k, 'v) dictEntry \<Rightarrow> nat" where
  "entry_pos ty e = scan_pos (ucast (hashFunction ty (fst e)))"

text \<open>The part of a step before the cursor is advanced: it visits all entries whose hash agrees with the
  cursor on the bits of the smaller mask.\<close>

definition scan_visits :: "('k, 'v) dict \<Rightarrow> u64 \<Rightarrow> nat \<Rightarrow> ('k, 'v) dictEntry list \<Rightarrow> bool" where
  "scan_visits d v k em \<longleftrightarrow> set em \<subseteq> set (dict_entries d) \<and>
     (\<forall>e \<in> set (dict_entries d). dictHashKey d (fst e) mod 2 ^ k = unat v mod 2 ^ k \<longrightarrow> e \<in> set em)"

lemma live_bucket_visits:
  assumes "ht_live hf t" "length (ht_table t) = 2 ^ k" "e \<in> set (concat (ht_table t))" "hf (fst e) mod 2 ^ k = i"
  shows "e \<in> set (ht_table t ! i)"
proof -
  obtain l where "l < length (ht_table t)" "e \<in> set (ht_table t ! l)"
    using assms(3) unfolding in_concat_nth by blast
  with live_chain_hash [OF assms(1) this] assms(2,4) show ?thesis by simp
qed

lemma ht_live_power:
  assumes "ht_live hf t"
  obtains k where "2 \<le> k" "k \<le> 31" "length (ht_table t) = 2 ^ k" "ht_size t = 2 ^ k" "ht_sizemask t = 2 ^ k - 1"
  using assms by (auto simp: ht_live_def)

lemma scan_expansion_visits:
  assumes "ht_live hf t0" "ht_live hf t1" "length (ht_table t0) = 2 ^ k0" "length (ht_table t1) = 2 ^ k1" "k0 \<le> k1"
    and "b < 2 ^ k0" "c0 = ht_table t0 ! b"
    and "c1 = concat (map (\<lambda>l. ht_table t1 ! (b + l * 2 ^ k0)) [0..<2 ^ (k1 - k0)])"
  shows "set (c0 @ c1) \<subseteq> set (concat (ht_table t0) @ concat (ht_table t1))"
    and "e \<in> set (concat (ht_table t0) @ concat (ht_table t1)) \<Longrightarrow> hf (fst e) mod 2 ^ k0 = b \<Longrightarrow> e \<in> set (c0 @ c1)"
proof -
  have pw: "(2 :: nat) ^ k1 = 2 ^ (k1 - k0) * 2 ^ k0" using assms(5) by (simp flip: power_add)
  have lt: "b + l * 2 ^ k0 < 2 ^ k1" if "l < 2 ^ (k1 - k0)" for l
  proof -
    have "b + l * 2 ^ k0 < Suc l * 2 ^ k0" using assms(6) by simp
    also have "\<dots> \<le> 2 ^ k1" unfolding pw using that by (intro mult_le_mono1) simp
    finally show ?thesis .
  qed
  show "set (c0 @ c1) \<subseteq> set (concat (ht_table t0) @ concat (ht_table t1))"
  proof
    fix x assume "x \<in> set (c0 @ c1)"
    then consider "x \<in> set (ht_table t0 ! b)" | l where "l < 2 ^ (k1 - k0)" "x \<in> set (ht_table t1 ! (b + l * 2 ^ k0))"
      using assms(7,8) by auto
    then show "x \<in> set (concat (ht_table t0) @ concat (ht_table t1))"
      using assms(3,4,6) lt unfolding set_append in_concat_nth Un_iff by (metis assms(3,4))
  qed
  assume e: "e \<in> set (concat (ht_table t0) @ concat (ht_table t1))" "hf (fst e) mod 2 ^ k0 = b"
  show "e \<in> set (c0 @ c1)"
  proof (cases "e \<in> set (concat (ht_table t0))")
    case True
    with live_bucket_visits [OF assms(1,3) True e(2)] assms(7) show ?thesis by simp
  next
    case False
    then have e1: "e \<in> set (concat (ht_table t1))" using e(1) by simp
    let ?i = "hf (fst e) mod 2 ^ k1"
    have "?i mod 2 ^ k0 = b" using e(2) assms(5) by (simp add: mod_mod_cancel le_imp_power_dvd)
    then have i: "?i = b + ?i div 2 ^ k0 * 2 ^ k0" by (metis add.commute div_mult_mod_eq)
    have "?i < 2 ^ (k1 - k0) * 2 ^ k0" unfolding pw [symmetric] by simp
    then have l: "?i div 2 ^ k0 \<in> {0..<2 ^ (k1 - k0)}" using less_mult_imp_div_less by auto
    have "e \<in> set (ht_table t1 ! (b + ?i div 2 ^ k0 * 2 ^ k0))"
      using live_bucket_visits [OF assms(2,4) e1 refl] i by simp
    with l show ?thesis by (auto simp: assms(8) simp del: atLeastLessThan_iff)
  qed
qed

lemma dictScan_visits:
  assumes "dict_inv d" "dictSize d \<noteq> 0" "dictIsRehashing d \<longrightarrow> unat v < scan_small d"
  obtains k v1 em where "2 \<le> k" "k \<le> 31" "scan_small d = 2 ^ k" "unat v1 mod 2 ^ k = unat v mod 2 ^ k"
    "scan_visits d v k em" "dictScan d v = Some (rev64 (rev64 (v1 OR NOT (mask k)) + 1), em)"
proof (cases "dictIsRehashing d")
  case False
  then have h: "ht1 d = dictReset" "ht_live (dictHashKey d) (ht0 d)"
    using assms(1,2) by (auto simp: dict_inv_def dictSize_def dictReset_def)
  obtain k where k: "2 \<le> k" "k \<le> 31" "length (ht_table (ht0 d)) = 2 ^ k" "ht_size (ht0 d) = 2 ^ k" "ht_sizemask (ht0 d) = 2 ^ k - 1"
    by (rule ht_live_power [OF h(2)])
  let ?i = "unat v mod 2 ^ k"
  let ?em = "ht_table (ht0 d) ! ?i"
  have m: "word_of_nat (ht_sizemask (ht0 d)) = (mask k :: u64)" using k(5) word_of_nat_mask by simp
  have "bucket_at (ht0 d) (unat (v AND mask k)) = Some ?em"
    unfolding unat_and_mask by (simp add: bucket_at_def k(3))
  then have run: "dictScan d v = Some (rev64 (rev64 (v OR NOT (mask k)) + 1), ?em)"
    using False assms(2) by (simp add: dictScan_def Let_def m)
  have es: "dict_entries d = concat (ht_table (ht0 d))" using h(1) by (simp add: dict_entries_def dictReset_def)
  have "set ?em \<subseteq> set (concat (ht_table (ht0 d)))" 
    using k(3) unfolding subset_iff in_concat_nth by (metis mod_less_divisor zero_less_numeral zero_less_power)
  then have "scan_visits d v k ?em"
    unfolding scan_visits_def es using live_bucket_visits [OF h(2) k(3)] by blast
  then show ?thesis using that [OF k(1,2) _ refl _ run] False k(4) by (simp add: scan_small_def)
next
  case True
  define t0 where "t0 = (if ht_size (ht0 d) > ht_size (ht1 d) then ht1 d else ht0 d)"
  define t1 where "t1 = (if ht_size (ht0 d) > ht_size (ht1 d) then ht0 d else ht1 d)"
  have live: "ht_live (dictHashKey d) t0" "ht_live (dictHashKey d) t1"
    using assms(1) True by (auto simp: dict_inv_def rehash_state_def t0_def t1_def)
  obtain k0 where k0: "2 \<le> k0" "k0 \<le> 31" "length (ht_table t0) = 2 ^ k0" "ht_size t0 = 2 ^ k0" "ht_sizemask t0 = 2 ^ k0 - 1"
    by (rule ht_live_power [OF live(1)])
  obtain k1 where k1: "2 \<le> k1" "k1 \<le> 31" "length (ht_table t1) = 2 ^ k1" "ht_size t1 = 2 ^ k1" "ht_sizemask t1 = 2 ^ k1 - 1"
    by (rule ht_live_power [OF live(2)])
  have small: "scan_small d = 2 ^ k0" using True k0(4) by (auto simp: scan_small_def t0_def split: if_splits)
  have "ht_size t0 \<le> ht_size t1" by (auto simp: t0_def t1_def)
  then have le: "k0 \<le> k1" using k0(4) k1(4) by simp
  let ?b = "unat v"
  have b: "?b < 2 ^ k0" using assms(3) True small by simp
  define c1 where "c1 = concat (map (\<lambda>l. ht_table t1 ! (?b + l * 2 ^ k0)) [0..<2 ^ (k1 - k0)])"
  let ?em = "ht_table t0 ! ?b @ c1" and ?v1 = "word_of_nat (?b + 2 ^ k1) :: u64"
  have loop: "dictScan_loop t1 (mask k0) (mask k1) v (ht_table t0 ! ?b) = Some (?v1, ?em)"
    using dictScan_loop_ok [OF k1(3) le k1(2) b, of 0 "ht_table t0 ! ?b"] by (simp add: c1_def)
  have m: "word_of_nat (ht_sizemask t0) = (mask k0 :: u64)" "word_of_nat (ht_sizemask t1) = (mask k1 :: u64)"
    using k0(5) k1(5) word_of_nat_mask by simp_all
  have tt: "(if ht_size (ht0 d) > ht_size (ht1 d) then (ht1 d, ht0 d) else (ht0 d, ht1 d)) = (t0, t1)"
    by (simp add: t0_def t1_def)
  have "bucket_at t0 (unat (v AND mask k0)) = Some (ht_table t0 ! ?b)"
    unfolding unat_and_mask using b by (simp add: bucket_at_def k0(3))
  then have run: "dictScan d v = Some (rev64 (rev64 (?v1 OR NOT (mask k0)) + 1), ?em)"
    using True assms(2) loop by (simp add: dictScan_def Let_def m tt del: of_nat_add)
  have "set (dict_entries d) = set (concat (ht_table t0) @ concat (ht_table t1))"
    by (auto simp: dict_entries_def t0_def t1_def)
  then have vis: "scan_visits d v k0 ?em"
    unfolding scan_visits_def using scan_expansion_visits [OF live k0(3) k1(3) le b refl c1_def] b by simp
  have "(2 :: nat) ^ k1 \<le> 2 ^ 31" using k1(2) by (intro power_increasing) auto
  moreover have "(2 :: nat) ^ k0 \<le> 2 ^ 31" using k0(2) by (intro power_increasing) auto
  ultimately have "unat ?v1 = ?b + 2 ^ k1" using b by (simp add: unat_of_nat del: of_nat_add)
  moreover have "(2 :: nat) ^ k0 dvd 2 ^ k1" using le by (rule le_imp_power_dvd)
  ultimately have "unat ?v1 mod 2 ^ k0 = ?b mod 2 ^ k0" by (metis dvd_eq_mod_eq_0 mod_add_right_eq add.right_neutral)
  then show ?thesis using that [OF k0(1,2) small _ vis run] by simp
qed

lemma unat_ucast_u64: "unat (ucast (h :: u32) :: u64) = unat h"
  using unsigned_less [of h, where 'a = nat] by (simp add: unsigned_ucast_eq take_bit_nat_eq_self_iff)

lemma dictScan_step:
  assumes "dict_inv d" "dictIsRehashing d \<longrightarrow> unat v < scan_small d"
  obtains v' em where "dictScan d v = Some (v', em)" "set em \<subseteq> set (dict_entries d)"
    "\<And>e. e \<in> set (dict_entries d) \<Longrightarrow> scan_pos v \<le> entry_pos (dict_type d) e \<Longrightarrow>
        v' = 0 \<or> entry_pos (dict_type d) e < scan_pos v' \<Longrightarrow> e \<in> set em"
    "v' = 0 \<or> scan_pos v < scan_pos v'"
proof (cases "dictSize d = 0")
  case True
  then have "dict_entries d = []" using dictSize_eq [OF assms(1)] by simp
  with True show ?thesis by (intro that [of 0 "[]"]) (simp_all add: dictScan_def)
next
  case False
  obtain k v1 em where k: "2 \<le> k" "k \<le> 31" "scan_small d = 2 ^ k" "unat v1 mod 2 ^ k = unat v mod 2 ^ k"
    "scan_visits d v k em" "dictScan d v = Some (rev64 (rev64 (v1 OR NOT (mask k)) + 1), em)"
    by (rule dictScan_visits [OF assms(1) False assms(2)])
  have k': "0 < k" "k \<le> 63" using k(1,2) by auto
  note cov = scan_next_covers [OF k' k(4)]
  show ?thesis
  proof (rule that [OF k(6)])
    fix e assume e: "e \<in> set (dict_entries d)" "scan_pos v \<le> entry_pos (dict_type d) e"
      "rev64 (rev64 (v1 OR NOT (mask k)) + 1) = 0 \<or> entry_pos (dict_type d) e < scan_pos (rev64 (rev64 (v1 OR NOT (mask k)) + 1))"
    have "dictHashKey d (fst e) mod 2 ^ k = unat v mod 2 ^ k"
      using cov(2) [of "ucast (hashFunction (dict_type d) (fst e))"] e(2,3)
      unfolding entry_pos_def unat_ucast_u64 dictHashKey_def by blast
    then show "e \<in> set em" using k(5) e(1) by (simp add: scan_visits_def)
  qed (use k(5) cov(1) in \<open>auto simp: scan_visits_def\<close>)
qed

text \<open>The new cursor is covered by the mask of the smaller table.\<close>

lemma dictScan_cursor_small:
  assumes "dict_inv d" "dictIsRehashing d \<longrightarrow> unat v < scan_small d" "dictScan d v = Some (v', em)"
  shows "v' = 0 \<or> unat v' < scan_small d"
proof (cases "dictSize d = 0")
  case True
  with assms(3) show ?thesis by (simp add: dictScan_def)
next
  case False
  obtain k v1 em' where k: "2 \<le> k" "k \<le> 31" "scan_small d = 2 ^ k"
    "dictScan d v = Some (rev64 (rev64 (v1 OR NOT (mask k)) + 1), em')"
    using dictScan_visits [OF assms(1) False assms(2)] by metis
  define w where "w = (rev64 v1 AND NOT (mask (64 - k))) + 2 ^ (64 - k)"
  have "rev64 (v1 OR NOT (mask k)) = rev64 v1 OR mask (64 - k)"
    using k(1,2) by (intro bit_word_eqI) (auto simp: bit_simps bit_rev64)
  then have v': "v' = rev64 w" using k(4) assms(3) by (simp add: w_def or_mask_plus_1)
  have "2 ^ (64 - k) dvd rev64 v1 AND NOT (mask (64 - k))"
    unfolding take_bit_eq_0_iff [symmetric] by (rule bit_word_eqI) (auto simp: bit_simps)
  then have "take_bit (64 - k) w = 0" unfolding w_def take_bit_eq_0_iff by (simp only: dvd_add dvd_refl)
  then have no: "\<not> bit w n" if "n < 64 - k" for n
    using that by (metis bit_0_eq bit_take_bit_iff bot_apply bot_bool_def)
  have "n < k" if "n < 64" "bit w (63 - n)" for n
  proof (rule ccontr)
    assume "\<not> n < k"
    then have "63 - n < 64 - k" using that(1) k(2) by arith
    with no that(2) show False by blast
  qed
  then have "take_bit k v' = v'" by (intro bit_word_eqI) (auto simp: v' bit_simps bit_rev64)
  then have "unat v' = unat v' mod 2 ^ k" by (metis unat_take_bit)
  moreover have "unat v' mod 2 ^ k < 2 ^ k" by simp
  ultimately show ?thesis using k(3) by (metis)
qed

section \<open>Complete scans\<close>

text \<open>A scan: one step on each of the successive states of the dictionary, between which the server may
  do anything. The first component of the result is the last cursor.\<close>

fun scan_run :: "('k, 'v) dict list \<Rightarrow> u64 \<Rightarrow> (u64 \<times> ('k, 'v) dictEntry list) option" where
  "scan_run [] v = Some (v, [])"
| "scan_run (d # ds) v = do {
     (v', em) \<leftarrow> dictScan d v;
     (v'', ems) \<leftarrow> scan_run ds v';
     Some (v'', em @ ems)
   }"

fun scan_cursors_ok :: "('k, 'v) dict list \<Rightarrow> u64 \<Rightarrow> bool" where
  "scan_cursors_ok [] v = True"
| "scan_cursors_ok (d # ds) v =
     ((dictIsRehashing d \<longrightarrow> unat v < scan_small d) \<and>
      (case dictScan d v of None \<Rightarrow> False | Some (v', em) \<Rightarrow> scan_cursors_ok ds v'))"

lemma scan_run_covers:
  assumes "\<forall>d \<in> set ds. dict_inv d \<and> dict_type d = ty" "scan_cursors_ok ds v"
  shows "\<exists>v' em. scan_run ds v = Some (v', em) \<and>
    (v' = 0 \<and> ds \<noteq> [] \<and> (\<forall>d \<in> set ds. dict_map d k \<noteq> None) \<and> scan_pos v \<le> scan_pos (ucast (hashFunction ty k)) \<longrightarrow>
       (\<exists>e \<in> set em. key_match ty k (fst e)))"
  using assms
proof (induction ds arbitrary: v)
  case Nil
  then show ?case by simp
next
  case (Cons d ds)
  let ?h = "ucast (hashFunction ty k) :: u64"
  have d: "dict_inv d" "dict_type d = ty" "dictIsRehashing d \<longrightarrow> unat v < scan_small d" using Cons.prems by auto
  obtain v1 em where s: "dictScan d v = Some (v1, em)" "set em \<subseteq> set (dict_entries d)"
    "\<And>e. e \<in> set (dict_entries d) \<Longrightarrow> scan_pos v \<le> entry_pos (dict_type d) e \<Longrightarrow>
        v1 = 0 \<or> entry_pos (dict_type d) e < scan_pos v1 \<Longrightarrow> e \<in> set em"
    by (rule dictScan_step [OF d(1,3)]) (rule that)
  have "scan_cursors_ok ds v1" using Cons.prems(2) s(1) by simp
  with Cons.IH [of v1] Cons.prems(1) obtain v' ems where r: "scan_run ds v1 = Some (v', ems)"
    "v' = 0 \<and> ds \<noteq> [] \<and> (\<forall>d \<in> set ds. dict_map d k \<noteq> None) \<and> scan_pos v1 \<le> scan_pos ?h \<longrightarrow>
       (\<exists>e \<in> set ems. key_match ty k (fst e))" by auto
  have "\<exists>e \<in> set (em @ ems). key_match ty k (fst e)"
    if h: "v' = 0" "\<forall>d \<in> set (d # ds). dict_map d k \<noteq> None" "scan_pos v \<le> scan_pos ?h"
  proof (cases "v1 = 0 \<or> scan_pos ?h < scan_pos v1")
    case True
    obtain e where e: "e \<in> set (dict_entries d)" "key_match ty k (fst e)"
      using h(2) d(2) emap_None [of ty "dict_entries d" k] by (auto simp: dict_map_def)
    have "dictType_ok ty" using d(1,2) by (simp add: dict_inv_def dict_common_def)
    from dictType_okD(2) [OF this e(2)] have "entry_pos ty e = scan_pos ?h" by (simp add: entry_pos_def)
    with s(3) [OF e(1)] True h(3) d(2) e(2) show ?thesis by auto
  next
    case False
    then have "ds \<noteq> []" using r(1) h(1) by auto
    with r(2) False h show ?thesis by auto
  qed
  with s(1) r(1) show ?case by simp
qed

lemma scan_cursors_grow:
  assumes "\<forall>d \<in> set ds. dict_inv d \<and> scan_small d \<ge> n" "sorted_wrt (\<lambda>d d'. scan_small d \<le> scan_small d') ds"
    and "v = 0 \<or> unat v < n"
  shows "scan_cursors_ok ds v"
  using assms
proof (induction ds arbitrary: v n)
  case (Cons d ds)
  have "unat v < scan_small d" if "dictIsRehashing d"
  proof -
    have "0 < scan_small d"
      using that Cons.prems(1) ht_live_idx(3,5) by (fastforce simp: dict_inv_def rehash_state_def scan_small_def)
    with Cons.prems(1,3) show ?thesis by auto
  qed
  then have c: "dictIsRehashing d \<longrightarrow> unat v < scan_small d" by blast
  have inv: "dict_inv d" using Cons.prems(1) by simp
  obtain v1 em where s: "dictScan d v = Some (v1, em)" by (rule dictScan_step [OF inv c])
  have "v1 = 0 \<or> unat v1 < scan_small d" by (rule dictScan_cursor_small [OF inv c s])
  with Cons.IH [of "scan_small d" v1] Cons.prems(1,2) c s show ?case by simp
qed simp

section \<open>Examples\<close>

text \<open>A table of 32 buckets with one entry, and the same dictionary after \<open>dictResize\<close> has started to
  shrink it to four buckets.\<close>

definition scan_ex1 :: "(nat, nat) dict" where
  "scan_ex1 = \<lparr>dict_type = dictType_ex,
     ht0 = \<lparr>ht_table = (replicate 32 [])[4 := [(4, 40)]], ht_size = 32, ht_sizemask = 31, ht_used = 1\<rparr>,
     ht1 = dictReset, rehashidx = - 1, iterators = 0\<rparr>"

definition scan_ex2 :: "(nat, nat) dict" where
  "scan_ex2 = scan_ex1\<lparr>ht1 := \<lparr>ht_table = replicate 4 [], ht_size = 4, ht_sizemask = 3, ht_used = 0\<rparr>, rehashidx := 0\<rparr>"

lemma rev_masks:
  "(NOT 0 :: u64) XOR push_bit 32 (NOT 0) = 0x00000000FFFFFFFF"
  "(0x00000000FFFFFFFF :: u64) XOR push_bit 16 0x00000000FFFFFFFF = 0x0000FFFF0000FFFF"
  "(0x0000FFFF0000FFFF :: u64) XOR push_bit 8 0x0000FFFF0000FFFF = 0x00FF00FF00FF00FF"
  "(0x00FF00FF00FF00FF :: u64) XOR push_bit 4 0x00FF00FF00FF00FF = 0x0F0F0F0F0F0F0F0F"
  "(0x0F0F0F0F0F0F0F0F :: u64) XOR push_bit 2 0x0F0F0F0F0F0F0F0F = 0x3333333333333333"
  "(0x3333333333333333 :: u64) XOR push_bit 1 0x3333333333333333 = 0x5555555555555555"
  by code_simp+

lemma rev_loop_unfold:
  "s div 2 \<noteq> 0 \<Longrightarrow> msk XOR push_bit (s div 2) msk = m' \<Longrightarrow> rev_loop s msk v = rev_loop (s div 2) m' (rev_step (s div 2) m' v)"
  by (subst rev_loop.simps) (simp add: Let_def rev_step_def)

lemma rev64_steps:
  "rev64 v = rev_step 1 0x5555555555555555 (rev_step 2 0x3333333333333333 (rev_step 4 0x0F0F0F0F0F0F0F0F
     (rev_step 8 0x00FF00FF00FF00FF (rev_step 16 0x0000FFFF0000FFFF (rev_step 32 0x00000000FFFFFFFF v)))))"
proof -
  have "64 div 2 = (32::nat)" "32 div 2 = (16::nat)" "16 div 2 = (8::nat)" "8 div 2 = (4::nat)" "4 div 2 = (2::nat)" "2 div 2 = (1::nat)" by simp_all
  note * = rev_loop_unfold [of 64, unfolded this(1), OF _ rev_masks(1)] rev_loop_unfold [of 32, unfolded this(2), OF _ rev_masks(2)]
     rev_loop_unfold [of 16, unfolded this(3), OF _ rev_masks(3)] rev_loop_unfold [of 8, unfolded this(4), OF _ rev_masks(4)]
     rev_loop_unfold [of 4, unfolded this(5), OF _ rev_masks(5)] rev_loop_unfold [of 2, unfolded this(6), OF _ rev_masks(6)]
  have "rev64 v = rev_loop 1 0x5555555555555555 (rev_step 1 0x5555555555555555 (rev_step 2 0x3333333333333333 (rev_step 4 0x0F0F0F0F0F0F0F0F
     (rev_step 8 0x00FF00FF00FF00FF (rev_step 16 0x0000FFFF0000FFFF (rev_step 32 0x00000000FFFFFFFF v))))))"
    unfolding rev64_def by (subst * , simp)+ (rule refl)
  then show ?thesis by (simp add: rev_loop.simps [of "Suc 0"])
qed


lemma rev64_minus_1: "rev64 (- 1) = - 1"
  by (rule bit_word_eqI) (simp add: bit_rev64)

lemma rev64_0: "rev64 0 = 0"
  by simp

text \<open>Evaluation at literals.\<close>

lemmas rev64_literal = rev64_steps [of "numeral n"] rev64_steps [of "- numeral n"] rev64_steps [of 0] for n

lemmas scan_eval = dictScan_def scan_ex1_def scan_ex2_def dictSize_def dictIsRehashing_def dictReset_def Let_def
  bucket_at_def dictScan_loop.simps rev64_literal rev64_minus_1 rev_step_def

lemma scan_ex_steps:
  "dictScan scan_ex1 0 = Some (16, [])" "dictScan scan_ex1 16 = Some (8, [])"
  "dictScan scan_ex2 8 = Some (2, [])" "dictScan scan_ex2 2 = Some (1, [])"
  "dictScan scan_ex2 1 = Some (3, [])" "dictScan scan_ex2 3 = Some (0, [])"
  by (simp_all add: scan_eval)

lemma scan_ex_inv: "dict_inv scan_ex1" "dict_inv scan_ex2" "dict_map scan_ex1 4 = Some 40" "dict_map scan_ex2 4 = Some 40"
proof -
  let ?t = "\<lparr>ht_table = (replicate 32 [])[4 := [(4, 40)]], ht_size = 32, ht_sizemask = 31, ht_used = 1\<rparr> :: (nat, nat) dictht"
  have hk: "dictHashKey scan_ex1 4 = 4" by (simp add: dictHashKey_def scan_ex1_def dictType_ex_def)
  have e: "concat ((replicate 32 [])[4 := [(4, 40)]]) = [(4, 40)]" by (simp add: numeral_eq_Suc)
  have "ht_live (dictHashKey scan_ex1) (ht0 scan_ex1)"
    unfolding ht_live_def using hk
    by (intro conjI exI [of _ 5]) (auto simp: scan_ex1_def e nth_list_update split: if_splits)
  moreover have "ht_live (dictHashKey scan_ex1) (ht1 scan_ex2)"
    using ht_live_new [of 2 "dictHashKey scan_ex1"] by (simp add: scan_ex2_def)
  moreover have "dict_common scan_ex1"
    by (simp add: dict_common_def distinct_keys_def dict_entries_def scan_ex1_def DICT_MAX_def dictReset_def e)
  moreover have "dict_common scan_ex2"
    by (simp add: dict_common_def distinct_keys_def dict_entries_def scan_ex1_def scan_ex2_def DICT_MAX_def e)
  moreover have "dict_map scan_ex1 4 = Some 40" "dict_map scan_ex2 4 = Some 40"
    by (simp_all add: dict_map_def emap_def dict_entries_def scan_ex1_def scan_ex2_def dictReset_def e)
  moreover have "dictHashKey scan_ex2 = dictHashKey scan_ex1" "ht0 scan_ex2 = ht0 scan_ex1" "rehashidx scan_ex2 = 0"
    by (simp_all add: scan_ex2_def)
  moreover have "rehashidx scan_ex1 = - 1" "ht1 scan_ex1 = dictReset" "ht_size (ht0 scan_ex1) = 32"
    by (simp_all add: scan_ex1_def)
  ultimately show "dict_inv scan_ex1" "dict_inv scan_ex2" "dict_map scan_ex1 4 = Some 40" "dict_map scan_ex2 4 = Some 40"
    by (simp_all add: dict_inv_def dictIsRehashing_def rehash_state_def)
qed

section \<open>Properties\<close>

text \<open>\<open>rev\<close> reverses the 64 bits of its argument.\<close>

theorem rev_reverses: "bit (rev64 v) n \<longleftrightarrow> n < 64 \<and> bit v (63 - n)"
  using bit_rev64 [of n v] by (cases "n < 64") (auto dest: bit_imp_le_length)

text \<open>C6: the guarantee of \<open>dictScan\<close>. Take a scan from cursor 0 until the cursor is 0 again, one step on
  each of the successive states of the dictionary, which satisfy the invariant but are otherwise arbitrary
  (keys are added and deleted, the tables grow and shrink, a rehashing may be going on). If every step on a
  rehashing dictionary is called with a cursor below the size of the smaller table, the scan runs without
  an invalid access, every step returns, and every key that is present in all the states is reported.\<close>

theorem dictScan_guarantee:
  assumes "ds \<noteq> []" "\<forall>d \<in> set ds. dict_inv d \<and> dict_type d = ty" "scan_cursors_ok ds 0"
  shows "\<exists>v em. scan_run ds 0 = Some (v, em) \<and>
    (v = 0 \<longrightarrow> (\<forall>d \<in> set ds. dict_map d k \<noteq> None) \<longrightarrow> (\<exists>e \<in> set em. key_match ty k (fst e)))"
proof -
  have "scan_pos 0 = 0" by (simp add: scan_pos_def rev64_0)
  with scan_run_covers [OF assms(2,3), of k] assms(1) show ?thesis by auto
qed

theorem dictScan_guarantee_witness:
  "\<exists>v em. scan_run [dict_ex, dict_ex, dict_ex, dict_ex] 0 = Some (v, em) \<and>
     (v = 0 \<longrightarrow> (\<exists>e \<in> set em. fst e = 6))"
proof -
  let ?ds = "[dict_ex, dict_ex, dict_ex, dict_ex]"
  have small: "scan_small dict_ex = 4" by (simp add: scan_small_def) (simp add: dict_ex_def)
  have "scan_cursors_ok ?ds 0" by (rule scan_cursors_grow [of _ 4]) (simp_all add: small dict_ex_inv)
  then show ?thesis
    using dictScan_guarantee [of ?ds dictType_ex 6] dict_ex_inv by (simp add: dict_ex_map del: scan_run.simps)
qed

text \<open>The condition of the guarantee is met by every scan from cursor 0 during which the smaller of the
  tables in use never shrinks; in particular by scans of a growing dictionary, in and out of rehashings.\<close>

theorem dictScan_growing:
  assumes "\<forall>d \<in> set ds. dict_inv d" "sorted_wrt (\<lambda>d d'. scan_small d \<le> scan_small d') ds"
  shows "scan_cursors_ok ds 0"
  using assms scan_cursors_grow [of ds 0 0] by simp

theorem dictScan_growing_witness: "scan_cursors_ok [dict_ex, dict_ex2] 0"
proof -
  have "scan_small dict_ex = 4" "scan_small dict_ex2 = 8"
    using dict_ex2_inv(3) by (simp add: scan_small_def, simp add: dict_ex_def, simp add: scan_small_def dict_ex2_def)
  then show ?thesis using dictScan_growing [of "[dict_ex, dict_ex2]"] dict_ex_inv dict_ex2_inv(1) by simp
qed



text \<open>C8: without the condition the guarantee fails. A scan of a table of 32 buckets has reached cursor 8
  when \<open>dictResize\<close> starts to shrink the table to four buckets. The loop over the expansions then
  increments the high bits of the cursor numerically and never visits bucket 4, which is not visited yet.
  The scan ends with cursor 0 without having reported the key 4, which was present all the time.\<close>

theorem dictScan_shrink_misses:
  "dict_inv scan_ex1 \<and> dict_map scan_ex1 4 = Some 40 \<and> dict_inv scan_ex2 \<and> dict_map scan_ex2 4 = Some 40 \<and>
   dictResize True scan_ex1 = Some (scan_ex2, True) \<and>
   scan_run [scan_ex1, scan_ex1, scan_ex2, scan_ex2, scan_ex2, scan_ex2] 0 = Some (0, [])"
proof -
  have "dictNextPower 4 = Some 4"
    by (simp add: dictNextPower_def DICT_HT_INITIAL_SIZE_def LONG_MAX_def dictNextPower_loop.simps)
  then have "dictResize True scan_ex1 = Some (scan_ex2, True)"
    by (simp add: dictResize_def dictExpand_def dictIsRehashing_def scan_ex1_def scan_ex2_def DICT_HT_INITIAL_SIZE_def
          cast_s_def cast_u_def Let_def)
  then show ?thesis by (simp add: scan_ex_inv scan_ex_steps)
qed

end
