(* ===== verification/Vire_Dict_Iter.thy ===== *)
theory Vire_Dict_Iter
  imports Vire_Dict_Scan
begin

text \<open>
  The rest of \<open>src/src/vr_dict.c\<close>: the hash functions, safe and unsafe iterators with the misuse
  fingerprint, and the two ways to sample random entries. \<open>random()\<close> is a parameter, the sequence of
  the numbers it returns.
\<close>

section \<open>Hash functions\<close>

definition dictIntHashFunction :: "u32 \<Rightarrow> u32" where
  "dictIntHashFunction key =
     (let key = key + NOT (push_bit 15 key);
          key = key XOR drop_bit 10 key;
          key = key + push_bit 3 key;
          key = key XOR drop_bit 6 key;
          key = key + NOT (push_bit 11 key);
          key = key XOR drop_bit 16 key
      in key)"

text \<open>MurmurHash2: four bytes at a time (read as a little-endian word), then the last bytes.\<close>

definition murmur_m :: u32 where "murmur_m = 0x5bd1e995"

fun dictGenHash_loop :: "u32 \<Rightarrow> byte list \<Rightarrow> u32" where
  "dictGenHash_loop h (b0 # b1 # b2 # b3 # data) =
     (let k = word_of_nat (le_val [b0, b1, b2, b3]) * murmur_m;
          k = k XOR drop_bit 24 k;
          k = k * murmur_m
      in dictGenHash_loop ((h * murmur_m) XOR k) data)"
| "dictGenHash_loop h [b0, b1, b2] =
     (h XOR push_bit 16 (ucast b2) XOR push_bit 8 (ucast b1) XOR ucast b0) * murmur_m"
| "dictGenHash_loop h [b0, b1] = (h XOR push_bit 8 (ucast b1) XOR ucast b0) * murmur_m"
| "dictGenHash_loop h [b0] = (h XOR ucast b0) * murmur_m"
| "dictGenHash_loop h [] = h"

definition dictGenHashFunction :: "u32 \<Rightarrow> byte list \<Rightarrow> u32" where
  "dictGenHashFunction dict_hash_function_seed key =
     (let h = dictGenHash_loop (dict_hash_function_seed XOR word_of_nat (length key)) key;
          h = h XOR drop_bit 13 h;
          h = h * murmur_m
      in h XOR drop_bit 15 h)"

definition dictGenCaseHashFunction :: "u32 \<Rightarrow> byte list \<Rightarrow> u32" where
  "dictGenCaseHashFunction dict_hash_function_seed buf =
     foldl (\<lambda>hash c. (push_bit 5 hash + hash) + ucast (tolower c)) dict_hash_function_seed buf"

section \<open>Iterators\<close>

text \<open>A pointer to an entry is the rest of its chain from the entry on (the empty list is \<open>NULL\<close>);
  \<open>addr0\<close> and \<open>addr1\<close> are the addresses of the two tables, which enter the fingerprint.\<close>

record ('k, 'v) dictIterator =
  it_index :: int
  it_table :: nat
  it_safe :: bool
  it_entry :: "('k, 'v) dictEntry list"
  it_nextEntry :: "('k, 'v) dictEntry list"
  it_fingerprint :: u64

definition fingerprint_mix :: "u64 \<Rightarrow> u64" where
  "fingerprint_mix hash =
     (let hash = NOT hash + push_bit 21 hash;
          hash = hash XOR signed_drop_bit 24 hash;
          hash = (hash + push_bit 3 hash) + push_bit 8 hash;
          hash = hash XOR signed_drop_bit 14 hash;
          hash = (hash + push_bit 2 hash) + push_bit 4 hash;
          hash = hash XOR signed_drop_bit 28 hash
      in hash + push_bit 31 hash)"

definition dictFingerprint :: "u64 \<Rightarrow> u64 \<Rightarrow> ('k, 'v) dict \<Rightarrow> u64" where
  "dictFingerprint addr0 addr1 d =
     foldl (\<lambda>hash i. fingerprint_mix (hash + i)) 0
       [addr0, word_of_nat (ht_size (ht0 d)), word_of_nat (ht_used (ht0 d)),
        addr1, word_of_nat (ht_size (ht1 d)), word_of_nat (ht_used (ht1 d))]"

text \<open>\<open>dictGetIterator\<close> leaves the fingerprint uninitialised: the parameter \<open>junk\<close>.\<close>

definition dictGetIterator :: "u64 \<Rightarrow> ('k, 'v) dictIterator" where
  "dictGetIterator junk = \<lparr>it_index = - 1, it_table = 0, it_safe = False, it_entry = [], it_nextEntry = [],
     it_fingerprint = junk\<rparr>"

definition dictGetSafeIterator :: "u64 \<Rightarrow> ('k, 'v) dictIterator" where
  "dictGetSafeIterator junk = (dictGetIterator junk)\<lparr>it_safe := True\<rparr>"

text \<open>The part of the loop body of \<open>dictNext\<close> for a \<open>NULL\<close> entry: the new state and the chain at the next
  index, or \<open>None\<close> for the \<open>break\<close>.\<close>

definition dictNext_advance :: "u64 \<Rightarrow> u64 \<Rightarrow> ('k, 'v) dict \<Rightarrow> ('k, 'v) dictIterator \<Rightarrow>
    (('k, 'v) dict \<times> ('k, 'v) dictIterator \<times> ('k, 'v) dictEntry list option) option" where
  "dictNext_advance addr0 addr1 d iter =
     (let first = (it_index iter = - 1 \<and> it_table iter = 0);
          d1 = (if first \<and> it_safe iter then d\<lparr>iterators := iterators d + 1\<rparr> else d);
          iter1 = (if first \<and> \<not> it_safe iter then iter\<lparr>it_fingerprint := dictFingerprint addr0 addr1 d\<rparr> else iter);
          iter2 = iter1\<lparr>it_index := it_index iter1 + 1\<rparr>
      in if it_index iter2 \<ge> int (ht_size (ht_at d1 (it_table iter2)))
         then if dictIsRehashing d1 \<and> it_table iter2 = 0
              then let iter3 = iter2\<lparr>it_table := 1, it_index := 0\<rparr>
                   in map_option (\<lambda>c. (d1, iter3, Some c)) (bucket_at (ht1 d1) 0)
              else Some (d1, iter2, None)
         else if it_index iter2 < 0 then None
         else map_option (\<lambda>c. (d1, iter2, Some c)) (bucket_at (ht_at d1 (it_table iter2)) (nat (it_index iter2))))"

partial_function (option) dictNext :: "u64 \<Rightarrow> u64 \<Rightarrow> ('k, 'v) dict \<Rightarrow> ('k, 'v) dictIterator \<Rightarrow>
    (('k, 'v) dict \<times> ('k, 'v) dictIterator \<times> ('k, 'v) dictEntry option) option" where
  "dictNext addr0 addr1 d iter = do {
     (d1, iter1, c) \<leftarrow>
       (if it_entry iter = [] then dictNext_advance addr0 addr1 d iter
        else Some (d, iter, Some (it_nextEntry iter)));
     case c of
       None \<Rightarrow> Some (d1, iter1, None)
     | Some [] \<Rightarrow> dictNext addr0 addr1 d1 (iter1\<lparr>it_entry := []\<rparr>)
     | Some (e # es) \<Rightarrow> Some (d1, iter1\<lparr>it_entry := e # es, it_nextEntry := es\<rparr>, Some e)
   }"

definition dictReleaseIterator :: "u64 \<Rightarrow> u64 \<Rightarrow> ('k, 'v) dict \<Rightarrow> ('k, 'v) dictIterator \<Rightarrow> ('k, 'v) dict option" where
  "dictReleaseIterator addr0 addr1 d iter =
     (if it_index iter = - 1 \<and> it_table iter = 0 then Some d
      else if it_safe iter then Some (d\<lparr>iterators := iterators d - 1\<rparr>)
      else if it_fingerprint iter = dictFingerprint addr0 addr1 d then Some d else None)"

section \<open>Random sampling\<close>

text \<open>\<open>rnd j\<close> is the value of the \<open>j\<close>-th call of \<open>random()\<close>.\<close>

definition random_bucket :: "('k, 'v) dict \<Rightarrow> nat \<Rightarrow> ('k, 'v) dictEntry list option" where
  "random_bucket d r =
     (if dictIsRehashing d
      then let h = cast_u 32 (rehashidx d + int r mod (int (ht_size (ht0 d)) + int (ht_size (ht1 d)) - rehashidx d))
           in if h \<ge> ht_size (ht0 d) then bucket_at (ht1 d) (h - ht_size (ht0 d)) else bucket_at (ht0 d) h
      else bucket_at (ht0 d) (cast_u 32 (int (r AND ht_sizemask (ht0 d)))))"

partial_function (option) random_bucket_loop :: "(nat \<Rightarrow> nat) \<Rightarrow> ('k, 'v) dict \<Rightarrow> nat \<Rightarrow> (('k, 'v) dictEntry list \<times> nat) option" where
  "random_bucket_loop rnd d j = do {
     he \<leftarrow> random_bucket d (rnd j);
     if he = [] then random_bucket_loop rnd d (j + 1) else Some (he, j + 1)
   }"

definition dictGetRandomKey :: "(nat \<Rightarrow> nat) \<Rightarrow> ('k, 'v) dict \<Rightarrow> (('k, 'v) dict \<times> ('k, 'v) dictEntry option) option" where
  "dictGetRandomKey rnd d =
     (if dictSize d = 0 then Some (d, None)
      else do {
        d1 \<leftarrow> (if dictIsRehashing d then dictRehashStep d else Some d);
        (he, j) \<leftarrow> random_bucket_loop rnd d1 0;
        Some (d1, Some (he ! (rnd j mod length he)))
      })"

text \<open>\<open>dictGetSomeKeys\<close>: the state of its loop is the index \<open>i\<close>, the number \<open>emptylen\<close> of contiguous empty
  buckets, the entries stored so far and the number of calls of \<open>random()\<close>. The flag is the early
  return.\<close>

type_synonym ('k, 'v) somekeys = "nat \<times> nat \<times> ('k, 'v) dictEntry list \<times> nat"

definition someKeys_table :: "(nat \<Rightarrow> nat) \<Rightarrow> ('k, 'v) dict \<Rightarrow> nat \<Rightarrow> nat \<Rightarrow> nat \<Rightarrow> nat \<Rightarrow> ('k, 'v) somekeys \<Rightarrow>
    (('k, 'v) somekeys \<times> bool) option" where
  "someKeys_table rnd d cnt tables maxsizemask j = (\<lambda>(i, emptylen, des, r).
     if tables = 2 \<and> j = 0 \<and> i < cast_u 64 (rehashidx d)
     then Some ((if i \<ge> ht_size (ht1 d) then nat (rehashidx d) else i, emptylen, des, r), False)
     else if i \<ge> ht_size (ht_at d j) then Some ((i, emptylen, des, r), False)
     else do {
       he \<leftarrow> bucket_at (ht_at d j) i;
       if he = []
       then if emptylen + 1 \<ge> 5 \<and> emptylen + 1 > cnt
            then Some ((rnd r AND maxsizemask, 0, des, r + 1), False)
            else Some ((i, emptylen + 1, des, r), False)
       else let des' = des @ take (cnt - length des) he
            in Some ((i, 0, des', r), length des' = cnt)
     })"

fun someKeys_loop :: "(nat \<Rightarrow> nat) \<Rightarrow> ('k, 'v) dict \<Rightarrow> nat \<Rightarrow> nat \<Rightarrow> nat \<Rightarrow> nat \<Rightarrow> ('k, 'v) somekeys \<Rightarrow>
    ('k, 'v) dictEntry list option" where
  "someKeys_loop rnd d cnt tables maxsizemask 0 (i, emptylen, des, r) = Some des"
| "someKeys_loop rnd d cnt tables maxsizemask (Suc maxsteps) (i, emptylen, des, r) =
     (if length des \<ge> cnt then Some des
      else do {
        ((i1, emptylen1, des1, r1), fin1) \<leftarrow> someKeys_table rnd d cnt tables maxsizemask 0 (i, emptylen, des, r);
        if fin1 then Some des1
        else do {
          ((i2, emptylen2, des2, r2), fin2) \<leftarrow>
            (if tables = 2 then someKeys_table rnd d cnt tables maxsizemask 1 (i1, emptylen1, des1, r1)
             else Some ((i1, emptylen1, des1, r1), False));
          if fin2 then Some des2
          else someKeys_loop rnd d cnt tables maxsizemask maxsteps ((i2 + 1) AND maxsizemask, emptylen2, des2, r2)
        }
      })"

fun someKeys_rehash :: "('k, 'v) dict \<Rightarrow> nat \<Rightarrow> ('k, 'v) dict option" where
  "someKeys_rehash d 0 = Some d"
| "someKeys_rehash d (Suc n) =
     (if dictIsRehashing d then do { d1 \<leftarrow> dictRehashStep d; someKeys_rehash d1 n } else Some d)"

definition dictGetSomeKeys :: "(nat \<Rightarrow> nat) \<Rightarrow> ('k, 'v) dict \<Rightarrow> nat \<Rightarrow> (('k, 'v) dict \<times> ('k, 'v) dictEntry list) option" where
  "dictGetSomeKeys rnd d count0 = do {
     let cnt = (if dictSize d < count0 then cast_u 32 (int (dictSize d)) else count0);
     let maxsteps = cast_u 32 (int cnt * 10);
     d1 \<leftarrow> someKeys_rehash d cnt;
     let tables = (if dictIsRehashing d1 then 2 else 1);
     let maxsizemask = (if tables > 1 \<and> ht_sizemask (ht0 d1) < ht_sizemask (ht1 d1)
                        then ht_sizemask (ht1 d1) else ht_sizemask (ht0 d1));
     des \<leftarrow> someKeys_loop rnd d1 cnt tables maxsizemask maxsteps (rnd 0 AND maxsizemask, 0, [], 1);
     Some (d1, des)
   }"

section \<open>The iterator enumerates the entries\<close>

text \<open>What an iterator still has to return.\<close>

definition it_rest :: "('k, 'v) dict \<Rightarrow> ('k, 'v) dictIterator \<Rightarrow> ('k, 'v) dictEntry list" where
  "it_rest d iter =
     (if it_entry iter = [] then [] else it_nextEntry iter) @
     concat (drop (nat (it_index iter + 1)) (ht_table (ht_at d (it_table iter)))) @
     (if dictIsRehashing d \<and> it_table iter = 0 then concat (ht_table (ht1 d)) else [])"

definition it_started :: "('k, 'v) dictIterator \<Rightarrow> bool" where
  "it_started iter \<longleftrightarrow> \<not> (it_index iter = - 1 \<and> it_table iter = 0)"

definition it_ok :: "('k, 'v) dict \<Rightarrow> ('k, 'v) dictIterator \<Rightarrow> bool" where
  "it_ok d iter \<longleftrightarrow> it_table iter \<le> 1 \<and> - 1 \<le> it_index iter \<and>
     (it_table iter = 1 \<longrightarrow> dictIsRehashing d \<and> 0 \<le> it_index iter) \<and>
     (it_entry iter \<noteq> [] \<longrightarrow> it_started iter)"

lemma dict_inv_sizes:
  assumes "dict_inv d"
  shows "ht_size (ht0 d) = length (ht_table (ht0 d))" "ht_size (ht1 d) = length (ht_table (ht1 d))"
    "dictIsRehashing d \<Longrightarrow> ht_table (ht1 d) \<noteq> []"
  using assms ht_live_idx(3,5) [of "dictHashKey d" "ht0 d"] ht_live_idx(3,5) [of "dictHashKey d" "ht1 d"]
  by (auto simp: dict_inv_def rehash_state_def dictReset_def split: if_splits)

text \<open>The effect of the first step of an iterator on the count of safe iterators.\<close>

definition it_register :: "('k, 'v) dictIterator \<Rightarrow> ('k, 'v) dict \<Rightarrow> ('k, 'v) dict" where
  "it_register iter d = (if \<not> it_started iter \<and> it_safe iter then d\<lparr>iterators := iterators d + 1\<rparr> else d)"

definition it_fp :: "u64 \<Rightarrow> u64 \<Rightarrow> ('k, 'v) dict \<Rightarrow> ('k, 'v) dictIterator \<Rightarrow> bool" where
  "it_fp addr0 addr1 d iter \<longleftrightarrow>
     (it_started iter \<and> \<not> it_safe iter \<longrightarrow> it_fingerprint iter = dictFingerprint addr0 addr1 d)"

definition it_measure :: "('k, 'v) dict \<Rightarrow> ('k, 'v) dictIterator \<Rightarrow> nat" where
  "it_measure d iter = length (ht_table (ht_at d (it_table iter))) - nat (it_index iter + 1) +
     (if it_table iter = 0 then length (ht_table (ht1 d)) + 1 else 0)"

lemma iterators_upd [simp]:
  "ht_at (d\<lparr>iterators := n\<rparr>) t = ht_at d t" "dictIsRehashing (d\<lparr>iterators := n\<rparr>) = dictIsRehashing d"
  "dictFingerprint addr0 addr1 (d\<lparr>iterators := n\<rparr>) = dictFingerprint addr0 addr1 d"
  "it_rest (d\<lparr>iterators := n\<rparr>) iter = it_rest d iter" "it_ok (d\<lparr>iterators := n\<rparr>) iter = it_ok d iter"
  "it_measure (d\<lparr>iterators := n\<rparr>) iter = it_measure d iter"
  "dictHashKey (d\<lparr>iterators := n\<rparr>) = dictHashKey d"
  "dict_entries (d\<lparr>iterators := n\<rparr>) = dict_entries d"
  by (simp_all add: ht_at_def dictIsRehashing_def dictFingerprint_def it_rest_def it_ok_def it_measure_def
        dictHashKey_def fun_eq_iff dict_entries_def)

lemma dict_inv_iterators [simp]: "dict_inv (d\<lparr>iterators := n\<rparr>) = dict_inv d"
  by (simp add: dict_inv_def dict_common_def rehash_state_def)

lemma it_register_simps [simp]:
  "it_rest (it_register i d) iter = it_rest d iter" "it_ok (it_register i d) iter = it_ok d iter"
  "it_measure (it_register i d) iter = it_measure d iter" "dict_inv (it_register i d) = dict_inv d"
  "dictFingerprint addr0 addr1 (it_register i d) = dictFingerprint addr0 addr1 d"
  by (simp_all add: it_register_def)

lemma it_register_started [simp]: "it_started iter \<Longrightarrow> it_register iter d = d"
  by (simp add: it_register_def)

lemma concat_drop_Suc: "i < length xs \<Longrightarrow> concat (drop i xs) = xs ! i @ concat (drop (Suc i) xs)"
  by (metis Cons_nth_drop_Suc concat.simps(2))

lemma dictNext_advance_ok:
  assumes "dict_inv d" "it_ok d iter" "it_entry iter = []" "it_fp addr0 addr1 d iter"
  obtains iter1 c where "dictNext_advance addr0 addr1 d iter = Some (it_register iter d, iter1, c)"
    "it_ok d iter1" "it_started iter1" "it_fp addr0 addr1 d iter1" "it_entry iter1 = []" "it_safe iter1 = it_safe iter"
    "case c of None \<Rightarrow> it_rest d iter = [] \<and> it_rest d iter1 = []
     | Some ch \<Rightarrow> it_rest d iter = ch @ it_rest d iter1 \<and> it_measure d iter1 < it_measure d iter"
proof -
  let ?T = "ht_table (ht_at d (it_table iter))"
  let ?i = "it_index iter + 1"
  let ?iter1 = "if \<not> it_started iter \<and> \<not> it_safe iter then iter\<lparr>it_fingerprint := dictFingerprint addr0 addr1 d\<rparr> else iter"
  let ?iter2 = "?iter1\<lparr>it_index := ?i\<rparr>"
  have ok: "it_table iter \<le> 1" "0 \<le> ?i" "it_table iter = 1 \<longrightarrow> dictIsRehashing d" using assms(2) by (auto simp: it_ok_def)
  have sz: "ht_size (ht_at d (it_table iter)) = length ?T" using dict_inv_sizes(1,2) [OF assms(1)] by (simp add: ht_at_def)
  have adv: "dictNext_advance addr0 addr1 d iter =
     (if ?i \<ge> int (length ?T)
      then if dictIsRehashing d \<and> it_table iter = 0
           then map_option (\<lambda>c. (it_register iter d, ?iter2\<lparr>it_table := 1, it_index := 0\<rparr>, Some c)) (bucket_at (ht1 d) 0)
           else Some (it_register iter d, ?iter2, None)
      else map_option (\<lambda>c. (it_register iter d, ?iter2, Some c)) (bucket_at (ht_at d (it_table iter)) (nat ?i)))"
  proof -
    have f: "(it_index iter = - 1 \<and> it_table iter = 0) = (\<not> it_started iter)" by (simp add: it_started_def)
    have n: "\<not> it_index iter + 1 < 0" using ok(2) by simp
    show ?thesis
      unfolding dictNext_advance_def Let_def f it_register_def
      by (cases "it_started iter"; cases "it_safe iter") (simp_all add: sz n)
  qed
  show ?thesis
  proof (cases "?i \<ge> int (length ?T)")
    case False
    then have i: "nat ?i < length ?T" using ok(2) by linarith
    have n2: "nat (?i + 1) = Suc (nat ?i)" using ok(2) by simp
    show ?thesis
    proof (rule that [of ?iter2 "Some (?T ! nat ?i)"])
      show "dictNext_advance addr0 addr1 d iter = Some (it_register iter d, ?iter2, Some (?T ! nat ?i))"
        using False i by (simp add: adv bucket_at_def)
      show "case Some (?T ! nat ?i) of None \<Rightarrow> it_rest d iter = [] \<and> it_rest d ?iter2 = []
        | Some ch \<Rightarrow> it_rest d iter = ch @ it_rest d ?iter2 \<and> it_measure d ?iter2 < it_measure d iter"
        using assms(3) i n2
        by (cases "it_table iter = 0"; cases "it_started iter"; cases "it_safe iter")
           (auto simp: it_rest_def it_measure_def concat_drop_Suc)
    qed (use assms ok in \<open>auto simp: it_ok_def it_started_def it_fp_def\<close>)
  next
    case True
    then have dr: "drop (nat ?i) ?T = []" by simp
    show ?thesis
    proof (cases "dictIsRehashing d \<and> it_table iter = 0")
      case re: True
      let ?iter3 = "?iter2\<lparr>it_table := 1, it_index := 0\<rparr>"
      have ne: "ht_table (ht1 d) \<noteq> []" using dict_inv_sizes(3) [OF assms(1)] re by simp
      show ?thesis
      proof (rule that [of ?iter3 "Some (ht_table (ht1 d) ! 0)"])
        show "dictNext_advance addr0 addr1 d iter = Some (it_register iter d, ?iter3, Some (ht_table (ht1 d) ! 0))"
          using True re ne by (simp add: adv bucket_at_def)
        show "case Some (ht_table (ht1 d) ! 0) of None \<Rightarrow> it_rest d iter = [] \<and> it_rest d ?iter3 = []
          | Some ch \<Rightarrow> it_rest d iter = ch @ it_rest d ?iter3 \<and> it_measure d ?iter3 < it_measure d iter"
          using assms(3) dr re ne concat_drop_Suc [of 0 "ht_table (ht1 d)"]
          by (auto simp: it_rest_def it_measure_def ht_at_def)
      qed (use assms ok re in \<open>auto simp: it_ok_def it_started_def it_fp_def\<close>)
    next
      case nre: False
      have "nat (?i + 1) \<ge> length ?T" using True by linarith
      then have dr2: "drop (nat (?i + 1)) ?T = []" by simp
      show ?thesis
      proof (rule that [of ?iter2 None])
        show "dictNext_advance addr0 addr1 d iter = Some (it_register iter d, ?iter2, None)"
          using True nre by (simp add: adv)
        show "case None of None \<Rightarrow> it_rest d iter = [] \<and> it_rest d ?iter2 = []
          | Some ch \<Rightarrow> it_rest d iter = ch @ it_rest d ?iter2 \<and> it_measure d ?iter2 < it_measure d iter"
          using assms(3) dr dr2 nre by (auto simp: it_rest_def)
      qed (use assms ok in \<open>auto simp: it_ok_def it_started_def it_fp_def\<close>)
    qed
  qed
qed

lemma dictNext_null:
  assumes "dict_inv d" "it_ok d iter" "it_fp addr0 addr1 d iter" "it_entry iter = []"
  shows "\<exists>iter'. dictNext addr0 addr1 d iter =
      Some (it_register iter d, iter', case it_rest d iter of [] \<Rightarrow> None | e # _ \<Rightarrow> Some e) \<and>
    it_ok d iter' \<and> it_fp addr0 addr1 d iter' \<and> it_safe iter' = it_safe iter \<and> it_started iter' \<and>
    it_rest d iter' = tl (it_rest d iter)"
  using assms
proof (induction "it_measure d iter" arbitrary: d iter rule: less_induct)
  case less
  obtain iter1 c where adv: "dictNext_advance addr0 addr1 d iter = Some (it_register iter d, iter1, c)"
    "it_ok d iter1" "it_started iter1" "it_fp addr0 addr1 d iter1" "it_entry iter1 = []" "it_safe iter1 = it_safe iter"
    "case c of None \<Rightarrow> it_rest d iter = [] \<and> it_rest d iter1 = []
     | Some ch \<Rightarrow> it_rest d iter = ch @ it_rest d iter1 \<and> it_measure d iter1 < it_measure d iter"
    using dictNext_advance_ok [OF less.prems(1,2,4,3)] .
  have upd: "iter1\<lparr>it_entry := []\<rparr> = iter1" using adv(5) by simp
  let ?d = "it_register iter d"
  show ?case
  proof (cases c)
    case None
    with adv less.prems(4) show ?thesis by (subst dictNext.simps) simp
  next
    case (Some ch)
    show ?thesis
    proof (cases ch)
      case Nil
      have run: "dictNext addr0 addr1 d iter = dictNext addr0 addr1 ?d iter1"
        using adv(1) Some Nil less.prems(4) upd by (subst dictNext.simps) simp
      have fp: "it_fp addr0 addr1 ?d iter1" using adv(4) by (simp add: it_fp_def)
      have "\<exists>iter'. dictNext addr0 addr1 ?d iter1 =
          Some (it_register iter1 ?d, iter', case it_rest ?d iter1 of [] \<Rightarrow> None | e # _ \<Rightarrow> Some e) \<and>
        it_ok ?d iter' \<and> it_fp addr0 addr1 ?d iter' \<and> it_safe iter' = it_safe iter1 \<and> it_started iter' \<and>
        it_rest ?d iter' = tl (it_rest ?d iter1)"
        using adv Some less.prems(1) fp by (intro less.hyps) simp_all
      then show ?thesis unfolding run using adv(3,6,7) Some Nil by (simp add: it_fp_def)
    next
      case (Cons e es)
      let ?iter = "iter1\<lparr>it_entry := e # es, it_nextEntry := es\<rparr>"
      have "dictNext addr0 addr1 d iter = Some (?d, ?iter, Some e)"
        using adv(1) Some Cons less.prems(4) by (subst dictNext.simps) simp
      moreover have "it_rest d ?iter = es @ it_rest d iter1" using adv(5) by (simp add: it_rest_def)
      ultimately show ?thesis
        using adv(2-4,6,7) Some Cons by (intro exI [of _ ?iter]) (simp add: it_ok_def it_fp_def it_started_def)
    qed
  qed
qed

lemma dictNext_ok:
  assumes "dict_inv d" "it_ok d iter" "it_fp addr0 addr1 d iter"
  shows "\<exists>iter'. dictNext addr0 addr1 d iter =
      Some (it_register iter d, iter', case it_rest d iter of [] \<Rightarrow> None | e # _ \<Rightarrow> Some e) \<and>
    it_ok d iter' \<and> it_fp addr0 addr1 d iter' \<and> it_safe iter' = it_safe iter \<and> it_started iter' \<and>
    it_rest d iter' = tl (it_rest d iter)"
proof (cases "it_entry iter = []")
  case True
  with dictNext_null [OF assms] show ?thesis by blast
next
  case False
  then have st: "it_started iter" using assms(2) by (simp add: it_ok_def)
  show ?thesis
  proof (cases "it_nextEntry iter")
    case Nil
    let ?iter = "iter\<lparr>it_entry := []\<rparr>"
    have "dictNext addr0 addr1 d iter = dictNext addr0 addr1 d ?iter"
      using False Nil by (subst dictNext.simps) simp
    moreover have "it_ok d ?iter" "it_fp addr0 addr1 d ?iter" "it_started ?iter" "it_rest d ?iter = it_rest d iter"
      using assms(2,3) st Nil by (auto simp: it_ok_def it_fp_def it_started_def it_rest_def)
    ultimately show ?thesis using dictNext_null [OF assms(1), of ?iter addr0 addr1] st by simp
  next
    case (Cons e es)
    let ?iter = "iter\<lparr>it_entry := e # es, it_nextEntry := es\<rparr>"
    have "dictNext addr0 addr1 d iter = Some (d, ?iter, Some e)"
      using False Cons by (subst dictNext.simps) simp
    then show ?thesis using assms(2,3) st False Cons
      by (intro exI [of _ ?iter]) (simp add: it_ok_def it_fp_def it_started_def it_rest_def)
  qed
qed

text \<open>The loop of the callers: \<open>while ((de = dictNext(di)) != NULL)\<close>, with fuel.\<close>

fun dict_iterate :: "u64 \<Rightarrow> u64 \<Rightarrow> nat \<Rightarrow> ('k, 'v) dict \<Rightarrow> ('k, 'v) dictIterator \<Rightarrow>
    (('k, 'v) dict \<times> ('k, 'v) dictIterator \<times> ('k, 'v) dictEntry list) option" where
  "dict_iterate addr0 addr1 0 d iter = None"
| "dict_iterate addr0 addr1 (Suc fuel) d iter = do {
     (d1, iter1, de) \<leftarrow> dictNext addr0 addr1 d iter;
     case de of
       None \<Rightarrow> Some (d1, iter1, [])
     | Some e \<Rightarrow> do {
         (d2, iter2, es) \<leftarrow> dict_iterate addr0 addr1 fuel d1 iter1;
         Some (d2, iter2, e # es)
       }
   }"

lemma dict_iterate_ok:
  assumes "dict_inv d" "it_ok d iter" "it_fp addr0 addr1 d iter" "length (it_rest d iter) < fuel"
  shows "\<exists>iter'. dict_iterate addr0 addr1 fuel d iter = Some (it_register iter d, iter', it_rest d iter) \<and>
    it_fp addr0 addr1 d iter' \<and> it_safe iter' = it_safe iter \<and> it_started iter'"
  using assms
proof (induction fuel arbitrary: d iter)
  case (Suc fuel)
  obtain iter1 where n: "dictNext addr0 addr1 d iter =
      Some (it_register iter d, iter1, case it_rest d iter of [] \<Rightarrow> None | e # _ \<Rightarrow> Some e)"
    "it_ok d iter1" "it_fp addr0 addr1 d iter1" "it_safe iter1 = it_safe iter" "it_started iter1"
    "it_rest d iter1 = tl (it_rest d iter)"
    using dictNext_ok [OF Suc.prems(1-3)] by blast
  show ?case
  proof (cases "it_rest d iter")
    case Nil
    with n show ?thesis by simp
  next
    case (Cons e es)
    let ?d = "it_register iter d"
    have "\<exists>iter'. dict_iterate addr0 addr1 fuel ?d iter1 = Some (it_register iter1 ?d, iter', it_rest ?d iter1) \<and>
      it_fp addr0 addr1 ?d iter' \<and> it_safe iter' = it_safe iter1 \<and> it_started iter'"
      using n(2,3,6) Suc.prems(1,4) Cons by (intro Suc.IH) (simp_all add: it_fp_def)
    with n Cons show ?thesis by (auto simp: it_fp_def)
  qed
qed simp

section \<open>Sampling returns entries\<close>

lemma dictRehash_move_sizes:
  "dictRehash_move d c = Some d' \<Longrightarrow> ht_size (ht0 d') = ht_size (ht0 d) \<and> ht_size (ht1 d') = ht_size (ht1 d)"
  by (induction d c rule: dictRehash_move.induct)
     (auto simp: Let_def bucket_set_def bind_eq_Some_conv)

lemma dictRehash_loop_sizes:
  "dictRehash_loop d n ev = Some (d', early) \<Longrightarrow> ht_size (ht0 d') = ht_size (ht0 d) \<and> ht_size (ht1 d') = ht_size (ht1 d)"
proof (induction n arbitrary: d ev)
  case (Suc n)
  then show ?case
    by (fastforce simp: bind_eq_Some_conv bucket_set_def dest: dictRehash_move_sizes split: if_splits)
qed simp

lemma dictRehashStep_sizes:
  assumes "dictRehashStep d = Some d'"
  shows "ht_size (ht0 d') + ht_size (ht1 d') \<le> ht_size (ht0 d) + ht_size (ht1 d)"
proof -
  have "dictRehash_loop d 1 10 = Some (d1, early) \<Longrightarrow> ?thesis"
    if "d' = d1 \<or> d' = d1\<lparr>ht0 := ht1 d1, ht1 := dictReset, rehashidx := - 1\<rparr>" for d1 early
    using that by (auto simp: dictReset_def dest!: dictRehash_loop_sizes simp del: dictRehash_loop.simps One_nat_def)
  moreover have "d' = d \<or> (\<exists>d1 early. dictRehash_loop d 1 10 = Some (d1, early) \<and>
      (d' = d1 \<or> d' = d1\<lparr>ht0 := ht1 d1, ht1 := dictReset, rehashidx := - 1\<rparr>))"
    using assms
    by (auto simp: dictRehashStep_def dictRehash_def bind_eq_Some_conv simp del: dictRehash_loop.simps One_nat_def split: if_splits)
  ultimately show ?thesis by blast
qed

text \<open>The buckets that can be drawn, in the order of their numbers.\<close>

definition random_chains :: "('k, 'v) dict \<Rightarrow> ('k, 'v) dictEntry list list" where
  "random_chains d =
     (if dictIsRehashing d then drop (nat (rehashidx d)) (ht_table (ht0 d)) @ ht_table (ht1 d) else ht_table (ht0 d))"

lemma random_chains_entries:
  assumes "dict_inv d"
  shows "concat (random_chains d) = dict_entries d"
    and "dictSize d \<noteq> 0 \<Longrightarrow> random_chains d \<noteq> []"
    and "length (random_chains d) \<le> ht_size (ht0 d) + ht_size (ht1 d)"
proof -
  have "concat (drop (nat (rehashidx d)) (ht_table (ht0 d))) = concat (ht_table (ht0 d))" if "dictIsRehashing d"
  proof -
    have "concat (take (nat (rehashidx d)) (ht_table (ht0 d))) = []"
      using assms that by (auto simp: dict_inv_def rehash_state_def in_set_conv_nth)
    then show ?thesis by (metis append_Nil append_take_drop_id concat_append)
  qed
  moreover have "ht1 d = dictReset" if "\<not> dictIsRehashing d" using assms that by (simp add: dict_inv_def)
  ultimately show "concat (random_chains d) = dict_entries d"
    by (auto simp: random_chains_def dict_entries_def dictReset_def)
  then show "random_chains d \<noteq> []" if "dictSize d \<noteq> 0" using that dictSize_eq [OF assms] by auto
  show "length (random_chains d) \<le> ht_size (ht0 d) + ht_size (ht1 d)"
    using dict_inv_sizes(1,2) [OF assms] by (auto simp: random_chains_def)
qed

lemma random_bucket_ok:
  assumes "dict_inv d" "dictSize d \<noteq> 0"
  shows "random_bucket d r = Some (random_chains d ! (r mod length (random_chains d)))"
proof (cases "dictIsRehashing d")
  case False
  then have live: "ht_live (dictHashKey d) (ht0 d)"
    using assms by (auto simp: dict_inv_def dictSize_def dictReset_def)
  note ix = ht_live_idx [OF live]
  have "r mod length (ht_table (ht0 d)) < 2 ^ 32" using ix(2) [of r] ix(4) by simp
  then have "cast_u 32 (int (r AND ht_sizemask (ht0 d))) = r mod length (ht_table (ht0 d))"
    unfolding ix(1) by (rule cast_u_int)
  then show ?thesis using False ix(2) by (simp add: random_bucket_def random_chains_def bucket_at_def)
next
  case True
  then have rs: "ht_live (dictHashKey d) (ht0 d)" "ht_live (dictHashKey d) (ht1 d)" "0 \<le> rehashidx d"
      "rehashidx d < int (ht_size (ht0 d))"
    using assms(1) by (auto simp: dict_inv_def rehash_state_def)
  obtain i where i: "rehashidx d = int i" "i < ht_size (ht0 d)" using rs(3,4) by (metis nat_0_le nat_less_iff)
  let ?n0 = "length (ht_table (ht0 d))" and ?n1 = "length (ht_table (ht1 d))"
  note s0 = ht_live_idx(4,5) [OF rs(1)] and s1 = ht_live_idx(4,5) [OF rs(2)]
  define m where "m = ?n0 + ?n1 - i"
  have m: "length (random_chains d) = m" "0 < m" "int ?n0 + int ?n1 - int i = int m"
    using True i s0 by (auto simp: random_chains_def m_def)
  define q where "q = r mod m"
  have q: "q < m" using m(2) by (simp add: q_def)
  have "int i + int r mod int m = int (i + q)" by (simp add: q_def zmod_int)
  moreover have "i + q < 2 ^ 32" using q s0 s1 i by (simp add: m_def)
  ultimately have h: "cast_u 32 (int i + int r mod int m) = i + q" by (simp only: cast_u_int)
  have "random_bucket d r = (if i + q \<ge> ?n0 then bucket_at (ht1 d) (i + q - ?n0) else bucket_at (ht0 d) (i + q))"
    using True i(1) s0(2) s1(2) m(3) h by (simp add: random_bucket_def Let_def)
  also have "\<dots> = Some (random_chains d ! q)"
  proof (cases "i + q \<ge> ?n0")
    case ge: True
    then have "i + q - ?n0 < ?n1" "q - (?n0 - i) = i + q - ?n0" "\<not> q < ?n0 - i" using q i s0 by (auto simp: m_def)
    with ge True i show ?thesis by (simp add: bucket_at_def random_chains_def nth_append)
  next
    case False
    then have "q < ?n0 - i" by simp
    with False True i show ?thesis by (simp add: bucket_at_def random_chains_def nth_append)
  qed
  finally show ?thesis by (simp add: m(1) q_def)
qed

lemma random_bucket_loop_ok:
  assumes "dict_inv d" "dictSize d \<noteq> 0" "i \<le> j" "random_chains d ! (rnd j mod length (random_chains d)) \<noteq> []"
  shows "\<exists>he j'. random_bucket_loop rnd d i = Some (he, j') \<and> he \<noteq> [] \<and> he \<in> set (random_chains d)"
  using assms(3)
proof (induction "j - i" arbitrary: i)
  case 0
  then have "i = j" by simp
  moreover have "rnd j mod length (random_chains d) < length (random_chains d)"
    using random_chains_entries(2) [OF assms(1,2)] by simp
  ultimately show ?case
    using assms(4) random_bucket_ok [OF assms(1,2), of "rnd j"] by (subst random_bucket_loop.simps) simp
next
  case (Suc n)
  let ?c = "random_chains d ! (rnd i mod length (random_chains d))"
  have "rnd i mod length (random_chains d) < length (random_chains d)"
    using random_chains_entries(2) [OF assms(1,2)] by simp
  moreover have "\<exists>he j'. random_bucket_loop rnd d (i + 1) = Some (he, j') \<and> he \<noteq> [] \<and> he \<in> set (random_chains d)"
    using Suc.hyps(2) Suc.prems by (intro Suc.hyps(1)) auto
  ultimately show ?case
    using random_bucket_ok [OF assms(1,2), of "rnd i"] by (subst random_bucket_loop.simps) auto
qed

text \<open>Every residue is drawn at some time: what the sampling relies on from \<open>random()\<close>, whose range is
  \<open>0\<close> to \<open>2 ^ 31 - 1\<close>.\<close>

definition random_fair :: "(nat \<Rightarrow> nat) \<Rightarrow> bool" where
  "random_fair rnd \<longleftrightarrow> (\<forall>m b. m \<le> 2 ^ 31 \<longrightarrow> b < m \<longrightarrow> (\<exists>j. rnd j mod m = b))"

lemma random_hit:
  assumes "dict_inv d" "dictSize d \<noteq> 0" "random_fair rnd" "ht_size (ht0 d) + ht_size (ht1 d) \<le> 2 ^ 31"
  shows "\<exists>j. random_chains d ! (rnd j mod length (random_chains d)) \<noteq> []"
proof -
  have "concat (random_chains d) \<noteq> []"
    using random_chains_entries(1) [OF assms(1)] dictSize_eq [OF assms(1)] assms(2) by auto
  then obtain b where b: "b < length (random_chains d)" "random_chains d ! b \<noteq> []"
    by (auto simp: in_set_conv_nth)
  moreover have "length (random_chains d) \<le> 2 ^ 31"
    using random_chains_entries(3) [OF assms(1)] assms(4) by simp
  ultimately show ?thesis using assms(3) unfolding random_fair_def by metis
qed

lemma dictGetRandomKey_ok:
  assumes "dict_inv d" "dictSize d \<noteq> 0" "random_fair rnd" "ht_size (ht0 d) + ht_size (ht1 d) \<le> 2 ^ 31"
  shows "\<exists>d' e. dictGetRandomKey rnd d = Some (d', Some e) \<and> dict_inv d' \<and> dict_map d' = dict_map d \<and>
    dict_type d' = dict_type d \<and> e \<in> set (dict_entries d')"
proof -
  obtain d1 where d1: "(if dictIsRehashing d then dictRehashStep d else Some d) = Some d1" "dict_inv d1"
    "dict_type d1 = dict_type d" "dict_map d1 = dict_map d" "length (dict_entries d1) = length (dict_entries d)"
    using rehash_first [OF assms(1)] by metis
  have "dictSize d1 \<noteq> 0" using dictSize_eq [OF assms(1)] dictSize_eq [OF d1(2)] d1(5) assms(2) by simp
  moreover have "ht_size (ht0 d1) + ht_size (ht1 d1) \<le> 2 ^ 31"
    using d1(1) dictRehashStep_sizes [of d d1] assms(4) by (auto split: if_splits)
  ultimately obtain he j where he: "random_bucket_loop rnd d1 0 = Some (he, j)" "he \<noteq> []" "he \<in> set (random_chains d1)"
    using random_hit [OF d1(2) _ assms(3)] random_bucket_loop_ok [OF d1(2), of 0] by blast
  let ?e = "he ! (rnd j mod length he)"
  have "?e \<in> set he" using he(2) by simp
  with he(3) have "?e \<in> set (concat (random_chains d1))" by auto
  then have "?e \<in> set (dict_entries d1)" using random_chains_entries(1) [OF d1(2)] by simp
  with d1 he(1) assms(2) show ?thesis by (simp add: dictGetRandomKey_def)
qed

lemma someKeys_table_ok:
  assumes "dict_inv d" "tables = 2 \<longrightarrow> dictIsRehashing d" "j = 0 \<or> tables = 2" "set des \<subseteq> set (dict_entries d)" "length des < cnt"
  shows "\<exists>i' el' des' r' fin. someKeys_table rnd d cnt tables msk j (i, el, des, r) = Some ((i', el', des', r'), fin) \<and>
    set des' \<subseteq> set (dict_entries d) \<and> length des' \<le> cnt \<and> (\<not> fin \<longrightarrow> length des' < cnt)"
proof -
  have sz: "ht_size (ht_at d j) = length (ht_table (ht_at d j))"
    using dict_inv_sizes(1,2) [OF assms(1)] by (simp add: ht_at_def)
  consider (skip) "tables = 2 \<and> j = 0 \<and> i < cast_u 64 (rehashidx d)"
    | (out) "\<not> (tables = 2 \<and> j = 0 \<and> i < cast_u 64 (rehashidx d))" "i \<ge> length (ht_table (ht_at d j))"
    | (hit) "\<not> (tables = 2 \<and> j = 0 \<and> i < cast_u 64 (rehashidx d))" "i < length (ht_table (ht_at d j))" by linarith
  then show ?thesis
  proof cases
    case hit
    let ?he = "ht_table (ht_at d j) ! i"
    let ?des = "des @ take (cnt - length des) ?he"
    have "set ?he \<subseteq> set (concat (ht_table (ht_at d j)))" using hit(2) by (metis in_concat_nth subsetI)
    also have "\<dots> \<subseteq> set (dict_entries d)" by (auto simp: dict_entries_def ht_at_def)
    finally have "set ?des \<subseteq> set (dict_entries d)" using assms(4) by (auto dest: in_set_takeD)
    moreover have "length ?des \<le> cnt" using assms(5) by simp
    ultimately show ?thesis using hit sz assms(4,5) unfolding someKeys_table_def
      by (cases "?he = []") (auto simp: bucket_at_def Let_def)
  qed (use assms(4,5) sz in \<open>auto simp: someKeys_table_def\<close>)
qed

lemma someKeys_loop_ok:
  assumes "dict_inv d" "tables = 2 \<longrightarrow> dictIsRehashing d" "set des \<subseteq> set (dict_entries d)" "length des \<le> cnt"
  shows "\<exists>des'. someKeys_loop rnd d cnt tables msk n (i, el, des, r) = Some des' \<and>
    set des' \<subseteq> set (dict_entries d) \<and> length des' \<le> cnt"
  using assms(3,4)
proof (induction n arbitrary: i el des r)
  case (Suc n)
  show ?case
  proof (cases "length des < cnt")
    case True
    obtain i1 el1 des1 r1 fin1 where t0: "someKeys_table rnd d cnt tables msk 0 (i, el, des, r) = Some ((i1, el1, des1, r1), fin1)"
      "set des1 \<subseteq> set (dict_entries d)" "length des1 \<le> cnt" "\<not> fin1 \<longrightarrow> length des1 < cnt"
      using someKeys_table_ok [OF assms(1,2) disjI1 [OF refl] Suc.prems(1) True] by blast
    show ?thesis
    proof (cases "fin1 \<or> tables \<noteq> 2")
      case one: True
      show ?thesis
      proof (cases fin1)
        case False
        have "\<exists>des'. someKeys_loop rnd d cnt tables msk n ((i1 + 1) AND msk, el1, des1, r1) = Some des' \<and>
          set des' \<subseteq> set (dict_entries d) \<and> length des' \<le> cnt" by (rule Suc.IH [OF t0(2,3)])
        with t0(1) True one False show ?thesis by simp
      qed (use t0(1-3) True in simp)
    next
      case False
      then obtain i2 el2 des2 r2 fin2 where t1: "someKeys_table rnd d cnt tables msk 1 (i1, el1, des1, r1) = Some ((i2, el2, des2, r2), fin2)"
        "set des2 \<subseteq> set (dict_entries d)" "length des2 \<le> cnt"
        using someKeys_table_ok [OF assms(1,2) disjI2 t0(2)] t0(4) by blast
      have "\<exists>des'. someKeys_loop rnd d cnt tables msk n ((i2 + 1) AND msk, el2, des2, r2) = Some des' \<and>
        set des' \<subseteq> set (dict_entries d) \<and> length des' \<le> cnt" by (rule Suc.IH [OF t1(2,3)])
      with t0(1) t1 False True show ?thesis by (cases fin2) simp_all
    qed
  qed (use Suc.prems in auto)
qed simp

lemma someKeys_rehash_ok:
  "dict_inv d \<Longrightarrow> \<exists>d'. someKeys_rehash d n = Some d' \<and> dict_inv d' \<and> dict_same d d'"
proof (induction n arbitrary: d)
  case (Suc n)
  show ?case
  proof (cases "dictIsRehashing d")
    case True
    obtain d1 where d1: "dictRehashStep d = Some d1" "dict_inv d1" "dict_same d d1"
      using dictRehashStep_ok [OF Suc.prems] by blast
    from Suc.IH [OF d1(2)] obtain d2 where "someKeys_rehash d1 n = Some d2" "dict_inv d2" "dict_same d1 d2" by blast
    with True d1(1) dict_same_trans [OF d1(3)] show ?thesis by simp
  qed (use Suc.prems in auto)
qed auto

lemma dict_entries_map: "dict_inv d \<Longrightarrow> (k, v) \<in> set (dict_entries d) \<Longrightarrow> dict_map d k = Some v"
  unfolding dict_inv_def dict_common_def dict_map_def by (metis emap_Some key_match_refl)

section \<open>Properties of the iterators and of random sampling\<close>

text \<open>C9: an iterator, safe or not, run over any dictionary, also one in the middle of a rehash, returns each entry of
  the two tables exactly once and then NULL, in at most one call more than there are entries. Releasing
  it gives the dictionary back as it was: a safe iterator withdraws its mark, an unsafe one passes its
  fingerprint assertion.\<close>

theorem dict_iterator_enumerates:
  fixes d :: "('k, 'v) dict" and junk :: u64 and safe :: bool
  assumes "dict_inv d"
  defines "iter \<equiv> (if safe then dictGetSafeIterator junk else dictGetIterator junk)"
  defines "d1 \<equiv> (if safe then d\<lparr>iterators := iterators d + 1\<rparr> else d)"
  shows "\<exists>iter'. dict_iterate addr0 addr1 (Suc (dictSize d)) d iter = Some (d1, iter', dict_entries d) \<and>
    dictReleaseIterator addr0 addr1 d1 iter' = Some d"
proof -
  have "\<not> dictIsRehashing d \<Longrightarrow> ht_table (ht1 d) = []" using assms(1) by (simp add: dict_inv_def dictReset_def)
  then have it: "it_ok d iter" "it_fp addr0 addr1 d iter" "it_rest d iter = dict_entries d" "it_safe iter = safe"
    "it_register iter d = d1"
    using dict_inv_sizes [OF assms(1)]
    by (auto simp: iter_def d1_def it_ok_def it_fp_def it_rest_def it_started_def it_register_def dict_entries_def ht_at_def
          dictGetSafeIterator_def dictGetIterator_def)
  then obtain iter' where r: "dict_iterate addr0 addr1 (Suc (dictSize d)) d iter = Some (d1, iter', dict_entries d)"
    "it_fp addr0 addr1 d iter'" "it_safe iter' = safe" "it_started iter'"
    using dict_iterate_ok [OF assms(1) it(1,2), of "Suc (dictSize d)"] dictSize_eq [OF assms(1)] by auto
  then show ?thesis
    by (auto simp: dictReleaseIterator_def it_started_def it_fp_def d1_def)
qed

theorem dict_iterator_enumerates_witness:
  "\<exists>iter'. dict_iterate 0 0 6 dict_ex (dictGetIterator 0) =
      Some (dict_ex, iter', [(5, 50), (2, 20), (6, 60), (8, 80), (4, 40)]) \<and>
    dictReleaseIterator 0 0 dict_ex iter' = Some dict_ex"
  using dict_iterator_enumerates [OF dict_ex_inv, of 0 0 False 0] by simp

text \<open>C10: on a nonempty dictionary \<open>dictGetRandomKey\<close> returns: when \<open>random()\<close> sooner or later produces every
  residue, its search over the buckets ends, and the entry it gives is one of the dictionary's. The map is unchanged.\<close>

theorem dictGetRandomKey_returns:
  assumes "dict_inv d" "dictSize d \<noteq> 0" "random_fair rnd" "ht_size (ht0 d) + ht_size (ht1 d) \<le> 2 ^ 31"
  shows "\<exists>d' k v. dictGetRandomKey rnd d = Some (d', Some (k, v)) \<and> dict_inv d' \<and> dict_map d' = dict_map d \<and>
    dict_map d k = Some v"
proof -
  obtain d' e where r: "dictGetRandomKey rnd d = Some (d', Some e)" "dict_inv d'" "dict_map d' = dict_map d"
    "e \<in> set (dict_entries d')"
    using dictGetRandomKey_ok [OF assms] by blast
  then have "dict_map d' (fst e) = Some (snd e)" by (intro dict_entries_map) auto
  with r show ?thesis by (cases e) auto
qed

theorem dictGetRandomKey_returns_witness:
  "\<exists>d' k v. dictGetRandomKey (\<lambda>j. j mod 2 ^ 31) dict_ex = Some (d', Some (k, v)) \<and> dict_map dict_ex k = Some v"
proof -
  have "random_fair (\<lambda>j. j mod 2 ^ 31)"
    unfolding random_fair_def by (metis le_trans less_or_eq_imp_le linorder_not_less mod_less)
  moreover have "ht_size (ht0 dict_ex) + ht_size (ht1 dict_ex) \<le> 2 ^ 31" by (simp add: dict_ex_def)
  ultimately show ?thesis
    using dictGetRandomKey_returns [OF dict_ex_inv, of "\<lambda>j. j mod 2 ^ 31"] by (simp only: dict_ex_simps) auto
qed

text \<open>\<open>dictGetSomeKeys\<close> always returns, with at most as many entries as were asked for and as there are, all of
  them entries of the dictionary, and leaves the map as it was.\<close>

theorem dictGetSomeKeys_returns:
  assumes "dict_inv d"
  shows "\<exists>d' des. dictGetSomeKeys rnd d n = Some (d', des) \<and> dict_inv d' \<and> dict_map d' = dict_map d \<and>
    length des \<le> min n (dictSize d) \<and> (\<forall>(k, v) \<in> set des. dict_map d k = Some v)"
proof -
  let ?cnt = "if dictSize d < n then cast_u 32 (int (dictSize d)) else n"
  obtain d1 where d1: "someKeys_rehash d ?cnt = Some d1" "dict_inv d1" "dict_same d d1"
    using someKeys_rehash_ok [OF assms] by blast
  have m: "dict_map d1 = dict_map d" using dict_sameD [OF d1(3) dict_inv_common [OF assms]] by simp
  have c: "?cnt \<le> min n (dictSize d)" by (auto simp: cast_u_def zmod_int nat_mod_distrib intro: order_trans [OF mod_less_eq_dividend])
  define tables :: nat where "tables = (if dictIsRehashing d1 then 2 else 1)"
  define msk where "msk = (if tables > 1 \<and> ht_sizemask (ht0 d1) < ht_sizemask (ht1 d1) then ht_sizemask (ht1 d1) else ht_sizemask (ht0 d1))"
  have "tables = 2 \<longrightarrow> dictIsRehashing d1" by (simp add: tables_def)
  then obtain des where des: "someKeys_loop rnd d1 ?cnt tables msk (cast_u 32 (int ?cnt * 10)) (rnd 0 AND msk, 0, [], 1) = Some des"
    "set des \<subseteq> set (dict_entries d1)" "length des \<le> ?cnt"
    using someKeys_loop_ok [OF d1(2), of tables "[]" ?cnt] by (metis empty_set empty_subsetI le0 list.size(3))
  have "\<forall>(k, v) \<in> set des. dict_map d k = Some v"
    using des(2) dict_entries_map [OF d1(2)] unfolding m by blast
  moreover have "length des \<le> min n (dictSize d)" using des(3) c by linarith
  moreover have "dictGetSomeKeys rnd d n = Some (d1, des)"
    using d1(1) des(1) unfolding dictGetSomeKeys_def Let_def msk_def tables_def by (simp only: bind.bind_lunit)
  ultimately show ?thesis using d1 m by blast
qed

theorem dictGetSomeKeys_returns_witness:
  "\<exists>d' des. dictGetSomeKeys (\<lambda>j. j) dict_ex 3 = Some (d', des) \<and> length des \<le> 3 \<and>
    (\<forall>(k, v) \<in> set des. dict_map dict_ex k = Some v)"
  using dictGetSomeKeys_returns [OF dict_ex_inv, of "\<lambda>j. j" 3] by auto

end
