(* ===== verification/Vire_Util.thy ===== *)
theory Vire_Util
  imports Vire_Prelude
begin

text \<open>
  The string utilities of \<open>src/src/vr_util.c\<close>: printing and parsing of 64-bit integers
  (\<open>digits10\<close>, \<open>ll2string\<close>, \<open>string2ll\<close>, \<open>_vr_atoi\<close>), byte swapping, memory amounts
  (\<open>memtoll\<close>) and glob-style patterns (\<open>stringmatchlen\<close>). Strings are lists of bytes, \<open>char\<close> is
  signed as on the supported platforms, and an access outside a string is the value \<^term>\<open>None\<close>.
\<close>


section \<open>Decimal numbers\<close>

text \<open>The loop of \<open>_vr_atoi\<close>; \<open>value\<close> is an \<open>int\<close> of 32 bits that wraps around.\<close>

fun vr_atoi_loop :: "byte list \<Rightarrow> int \<Rightarrow> int" where
  "vr_atoi_loop [] v = (if v < 0 then - 1 else v)"
| "vr_atoi_loop (c # line) v =
     (if sint c < 48 \<or> sint c > 57 then - 1
      else vr_atoi_loop line (cast_s 32 (v * 10 + (sint c - 48))))"

definition vr_atoi :: "byte list \<Rightarrow> nat \<Rightarrow> int option" where
  "vr_atoi line n = (if n = 0 then Some (- 1)
     else if n \<le> length line then Some (vr_atoi_loop (take n line) 0) else None)"

fun digits10 :: "nat \<Rightarrow> nat" where
  "digits10 v =
     (if v < 10 then 1
      else if v < 100 then 2
      else if v < 1000 then 3
      else if v < 1000000000000 then
        if v < 100000000 then
          if v < 1000000 then
            if v < 10000 then 4 else 5 + (if v \<ge> 100000 then 1 else 0)
          else 7 + (if v \<ge> 10000000 then 1 else 0)
        else if v < 10000000000 then 9 + (if v \<ge> 1000000000 then 1 else 0)
        else 11 + (if v \<ge> 100000000000 then 1 else 0)
      else 12 + digits10 (v div 1000000000000))"

declare digits10.simps [simp del]

definition sdigits10 :: "int \<Rightarrow> nat" where
  "sdigits10 v =
     (if v < 0
      then let uv = (if v \<noteq> LLONG_MIN then cast_u 64 (- v) else cast_u 64 (int (cast_u 64 LLONG_MAX) + 1))
           in digits10 uv + 1
      else digits10 (cast_u 64 v))"

definition ll_digits :: "byte list" where
  "ll_digits = asc (''0001020304050607080910111213141516171819'' @
     ''2021222324252627282930313233343536373839'' @
     ''4041424344454647484950515253545556575859'' @
     ''6061626364656667686970717273747576777879'' @
     ''8081828384858687888990919293949596979899'') @ [0]"

text \<open>The loop of \<open>ll2string\<close>: the buffer, the index of the next character (a \<open>uint32_t\<close>) and what is left of
  the value.\<close>

fun ll2string_loop :: "byte list \<Rightarrow> nat \<Rightarrow> nat \<Rightarrow> (byte list \<times> nat \<times> nat) option" where
  "ll2string_loop dst next v =
     (if v \<ge> 100 then do {
        let i = (v mod 100) * 2;
        c1 \<leftarrow> byte_at ll_digits (i + 1);
        dst1 \<leftarrow> byte_put dst next c1;
        c0 \<leftarrow> byte_at ll_digits i;
        dst2 \<leftarrow> byte_put dst1 (cast_u 32 (int next - 1)) c0;
        ll2string_loop dst2 (cast_u 32 (int next - 2)) (v div 100)
      } else Some (dst, next, v))"

declare ll2string_loop.simps [simp del]

text \<open>The last one or two digits.\<close>

definition ll2string_last :: "byte list \<Rightarrow> nat \<Rightarrow> nat \<Rightarrow> byte list option" where
  "ll2string_last dst next v =
     (if v < 10 then byte_put dst next (48 + word_of_nat v)
      else do {
        let i = v * 2;
        c1 \<leftarrow> byte_at ll_digits (i + 1);
        dst1 \<leftarrow> byte_put dst next c1;
        c0 \<leftarrow> byte_at ll_digits i;
        byte_put dst1 (cast_u 32 (int next - 1)) c0
      })"

definition ll2string :: "byte list \<Rightarrow> nat \<Rightarrow> int \<Rightarrow> (byte list \<times> nat) option" where
  "ll2string dst dstlen svalue =
     (let (v, negative) =
        (if svalue < 0
         then (if svalue \<noteq> LLONG_MIN then cast_u 64 (- svalue) else cast_u 64 (int (cast_u 64 LLONG_MAX) + 1), 1)
         else (cast_u 64 svalue, 0));
        len = cast_u 32 (int (digits10 v + negative))
      in if len \<ge> dstlen then Some (dst, 0)
         else do {
           dst1 \<leftarrow> byte_put dst len 0;
           (dst2, next, v2) \<leftarrow> ll2string_loop dst1 (cast_u 32 (int len - 1)) v;
           dst3 \<leftarrow> ll2string_last dst2 next v2;
           dst4 \<leftarrow> (if negative = 1 then byte_put dst3 0 45 else Some dst3);
           Some (dst4, len)
         })"

text \<open>\<open>string2ll\<close>. The outer option is an access outside the string, the inner one the return value 0. The loop
  returns the number of characters consumed and the value.\<close>

function string2ll_loop :: "byte list \<Rightarrow> nat \<Rightarrow> nat \<Rightarrow> nat \<Rightarrow> (nat \<times> nat) option option" where
  "string2ll_loop s slen plen v =
     (if plen < slen then do {
        c \<leftarrow> byte_at s plen;
        if sint c \<ge> 48 \<and> sint c \<le> 57
        then if v > ULLONG_MAX div 10 then Some None
             else if v * 10 > ULLONG_MAX - nat (sint c - 48) then Some None
             else string2ll_loop s slen (plen + 1) (v * 10 + nat (sint c - 48))
        else Some (Some (plen, v))
      } else Some (Some (plen, v)))"
  by pat_completeness auto

termination by (relation "measure (\<lambda>(s, slen, plen, v). slen - plen)") auto

declare string2ll_loop.simps [simp del]

definition string2ll :: "byte list \<Rightarrow> nat \<Rightarrow> int option option" where
  "string2ll s slen =
     (if slen = 0 then Some None
      else do {
        c0 \<leftarrow> byte_at s 0;
        if slen = 1 \<and> c0 = 48 then Some (Some 0)
        else let negative = (c0 = 45); plen = (if negative then 1 else 0)
          in if plen = slen then Some None
          else do {
            c \<leftarrow> byte_at s plen;
            if sint c \<ge> 49 \<and> sint c \<le> 57
            then do {
              r \<leftarrow> string2ll_loop s slen (plen + 1) (nat (sint c - 48));
              case r of
                None \<Rightarrow> Some None
              | Some (plen', v) \<Rightarrow>
                  if plen' < slen then Some None
                  else if negative
                  then if int v > - (LLONG_MIN + 1) + 1 then Some None else Some (Some (cast_s 64 (- int v)))
                  else if int v > LLONG_MAX then Some None else Some (Some (cast_s 64 (int v)))
            }
            else if c = 48 \<and> slen = 1 then Some (Some 0)
            else Some None
          }
      })"

definition string2l :: "byte list \<Rightarrow> nat \<Rightarrow> int option option" where
  "string2l s slen = do {
     r \<leftarrow> string2ll s slen;
     case r of
       None \<Rightarrow> Some None
     | Some llval \<Rightarrow> if llval < LLONG_MIN \<or> llval > LLONG_MAX then Some None else Some (Some llval)
   }"

definition vr_valid_port :: "int \<Rightarrow> bool" where
  "vr_valid_port n \<longleftrightarrow> \<not> (n < 1 \<or> n > 65535)"

section \<open>The reference notation\<close>

fun dec_text :: "nat \<Rightarrow> byte list" where
  "dec_text n = (if n < 10 then [48 + word_of_nat n] else dec_text (n div 10) @ [48 + word_of_nat (n mod 10)])"

declare dec_text.simps [simp del]

definition int_text :: "int \<Rightarrow> byte list" where
  "int_text v = (if v < 0 then 45 # dec_text (nat (- v)) else dec_text (nat v))"

definition dec_val :: "byte list \<Rightarrow> nat" where
  "dec_val cs = foldl (\<lambda>v c. v * 10 + (unat c - 48)) 0 cs"

definition digits_only :: "byte list \<Rightarrow> bool" where
  "digits_only cs \<longleftrightarrow> (\<forall>c \<in> set cs. 48 \<le> c \<and> c \<le> 57)"

lemma length_dec_text_digits: "length (dec_text n) = (if n < 10 then 1 else length (dec_text (n div 10)) + 1)"
  by (subst dec_text.simps) simp

lemma length_dec_text_pos [simp]: "dec_text n \<noteq> []" "0 < length (dec_text n)"
  by (subst dec_text.simps, simp)+

lemma length_dec_text_pow: "10 ^ k \<le> n \<Longrightarrow> length (dec_text n) = k + length (dec_text (n div 10 ^ k))"
proof (induction k arbitrary: n)
  case (Suc k)
  have "10 ^ Suc k div 10 \<le> n div 10" using Suc.prems by (rule div_le_mono)
  then have "10 ^ k \<le> n div 10" by simp
  moreover from this have "0 < n div 10" by (metis gr_zeroI not_less_zero zero_less_numeral zero_less_power le_zero_eq)
  then have "\<not> n < 10" by auto
  ultimately show ?case using Suc.IH [of "n div 10"] by (subst length_dec_text_digits) (simp add: div_mult2_eq)
qed simp

lemma length_dec_text_range: "10 ^ k \<le> n \<Longrightarrow> n < 10 ^ Suc k \<Longrightarrow> length (dec_text n) = Suc k"
  using length_dec_text_pow [of k n] length_dec_text_digits [of "n div 10 ^ k"]
  by (simp add: div_less_iff_less_mult)

lemma digits10_correct: "digits10 v = length (dec_text v)"
proof (induction v rule: digits10.induct)
  case (1 v)
  show ?case
  proof (cases "v < 1000000000000")
    case False
    then have "digits10 v = 12 + length (dec_text (v div 10 ^ 12))" using 1 by (subst digits10.simps) simp
    also have "\<dots> = length (dec_text v)" using False by (subst length_dec_text_pow [of 12 v]) simp_all
    finally show ?thesis .
  next
    case True
    have r: "length (dec_text v) = Suc k" if "10 ^ k \<le> v \<or> k = 0" "v < 10 ^ Suc k" for k
      using that length_dec_text_range [of k v] length_dec_text_digits [of v] by auto
    show ?thesis using True r [of 0] r [of 1] r [of 2] r [of 3] r [of 4] r [of 5] r [of 6] r [of 7] r [of 8] r [of 9] r [of 10] r [of 11]
      by (subst digits10.simps) (simp split: if_splits)
  qed
qed


lemma byte_sint: "sint (c :: byte) = (if c < 128 then uint c else uint c - 256)"
proof -
  have r: "0 \<le> uint c" "uint c < 256" using unsigned_less [of c] by auto
  have "sint c = (uint c + 128) mod 256 - 128"
    by (simp add: sint_uint signed_take_bit_eq_take_bit_shift take_bit_eq_mod)
  moreover have "(uint c + 128) mod 256 = (if uint c < 128 then uint c + 128 else uint c - 128)"
    using r mod_pos_pos_trivial [of "uint c + 128" 256] mod_pos_pos_trivial [of "uint c - 128" 256]
      mod_add_self2 [of "uint c - 128" 256] by (auto simp: add.commute)
  ultimately show ?thesis by (auto simp: word_less_def)
qed

lemma digit_sint [simp]:
  "48 \<le> sint (c :: byte) \<and> sint c \<le> 57 \<longleftrightarrow> 48 \<le> c \<and> c \<le> 57"
  "49 \<le> sint (c :: byte) \<and> sint c \<le> 57 \<longleftrightarrow> 49 \<le> c \<and> c \<le> 57"
  "48 \<le> c \<Longrightarrow> c \<le> 57 \<Longrightarrow> nat (sint c - 48) = unat c - 48"
  using uint_bounded [of c] by (auto simp: byte_sint word_le_def word_less_def nat_diff_distrib)

lemma digit_bounds: "48 \<le> (c :: byte) \<Longrightarrow> c \<le> 57 \<Longrightarrow> unat c - 48 \<le> 9 \<and> 48 \<le> unat c"
  by (simp add: word_le_nat_alt)

lemma digit_word: "d < 10 \<Longrightarrow> unat (48 + word_of_nat d :: byte) = 48 + d"
  by (subst unat_add_lem [THEN iffD1]) (simp_all add: unat_of_nat)

lemma digits_only_simps [simp]:
  "digits_only []" "digits_only (c # cs) \<longleftrightarrow> 48 \<le> c \<and> c \<le> 57 \<and> digits_only cs"
  "digits_only (cs @ ds) \<longleftrightarrow> digits_only cs \<and> digits_only ds"
  by (auto simp: digits_only_def)

lemma dec_val_simps [simp]:
  "dec_val [] = 0" "dec_val (cs @ [c]) = dec_val cs * 10 + (unat c - 48)"
  by (simp_all add: dec_val_def)

lemma dec_val_foldl: "foldl (\<lambda>v c. v * 10 + (unat (c :: byte) - 48)) v cs = v * 10 ^ length cs + dec_val cs"
  by (induction cs rule: rev_induct) (simp_all add: algebra_simps)

lemma dec_val_Cons: "dec_val (c # cs) = (unat c - 48) * 10 ^ length cs + dec_val cs"
  using dec_val_foldl [of "unat c - 48" cs] by (simp add: dec_val_def)

lemma dec_text_digits: "digits_only (dec_text n)"
proof (induction n rule: dec_text.induct)
  case (1 n)
  then show ?case using digit_word [of n] digit_word [of "n mod 10"]
    by (subst dec_text.simps) (auto simp: word_le_nat_alt)
qed

lemma dec_val_dec_text [simp]: "dec_val (dec_text n) = n"
proof (induction n rule: dec_text.induct)
  case (1 n)
  then show ?case using digit_word [of n] digit_word [of "n mod 10"]
    by (subst dec_text.simps) (auto simp: dec_val_Cons)
qed

lemma dec_text_hd: "hd (dec_text n) = 48 \<longleftrightarrow> n = 0"
proof (induction n rule: dec_text.induct)
  case (1 n)
  have "(48 + word_of_nat n :: byte) = 48 \<longleftrightarrow> n = 0" if "n < 10" using digit_word [OF that] by auto
  with 1 show ?case by (subst dec_text.simps) auto
qed

definition canonical :: "byte list \<Rightarrow> bool" where
  "canonical cs \<longleftrightarrow> digits_only cs \<and> cs \<noteq> [] \<and> (hd cs = 48 \<longrightarrow> cs = [48])"

lemma dec_val_pos:
  assumes "digits_only cs" "cs \<noteq> []" "hd cs \<noteq> 48"
  shows "0 < dec_val cs"
proof (cases cs)
  case (Cons c ds)
  with assms have "48 \<le> c" "c \<noteq> 48" by auto
  then have "48 < unat c" by (simp add: word_le_nat_alt word_unat_eq_iff)
  then show ?thesis by (simp add: Cons dec_val_Cons)
qed (use assms in simp)

lemma dec_text_dec_val: "canonical cs \<Longrightarrow> dec_text (dec_val cs) = cs"
proof (induction cs rule: rev_induct)
  case (snoc c cs)
  then have c: "48 \<le> c" "c \<le> 57" by (auto simp: canonical_def)
  then have d: "unat c - 48 < 10" "48 + word_of_nat (unat c - 48) = c" using digit_bounds [OF c]
    by (auto simp: word_unat_eq_iff digit_word)
  show ?case
  proof (cases "cs = []")
    case True
    with d show ?thesis by (subst dec_text.simps) (simp add: dec_val_Cons)
  next
    case False
    with snoc.prems have k: "canonical cs" "hd cs \<noteq> 48" by (auto simp: canonical_def)
    then have "0 < dec_val cs" by (intro dec_val_pos) (auto simp: canonical_def)
    with snoc.IH [OF k(1)] d show ?thesis by (subst dec_text.simps) simp
  qed
qed (simp add: canonical_def)

lemma canonical_dec_text [simp]: "canonical (dec_text n)"
  using dec_text_digits [of n] dec_text_hd [of n] dec_text.simps [of 0] by (auto simp: canonical_def)

section \<open>Parsing\<close>

definition dec_acc :: "nat \<Rightarrow> byte list \<Rightarrow> nat" where
  "dec_acc v cs = foldl (\<lambda>v c. v * 10 + (unat c - 48)) v cs"

lemma dec_acc_simps [simp]: "dec_acc v [] = v" "dec_acc v (c # cs) = dec_acc (v * 10 + (unat c - 48)) cs"
  by (simp_all add: dec_acc_def)

lemma dec_acc_ge: "v \<le> dec_acc v cs"
  unfolding dec_acc_def dec_val_foldl by (simp add: trans_le_add1)

lemma string2ll_loop_ok:
  "slen \<le> length s \<Longrightarrow> plen \<le> slen \<Longrightarrow> v \<le> ULLONG_MAX \<Longrightarrow> rest = take (slen - plen) (drop plen s) \<Longrightarrow>
   \<exists>r. string2ll_loop s slen plen v = Some r \<and>
    (case r of None \<Rightarrow> digits_only rest \<longrightarrow> dec_acc v rest > ULLONG_MAX
     | Some (p, w) \<Rightarrow> w \<le> ULLONG_MAX \<and> (if digits_only rest then p = slen \<and> w = dec_acc v rest else p < slen))"
proof (induction s slen plen v arbitrary: rest rule: string2ll_loop.induct)
  case (1 s slen plen v)
  show ?case
  proof (cases "plen < slen")
    case False
    then show ?thesis using "1.prems" by (subst string2ll_loop.simps) simp
  next
    case True
    let ?c = "s ! plen" and ?rest = "take (slen - Suc plen) (drop (Suc plen) s)"
    have c: "byte_at s plen = Some ?c" using True "1.prems" by (simp add: byte_at_def)
    have r: "take (slen - plen) (drop plen s) = ?c # ?rest"
      using True "1.prems" by (simp add: Cons_nth_drop_Suc [symmetric] take_Cons' Suc_diff_Suc)
    show ?thesis
    proof (cases "48 \<le> ?c \<and> ?c \<le> 57")
      case False
      then have "string2ll_loop s slen plen v = Some (Some (plen, v))"
        using True c digit_sint(1) [of ?c] by (subst string2ll_loop.simps) auto
      then show ?thesis using False True "1.prems"(3,4) r by auto
    next
      case d: True
      let ?w = "v * 10 + (unat ?c - 48)"
      have n: "nat (sint ?c - 48) = unat ?c - 48" "48 \<le> sint ?c \<and> sint ?c \<le> 57" using d digit_sint by auto
      have b: "unat ?c - 48 \<le> 9" using d digit_bounds by blast
      have ov: "v > ULLONG_MAX div 10 \<or> v * 10 > ULLONG_MAX - (unat ?c - 48) \<longleftrightarrow> ?w > ULLONG_MAX"
        using b by (auto simp: ULLONG_MAX_def)
      show ?thesis
      proof (cases "?w > ULLONG_MAX")
        case over: True
        then have "string2ll_loop s slen plen v = Some None"
          using True c n ov by (subst string2ll_loop.simps) auto
        moreover have "dec_acc ?w ?rest > ULLONG_MAX" using over dec_acc_ge [of ?w ?rest] by linarith
        ultimately show ?thesis using r "1.prems"(4) by simp
      next
        case False
        then have "string2ll_loop s slen plen v = string2ll_loop s slen (plen + 1) ?w"
          using True c n ov by (subst string2ll_loop.simps) auto
        note step = this
        have eq: "digits_only rest \<longleftrightarrow> digits_only ?rest" "dec_acc v rest = dec_acc ?w ?rest"
          using d "1.prems"(4) r by simp_all
        show ?thesis unfolding step eq
          using "1.IH" [OF True c n(2), unfolded n(1), of ?rest] False ov "1.prems"(1) True by simp
      qed
    qed
  qed
qed

definition ll_parse :: "byte list \<Rightarrow> int option" where
  "ll_parse t =
     (if t \<noteq> [] \<and> hd t = 45
      then if canonical (tl t) \<and> hd (tl t) \<noteq> 48 \<and> int (dec_val (tl t)) \<le> - LLONG_MIN then Some (- int (dec_val (tl t))) else None
      else if canonical t \<and> int (dec_val t) \<le> LLONG_MAX then Some (int (dec_val t)) else None)"

lemma ll_parse_iff: "ll_parse t = Some v \<longleftrightarrow> LLONG_MIN \<le> v \<and> v \<le> LLONG_MAX \<and> t = int_text v"
proof
  assume l: "ll_parse t = Some v"
  show "LLONG_MIN \<le> v \<and> v \<le> LLONG_MAX \<and> t = int_text v"
  proof (cases "t \<noteq> [] \<and> hd t = 45")
    case True
    then obtain cs where t: "t = 45 # cs" by (cases t) auto
    with l have cs: "canonical cs" "hd cs \<noteq> 48" "int (dec_val cs) \<le> - LLONG_MIN" "v = - int (dec_val cs)"
      by (auto simp: ll_parse_def split: if_splits)
    then have "0 < dec_val cs" by (intro dec_val_pos) (auto simp: canonical_def)
    then show ?thesis using cs by (simp add: int_text_def t dec_text_dec_val LLONG_MIN_def LLONG_MAX_def)
  next
    case False
    with l show ?thesis
      by (auto simp: ll_parse_def int_text_def dec_text_dec_val canonical_def LLONG_MIN_def split: if_splits)
  qed
next
  assume r: "LLONG_MIN \<le> v \<and> v \<le> LLONG_MAX \<and> t = int_text v"
  have "hd (dec_text n) \<noteq> 45" for n
    using dec_text_digits [of n] by (cases "dec_text n") (auto simp: word_le_nat_alt)
  then show "ll_parse t = Some v" using r by (auto simp: int_text_def ll_parse_def dec_text_hd)
qed

lemma string2ll_parse:
  assumes "slen \<le> length s"
  shows "string2ll s slen = Some (ll_parse (take slen s))"
proof (cases "slen = 0")
  case True
  then show ?thesis by (simp add: string2ll_def ll_parse_def canonical_def)
next
  case False
  let ?c0 = "s ! 0" and ?neg = "s ! 0 = 45" and ?t = "take slen s"
  define plen :: nat where "plen = (if ?neg then 1 else 0)"
  have c0: "byte_at s 0 = Some ?c0" using False assms by (auto simp: byte_at_def)
  have t: "?t \<noteq> []" "hd ?t = ?c0" using False assms by (cases s; auto)+
  consider (zero) "slen = 1" "?c0 = 48" | (minus) "\<not> (slen = 1 \<and> ?c0 = 48)" "plen = slen"
    | (digits) "\<not> (slen = 1 \<and> ?c0 = 48)" "plen < slen" using False by (cases "plen = slen") (auto simp: plen_def split: if_splits)
  then show ?thesis
  proof cases
    case zero
    then have "?t = [48]" using t by (cases s) auto
    then show ?thesis using zero c0 by (simp add: string2ll_def ll_parse_def canonical_def dec_val_Cons LLONG_MAX_def)
  next
    case minus
    then have "?t = [45]" "slen = 1" "?c0 = 45" using t False assms by (cases s; auto simp: plen_def split: if_splits)+
    then show ?thesis using c0 by (simp add: string2ll_def ll_parse_def canonical_def)
  next
    case digits
    let ?c = "s ! plen" and ?ds = "drop plen ?t"
    have c: "byte_at s plen = Some ?c" using digits assms by (simp add: byte_at_def)
    have ds: "?ds = ?c # take (slen - (plen + 1)) (drop (plen + 1) s)"
      using digits assms by (simp add: Cons_nth_drop_Suc [symmetric] take_Cons' drop_take)
    have p: "ll_parse ?t = (if ?neg
        then if canonical ?ds \<and> ?c \<noteq> 48 \<and> int (dec_val ?ds) \<le> - LLONG_MIN then Some (- int (dec_val ?ds)) else None
        else if canonical ?ds \<and> int (dec_val ?ds) \<le> LLONG_MAX then Some (int (dec_val ?ds)) else None)"
      using t ds by (auto simp: ll_parse_def plen_def drop_Suc)
    show ?thesis
    proof (cases "49 \<le> ?c \<and> ?c \<le> 57")
      case True
      then have ge: "48 \<le> ?c" "?c \<le> 57" "?c \<noteq> 48" by (auto simp: word_le_nat_alt)
      let ?rest = "take (slen - (plen + 1)) (drop (plen + 1) s)"
      have dv: "dec_acc (unat ?c - 48) ?rest = dec_val ?ds"
        unfolding ds by (simp add: dec_val_def dec_acc_def)
      have can: "canonical ?ds \<longleftrightarrow> digits_only ?rest" using ge unfolding ds by (simp add: canonical_def)
      have v0: "unat ?c - 48 \<le> ULLONG_MAX" using digit_bounds [OF ge(1,2)] by (simp add: ULLONG_MAX_def)
      have pl: "plen + 1 \<le> slen" using digits by simp
      obtain r where r: "string2ll_loop s slen (plen + 1) (unat ?c - 48) = Some r"
        "case r of None \<Rightarrow> digits_only ?rest \<longrightarrow> dec_val ?ds > ULLONG_MAX
         | Some (p, w) \<Rightarrow> w \<le> ULLONG_MAX \<and> (if digits_only ?rest then p = slen \<and> w = dec_val ?ds else p < slen)"
        using string2ll_loop_ok [OF assms pl v0 refl] unfolding dv by blast
      have s2: "string2ll s slen = (case r of
                None \<Rightarrow> Some None
              | Some (plen', v) \<Rightarrow>
                  if plen' < slen then Some None
                  else if ?neg
                  then if int v > - (LLONG_MIN + 1) + 1 then Some None else Some (Some (cast_s 64 (- int v)))
                  else if int v > LLONG_MAX then Some None else Some (Some (cast_s 64 (int v))))"
        using False digits True c0 c ge r(1) unfolding string2ll_def Let_def plen_def by auto
      show ?thesis
      proof (cases r)
        case None
        with r(2) s2 p can show ?thesis by (auto simp: vire_limits)
      next
        case (Some pw)
        obtain p' w where pw: "pw = (p', w)" by (cases pw)
        have "cast_s 64 (- int w) = - int w" if "int w \<le> - LLONG_MIN" using that by (intro cast_s_id) (auto simp: vire_limits)
        moreover have "cast_s 64 (int w) = int w" if "int w \<le> LLONG_MAX" using that by (intro cast_s_id) (auto simp: vire_limits)
        ultimately show ?thesis using Some pw r(2) s2 p can ge(3) by (auto simp: vire_limits)
      qed
    next
      case False
      have ns: "\<not> (49 \<le> sint ?c \<and> sint ?c \<le> 57)" using False digit_sint(2) [of ?c] by blast
      have "?c = 48" if "48 \<le> ?c" "?c \<le> 57" using False that by (auto simp: word_le_nat_alt word_unat_eq_iff)
      then have nc: "\<not> canonical ?ds \<or> ?ds = [48]" unfolding ds by (auto simp: canonical_def)
      have "\<not> canonical ?ds \<or> (?neg \<and> ?c = 48)"
        using nc digits assms unfolding ds by (auto simp: plen_def split: if_splits)
      then have "ll_parse ?t = None" unfolding p by auto
      moreover have "string2ll s slen = Some None"
        using \<open>slen \<noteq> 0\<close> digits c0 c ns unfolding string2ll_def Let_def plen_def by (auto split: if_splits)
      ultimately show ?thesis by simp
    qed
  qed
qed

section \<open>Printing\<close>

lemma ll_digits_eq: "ll_digits = concat (map (\<lambda>i. [48 + word_of_nat (i div 10), 48 + word_of_nat (i mod 10)]) [0..<100]) @ [0]"
  by code_simp

lemma ll_digits_nth:
  assumes "i < 100"
  shows "byte_at ll_digits (i * 2) = Some (48 + word_of_nat (i div 10))"
    "byte_at ll_digits (i * 2 + 1) = Some (48 + word_of_nat (i mod 10))"
proof -
  have l: "length (concat (map (\<lambda>i. [f i, g i]) xs)) = 2 * length xs" for xs and f g :: "nat \<Rightarrow> byte"
    by (induction xs) auto
  have n: "concat (map (\<lambda>i. [f i, g i]) xs) ! (2 * j) = f (xs ! j)" "concat (map (\<lambda>i. [f i, g i]) xs) ! (2 * j + 1) = g (xs ! j)"
    if "j < length xs" for xs j and f g :: "nat \<Rightarrow> byte"
    using that by (induction xs arbitrary: j) (auto simp: nth_Cons' Suc_diff_Suc less_Suc_eq_0_disj)
  show "byte_at ll_digits (i * 2) = Some (48 + word_of_nat (i div 10))"
    "byte_at ll_digits (i * 2 + 1) = Some (48 + word_of_nat (i mod 10))"
    unfolding ll_digits_eq byte_at_def using assms n [of i "[0..<100]"] by (auto simp: l nth_append mult.commute)
qed

lemma cast_u_sub: "k \<le> n \<Longrightarrow> n < 2 ^ w \<Longrightarrow> cast_u w (int n - int k) = n - k"
  using cast_u_int [of "n - k" w] by (simp add: of_nat_diff)

lemma dec_text_100:
  assumes "100 \<le> n"
  shows "dec_text n = dec_text (n div 100) @ [48 + word_of_nat (n mod 100 div 10), 48 + word_of_nat (n mod 100 mod 10)]"
proof -
  have d: "n div 10 div 10 = n div 100" "n div 10 mod 10 = n mod 100 div 10" "n mod 10 = n mod 100 mod 10"
    using mod_mult2_eq [of n 10 10] by (simp_all add: div_mult2_eq [symmetric])
  have "dec_text n = dec_text (n div 10) @ [48 + word_of_nat (n mod 10)]" using assms by (subst dec_text.simps) simp
  also have "dec_text (n div 10) = dec_text (n div 10 div 10) @ [48 + word_of_nat (n div 10 mod 10)]"
    using assms by (subst dec_text.simps) simp
  finally show ?thesis unfolding d by simp
qed

lemma dec_text_small: "n < 10 \<Longrightarrow> dec_text n = [48 + word_of_nat n]"
  "10 \<le> n \<Longrightarrow> n < 100 \<Longrightarrow> dec_text n = [48 + word_of_nat (n div 10), 48 + word_of_nat (n mod 10)]"
  by (subst dec_text.simps, simp, subst dec_text.simps, subst dec_text.simps, auto)

lemma byte_put_mid [simp]: "i = length xs \<Longrightarrow> byte_put (xs @ y # zs) i b = Some (xs @ b # zs)"
  by (simp add: byte_put_def)

lemma ll2string_loop_ok:
  "length ys = length (dec_text v) \<Longrightarrow> length (xs @ ys) = next + 1 \<Longrightarrow> next < 2 ^ 32 \<Longrightarrow>
   \<exists>v2 ys1 ds next2. ll2string_loop (xs @ ys @ zs) next v = Some (xs @ ys1 @ ds @ zs, next2, v2) \<and> v2 < 100 \<and>
     length (xs @ ys1) = next2 + 1 \<and> dec_text v = dec_text v2 @ ds \<and> length ys1 = length (dec_text v2) \<and> next2 \<le> next"
proof (induction v arbitrary: ys zs "next" rule: less_induct)
  case (less v)
  show ?case
  proof (cases "v < 100")
    case True
    then show ?thesis using less.prems
      by (subst ll2string_loop.simps) (intro exI [of _ v] exI [of _ ys] exI [of _ "[]"] exI [of _ "next"], simp)
  next
    case False
    let ?v = "v div 100"
    have dt: "dec_text v = dec_text ?v @ [48 + word_of_nat (v mod 100 div 10), 48 + word_of_nat (v mod 100 mod 10)]"
      using False by (intro dec_text_100) simp
    then have l: "length ys = Suc (Suc (length (dec_text ?v)))" using less.prems(1) by simp
    then obtain ys' b where ys': "ys = ys' @ [b]" by (cases ys rule: rev_cases) auto
    with l obtain ys1 a where "ys' = ys1 @ [a]" by (cases ys' rule: rev_cases) auto
    with ys' l have ys: "ys = ys1 @ [a, b]" "length ys1 = length (dec_text ?v)" by auto
    have n: "next = length xs + length ys1 + 1" using less.prems(2) ys by simp
    have pos: "1 \<le> length ys1" using ys(2) length_dec_text_pos(2) [of ?v] by linarith
    have c: "cast_u 32 (int next - 1) = length xs + length ys1" "cast_u 32 (int next - 2) = length xs + length ys1 - 1"
      using n less.prems(3) pos cast_u_sub [of 1 "next" 32] cast_u_sub [of 2 "next" 32] by auto
    let ?a = "48 + word_of_nat (v mod 100 div 10) :: byte" and ?b = "48 + word_of_nat (v mod 100 mod 10) :: byte"
    have p: "byte_put (xs @ ys @ zs) next ?b = Some (xs @ ys1 @ a # ?b # zs)"
      "byte_put (xs @ ys1 @ a # ?b # zs) (length xs + length ys1) ?a = Some (xs @ ys1 @ ?a # ?b # zs)"
      using byte_put_mid [of "next" "xs @ ys1 @ [a]" b zs] byte_put_mid [of _ "xs @ ys1" a "?b # zs"] ys n by simp_all
    have m: "v mod 100 < 100" by simp
    have "ll2string_loop (xs @ ys @ zs) next v =
      ll2string_loop (xs @ ys1 @ ?a # ?b # zs) (length xs + length ys1 - 1) ?v"
      using False p by (subst ll2string_loop.simps) (simp add: c ll_digits_nth [OF m] ll_digits_nth [OF m, simplified])
    moreover have "?v < v" "length xs + length ys1 - 1 < 2 ^ 32" "length (xs @ ys1) = length xs + length ys1 - 1 + 1"
      using False n less.prems(3) pos by auto
    note less.IH [OF this(1) ys(2) this(3,2), of "?a # ?b # zs"]
    ultimately obtain v2 ys2 ds next2 where "ll2string_loop (xs @ ys @ zs) next v = Some (xs @ ys2 @ (ds @ [?a, ?b]) @ zs, next2, v2)"
      "v2 < 100" "length (xs @ ys2) = next2 + 1" "dec_text ?v = dec_text v2 @ ds" "length ys2 = length (dec_text v2)"
      "next2 \<le> length xs + length ys1 - 1" by auto
    then show ?thesis using dt n by (intro exI [of _ v2] exI [of _ ys2] exI [of _ "ds @ [?a, ?b]"] exI [of _ next2]) simp
  qed
qed


lemma length_dec_text_le: "n < 10 ^ Suc k \<Longrightarrow> length (dec_text n) \<le> Suc k"
proof (induction k arbitrary: n)
  case (Suc k)
  then show ?case using length_dec_text_digits [of n] by (auto simp: div_less_iff_less_mult)
qed (use length_dec_text_digits in auto)

lemma length_int_text_le: "LLONG_MIN \<le> v \<Longrightarrow> v \<le> LLONG_MAX \<Longrightarrow> length (int_text v) \<le> 20"
  using length_dec_text_le [of "nat \<bar>v\<bar>" 18] by (auto simp: int_text_def vire_limits nat_less_iff)

lemma ll2string_last_ok:
  assumes "v < 100" "length ys = length (dec_text v)" "length (xs @ ys) = next + 1" "next < 2 ^ 32"
  shows "ll2string_last (xs @ ys @ zs) next v = Some (xs @ dec_text v @ zs)"
proof (cases "v < 10")
  case True
  with assms obtain y where "ys = [y]" by (auto simp: dec_text_small length_Suc_conv)
  with True assms show ?thesis by (simp add: dec_text_small ll2string_last_def)
next
  case False
  then obtain a b where y: "ys = [a, b]" using assms(1,2) by (auto simp: dec_text_small length_Suc_conv)
  with assms have n: "next = length xs + 1" by simp
  then have c: "cast_u 32 (int next - 1) = length xs" using assms(4) cast_u_sub [of 1 "next" 32] by simp
  let ?a = "48 + word_of_nat (v div 10) :: byte" and ?b = "48 + word_of_nat (v mod 10) :: byte"
  have "byte_put (xs @ ys @ zs) next ?b = Some (xs @ a # ?b # zs)"
    using byte_put_mid [of "next" "xs @ [a]" b zs] y n by simp
  with False assms(1) c n show ?thesis
    by (simp add: ll_digits_nth [OF assms(1)] ll_digits_nth [OF assms(1), simplified] dec_text_small ll2string_last_def)
qed

lemma ll2string_ok:
  assumes "LLONG_MIN \<le> v" "v \<le> LLONG_MAX" "dstlen \<le> length dst"
  shows "ll2string dst dstlen v = Some (if length (int_text v) < dstlen
    then (int_text v @ 0 # drop (length (int_text v) + 1) dst, length (int_text v)) else (dst, 0))"
proof -
  define u where "u = nat \<bar>v\<bar>"
  define neg :: nat where "neg = (if v < 0 then 1 else 0)"
  let ?sg = "if v < 0 then [45 :: byte] else []"
  have t: "int_text v = ?sg @ dec_text u" by (simp add: int_text_def u_def)
  have "(if v < 0 then (if v \<noteq> LLONG_MIN then cast_u 64 (- v) else cast_u 64 (int (cast_u 64 LLONG_MAX) + 1), 1)
         else (cast_u 64 v, 0)) = (u, neg)"
    using assms(1,2) by (auto simp: u_def neg_def cast_u_def vire_limits)
  moreover have len: "length (int_text v) = digits10 u + neg" by (simp add: t digits10_correct neg_def)
  moreover have le: "length (int_text v) \<le> 20" using assms(1,2) by (rule length_int_text_le)
  then have "cast_u 32 (int (length (int_text v))) = length (int_text v)" by (intro cast_u_int) simp
  ultimately have eq: "ll2string dst dstlen v = (if length (int_text v) \<ge> dstlen then Some (dst, 0)
         else do {
           dst1 \<leftarrow> byte_put dst (length (int_text v)) 0;
           (dst2, next, v2) \<leftarrow> ll2string_loop dst1 (cast_u 32 (int (length (int_text v)) - 1)) u;
           dst3 \<leftarrow> ll2string_last dst2 next v2;
           dst4 \<leftarrow> (if neg = 1 then byte_put dst3 0 45 else Some dst3);
           Some (dst4, length (int_text v))
         })"
    unfolding ll2string_def by (simp add: Let_def)
  show ?thesis
  proof (cases "length (int_text v) < dstlen")
    case True
    let ?n = "length (int_text v)"
    have pos: "1 \<le> length (dec_text u)" using length_dec_text_pos(2) [of u] by linarith
    define xs where "xs = take neg dst"
    define ys where "ys = drop neg (take ?n dst)"
    define zs where "zs = 0 # drop (?n + 1) dst"
    have l: "length xs = neg" "length ys = length (dec_text u)" "length (xs @ ys) = ?n - 1 + 1"
      using True assms(3) pos len unfolding digits10_correct by (auto simp: xs_def ys_def)
    have "xs @ ys = take ?n dst"
      unfolding xs_def ys_def by (metis append_take_drop_id len le_add2 min.absorb1 min.commute take_take)
    then have "byte_put dst ?n 0 = Some (xs @ ys @ zs)"
      using True assms(3) by (simp add: byte_put_def zs_def upd_conv_take_nth_drop flip: append_assoc)
    moreover have "cast_u 32 (int ?n - 1) = ?n - 1" using cast_u_sub [of 1 ?n 32] le pos len unfolding digits10_correct by simp
    moreover have "?n - 1 < 2 ^ 32" using le by simp
    from ll2string_loop_ok [OF l(2,3) this, of zs] obtain v2 ys1 ds next2 where
      r: "ll2string_loop (xs @ ys @ zs) (?n - 1) u = Some (xs @ ys1 @ ds @ zs, next2, v2)" "v2 < 100"
        "length (xs @ ys1) = next2 + 1" "dec_text u = dec_text v2 @ ds" "length ys1 = length (dec_text v2)" "next2 \<le> ?n - 1" by blast
    moreover have "next2 < 2 ^ 32" using r(6) le by simp
    note ll2string_last_ok [OF r(2,5,3) this, of "ds @ zs"]
    moreover have "neg = 1 \<Longrightarrow> byte_put (xs @ dec_text v2 @ ds @ zs) 0 45 = Some (int_text v @ zs)"
      "neg \<noteq> 1 \<Longrightarrow> xs @ dec_text v2 @ ds @ zs = int_text v @ zs"
      using l(1) r(4) by (cases xs; auto simp: neg_def t byte_put_def split: if_splits)+
    ultimately have "ll2string dst dstlen v = Some (int_text v @ zs, ?n)"
      using True unfolding eq by (cases "neg = 1") simp_all
    with True show ?thesis by (simp add: zs_def)
  qed (simp add: eq)
qed

section \<open>Properties of the number conversions\<close>

text \<open>\<open>ll2string\<close> writes the decimal notation of every \<open>long long\<close>, the smallest one included, with its
  terminator, and returns its length; it touches no other byte of the buffer, and when the buffer is too
  small it returns 0 and writes nothing.\<close>

theorem ll2string_prints:
  assumes "LLONG_MIN \<le> v" "v \<le> LLONG_MAX" "dstlen \<le> length dst"
  shows "ll2string dst dstlen v = Some (if length (int_text v) < dstlen
    then (int_text v @ 0 # drop (length (int_text v) + 1) dst, length (int_text v)) else (dst, 0))"
  using assms by (rule ll2string_ok)

theorem ll2string_prints_witness:
  "ll2string (replicate 6 1) 6 (- 1203) = Some ([45, 49, 50, 48, 51, 0], 5) \<and>
   ll2string (replicate 6 1) 5 (- 1203) = Some (replicate 6 1, 0)"
proof -
  have "int_text (- 1203) = [45, 49, 50, 48, 51]" by (simp add: int_text_def dec_text.simps)
  then show ?thesis
    using ll2string_prints [of "- 1203" 6 "replicate 6 1"] ll2string_prints [of "- 1203" 5 "replicate 6 1"]
    by (simp add: vire_limits)
qed

text \<open>C11: \<open>string2ll\<close> accepts exactly the canonical decimal notations of the numbers in the range of
  \<open>long long\<close> and returns the number; everything else (empty strings, a lone sign, leading zeros,
  \<open>-0\<close>, other characters, overflow) is refused. It reads no byte outside the string.\<close>

theorem string2ll_accepts:
  assumes "slen \<le> length s"
  shows "\<exists>r. string2ll s slen = Some r \<and>
    (\<forall>v. r = Some v \<longleftrightarrow> LLONG_MIN \<le> v \<and> v \<le> LLONG_MAX \<and> take slen s = int_text v)"
  using string2ll_parse [OF assms] ll_parse_iff by blast

theorem string2ll_accepts_witness:
  "string2ll [45, 49, 50, 48, 51, 0] 5 = Some (Some (- 1203))"
proof -
  have "int_text (- 1203) = [45, 49, 50, 48, 51]" by (simp add: int_text_def dec_text.simps)
  then show ?thesis
    using string2ll_accepts [of 5 "[45, 49, 50, 48, 51, 0]"] by (auto simp: vire_limits)
qed

text \<open>C12: what \<open>ll2string\<close> prints \<open>string2ll\<close> parses back to the same number.\<close>

theorem ll2string_string2ll:
  assumes "LLONG_MIN \<le> v" "v \<le> LLONG_MAX" "dstlen \<le> length dst" "21 \<le> dstlen"
  shows "\<exists>dst' len. ll2string dst dstlen v = Some (dst', len) \<and> 0 < len \<and> len \<le> 20 \<and> string2ll dst' len = Some (Some v)"
proof -
  let ?n = "length (int_text v)" and ?d = "int_text v @ 0 # drop (length (int_text v) + 1) dst"
  have le: "?n \<le> 20" using assms(1,2) by (rule length_int_text_le)
  have "0 < ?n" using length_dec_text_pos(2) [of "nat v"] by (simp add: int_text_def)
  moreover have "ll2string dst dstlen v = Some (?d, ?n)" using ll2string_ok [OF assms(1-3)] le assms(4) by simp
  moreover have "string2ll ?d ?n = Some (Some v)"
    using string2ll_parse [of ?n ?d] ll_parse_iff [of "int_text v" v] assms(1,2) by simp
  ultimately show ?thesis using le by blast
qed

theorem ll2string_string2ll_witness:
  "\<exists>dst' len. ll2string (replicate 32 0) 32 LLONG_MIN = Some (dst', len) \<and> string2ll dst' len = Some (Some LLONG_MIN)"
  using ll2string_string2ll [of LLONG_MIN 32 "replicate 32 0"] by (auto simp: vire_limits)

text \<open>\<open>sdigits10\<close> is the length of the decimal notation of every \<open>long long\<close>, so that a caller can
  size a buffer with it.\<close>

lemma sdigits10_counts:
  assumes "LLONG_MIN \<le> v" "v \<le> LLONG_MAX"
  shows "sdigits10 v = length (int_text v)"
proof -
  have "cast_u 64 (- v) = nat (- v)" if "v < 0" "v \<noteq> LLONG_MIN" using that assms by (intro cast_u_id) (auto simp: vire_limits)
  moreover have "cast_u 64 v = nat v" if "\<not> v < 0" using that assms by (intro cast_u_id) (auto simp: vire_limits)
  moreover have "cast_u 64 (int (cast_u 64 LLONG_MAX) + 1) = nat (- LLONG_MIN)" by (simp add: cast_u_def vire_limits)
  ultimately show ?thesis by (auto simp: sdigits10_def int_text_def digits10_correct Let_def)
qed

section \<open>Glob-style patterns\<close>

text \<open>The pattern and the string are buffers that end in their terminator. A pointer into one of them is an
  index \<open>i\<close> or \<open>j\<close>, kept with the remaining length \<open>pl\<close> or \<open>sl\<close>, an \<open>int\<close>. The first function is the loop over
  consecutive stars, at offset 1 or 0 from the pointer.\<close>

function star_skip :: "byte list \<Rightarrow> nat \<Rightarrow> nat \<Rightarrow> int \<Rightarrow> (nat \<times> int) option" where
  "star_skip pat off i pl = do {
     c \<leftarrow> byte_at pat (i + off);
     if c = 42 then star_skip pat off (i + 1) (pl - 1) else Some (i, pl)
   }"
  by pat_completeness auto

termination
  by (relation "measure (\<lambda>(pat, off, i, pl). length pat - i)") (auto simp: byte_at_def split: if_splits)

declare star_skip.simps [simp del]

definition range_match :: "bool \<Rightarrow> byte \<Rightarrow> byte \<Rightarrow> byte \<Rightarrow> bool" where
  "range_match nocase start0 end0 c0 =
     (let (start, end) = (if sint start0 > sint end0 then (end0, start0) else (start0, end0));
          (start, end, c) = (if nocase then (tolower start, tolower end, tolower c0) else (start, end, c0))
      in sint c \<ge> sint start \<and> sint c \<le> sint end)"

definition char_match :: "bool \<Rightarrow> byte \<Rightarrow> byte \<Rightarrow> bool" where
  "char_match nocase p c = (if \<not> nocase then p = c else tolower p = tolower c)"

text \<open>The loop over a character class; \<open>m\<close> is the flag \<open>match\<close>.\<close>

partial_function (option) class_loop :: "byte list \<Rightarrow> byte list \<Rightarrow> bool \<Rightarrow> nat \<Rightarrow> nat \<Rightarrow> int \<Rightarrow> bool \<Rightarrow> (nat \<times> int \<times> bool) option" where
  "class_loop pat str nocase j i pl m = do {
     c \<leftarrow> byte_at pat i;
     if c = 92 then do {
       c1 \<leftarrow> byte_at pat (i + 1);
       s0 \<leftarrow> byte_at str j;
       class_loop pat str nocase j (i + 2) (pl - 2) (m \<or> c1 = s0)
     }
     else if c = 93 then Some (i, pl, m)
     else if pl = 0 then Some (i - 1, pl + 1, m)
     else do {
       c1 \<leftarrow> byte_at pat (i + 1);
       if c1 = 45 \<and> pl \<ge> 3 then do {
         c2 \<leftarrow> byte_at pat (i + 2);
         s0 \<leftarrow> byte_at str j;
         class_loop pat str nocase j (i + 3) (pl - 3) (m \<or> range_match nocase c c2 s0)
       }
       else do {
         s0 \<leftarrow> byte_at str j;
         class_loop pat str nocase j (i + 1) (pl - 1) (m \<or> char_match nocase c s0)
       }
     }
   }"

text \<open>The cases of the \<open>switch\<close> other than the star: \<open>None\<close> inside is a return of 0, otherwise the new pointers
  before the common \<open>pattern++; patternLen--\<close>.\<close>

definition match_one :: "byte list \<Rightarrow> byte list \<Rightarrow> bool \<Rightarrow> nat \<Rightarrow> int \<Rightarrow> nat \<Rightarrow> int \<Rightarrow> byte \<Rightarrow> (nat \<times> int \<times> nat \<times> int) option option" where
  "match_one pat str nocase i pl j sl c =
     (if c = 63 then Some (if sl = 0 then None else Some (i, pl, j + 1, sl - 1))
      else if c = 91 then do {
        c1 \<leftarrow> byte_at pat (i + 1);
        let neg = (c1 = 94);
        (i1, pl1, m) \<leftarrow> class_loop pat str nocase j (if neg then i + 2 else i + 1) (if neg then pl - 2 else pl - 1) False;
        Some (if m \<noteq> neg then Some (i1, pl1, j + 1, sl - 1) else None)
      }
      else do {
        let (i1, pl1) = (if c = 92 \<and> pl \<ge> 2 then (i + 1, pl - 1) else (i, pl));
        p \<leftarrow> byte_at pat i1;
        s0 \<leftarrow> byte_at str j;
        Some (if char_match nocase p s0 then Some (i1, pl1, j + 1, sl - 1) else None)
      })"

text \<open>\<open>stringmatchlen\<close>. With \<open>star\<close> set it is the loop of the star case, which tries the rest of the pattern on
  every suffix of the string; otherwise it is the function itself from the head of its main loop on.\<close>

partial_function (option) match_loop :: "byte list \<Rightarrow> byte list \<Rightarrow> bool \<Rightarrow> bool \<Rightarrow> nat \<Rightarrow> int \<Rightarrow> nat \<Rightarrow> int \<Rightarrow> bool option" where
  "match_loop pat str nocase star i pl j sl =
     (if star
      then if sl = 0 then Some False
           else do {
             r \<leftarrow> match_loop pat str nocase False (i + 1) (pl - 1) j sl;
             if r then Some True else match_loop pat str nocase True i pl (j + 1) (sl - 1)
           }
      else if pl = 0 then Some (sl = 0)
      else do {
        c \<leftarrow> byte_at pat i;
        if c = 42 then do {
          (i1, pl1) \<leftarrow> star_skip pat 1 i pl;
          if pl1 = 1 then Some True else match_loop pat str nocase True i1 pl1 j sl
        }
        else do {
          r \<leftarrow> match_one pat str nocase i pl j sl c;
          case r of
            None \<Rightarrow> Some False
          | Some (i1, pl1, j1, sl1) \<Rightarrow>
              if sl1 = 0 then do {
                (i2, pl2) \<leftarrow> star_skip pat 0 (i1 + 1) (pl1 - 1);
                Some (pl2 = 0)
              }
              else match_loop pat str nocase False (i1 + 1) (pl1 - 1) j1 sl1
        }
      })"

definition stringmatchlen :: "byte list \<Rightarrow> nat \<Rightarrow> byte list \<Rightarrow> nat \<Rightarrow> bool \<Rightarrow> bool option" where
  "stringmatchlen pat patternLen str stringLen nocase =
     match_loop pat str nocase False 0 (int patternLen) 0 (int stringLen)"

definition stringmatch :: "byte list \<Rightarrow> byte list \<Rightarrow> bool \<Rightarrow> bool option" where
  "stringmatch pat str nocase =
     stringmatchlen pat (length (takeWhile (\<lambda>c. c \<noteq> 0) pat)) str (length (takeWhile (\<lambda>c. c \<noteq> 0) str)) nocase"

subsection \<open>The language of patterns\<close>

datatype class_item = Esc_item byte | Range_item byte byte | Char_item byte

datatype glob = Star | Any | Class bool "class_item list" | Esc byte | Char byte

fun item_text :: "class_item \<Rightarrow> byte list" where
  "item_text (Esc_item c) = [92, c]"
| "item_text (Range_item a b) = [a, 45, b]"
| "item_text (Char_item c) = [c]"

fun glob_text :: "glob \<Rightarrow> byte list" where
  "glob_text Star = [42]"
| "glob_text Any = [63]"
| "glob_text (Class neg items) = 91 # (if neg then [94] else []) @ concat (map item_text items) @ [93]"
| "glob_text (Esc c) = [92, c]"
| "glob_text (Char c) = [c]"

definition pattern_text :: "glob list \<Rightarrow> byte list" where
  "pattern_text ts = concat (map glob_text ts)"

text \<open>A pattern is read as it was meant when characters with a meaning of their own are escaped.\<close>

fun items_wf :: "class_item list \<Rightarrow> bool" where
  "items_wf [] \<longleftrightarrow> True"
| "items_wf (Esc_item c # is) \<longleftrightarrow> items_wf is"
| "items_wf (Range_item a b # is) \<longleftrightarrow> a \<notin> {92, 93} \<and> items_wf is"
| "items_wf (Char_item c # is) \<longleftrightarrow> c \<notin> {92, 93} \<and> hd (concat (map item_text is) @ [93]) \<noteq> 45 \<and> items_wf is"

fun glob_wf :: "glob \<Rightarrow> bool" where
  "glob_wf (Class neg items) \<longleftrightarrow> items_wf items \<and> (\<not> neg \<longrightarrow> hd (concat (map item_text items) @ [93]) \<noteq> 94)"
| "glob_wf (Char c) \<longleftrightarrow> c \<notin> {42, 63, 91, 92}"
| "glob_wf _ \<longleftrightarrow> True"

fun item_match :: "bool \<Rightarrow> byte \<Rightarrow> class_item \<Rightarrow> bool" where
  "item_match nocase c (Esc_item x) \<longleftrightarrow> x = c"
| "item_match nocase c (Range_item a b) \<longleftrightarrow> range_match nocase a b c"
| "item_match nocase c (Char_item x) \<longleftrightarrow> char_match nocase x c"

fun glob_match1 :: "bool \<Rightarrow> glob \<Rightarrow> byte \<Rightarrow> bool" where
  "glob_match1 nocase (Class neg items) c \<longleftrightarrow> (list_ex (item_match nocase c) items) \<noteq> neg"
| "glob_match1 nocase (Esc x) c \<longleftrightarrow> char_match nocase x c"
| "glob_match1 nocase (Char x) c \<longleftrightarrow> char_match nocase x c"
| "glob_match1 nocase _ c \<longleftrightarrow> True"

text \<open>The meaning of a pattern: a star stands for any string, every other token for one character.\<close>

fun glob_match :: "bool \<Rightarrow> glob list \<Rightarrow> byte list \<Rightarrow> bool" where
  "glob_match nocase [] s \<longleftrightarrow> s = []"
| "glob_match nocase (Star # ts) s \<longleftrightarrow> (\<exists>n \<le> length s. glob_match nocase ts (drop n s))"
| "glob_match nocase (t # ts) s \<longleftrightarrow> s \<noteq> [] \<and> glob_match1 nocase t (hd s) \<and> glob_match nocase ts (tl s)"

lemma pattern_text_simps [simp]: "pattern_text [] = []" "pattern_text (t # ts) = glob_text t @ pattern_text ts"
  by (simp_all add: pattern_text_def)

lemma byte_at_mid [simp]: "i = length xs \<Longrightarrow> byte_at (xs @ y # ys) i = Some y"
  by (simp add: byte_at_def)

lemma byte_at_off: "i = length xs + k \<Longrightarrow> byte_at (xs @ ys) i = byte_at ys k"
  by (simp add: byte_at_def nth_append)

lemma byte_at_Cons: "byte_at (y # ys) 0 = Some y" "byte_at (y # ys) (Suc k) = byte_at ys k"
  by (simp_all add: byte_at_def)

lemma class_loop_ok:
  assumes "items_wf items" "byte_at str j = Some c" "0 \<le> k"
  shows "class_loop (pre @ concat (map item_text items) @ 93 # post) str nocase j (length pre)
      (int (length (concat (map item_text items))) + 1 + k) m =
    Some (length pre + length (concat (map item_text items)), 1 + k, m \<or> list_ex (item_match nocase c) items)"
  using assms(1)
proof (induction items arbitrary: pre m)
  case Nil
  then show ?case by (subst class_loop.simps) simp
next
  case (Cons it items)
  show ?case
  proof (cases it)
    case (Esc_item x)
    then show ?thesis using Cons.IH [of "pre @ [92, x]" "m \<or> x = c"] Cons.prems assms(2)
      by (subst class_loop.simps) (simp add: byte_at_off [of _ pre 1] byte_at_Cons algebra_simps disj_assoc)
  next
    case (Range_item a b)
    then show ?thesis using Cons.IH [of "pre @ [a, 45, b]" "m \<or> range_match nocase a b c"] Cons.prems assms(2,3)
      by (subst class_loop.simps) (simp add: byte_at_off [of _ pre 1] byte_at_off [of _ pre 2] byte_at_Cons numeral_2_eq_2 numeral_3_eq_3 algebra_simps disj_assoc)
  next
    case (Char_item x)
    obtain y r where y: "concat (map item_text items) @ 93 # post = y # r" "y \<noteq> 45"
      using Cons.prems Char_item by (cases "concat (map item_text items)") auto
    then have "byte_at (pre @ x # concat (map item_text items) @ 93 # post) (Suc (length pre)) = Some y"
      by (simp add: byte_at_off [of _ pre 1] byte_at_Cons)
    then show ?thesis using Cons.IH [of "pre @ [x]" "m \<or> char_match nocase x c"] Cons.prems assms(2,3) Char_item y(2)
      by (subst class_loop.simps) (simp add: algebra_simps disj_assoc)
  qed
qed

lemma glob_text_hd: "glob_wf t \<Longrightarrow> t \<noteq> Star \<Longrightarrow> \<exists>b r. glob_text t = b # r \<and> b \<noteq> 42"
  by (cases t) auto

lemma match_one_ok:
  assumes "glob_wf t" "t \<noteq> Star" "byte_at str j = Some c" "0 \<le> k" "sl \<noteq> 0"
  shows "match_one (pre @ glob_text t @ post) str nocase (length pre) (int (length (glob_text t)) + k) j sl (hd (glob_text t)) =
    Some (if glob_match1 nocase t c then Some (length pre + length (glob_text t) - 1, 1 + k, j + 1, sl - 1) else None)"
proof (cases t)
  case (Class neg items)
  let ?b = "concat (map item_text items)" and ?n = "if neg then [94 :: byte] else []"
  have b1: "\<exists>y. byte_at (pre @ glob_text t @ post) (Suc (length pre)) = Some y \<and> (y = 94) = neg"
    using assms(1) Class by (cases neg; cases "?b") (auto simp: byte_at_off [of _ pre 1] byte_at_Cons)
  have "class_loop ((pre @ 91 # ?n) @ ?b @ 93 # post) str nocase j (length (pre @ 91 # ?n)) (1 + (int (length ?b) + k)) False =
    Some (length (pre @ 91 # ?n) + length ?b, 1 + k, list_ex (item_match nocase c) items)"
    using class_loop_ok [of items str j c k "pre @ 91 # ?n" post nocase False] assms Class by (simp add: add_ac)
  then show ?thesis using b1 Class by (cases neg) (auto simp: match_one_def)
next
  case (Esc x)
  then show ?thesis using assms(3,4) by (simp add: match_one_def byte_at_off [of _ pre 1] byte_at_Cons)
qed (use assms in \<open>auto simp: match_one_def\<close>)

lemma star_skip_ok:
  assumes "list_all glob_wf ts" "i + off = length pre"
  shows "star_skip (pre @ pattern_text ts @ 0 # post) off i pl =
    Some (i + length (takeWhile ((=) Star) ts), pl - int (length (takeWhile ((=) Star) ts)))"
  using assms
proof (induction ts arbitrary: pre i pl)
  case Nil
  then show ?case by (subst star_skip.simps) simp
next
  case (Cons t ts)
  show ?case
  proof (cases "t = Star")
    case True
    then show ?thesis using Cons.IH [of "i + 1" "pre @ [42]"] Cons.prems by (subst star_skip.simps) (simp add: algebra_simps)
  next
    case False
    then obtain b r where "glob_text t = b # r" "b \<noteq> 42" using Cons.prems glob_text_hd by (metis list.pred_inject(2))
    then show ?thesis using False Cons.prems by (subst star_skip.simps) simp
  qed
qed

lemma glob_match_stars: "glob_match nocase (Star # ts) s \<longleftrightarrow> glob_match nocase (Star # dropWhile ((=) Star) ts) s"
proof (induction ts arbitrary: s)
  case (Cons t ts)
  show ?case
  proof (cases "t = Star")
    case True
    have "glob_match nocase (Star # Star # ts) s \<longleftrightarrow> glob_match nocase (Star # ts) s"
    proof
      assume "glob_match nocase (Star # ts) s"
      then show "glob_match nocase (Star # Star # ts) s" by (metis drop0 glob_match.simps(2) le0)
    next
      assume "glob_match nocase (Star # Star # ts) s"
      then obtain n m where "n \<le> length s" "m \<le> length s - n" "glob_match nocase ts (drop (n + m) s)"
        by (auto simp: add.commute)
      then show "glob_match nocase (Star # ts) s" by (auto intro!: exI [of _ "n + m"])
    qed
    with Cons.IH True show ?thesis by simp
  qed simp
qed simp

lemma glob_match_Nil: "glob_match nocase ts [] \<longleftrightarrow> dropWhile ((=) Star) ts = []"
  by (induction nocase ts "[] :: byte list" rule: glob_match.induct) auto

lemma pattern_text_dropWhile:
  "length (pattern_text ts) = length (takeWhile ((=) Star) ts) + length (pattern_text (dropWhile ((=) Star) ts))"
  "pattern_text ts = replicate (length (takeWhile ((=) Star) ts)) 42 @ pattern_text (dropWhile ((=) Star) ts)"
  by (induction ts) auto

lemma pattern_text_Nil: "list_all glob_wf ts \<Longrightarrow> pattern_text ts = [] \<longleftrightarrow> ts = []"
  by (cases ts; cases "hd ts") auto

lemma match_star_loop_ok:
  assumes IH: "\<And>spre s. s \<noteq> [] \<Longrightarrow>
      match_loop pat (spre @ s @ post') nocase False (i + 1) (pl - 1) (length spre) (int (length s)) = Some (P s)"
  shows "match_loop pat (spre @ s @ post') nocase True i pl (length spre) (int (length s)) =
    Some (\<exists>n < length s. P (drop n s))"
proof (induction s arbitrary: spre)
  case Nil
  then show ?case by (subst match_loop.simps) simp
next
  case (Cons c s)
  have "(\<exists>n < length (c # s). P (drop n (c # s))) \<longleftrightarrow> P (c # s) \<or> (\<exists>n < length s. P (drop n s))"
    by (auto simp: less_Suc_eq_0_disj)
  then show ?case using IH [of "c # s" spre] Cons.IH [of "spre @ [c]"]
    by (subst match_loop.simps) simp
qed

lemma match_loop_ok:
  assumes "list_all glob_wf ts" "s \<noteq> []"
  shows "match_loop (pre @ pattern_text ts @ 0 # post) (spre @ s @ post') nocase False (length pre)
      (int (length (pattern_text ts))) (length spre) (int (length s)) = Some (glob_match nocase ts s)"
  using assms
proof (induction "length ts" arbitrary: ts s pre spre rule: less_induct)
  case less
  show ?case
  proof (cases ts)
    case Nil
    then show ?thesis using less.prems by (subst match_loop.simps) simp
  next
    case ts: (Cons t ts1)
    let ?pat = "pre @ pattern_text ts @ 0 # post" and ?str = "spre @ s @ post'"
    let ?n = "length (takeWhile ((=) Star) ts1)" and ?rest = "dropWhile ((=) Star) ts1"
    have pl: "int (length (pattern_text ts)) \<noteq> 0" unfolding of_nat_eq_0_iff length_0_conv pattern_text_Nil [OF less.prems(1)] using ts by simp
    show ?thesis
    proof (cases "t = Star")
      case True
      have wf: "list_all glob_wf ts1" "list_all glob_wf ?rest" using less.prems(1) ts
        by (auto simp: list_all_iff dest: set_dropWhileD)
      have sk: "star_skip ?pat 1 (length pre) (int (length (pattern_text ts))) =
          Some (length pre + ?n, 1 + int (length (pattern_text ?rest)))"
        using star_skip_ok [OF wf(1), of "length pre" 1 "pre @ [42]" post] ts True pattern_text_dropWhile(1) [of ts1] by simp
      have g: "glob_match nocase ts s \<longleftrightarrow> glob_match nocase (Star # ?rest) s" using ts True glob_match_stars by simp
      show ?thesis
      proof (cases "?rest = []")
        case r: True
        have "glob_match nocase ts s" unfolding g r by auto
        then show ?thesis using pl sk ts True r by (subst match_loop.simps) simp
      next
        case r: False
        have pat: "?pat = (pre @ 42 # replicate ?n 42) @ pattern_text ?rest @ 0 # post"
          using ts True pattern_text_dropWhile(2) [of ts1] by simp
        have "length ?rest < length ts" using ts True by (simp add: length_dropWhile_le less_Suc_eq_le)
        then have IH: "match_loop ?pat (spre @ s @ post') nocase False (length pre + ?n + 1)
            (1 + int (length (pattern_text ?rest)) - 1) (length spre) (int (length s)) = Some (glob_match nocase ?rest s)"
          if "s \<noteq> []" for spre s
          using less.hyps [of ?rest s "pre @ 42 # replicate ?n 42" spre] wf(2) that unfolding pat by simp
        have nr: "\<not> glob_match nocase ?rest []" using r by (simp add: glob_match_Nil dropWhile_idem)
        have "(\<exists>n < length s. glob_match nocase ?rest (drop n s)) \<longleftrightarrow> glob_match nocase ts s"
          unfolding g using nr by (auto simp: le_less)
        moreover have "pattern_text ?rest \<noteq> []" using r pattern_text_Nil [OF wf(2)] by simp
        ultimately show ?thesis
          using pl sk ts True match_star_loop_ok [of ?pat post' nocase "length pre + ?n" _ "glob_match nocase ?rest", OF IH, of spre s]
          by (subst match_loop.simps) simp
      qed
    next
      case False
      obtain c s1 where s: "s = c # s1" using less.prems(2) by (cases s) auto
      have wf: "glob_wf t" "list_all glob_wf ts1" using less.prems(1) ts by auto
      obtain b r where b: "glob_text t = b # r" "b \<noteq> 42" using glob_text_hd [OF wf(1) False] by blast
      have m: "match_one ?pat ?str nocase (length pre) (int (length (pattern_text ts))) (length spre) (int (length s)) b =
          Some (if glob_match1 nocase t c then Some (length pre + length (glob_text t) - 1, 1 + int (length (pattern_text ts1)),
            length spre + 1, int (length s) - 1) else None)"
      proof -
        have e: "int (length (pattern_text ts)) = int (length (glob_text t)) + int (length (pattern_text ts1))"
          "?pat = pre @ glob_text t @ pattern_text ts1 @ 0 # post" "b = hd (glob_text t)" using ts b by simp_all
        have "byte_at ?str (length spre) = Some c" "int (length s) \<noteq> 0" using s by simp_all
        then show ?thesis unfolding e by (intro match_one_ok [OF wf(1) False]) simp_all
      qed
      have g: "glob_match nocase ts s \<longleftrightarrow> glob_match1 nocase t c \<and> glob_match nocase ts1 s1"
        using ts s False by (cases t) auto
      have pat: "?pat = (pre @ glob_text t) @ pattern_text ts1 @ 0 # post" using ts by simp
      show ?thesis
      proof (cases "glob_match1 nocase t c")
        case False
        then show ?thesis using pl m g ts b by (subst match_loop.simps) simp
      next
        case True
        have l: "length pre + length (glob_text t) - 1 + 1 = length (pre @ glob_text t)" using b(1) by simp
        show ?thesis
        proof (cases "s1 = []")
          case e: True
          have "star_skip ?pat 0 (length (pre @ glob_text t)) (int (length (pattern_text ts1))) =
            Some (length (pre @ glob_text t) + ?n, int (length (pattern_text ?rest)))"
            unfolding pat using star_skip_ok [OF wf(2), of "length (pre @ glob_text t)" 0 "pre @ glob_text t" post]
              pattern_text_dropWhile(1) [of ts1] by simp
          moreover have "pattern_text ?rest = [] \<longleftrightarrow> ?rest = []"
            using pattern_text_Nil [of ?rest] wf(2) by (auto simp: list_all_iff dest: set_dropWhileD)
          ultimately show ?thesis using pl m g True ts b s e l
            by (subst match_loop.simps) (simp add: glob_match_Nil)
        next
          case False
          have "match_loop ?pat ?str nocase False (length (pre @ glob_text t)) (int (length (pattern_text ts1)))
              (length spre + 1) (int (length s1)) = Some (glob_match nocase ts1 s1)"
            using less.hyps [of ts1 s1 "pre @ glob_text t" "spre @ [c]"] ts wf(2) False s by simp
          then show ?thesis using pl m g True ts b s l False by (subst match_loop.simps) simp
        qed
      qed
    qed
  qed
qed

subsection \<open>Properties of the pattern matcher\<close>

text \<open>C13: on every nonempty string and every pattern built from stars, question marks, character classes (negated
  or not, with ranges and escapes), escaped and plain characters, \<open>stringmatchlen\<close> reads no byte outside the two
  buffers, returns, and decides exactly the declarative meaning of the pattern.\<close>

theorem stringmatchlen_matches:
  assumes "list_all glob_wf ts" "s \<noteq> []"
  shows "stringmatchlen (pattern_text ts @ 0 # post) (length (pattern_text ts)) (s @ post') (length s) nocase =
    Some (glob_match nocase ts s)"
  using match_loop_ok [OF assms, of "[]" post "[]" post' nocase] by (simp add: stringmatchlen_def)

theorem stringmatchlen_matches_witness:
  "stringmatchlen (asc ''h[a-e^]*l?'' @ [0]) 10 (asc ''hello'') 5 False = Some True \<and>
   stringmatchlen (asc ''h[a-e^]*l?'' @ [0]) 10 (asc ''hxllo'') 5 False = Some False"
proof -
  let ?ts = "[Char 104, Class False [Range_item 97 101, Char_item 94], Star, Char 108, Any]"
  have t: "pattern_text ?ts = asc ''h[a-e^]*l?''" "list_all glob_wf ?ts" "length (asc ''h[a-e^]*l?'') = 10"
    "length (asc ''hello'') = 5" "length (asc ''hxllo'') = 5" "asc ''hello'' \<noteq> []" "asc ''hxllo'' \<noteq> []"
    by (simp_all add: asc_def)
  have g: "glob_match False ?ts (asc ''hello'') = True"
    by (simp add: asc_def range_match_def char_match_def byte_sint, rule exI [of _ 1], simp)
  have "glob_match False ?ts (asc ''hxllo'') = False"
    by (simp add: asc_def range_match_def char_match_def byte_sint)
  then show ?thesis
    using g stringmatchlen_matches [OF t(2,6), of "[]" "[]" False] stringmatchlen_matches [OF t(2,7), of "[]" "[]" False]
    by (simp only: t append_Nil2)
qed

text \<open>Two inputs outside that range. On the empty string a negated class consumes the terminator, so that the
  length becomes negative and \<open>[^a]*\<close> matches the empty string; and a pattern that ends inside a class with a
  backslash makes the scan step over the terminator of the pattern and read outside it.\<close>

lemma stringmatchlen_edge_cases:
  "stringmatchlen (asc ''[^a]*'' @ [0]) 5 [0] 0 False = Some True \<and>
   pattern_text [Class True [Char_item 97], Star] = asc ''[^a]*'' \<and> \<not> glob_match False [Class True [Char_item 97], Star] [] \<and>
   stringmatchlen [91, 92, 0] 2 [97, 0] 1 False = None"
proof -
  have "stringmatchlen (asc ''[^a]*'' @ [0]) 5 [0] 0 False = Some True"
    by (simp add: stringmatchlen_def match_loop.simps match_one_def class_loop.simps asc_def byte_at_def char_match_def star_skip.simps)
  moreover have "stringmatchlen [91, 92, 0] 2 [97, 0] 1 False = None"
    by (simp add: stringmatchlen_def match_loop.simps match_one_def class_loop.simps byte_at_def)
  ultimately show ?thesis by (simp add: asc_def)
qed

section \<open>Byte order\<close>

fun memrev16 :: "byte list \<Rightarrow> byte list option" where
  "memrev16 (x0 # x1 # r) = Some (x1 # x0 # r)"
| "memrev16 _ = None"

fun memrev32 :: "byte list \<Rightarrow> byte list option" where
  "memrev32 (x0 # x1 # x2 # x3 # r) = Some (x3 # x2 # x1 # x0 # r)"
| "memrev32 _ = None"

fun memrev64 :: "byte list \<Rightarrow> byte list option" where
  "memrev64 (x0 # x1 # x2 # x3 # x4 # x5 # x6 # x7 # r) = Some (x7 # x6 # x5 # x4 # x3 # x2 # x1 # x0 # r)"
| "memrev64 _ = None"

definition intrev16 :: "nat \<Rightarrow> nat option" where
  "intrev16 v = map_option le_val (memrev16 (le_bytes 2 v))"

definition intrev32 :: "nat \<Rightarrow> nat option" where
  "intrev32 v = map_option le_val (memrev32 (le_bytes 4 v))"

definition intrev64 :: "nat \<Rightarrow> nat option" where
  "intrev64 v = map_option le_val (memrev64 (le_bytes 8 v))"

lemma memrev16_rev: "length b = 2 \<Longrightarrow> memrev16 (b @ r) = Some (rev b @ r)"
  by (cases b rule: memrev16.cases) simp_all

lemma memrev32_rev: "length b = 4 \<Longrightarrow> memrev32 (b @ r) = Some (rev b @ r)"
  by (cases b rule: memrev32.cases) simp_all

lemma memrev64_rev: "length b = 8 \<Longrightarrow> memrev64 (b @ r) = Some (rev b @ r)"
  by (cases b rule: memrev64.cases) simp_all

text \<open>\<open>intrev16\<close>, \<open>intrev32\<close> and \<open>intrev64\<close> reverse the bytes of the number, so that applying them twice
  gives it back.\<close>

lemma intrev_involution:
  "(v < 2 ^ 16 \<longrightarrow> (\<exists>u. intrev16 v = Some u \<and> le_bytes 2 u = rev (le_bytes 2 v) \<and> intrev16 u = Some v)) \<and>
   (v < 2 ^ 32 \<longrightarrow> (\<exists>u. intrev32 v = Some u \<and> le_bytes 4 u = rev (le_bytes 4 v) \<and> intrev32 u = Some v)) \<and>
   (v < 2 ^ 64 \<longrightarrow> (\<exists>u. intrev64 v = Some u \<and> le_bytes 8 u = rev (le_bytes 8 v) \<and> intrev64 u = Some v))"
proof -
  have b: "le_bytes w (le_val (rev (le_bytes w v))) = rev (le_bytes w v)" for w
    using le_bytes_le_val [of "rev (le_bytes w v)"] by simp
  show ?thesis
    using memrev16_rev [of "le_bytes 2 v" "[]"] memrev16_rev [of "rev (le_bytes 2 v)" "[]"]
      memrev32_rev [of "le_bytes 4 v" "[]"] memrev32_rev [of "rev (le_bytes 4 v)" "[]"]
      memrev64_rev [of "le_bytes 8 v" "[]"] memrev64_rev [of "rev (le_bytes 8 v)" "[]"]
    by (auto simp: intrev16_def intrev32_def intrev64_def b le_val_le_bytes)
qed

section \<open>Amounts of memory\<close>

text \<open>The end of the digits: \<open>while(*u \<and> isdigit(*u)) u++\<close>.\<close>

function skip_digits :: "byte list \<Rightarrow> nat \<Rightarrow> nat option" where
  "skip_digits p u = do {
     c \<leftarrow> byte_at p u;
     if c \<noteq> 0 \<and> 48 \<le> c \<and> c \<le> 57 then skip_digits p (u + 1) else Some u
   }"
  by pat_completeness auto

termination by (relation "measure (\<lambda>(p, u). length p - u)") (auto simp: byte_at_def split: if_splits)

declare skip_digits.simps [simp del]

text \<open>\<open>!strcasecmp(u, lit)\<close> for the C string at \<open>u\<close>.\<close>

definition strcase_eq :: "byte list \<Rightarrow> nat \<Rightarrow> string \<Rightarrow> bool" where
  "strcase_eq p u lit \<longleftrightarrow> map tolower (takeWhile (\<lambda>c. c \<noteq> 0) (drop u p)) = asc lit"

definition mem_unit :: "byte list \<Rightarrow> nat \<Rightarrow> int option" where
  "mem_unit p u =
     (if p ! u = 0 \<or> strcase_eq p u ''b'' then Some 1
      else if strcase_eq p u ''k'' then Some 1000
      else if strcase_eq p u ''kb'' then Some 1024
      else if strcase_eq p u ''m'' then Some (1000 * 1000)
      else if strcase_eq p u ''mb'' then Some (1024 * 1024)
      else if strcase_eq p u ''g'' then Some (1000 * 1000 * 1000)
      else if strcase_eq p u ''gb'' then Some (1024 * 1024 * 1024)
      else None)"

text \<open>\<open>strtoll\<close> in base 10 on a buffer of an optional minus and digits: the value, saturated at the limits, and
  the number of characters consumed, 0 when there is no digit.\<close>

definition strtoll :: "byte list \<Rightarrow> int \<times> nat" where
  "strtoll buf =
     (let neg = (buf \<noteq> [] \<and> hd buf = 45);
          ds = takeWhile (\<lambda>c. 48 \<le> c \<and> c \<le> 57) (if neg then tl buf else buf);
          v = (if neg then - int (dec_val ds) else int (dec_val ds))
      in if ds = [] then (0, 0)
         else (max LLONG_MIN (min LLONG_MAX v), length ds + (if neg then 1 else 0)))"

text \<open>\<open>memtoll\<close> returns the value and the flag \<open>*err\<close>. Whether \<open>strtoll\<close> sets \<open>errno\<close> to \<open>EINVAL\<close> when it finds no
  digit is left open by its specification and a parameter.\<close>

definition memtoll :: "bool \<Rightarrow> byte list \<Rightarrow> (int \<times> bool) option" where
  "memtoll einval p = do {
     c \<leftarrow> byte_at p 0;
     u \<leftarrow> skip_digits p (if c = 45 then 1 else 0);
     case mem_unit p u of
       None \<Rightarrow> Some (0, True)
     | Some mul \<Rightarrow>
         let digits = u
         in if digits \<ge> 128 then Some (0, True)
            else let buf = take digits p; (val, n) = strtoll buf
              in if (val = 0 \<and> n = 0 \<and> einval) \<or> n < length buf then Some (0, True)
                 else Some (cast_s 64 (val * mul), False)
   }"

lemma skip_digits_ok:
  "digits_only ds \<Longrightarrow> \<not> (48 \<le> c \<and> c \<le> 57) \<Longrightarrow> skip_digits (pre @ ds @ c # post) (length pre) = Some (length pre + length ds)"
proof (induction ds arbitrary: pre)
  case Nil
  then show ?case by (subst skip_digits.simps) auto
next
  case (Cons d ds)
  then have "d \<noteq> 0" by (auto simp: word_le_nat_alt)
  with Cons show ?case using Cons.IH [of "pre @ [d]"] by (subst skip_digits.simps) simp
qed

lemma hd_dec_text_45: "hd (dec_text n) \<noteq> 45"
  using dec_text_digits [of n] by (cases "dec_text n") (auto simp: word_le_nat_alt)

lemma strtoll_int_text:
  assumes "LLONG_MIN \<le> v" "v \<le> LLONG_MAX"
  shows "strtoll (int_text v) = (v, length (int_text v))"
proof -
  have tw: "takeWhile (\<lambda>c. 48 \<le> c \<and> c \<le> 57) (dec_text n) = dec_text n" for n
    using dec_text_digits [of n] by (simp add: digits_only_def takeWhile_eq_all_conv)
  show ?thesis using assms by (simp add: strtoll_def int_text_def tw hd_dec_text_45 Let_def)
qed

lemma skip_int_text:
  assumes "\<not> (48 \<le> c \<and> c \<le> 57)"
  shows "\<exists>b. byte_at (int_text v @ c # post) 0 = Some b \<and>
    skip_digits (int_text v @ c # post) (if b = 45 then 1 else 0) = Some (length (int_text v))"
proof (cases "v < 0")
  case True
  then show ?thesis using skip_digits_ok [OF dec_text_digits assms, of "[45]" "nat (- v)" post]
    by (simp add: int_text_def byte_at_def)
next
  case False
  then show ?thesis using skip_digits_ok [OF dec_text_digits assms, of "[]" "nat v" post] hd_dec_text_45 [of "nat v"]
    by (cases "dec_text (nat v)") (auto simp: int_text_def byte_at_def)
qed

text \<open>The units and their amounts.\<close>

definition unit_amount :: "string \<Rightarrow> int option" where
  "unit_amount = map_of [('''', 1), (''b'', 1), (''k'', 1000), (''kb'', 1024), (''m'', 10 ^ 6), (''mb'', 1024 ^ 2),
     (''g'', 10 ^ 9), (''gb'', 1024 ^ 3)]"

definition lower_text :: "byte list \<Rightarrow> string \<Rightarrow> bool" where
  "lower_text cs lit \<longleftrightarrow> map tolower cs = asc lit"

lemma of_char_byte_inj: "inj (of_char :: char \<Rightarrow> byte)"
proof (rule injI)
  fix c d :: char
  assume eq: "(of_char c :: byte) = of_char d"
  let ?bs = "\<lambda>c. [digit0 c, digit1 c, digit2 c, digit3 c, digit4 c, digit5 c, digit6 c, digit7 c]"
  have b: "bit (of_char c :: byte) n \<longleftrightarrow> n < min LENGTH(8) (length (?bs c)) \<and> ?bs c ! n" for c n
    by (simp only: of_char_def bit_horner_sum_bit_word_iff)
  have "?bs c = ?bs d"
  proof (rule nth_equalityI)
    fix n assume "n < length (?bs c)"
    then show "?bs c ! n = ?bs d ! n" using b [of c n] b [of d n] eq by simp
  qed simp
  then show "c = d" by (intro char.expand) simp
qed

lemma asc_inj: "asc s = asc t \<longleftrightarrow> s = t"
  using of_char_byte_inj by (simp add: asc_def inj_map_eq_map)

lemma mem_unit_ok:
  assumes "0 \<notin> set cs" "map tolower cs = asc lit"
  shows "mem_unit (pre @ cs @ 0 # post) (length pre) = unit_amount lit"
proof -
  have "takeWhile (\<lambda>c. c \<noteq> 0) (cs @ 0 # post) = cs" using assms(1) by (induction cs) auto
  then have s: "strcase_eq (pre @ cs @ 0 # post) (length pre) l \<longleftrightarrow> lit = l" for l
    using assms(2) by (simp add: strcase_eq_def asc_inj)
  have z: "(pre @ cs @ 0 # post) ! length pre = 0 \<longleftrightarrow> lit = ''''"
    using assms by (cases cs; cases lit) (auto simp: nth_append asc_def)
  show ?thesis unfolding mem_unit_def s z unit_amount_def by simp
qed

lemma memtoll_ok:
  assumes "LLONG_MIN \<le> v" "v \<le> LLONG_MAX" "0 \<notin> set cs" "map tolower cs = asc lit" "cs = [] \<or> \<not> (48 \<le> hd cs \<and> hd cs \<le> 57)"
  shows "memtoll einval (int_text v @ cs @ 0 # post) =
    Some (case unit_amount lit of None \<Rightarrow> (0, True) | Some mul \<Rightarrow> (cast_s 64 (v * mul), False))"
proof -
  let ?p = "int_text v @ cs @ 0 # post"
  obtain c r where c: "cs @ 0 # post = c # r" "\<not> (48 \<le> c \<and> c \<le> 57)"
    using assms(5) by (cases cs) (auto simp: word_le_nat_alt)
  obtain b where b: "byte_at ?p 0 = Some b" "skip_digits ?p (if b = 45 then 1 else 0) = Some (length (int_text v))"
    using skip_int_text [OF c(2), of v r] c(1) by auto
  have len: "length (int_text v) \<le> 20" "int_text v \<noteq> []"
    using length_int_text_le [OF assms(1,2)] by (auto simp: int_text_def)
  have u: "mem_unit ?p (length (int_text v)) = unit_amount lit" using mem_unit_ok [OF assms(3,4)] .
  with b len show ?thesis
    by (simp add: memtoll_def strtoll_int_text [OF assms(1,2)] Let_def split: option.split)
qed

text \<open>\<open>memtoll\<close> reads a number with a unit in any case (none, \<open>b\<close>, \<open>k\<close>, \<open>kb\<close>, \<open>m\<close>, \<open>mb\<close>, \<open>g\<close>, \<open>gb\<close>) as the
  product, when the product fits in 64 bits, and reports an error for every other unit. It reads nothing
  outside the string.\<close>

theorem memtoll_amount:
  assumes "LLONG_MIN \<le> v" "v \<le> LLONG_MAX" "0 \<notin> set cs" "map tolower cs = asc lit"
    "cs = [] \<or> \<not> (48 \<le> hd cs \<and> hd cs \<le> 57)"
    "\<And>mul. unit_amount lit = Some mul \<Longrightarrow> LLONG_MIN \<le> v * mul \<and> v * mul \<le> LLONG_MAX"
  shows "memtoll einval (int_text v @ cs @ 0 # post) =
    Some (case unit_amount lit of None \<Rightarrow> (0, True) | Some mul \<Rightarrow> (v * mul, False))"
proof -
  have "cast_s 64 x = x" if "LLONG_MIN \<le> x" "x \<le> LLONG_MAX" for x
    using that by (intro cast_s_id) (auto simp: vire_limits)
  with memtoll_ok [OF assms(1-5)] assms(6) show ?thesis by (auto split: option.split)
qed

theorem memtoll_amount_witness:
  "memtoll False (int_text 2 @ [71, 98] @ [0]) = Some (2147483648, False) \<and>
   memtoll False (int_text 2 @ [116] @ [0]) = Some (0, True)"
  using memtoll_amount [of 2 "[71, 98]" "''gb''" False "[]"] memtoll_amount [of 2 "[116]" "''t''" False "[]"]
  by (simp add: vire_limits tolower_def asc_def unit_amount_def)

text \<open>\<open>memtoll\<close> does not notice an overflow of the product: the amount of memory wraps around without an
  error.\<close>

lemma memtoll_overflow: "memtoll False (asc ''9223372036854775807gb'' @ [0]) = Some (- 1073741824, False)"
proof -
  have "int_text 9223372036854775807 @ [103, 98] @ 0 # [] = asc ''9223372036854775807gb'' @ [0]"
    by (simp add: int_text_def asc_def dec_text.simps)
  then show ?thesis
    using memtoll_ok [of 9223372036854775807 "[103, 98]" "''gb''" False "[]"]
    by (simp add: vire_limits tolower_def asc_def unit_amount_def cast_s_def)
qed

section \<open>Port numbers and options\<close>

lemma vr_atoi_loop_ok:
  "digits_only cs \<Longrightarrow> 0 \<le> v \<Longrightarrow> int (dec_acc (nat v) cs) < 2 ^ 31 \<Longrightarrow> vr_atoi_loop cs v = int (dec_acc (nat v) cs)"
proof (induction cs arbitrary: v)
  case (Cons c cs)
  let ?w = "nat v * 10 + (unat c - 48)"
  have s1: "48 \<le> sint c \<and> sint c \<le> 57" "nat (sint c - 48) = unat c - 48" using Cons.prems(1) by auto
  have s: "48 \<le> sint c \<and> sint c \<le> 57" "sint c - 48 = int (unat c - 48)" using s1 by linarith+
  have "int (dec_acc ?w cs) < 2 ^ 31" using Cons.prems(3) by simp
  then have "int ?w < 2 ^ 31" using dec_acc_ge [of ?w cs] by linarith
  then have "cast_s 32 (v * 10 + (sint c - 48)) = int ?w"
    unfolding s(2) using Cons.prems(2) by (subst cast_s_32_id) auto
  moreover have "\<not> sint c < 48" "\<not> sint c > 57" using s(1) by linarith+
  ultimately have "vr_atoi_loop (c # cs) v = vr_atoi_loop cs (int ?w)" by simp
  also have "\<dots> = int (dec_acc ?w cs)" using Cons.IH [of "int ?w", unfolded nat_int] Cons.prems by simp
  finally show ?case by simp
qed simp

lemma vr_atoi_loop_refuses: "\<not> digits_only cs \<Longrightarrow> vr_atoi_loop cs v = - 1"
proof (induction cs arbitrary: v)
  case (Cons c cs)
  show ?case
  proof (cases "48 \<le> c \<and> c \<le> 57")
    case False
    then have "sint c < 48 \<or> sint c > 57" using digit_sint(1) [of c] by linarith
    then show ?thesis by auto
  qed (use Cons in auto)
qed simp

text \<open>\<open>_vr_atoi\<close> returns the value of every decimal number below \<open>2^31\<close> (leading zeros allowed) and -1 for the
  empty string and for every string with another character; it reads only the given characters.\<close>

theorem vr_atoi_value:
  assumes "n \<le> length line"
  shows "\<exists>r. vr_atoi line n = Some r \<and> (n = 0 \<or> \<not> digits_only (take n line) \<longrightarrow> r = - 1) \<and>
    (0 < n \<and> digits_only (take n line) \<and> dec_val (take n line) < 2 ^ 31 \<longrightarrow> r = int (dec_val (take n line)))"
proof -
  have "dec_val (take n line) = dec_acc 0 (take n line)" by (simp add: dec_val_def dec_acc_def)
  then show ?thesis using assms vr_atoi_loop_refuses [of "take n line" 0] vr_atoi_loop_ok [of "take n line" 0]
    by (auto simp: vr_atoi_def)
qed

theorem vr_atoi_value_witness: "vr_atoi [48, 54, 51, 55, 57, 0] 5 = Some 6379 \<and> vr_atoi [54, 120, 0] 2 = Some (- 1)"
  using vr_atoi_value [of 5 "[48, 54, 51, 55, 57, 0]"] vr_atoi_value [of 2 "[54, 120, 0]"] by (auto simp: dec_val_Cons)

text \<open>The check \<open>value < 0\<close> after the loop does not find every overflow.\<close>

lemma vr_atoi_overflow: "vr_atoi (asc ''4294967297'') 10 = Some 1"
  by (simp add: vr_atoi_def asc_def byte_sint cast_s_def)

end
