(* ===== verification/Vire_Dlist.thy ===== *)
theory Vire_Dlist
  imports Vire_Interfaces
begin

text \<open>
  The doubly linked lists of \<open>src/dep/dlist/dlist.c\<close>, on an explicit heap of nodes. Every operation of the
  file is a definition; the proofs relate the pointer structure to the list of its values, and show what
  an operation leaves untouched in the rest of the heap.
\<close>


section \<open>Nodes, lists and iterators\<close>

text \<open>Nodes live in a heap that maps addresses to them; \<open>NULL\<close> is \<^term>\<open>None\<close>. The allocator is a function of the
  heap: it returns an address that is not in use, or \<^term>\<open>None\<close> when it fails.\<close>

type_synonym addr = nat

record 'v dlistNode =
  n_prev :: "addr option"
  n_next :: "addr option"
  n_value :: 'v

type_synonym 'v dheap = "addr \<Rightarrow> 'v dlistNode option"
type_synonym 'v dallocator = "'v dheap \<Rightarrow> addr option"

datatype direction = AL_START_HEAD | AL_START_TAIL

record dlistIter =
  i_next :: "addr option"
  i_direction :: direction

record 'v dlist =
  l_head :: "addr option"
  l_tail :: "addr option"
  l_dup :: "('v \<Rightarrow> 'v option) option"
  l_free :: bool
  l_match :: "('v \<Rightarrow> 'v \<Rightarrow> bool) option"
  l_len :: nat

definition dlistCreate :: "'v dlist" where
  "dlistCreate = \<lparr>l_head = None, l_tail = None, l_dup = None, l_free = False, l_match = None, l_len = 0\<rparr>"

text \<open>An access through a pointer: \<^term>\<open>None\<close> for a null or dangling one.\<close>

definition set_prev :: "'v dheap \<Rightarrow> addr option \<Rightarrow> addr option \<Rightarrow> 'v dheap option" where
  "set_prev h p q = do { a \<leftarrow> p; n \<leftarrow> h a; Some (h(a \<mapsto> n\<lparr>n_prev := q\<rparr>)) }"

definition set_next :: "'v dheap \<Rightarrow> addr option \<Rightarrow> addr option \<Rightarrow> 'v dheap option" where
  "set_next h p q = do { a \<leftarrow> p; n \<leftarrow> h a; Some (h(a \<mapsto> n\<lparr>n_next := q\<rparr>)) }"

definition len_inc :: "'v dlist \<Rightarrow> 'v dlist" where
  "len_inc l = l\<lparr>l_len := cast_u 64 (int (l_len l) + 1)\<rparr>"

definition len_dec :: "'v dlist \<Rightarrow> 'v dlist" where
  "len_dec l = l\<lparr>l_len := cast_u 64 (int (l_len l) - 1)\<rparr>"

section \<open>Insertion and deletion\<close>

text \<open>The flag is whether the list, and not \<open>NULL\<close>, is returned.\<close>

definition dlistAddNodeHead :: "'v dallocator \<Rightarrow> 'v dheap \<Rightarrow> 'v dlist \<Rightarrow> 'v \<Rightarrow> ('v dheap \<times> 'v dlist \<times> bool) option" where
  "dlistAddNodeHead alloc h l v =
     (case alloc h of
        None \<Rightarrow> Some (h, l, False)
      | Some node \<Rightarrow>
          if l_len l = 0
          then Some (h(node \<mapsto> \<lparr>n_prev = None, n_next = None, n_value = v\<rparr>),
                     len_inc (l\<lparr>l_head := Some node, l_tail := Some node\<rparr>), True)
          else do {
            let h1 = h(node \<mapsto> \<lparr>n_prev = None, n_next = l_head l, n_value = v\<rparr>);
            h2 \<leftarrow> set_prev h1 (l_head l) (Some node);
            Some (h2, len_inc (l\<lparr>l_head := Some node\<rparr>), True)
          })"

definition dlistAddNodeTail :: "'v dallocator \<Rightarrow> 'v dheap \<Rightarrow> 'v dlist \<Rightarrow> 'v \<Rightarrow> ('v dheap \<times> 'v dlist \<times> bool) option" where
  "dlistAddNodeTail alloc h l v =
     (case alloc h of
        None \<Rightarrow> Some (h, l, False)
      | Some node \<Rightarrow>
          if l_len l = 0
          then Some (h(node \<mapsto> \<lparr>n_prev = None, n_next = None, n_value = v\<rparr>),
                     len_inc (l\<lparr>l_head := Some node, l_tail := Some node\<rparr>), True)
          else do {
            let h1 = h(node \<mapsto> \<lparr>n_prev = l_tail l, n_next = None, n_value = v\<rparr>);
            h2 \<leftarrow> set_next h1 (l_tail l) (Some node);
            Some (h2, len_inc (l\<lparr>l_tail := Some node\<rparr>), True)
          })"

definition dlistInsertNode :: "'v dallocator \<Rightarrow> 'v dheap \<Rightarrow> 'v dlist \<Rightarrow> addr \<Rightarrow> 'v \<Rightarrow> bool \<Rightarrow> ('v dheap \<times> 'v dlist \<times> bool) option" where
  "dlistInsertNode alloc h l old_node v after =
     (case alloc h of
        None \<Rightarrow> Some (h, l, False)
      | Some node \<Rightarrow> do {
          old \<leftarrow> h old_node;
          let (prev, next, l1) =
            (if after then (Some old_node, n_next old, if l_tail l = Some old_node then l\<lparr>l_tail := Some node\<rparr> else l)
             else (n_prev old, Some old_node, if l_head l = Some old_node then l\<lparr>l_head := Some node\<rparr> else l));
          let h1 = h(node \<mapsto> \<lparr>n_prev = prev, n_next = next, n_value = v\<rparr>);
          h2 \<leftarrow> (if prev \<noteq> None then set_next h1 prev (Some node) else Some h1);
          h3 \<leftarrow> (if next \<noteq> None then set_prev h2 next (Some node) else Some h2);
          Some (h3, len_inc l1, True)
        })"

text \<open>The last component is the value passed to \<open>list->free\<close>.\<close>

definition dlistDelNode :: "'v dheap \<Rightarrow> 'v dlist \<Rightarrow> addr \<Rightarrow> ('v dheap \<times> 'v dlist \<times> 'v list) option" where
  "dlistDelNode h l node = do {
     n \<leftarrow> h node;
     (h1, l1) \<leftarrow>
       (if n_prev n \<noteq> None then do { h1 \<leftarrow> set_next h (n_prev n) (n_next n); Some (h1, l) }
        else Some (h, l\<lparr>l_head := n_next n\<rparr>));
     (h2, l2) \<leftarrow>
       (if n_next n \<noteq> None then do { h2 \<leftarrow> set_prev h1 (n_next n) (n_prev n); Some (h2, l1) }
        else Some (h1, l1\<lparr>l_tail := n_prev n\<rparr>));
     Some (h2(node := None), len_dec l2, if l_free l then [n_value n] else [])
   }"

fun dlistRelease_loop :: "'v dheap \<Rightarrow> 'v dlist \<Rightarrow> addr option \<Rightarrow> nat \<Rightarrow> ('v dheap \<times> 'v list) option" where
  "dlistRelease_loop h l current 0 = Some (h, [])"
| "dlistRelease_loop h l current (Suc len) = do {
     a \<leftarrow> current;
     n \<leftarrow> h a;
     (h1, vs) \<leftarrow> dlistRelease_loop (h(a := None)) l (n_next n) len;
     Some (h1, if l_free l then n_value n # vs else vs)
   }"

definition dlistRelease :: "'v dheap \<Rightarrow> 'v dlist \<Rightarrow> ('v dheap \<times> 'v list) option" where
  "dlistRelease h l = dlistRelease_loop h l (l_head l) (l_len l)"

section \<open>Traversal\<close>

definition dlistGetIterator :: "'v dlist \<Rightarrow> direction \<Rightarrow> dlistIter" where
  "dlistGetIterator l direction =
     \<lparr>i_next = (if direction = AL_START_HEAD then l_head l else l_tail l), i_direction = direction\<rparr>"

definition dlistRewind :: "'v dlist \<Rightarrow> dlistIter" where
  "dlistRewind l = \<lparr>i_next = l_head l, i_direction = AL_START_HEAD\<rparr>"

definition dlistRewindTail :: "'v dlist \<Rightarrow> dlistIter" where
  "dlistRewindTail l = \<lparr>i_next = l_tail l, i_direction = AL_START_TAIL\<rparr>"

definition dlistNext :: "'v dheap \<Rightarrow> dlistIter \<Rightarrow> (dlistIter \<times> addr option) option" where
  "dlistNext h iter =
     (case i_next iter of
        None \<Rightarrow> Some (iter, None)
      | Some current \<Rightarrow> do {
          n \<leftarrow> h current;
          Some (iter\<lparr>i_next := (if i_direction iter = AL_START_HEAD then n_next n else n_prev n)\<rparr>, Some current)
        })"

partial_function (option) dlistDup_loop :: "'v dallocator \<Rightarrow> 'v dheap \<Rightarrow> 'v dlist \<Rightarrow> dlistIter \<Rightarrow> ('v dheap \<times> 'v dlist option \<times> 'v list) option" where
  "dlistDup_loop alloc h copy iter = do {
     (iter1, node) \<leftarrow> dlistNext h iter;
     case node of
       None \<Rightarrow> Some (h, Some copy, [])
     | Some a \<Rightarrow> do {
         n \<leftarrow> h a;
         case (case l_dup copy of Some dup \<Rightarrow> dup (n_value n) | None \<Rightarrow> Some (n_value n)) of
           None \<Rightarrow> do { (h1, freed) \<leftarrow> dlistRelease h copy; Some (h1, None, freed) }
         | Some v \<Rightarrow> do {
             (h1, copy1, ok) \<leftarrow> dlistAddNodeTail alloc h copy v;
             if ok then dlistDup_loop alloc h1 copy1 iter1
             else do { (h2, freed) \<leftarrow> dlistRelease h1 copy1; Some (h2, None, freed) }
           }
       }
   }"

text \<open>\<open>created\<close> is whether the allocation of the header of the copy succeeds.\<close>

definition dlistDup :: "'v dallocator \<Rightarrow> bool \<Rightarrow> 'v dheap \<Rightarrow> 'v dlist \<Rightarrow> ('v dheap \<times> 'v dlist option \<times> 'v list) option" where
  "dlistDup alloc created h orig =
     (if \<not> created then Some (h, None, [])
      else dlistDup_loop alloc h (dlistCreate\<lparr>l_dup := l_dup orig, l_free := l_free orig, l_match := l_match orig\<rparr>)
        (dlistRewind orig))"

partial_function (option) dlistSearch_loop :: "'v dheap \<Rightarrow> 'v dlist \<Rightarrow> 'v \<Rightarrow> dlistIter \<Rightarrow> addr option option" where
  "dlistSearch_loop h l key iter = do {
     (iter1, node) \<leftarrow> dlistNext h iter;
     case node of
       None \<Rightarrow> Some None
     | Some a \<Rightarrow> do {
         n \<leftarrow> h a;
         if (case l_match l of Some match \<Rightarrow> match (n_value n) key | None \<Rightarrow> key = n_value n) then Some (Some a)
         else dlistSearch_loop h l key iter1
       }
   }"

definition dlistSearchKey :: "'v dheap \<Rightarrow> 'v dlist \<Rightarrow> 'v \<Rightarrow> addr option option" where
  "dlistSearchKey h l key = dlistSearch_loop h l key (dlistRewind l)"

fun dlistIndex_loop :: "bool \<Rightarrow> 'v dheap \<Rightarrow> addr option \<Rightarrow> nat \<Rightarrow> addr option option" where
  "dlistIndex_loop back h n 0 = Some n"
| "dlistIndex_loop back h n (Suc index) =
     (case n of
        None \<Rightarrow> Some None
      | Some a \<Rightarrow> do { nd \<leftarrow> h a; dlistIndex_loop back h (if back then n_prev nd else n_next nd) index })"

definition dlistIndex :: "'v dheap \<Rightarrow> 'v dlist \<Rightarrow> int \<Rightarrow> addr option option" where
  "dlistIndex h l index =
     (if index < 0 then dlistIndex_loop True h (l_tail l) (nat (- index - 1))
      else dlistIndex_loop False h (l_head l) (nat index))"

definition dlistRotate :: "'v dheap \<Rightarrow> 'v dlist \<Rightarrow> ('v dheap \<times> 'v dlist) option" where
  "dlistRotate h l =
     (if l_len l \<le> 1 then Some (h, l)
      else do {
        tail \<leftarrow> l_tail l;
        nt \<leftarrow> h tail;
        let l1 = l\<lparr>l_tail := n_prev nt\<rparr>;
        h1 \<leftarrow> set_next h (l_tail l1) None;
        h2 \<leftarrow> set_prev h1 (l_head l1) (Some tail);
        h3 \<leftarrow> set_prev h2 (Some tail) None;
        h4 \<leftarrow> set_next h3 (Some tail) (l_head l1);
        Some (h4, l1\<lparr>l_head := Some tail\<rparr>)
      })"

definition dlistPush :: "'v dallocator \<Rightarrow> 'v dheap \<Rightarrow> 'v dlist \<Rightarrow> 'v \<Rightarrow> ('v dheap \<times> 'v dlist) option" where
  "dlistPush alloc h l v = do { (h1, l1, ok) \<leftarrow> dlistAddNodeTail alloc h l v; Some (h1, l1) }"

text \<open>The value returned is \<^term>\<open>None\<close> for \<open>NULL\<close>.\<close>

definition dlistPop :: "'v dheap \<Rightarrow> 'v dlist \<Rightarrow> ('v dheap \<times> 'v dlist \<times> 'v option \<times> 'v list) option" where
  "dlistPop h l =
     (case l_head l of
        None \<Rightarrow> Some (h, l, None, [])
      | Some node \<Rightarrow> do {
          n \<leftarrow> h node;
          (h1, l1, freed) \<leftarrow> dlistDelNode h l node;
          Some (h1, l1, if l_free l1 then None else Some (n_value n), freed)
        })"

section \<open>The representation of a list\<close>

text \<open>\<open>seg h p as q\<close>: the nodes at the addresses \<open>as\<close> are chained in both directions, the first one back to
  \<open>p\<close> and the last one on to \<open>q\<close>.\<close>

definition hd_or :: "'a list \<Rightarrow> 'a option \<Rightarrow> 'a option" where
  "hd_or as q = (case as of [] \<Rightarrow> q | a # _ \<Rightarrow> Some a)"

definition last_or :: "'a list \<Rightarrow> 'a option \<Rightarrow> 'a option" where
  "last_or as p = (if as = [] then p else Some (last as))"

fun seg :: "'v dheap \<Rightarrow> addr option \<Rightarrow> addr list \<Rightarrow> 'v list \<Rightarrow> addr option \<Rightarrow> bool" where
  "seg h p [] [] q \<longleftrightarrow> True"
| "seg h p (a # as) (v # vs) q \<longleftrightarrow> h a = Some \<lparr>n_prev = p, n_next = hd_or as q, n_value = v\<rparr> \<and> seg h (Some a) as vs q"
| "seg h p _ _ q \<longleftrightarrow> False"

definition dlist_repr :: "'v dheap \<Rightarrow> 'v dlist \<Rightarrow> addr list \<Rightarrow> 'v list \<Rightarrow> bool" where
  "dlist_repr h l as vs \<longleftrightarrow> distinct as \<and> seg h None as vs None \<and> l_head l = hd_or as None \<and> l_tail l = last_or as None \<and>
     l_len l = length as \<and> length as < 2 ^ 64 - 1"


lemma hd_or_simps [simp]: "hd_or [] q = q" "hd_or (a # as) q = Some a" "hd_or (as @ bs) q = hd_or as (hd_or bs q)"
  by (simp_all add: hd_or_def split: list.split)

lemma last_or_simps [simp]: "last_or [] p = p" "last_or (as @ [a]) p = Some a" "last_or (a # as) p = last_or as (Some a)"
  "last_or (as @ bs) p = last_or bs (last_or as p)"
  by (auto simp: last_or_def)

lemma hd_or_None [simp]: "hd_or as None = None \<longleftrightarrow> as = []" "last_or as None = None \<longleftrightarrow> as = []"
  by (auto simp: hd_or_def last_or_def split: list.split)

lemma hd_or_ne: "as \<noteq> [] \<Longrightarrow> hd_or as q = Some (hd as)" "as \<noteq> [] \<Longrightarrow> last_or as q = Some (last as)"
  by (auto simp: hd_or_def last_or_def split: list.split)

lemma seg_length: "seg h p as vs q \<Longrightarrow> length as = length vs"
  by (induction h p as vs q rule: seg.induct) auto

lemma seg_append:
  "length as = length vs \<Longrightarrow> seg h p (as @ bs) (vs @ ws) q \<longleftrightarrow> seg h p as vs (hd_or bs q) \<and> seg h (last_or as p) bs ws q"
  by (induction as vs arbitrary: p rule: list_induct2) auto

lemma seg_cong: "(\<And>a. a \<in> set as \<Longrightarrow> h a = h' a) \<Longrightarrow> seg h p as vs q \<longleftrightarrow> seg h' p as vs q"
  by (induction h p as vs q rule: seg.induct) auto

lemma seg_alive: "seg h p as vs q \<Longrightarrow> a \<in> set as \<Longrightarrow> h a \<noteq> None"
  by (induction h p as vs q rule: seg.induct) auto

text \<open>Redirecting the last forward, and the first backward, pointer of a segment.\<close>

definition upd_next :: "'v dheap \<Rightarrow> addr list \<Rightarrow> addr option \<Rightarrow> 'v dheap" where
  "upd_next h xs q = (if xs = [] then h else h(last xs := map_option (\<lambda>n. n\<lparr>n_next := q\<rparr>) (h (last xs))))"

definition upd_prev :: "'v dheap \<Rightarrow> addr list \<Rightarrow> addr option \<Rightarrow> 'v dheap" where
  "upd_prev h ys p = (case ys of [] \<Rightarrow> h | y # _ \<Rightarrow> h(y := map_option (\<lambda>n. n\<lparr>n_prev := p\<rparr>) (h y)))"

lemma upd_frame [simp]:
  "a \<notin> set xs \<Longrightarrow> upd_next h xs q a = h a" "a \<notin> set ys \<Longrightarrow> upd_prev h ys p a = h a"
  "upd_next h xs q a = None \<longleftrightarrow> h a = None" "upd_prev h ys p a = None \<longleftrightarrow> h a = None"
  "upd_next h [] q = h" "upd_prev h [] p = h"
  by (auto simp: upd_next_def upd_prev_def split: list.split)

lemma seg_upd_next:
  assumes "seg h p xs us q" "distinct xs"
  shows "seg (upd_next h xs q') p xs us q'"
  using assms
proof (induction xs arbitrary: p us)
  case (Cons x xs)
  then obtain u us' where us: "us = u # us'" by (cases us) auto
  show ?case
  proof (cases "xs = []")
    case True
    then show ?thesis using Cons.prems us by (cases us') (auto simp: upd_next_def)
  next
    case False
    then have "upd_next h (x # xs) q' = upd_next h xs q'" by (simp add: upd_next_def)
    moreover have "hd_or xs q' = hd_or xs q" using False by (cases xs) auto
    ultimately show ?thesis using Cons us by simp
  qed
qed (auto elim: seg.elims)

lemma seg_upd_prev:
  assumes "seg h p ys ws q" "distinct ys"
  shows "seg (upd_prev h ys p') p' ys ws q"
proof (cases ys)
  case (Cons y ys')
  then obtain w ws' where ws: "ws = w # ws'" using assms by (cases ws) auto
  have "seg (upd_prev h ys p') (Some y) ys' ws' q \<longleftrightarrow> seg h (Some y) ys' ws' q"
    using assms(2) Cons by (intro seg_cong) (auto simp: upd_prev_def)
  with assms Cons ws show ?thesis by (auto simp: upd_prev_def)
qed (use assms in \<open>auto elim: seg.elims\<close>)

lemma set_next_eq: "xs \<noteq> [] \<Longrightarrow> h (last xs) \<noteq> None \<Longrightarrow> set_next h (last_or xs None) q = Some (upd_next h xs q)"
  by (auto simp: set_next_def last_or_def upd_next_def)

lemma set_prev_eq: "ys \<noteq> [] \<Longrightarrow> h (hd ys) \<noteq> None \<Longrightarrow> set_prev h (hd_or ys None) p = Some (upd_prev h ys p)"
  by (cases ys) (auto simp: set_prev_def upd_prev_def)

text \<open>Inserting one node between two segments, and taking one out.\<close>

definition heap_insert :: "'v dheap \<Rightarrow> addr list \<Rightarrow> addr \<Rightarrow> 'v \<Rightarrow> addr list \<Rightarrow> 'v dheap" where
  "heap_insert h xs n v ys =
     upd_prev (upd_next (h(n \<mapsto> \<lparr>n_prev = last_or xs None, n_next = hd_or ys None, n_value = v\<rparr>)) xs (Some n)) ys (Some n)"

definition heap_remove :: "'v dheap \<Rightarrow> addr list \<Rightarrow> addr \<Rightarrow> addr list \<Rightarrow> 'v dheap" where
  "heap_remove h xs n ys = (upd_prev (upd_next h xs (hd_or ys None)) ys (last_or xs None))(n := None)"

lemma seg_insert:
  assumes "seg h None (xs @ ys) (us @ ws) None" "length xs = length us" "distinct (xs @ ys)" "n \<notin> set (xs @ ys)"
  shows "seg (heap_insert h xs n v ys) None (xs @ n # ys) (us @ v # ws) None"
proof -
  let ?h1 = "h(n \<mapsto> \<lparr>n_prev = last_or xs None, n_next = hd_or ys None, n_value = v\<rparr>)"
  let ?h2 = "upd_next ?h1 xs (Some n)" and ?h3 = "heap_insert h xs n v ys"
  have s: "seg h None xs us (hd_or ys None)" "seg h (last_or xs None) ys ws None"
    using assms(1,2) by (auto simp: seg_append)
  have "seg ?h1 None xs us (hd_or ys None)" using s(1) assms(4) by (subst seg_cong [of _ _ h]) (auto simp: disjoint_iff)
  then have "seg ?h2 None xs us (Some n)" using assms(3) by (intro seg_upd_next) auto
  moreover have "seg ?h3 None xs us (Some n) \<longleftrightarrow> seg ?h2 None xs us (Some n)"
    unfolding heap_insert_def using assms(3) by (intro seg_cong) (auto simp: disjoint_iff)
  moreover have "a \<in> set ys \<Longrightarrow> a \<notin> set xs" for a using assms(3) by auto
  then have "seg ?h2 (last_or xs None) ys ws None" using s(2) assms(4) by (subst seg_cong [of _ _ h]) auto
  then have "seg ?h3 (Some n) ys ws None" unfolding heap_insert_def using assms(3) by (intro seg_upd_prev) auto
  moreover have "?h3 n = Some \<lparr>n_prev = last_or xs None, n_next = hd_or ys None, n_value = v\<rparr>"
    using assms(4) by (simp add: heap_insert_def)
  ultimately show ?thesis using assms(2) by (simp add: seg_append)
qed

lemma seg_remove:
  assumes "seg h None (xs @ n # ys) (us @ v # ws) None" "length xs = length us" "distinct (xs @ n # ys)"
  shows "seg (heap_remove h xs n ys) None (xs @ ys) (us @ ws) None"
    "h n = Some \<lparr>n_prev = last_or xs None, n_next = hd_or ys None, n_value = v\<rparr>"
proof -
  let ?h1 = "upd_next h xs (hd_or ys None)" and ?h3 = "heap_remove h xs n ys"
  have s: "seg h None xs us (Some n)" "seg h (Some n) ys ws None"
    "h n = Some \<lparr>n_prev = last_or xs None, n_next = hd_or ys None, n_value = v\<rparr>"
    using assms(1,2) by (auto simp: seg_append)
  have "seg ?h1 None xs us (hd_or ys None)" using s(1) assms(3) by (intro seg_upd_next) auto
  moreover have "seg ?h3 None xs us (hd_or ys None) \<longleftrightarrow> seg ?h1 None xs us (hd_or ys None)"
    unfolding heap_remove_def using assms(3) by (intro seg_cong) (auto simp: disjoint_iff)
  moreover have "a \<in> set ys \<Longrightarrow> a \<notin> set xs" for a using assms(3) by auto
  then have "seg ?h1 (Some n) ys ws None" using s(2) by (subst seg_cong [of _ _ h]) auto
  then have "seg (upd_prev ?h1 ys (last_or xs None)) (last_or xs None) ys ws None"
    using assms(3) by (intro seg_upd_prev) auto
  then have "seg ?h3 (last_or xs None) ys ws None"
    unfolding heap_remove_def using assms(3) by (subst seg_cong [of _ _ "upd_prev ?h1 ys (last_or xs None)"]) auto
  ultimately show "seg ?h3 None (xs @ ys) (us @ ws) None" using assms(2) by (simp add: seg_append)
  show "h n = Some \<lparr>n_prev = last_or xs None, n_next = hd_or ys None, n_value = v\<rparr>" by (rule s(3))
qed

section \<open>The operations on the representation\<close>

definition alloc_ok :: "'v dallocator \<Rightarrow> bool" where
  "alloc_ok alloc \<longleftrightarrow> (\<forall>h a. alloc h = Some a \<longrightarrow> h a = None)"

lemma len_inc_simps [simp]:
  "l_head (len_inc l) = l_head l" "l_tail (len_inc l) = l_tail l" "l_free (len_inc l) = l_free l"
  "l_dup (len_inc l) = l_dup l" "l_match (len_inc l) = l_match l"
  "l_head (len_dec l) = l_head l" "l_tail (len_dec l) = l_tail l" "l_free (len_dec l) = l_free l"
  "l_dup (len_dec l) = l_dup l" "l_match (len_dec l) = l_match l"
  by (simp_all add: len_inc_def len_dec_def)

lemma len_inc_len: "l_len l < 2 ^ 64 - 1 \<Longrightarrow> l_len (len_inc l) = l_len l + 1"
  using cast_u_int [of "l_len l + 1" 64] by (simp add: len_inc_def add.commute)

lemma len_dec_len: "0 < l_len l \<Longrightarrow> l_len l < 2 ^ 64 - 1 \<Longrightarrow> l_len (len_dec l) = l_len l - 1"
  using cast_u_int [of "l_len l - 1" 64] by (simp add: len_dec_def of_nat_diff)

lemma dlist_reprD:
  assumes "dlist_repr h l as vs"
  shows "distinct as" "seg h None as vs None" "l_head l = hd_or as None" "l_tail l = last_or as None"
    "l_len l = length as" "length as < 2 ^ 64 - 1" "length as = length vs" "\<And>a. a \<in> set as \<Longrightarrow> h a \<noteq> None"
  using assms seg_length [of h None as vs None] seg_alive [of h None as vs None] unfolding dlist_repr_def by auto

lemma insert_repr:
  assumes "dlist_repr h l (xs @ ys) (us @ ws)" "length xs = length us" "length (xs @ ys) < 2 ^ 64 - 2" "h n = None"
    and "l_head l' = hd_or (xs @ n # ys) None" "l_tail l' = last_or (xs @ n # ys) None" "l_len l' = length (xs @ ys) + 1"
  shows "dlist_repr (heap_insert h xs n v ys) l' (xs @ n # ys) (us @ v # ws)"
proof -
  note d = dlist_reprD [OF assms(1)]
  have "n \<notin> set (xs @ ys)" using d(8) assms(4) by blast
  then show ?thesis
    using seg_insert [OF d(2) assms(2) d(1)] d(1) assms(3,5,6,7) unfolding dlist_repr_def by auto
qed

lemma heap_insert_frame:
  "b \<noteq> n \<Longrightarrow> b \<notin> set (xs @ ys) \<Longrightarrow> heap_insert h xs n v ys b = h b"
  "heap_remove h xs n ys n = None" "b \<noteq> n \<Longrightarrow> b \<notin> set (xs @ ys) \<Longrightarrow> heap_remove h xs n ys b = h b"
  by (simp_all add: heap_insert_def heap_remove_def)

lemma dlistAddNodeHead_ok:
  assumes "dlist_repr h l as vs" "alloc h = Some n" "h n = None" "length as < 2 ^ 64 - 2"
  shows "\<exists>l'. dlistAddNodeHead alloc h l v = Some (heap_insert h [] n v as, l', True) \<and>
    dlist_repr (heap_insert h [] n v as) l' (n # as) (v # vs) \<and> l_free l' = l_free l \<and> l_dup l' = l_dup l \<and> l_match l' = l_match l"
proof -
  note d = dlist_reprD [OF assms(1)]
  let ?l = "len_inc (if as = [] then l\<lparr>l_head := Some n, l_tail := Some n\<rparr> else l\<lparr>l_head := Some n\<rparr>)"
  have "dlist_repr (heap_insert h [] n v as) ?l ([] @ n # as) ([] @ v # vs)"
    using assms d by (intro insert_repr [where l = l]) (auto simp: len_inc_len last_or_def)
  moreover have "dlistAddNodeHead alloc h l v = Some (heap_insert h [] n v as, ?l, True)"
    using assms(2,3) d set_prev_eq [of as "h(n \<mapsto> \<lparr>n_prev = None, n_next = hd_or as None, n_value = v\<rparr>)" "Some n"]
    by (auto simp: dlistAddNodeHead_def heap_insert_def)
  ultimately show ?thesis by auto
qed

lemma dlistAddNodeTail_ok:
  assumes "dlist_repr h l as vs" "alloc h = Some n" "h n = None" "length as < 2 ^ 64 - 2"
  shows "\<exists>l'. dlistAddNodeTail alloc h l v = Some (heap_insert h as n v [], l', True) \<and>
    dlist_repr (heap_insert h as n v []) l' (as @ [n]) (vs @ [v]) \<and> l_free l' = l_free l \<and> l_dup l' = l_dup l \<and> l_match l' = l_match l"
proof -
  note d = dlist_reprD [OF assms(1)]
  let ?l = "len_inc (if as = [] then l\<lparr>l_head := Some n, l_tail := Some n\<rparr> else l\<lparr>l_tail := Some n\<rparr>)"
  have "dlist_repr (heap_insert h as n v []) ?l (as @ n # []) (vs @ v # [])"
    using assms d by (intro insert_repr [where l = l]) (auto simp: len_inc_len hd_or_def split: list.split)
  moreover have "dlistAddNodeTail alloc h l v = Some (heap_insert h as n v [], ?l, True)"
    using assms(2,3) d set_next_eq [of as "h(n \<mapsto> \<lparr>n_prev = last_or as None, n_next = None, n_value = v\<rparr>)" "Some n"]
    by (auto simp: dlistAddNodeTail_def heap_insert_def)
  ultimately show ?thesis by auto
qed

lemma dlistInsertNode_ok:
  assumes "dlist_repr h l (xs @ ys) (us @ ws)" "length xs = length us" "alloc h = Some n" "h n = None" "length (xs @ ys) < 2 ^ 64 - 2"
    and "if after then xs \<noteq> [] \<and> old = last xs else ys \<noteq> [] \<and> old = hd ys"
  shows "\<exists>l'. dlistInsertNode alloc h l old v after = Some (heap_insert h xs n v ys, l', True) \<and>
    dlist_repr (heap_insert h xs n v ys) l' (xs @ n # ys) (us @ v # ws) \<and> l_free l' = l_free l \<and> l_dup l' = l_dup l \<and> l_match l' = l_match l"
proof -
  note d = dlist_reprD [OF assms(1)]
  let ?p = "last_or xs None" and ?q = "hd_or ys None"
  let ?h1 = "h(n \<mapsto> \<lparr>n_prev = ?p, n_next = ?q, n_value = v\<rparr>)"
  let ?l = "len_inc (if after then if ys = [] then l\<lparr>l_tail := Some n\<rparr> else l else if xs = [] then l\<lparr>l_head := Some n\<rparr> else l)"
  have s: "seg h None xs us ?q" "seg h ?p ys ws None" using d(2) assms(2) by (auto simp: seg_append)
  have "dlist_repr (heap_insert h xs n v ys) ?l (xs @ n # ys) (us @ v # ws)"
    using assms d by (intro insert_repr [where l = l]) (auto simp: len_inc_len hd_or_ne split: if_splits)
  moreover have alive: "xs \<noteq> [] \<Longrightarrow> ?h1 (last xs) \<noteq> None" "ys \<noteq> [] \<Longrightarrow> upd_next ?h1 xs (Some n) (hd ys) \<noteq> None"
    using d(8) [of "last xs"] d(8) [of "hd ys"] by auto
  have old: "\<exists>o'. h old = Some o' \<and> (if after then n_next o' = ?q else n_prev o' = ?p)"
  proof (cases after)
    case True
    then obtain xs' us' u where "xs = xs' @ [old]" "us = us' @ [u]" "length xs' = length us'"
      using assms(2,6) by (cases xs rule: rev_cases; cases us rule: rev_cases) auto
    with s(1) True show ?thesis by (simp add: seg_append)
  next
    case False
    then obtain ys' where "ys = old # ys'" using assms(6) by (cases ys) auto
    with s(2) False show ?thesis by (cases ws) auto
  qed
  have dis: "ys \<noteq> [] \<Longrightarrow> xs \<noteq> [] \<Longrightarrow> last xs \<noteq> last ys \<and> hd xs \<noteq> hd ys"
    using d(1) by (auto dest!: arg_cong [where f = "\<lambda>x. x \<in> set ys"] simp: disjoint_iff)
  have "dlistInsertNode alloc h l old v after = Some (heap_insert h xs n v ys, ?l, True)"
    using old alive dis assms(3,6) d(3,4) set_next_eq [of xs ?h1 "Some n"] set_prev_eq [of ys "upd_next ?h1 xs (Some n)" "Some n"]
    by (cases after; cases "xs = []"; cases "ys = []") (auto simp: dlistInsertNode_def heap_insert_def hd_or_ne)
  ultimately show ?thesis by auto
qed

lemma dlistDelNode_ok:
  assumes "dlist_repr h l (xs @ n # ys) (us @ v # ws)" "length xs = length us"
  shows "\<exists>l'. dlistDelNode h l n = Some (heap_remove h xs n ys, l', if l_free l then [v] else []) \<and>
    dlist_repr (heap_remove h xs n ys) l' (xs @ ys) (us @ ws) \<and> l_free l' = l_free l \<and> l_dup l' = l_dup l \<and> l_match l' = l_match l"
proof -
  note d = dlist_reprD [OF assms(1)]
  note r = seg_remove [OF d(2) assms(2) d(1)]
  let ?p = "last_or xs None" and ?q = "hd_or ys None"
  let ?l1 = "if xs = [] then l\<lparr>l_head := ?q\<rparr> else l"
  let ?l = "len_dec (if ys = [] then ?l1\<lparr>l_tail := ?p\<rparr> else ?l1)"
  have alive: "xs \<noteq> [] \<Longrightarrow> h (last xs) \<noteq> None" "ys \<noteq> [] \<Longrightarrow> upd_next h xs ?q (hd ys) \<noteq> None"
    using d(8) [of "last xs"] d(8) [of "hd ys"] by auto
  have "dlistDelNode h l n = Some (heap_remove h xs n ys, ?l, if l_free l then [v] else [])"
    using r(2) alive set_next_eq [of xs h ?q] set_prev_eq [of ys "upd_next h xs ?q" ?p]
    by (auto simp: dlistDelNode_def heap_remove_def)
  moreover have "dlist_repr (heap_remove h xs n ys) ?l (xs @ ys) (us @ ws)"
    using r(1) d(1,3-6) by (auto simp: dlist_repr_def len_dec_len hd_or_ne)
  ultimately show ?thesis by auto
qed

lemma dlistIndex_loop_None [simp]: "dlistIndex_loop back h None k = Some None"
  by (cases k) auto

lemma dlistIndex_forward:
  "seg h p as vs None \<Longrightarrow> dlistIndex_loop False h (hd_or as None) k = Some (if k < length as then Some (as ! k) else None)"
proof (induction as arbitrary: p vs k)
  case Nil
  then show ?case by (cases k) auto
next
  case (Cons a as)
  then obtain v vs' where "vs = v # vs'" by (cases vs) auto
  with Cons show ?case by (cases k) auto
qed

lemma dlistIndex_backward:
  "seg h None as vs q \<Longrightarrow> dlistIndex_loop True h (last_or as None) k =
     Some (if k < length as then Some (as ! (length as - 1 - k)) else None)"
proof (induction as arbitrary: vs q k rule: rev_induct)
  case Nil
  then show ?case by (cases k) auto
next
  case (snoc a as)
  then obtain vs' v where "vs = vs' @ [v]" "length as = length vs'"
    using seg_length by (cases vs rule: rev_cases) fastforce+
  with snoc show ?case by (cases k) (auto simp: seg_append nth_append)
qed

lemma dlistIndex_ok:
  assumes "dlist_repr h l as vs"
  shows "dlistIndex h l i = Some (if 0 \<le> i \<and> i < int (length as) then Some (as ! nat i)
    else if - int (length as) \<le> i \<and> i < 0 then Some (as ! nat (int (length as) + i)) else None)"
proof -
  note d = dlist_reprD [OF assms]
  have "length as - 1 - nat (- i - 1) = nat (int (length as) + i)" if "- int (length as) \<le> i" "i < 0" using that by linarith
  then show ?thesis
    using dlistIndex_forward [OF d(2), of "nat i"] dlistIndex_backward [OF d(2), of "nat (- i - 1)"] d(3,4)
    by (auto simp: dlistIndex_def)
qed

lemma set_node:
  "h a = Some n \<Longrightarrow> set_prev h (Some a) q = Some (h(a \<mapsto> n\<lparr>n_prev := q\<rparr>))"
  "h a = Some n \<Longrightarrow> set_next h (Some a) q = Some (h(a \<mapsto> n\<lparr>n_next := q\<rparr>))"
  by (simp_all add: set_prev_def set_next_def)

lemma dlistRotate_ok:
  assumes "dlist_repr h l as vs"
  shows "\<exists>h' l'. dlistRotate h l = Some (h', l') \<and> dlist_repr h' l' (rotate (length as - 1) as) (rotate (length vs - 1) vs) \<and>
    (\<forall>b. b \<notin> set as \<longrightarrow> h' b = h b) \<and> l_free l' = l_free l \<and> l_dup l' = l_dup l \<and> l_match l' = l_match l"
proof (cases "length as \<le> 1")
  case True
  note d = dlist_reprD [OF assms]
  with True assms show ?thesis by (simp add: dlistRotate_def)
next
  case False
  note d = dlist_reprD [OF assms]
  obtain bs t where as: "as = bs @ [t]" "bs \<noteq> []" using False by (cases as rule: rev_cases) auto
  obtain us v where vs: "vs = us @ [v]" "length bs = length us" using d(7) as by (cases vs rule: rev_cases) auto
  have "dlist_repr h l (bs @ t # []) (us @ v # [])" using assms as vs by simp
  note r = seg_remove [OF dlist_reprD(2) [OF this] vs(2) dlist_reprD(1) [OF this]]
  let ?h1 = "upd_next h bs None" and ?h0 = "heap_remove h bs t []"
  let ?h = "heap_insert ?h0 [] t v bs" and ?l = "l\<lparr>l_tail := last_or bs None, l_head := Some t\<rparr>"
  have t: "t \<notin> set bs" "distinct bs" using d(1) as by auto
  have hl: "l_head l = hd_or bs None" using d(3) as by (simp add: hd_or_ne)
  have "seg ?h None ([] @ t # bs) ([] @ v # us) None"
    using r(1) t by (intro seg_insert) auto
  then have "dlist_repr ?h ?l (t # bs) (v # us)"
    using d(5,6) as t by (auto simp: dlist_repr_def hd_or_ne)
  moreover have "?h = (upd_prev ?h1 bs (Some t))(t \<mapsto> \<lparr>n_prev = None, n_next = hd_or bs None, n_value = v\<rparr>)"
    using t as(2) by (auto simp: heap_insert_def heap_remove_def upd_prev_def split: list.split)
  moreover have "h (last bs) \<noteq> None" "?h1 (hd bs) \<noteq> None" using d(8) [of "last bs"] d(8) [of "hd bs"] as by auto
  then have "dlistRotate h l = Some ((upd_prev ?h1 bs (Some t))(t \<mapsto> \<lparr>n_prev = None, n_next = hd_or bs None, n_value = v\<rparr>), ?l)"
    using False d(4,5) hl as r(2) t set_next_eq [of bs h None] set_prev_eq [of bs ?h1 "Some t"]
    by (simp add: dlistRotate_def set_node Let_def)
  moreover have "rotate (length as - 1) as = t # bs" "rotate (length vs - 1) vs = v # us"
    using as vs rotate_append [of bs "[t]"] rotate_append [of us "[v]"] by simp_all
  ultimately show ?thesis using as by (auto simp: heap_insert_frame)
qed

lemma dlistRelease_ok:
  "distinct as \<Longrightarrow> seg h p as vs None \<Longrightarrow>
   dlistRelease_loop h l (hd_or as None) (length as) = Some (\<lambda>b. if b \<in> set as then None else h b, if l_free l then vs else [])"
proof (induction as arbitrary: h p vs)
  case (Cons a as)
  then obtain v vs' where vs: "vs = v # vs'" by (cases vs) auto
  have "seg (h(a := None)) (Some a) as vs' None" using Cons.prems vs by (subst seg_cong [of _ _ h]) auto
  moreover have "(\<lambda>b. if b \<in> set as then None else (h(a := None)) b) = (\<lambda>b. if b \<in> set (a # as) then None else h b)" by auto
  ultimately have "dlistRelease_loop (h(a := None)) l (hd_or as None) (length as) =
      Some (\<lambda>b. if b \<in> set (a # as) then None else h b, if l_free l then vs' else [])"
    using Cons.IH [of "h(a := None)" "Some a" vs'] Cons.prems(1) by (simp only: distinct.simps)
  then show ?case using Cons.prems vs by (simp del: fun_upd_apply)
qed (auto elim: seg.elims)

lemma dlistSearch_ok:
  "seg h p as vs None \<Longrightarrow>
   dlistSearch_loop h l key \<lparr>i_next = hd_or as None, i_direction = AL_START_HEAD\<rparr> =
     Some (map_option fst (find (\<lambda>(a, v). case l_match l of Some match \<Rightarrow> match v key | None \<Rightarrow> key = v) (zip as vs)))"
proof (induction as arbitrary: p vs)
  case Nil
  then show ?case by (subst dlistSearch_loop.simps) (simp add: dlistNext_def)
next
  case (Cons a as)
  then obtain v vs' where vs: "vs = v # vs'" by (cases vs) auto
  with Cons.prems Cons.IH [of "Some a" vs'] show ?case by (subst dlistSearch_loop.simps) (cases "l_match l"; simp add: dlistNext_def)
qed

lemma dlistAddNodeTail_fails: "alloc h = None \<Longrightarrow> dlistAddNodeTail alloc h l v = Some (h, l, False)"
  by (simp add: dlistAddNodeTail_def)

lemma dlistRelease_repr:
  "dlist_repr h l as vs \<Longrightarrow> dlistRelease h l = Some (\<lambda>b. if b \<in> set as then None else h b, if l_free l then vs else [])"
  using dlistRelease_ok [of as h None vs l] dlist_reprD [of h l as vs] by (simp add: dlistRelease_def)

definition dup_value :: "'v dlist \<Rightarrow> 'v \<Rightarrow> 'v option" where
  "dup_value l v = (case l_dup l of Some dup \<Rightarrow> dup v | None \<Rightarrow> Some v)"

lemma dlistDup_loop_ok:
  assumes "alloc_ok alloc"
  shows "seg h p as vs None \<Longrightarrow> dlist_repr h copy cs us \<Longrightarrow> set cs \<inter> set as = {} \<Longrightarrow> length cs + length as < 2 ^ 64 - 2 \<Longrightarrow>
    \<exists>h' res freed. dlistDup_loop alloc h copy \<lparr>i_next = hd_or as None, i_direction = AL_START_HEAD\<rparr> = Some (h', res, freed) \<and>
      (case res of
         None \<Rightarrow> \<forall>b. h' b = (if b \<in> set cs then None else h b)
       | Some copy' \<Rightarrow> \<exists>cs' ws. those (map (dup_value copy) vs) = Some ws \<and> dlist_repr h' copy' (cs @ cs') (us @ ws) \<and>
           (\<forall>c \<in> set cs'. h c = None) \<and> (\<forall>b. b \<notin> set (cs @ cs') \<longrightarrow> h' b = h b))"
proof (induction as arbitrary: h p vs copy cs us)
  case Nil
  then have "vs = []" by (auto elim: seg.elims)
  with Nil show ?case
    by (subst dlistDup_loop.simps) (auto simp: dlistNext_def intro!: exI [of _ "[]"])
next
  case (Cons a as)
  then obtain v vs' where vs: "vs = v # vs'" by (cases vs) auto
  let ?it = "\<lambda>as. \<lparr>i_next = hd_or as None, i_direction = AL_START_HEAD\<rparr>"
  have a: "h a = Some \<lparr>n_prev = p, n_next = hd_or as None, n_value = v\<rparr>" "seg h (Some a) as vs' None"
    using Cons.prems(1) vs by auto
  have loop: "dlistDup_loop alloc h copy (?it (a # as)) =
      (case dup_value copy v of
         None \<Rightarrow> do { (h1, freed) \<leftarrow> dlistRelease h copy; Some (h1, None, freed) }
       | Some w \<Rightarrow> do {
           (h1, copy1, ok) \<leftarrow> dlistAddNodeTail alloc h copy w;
           if ok then dlistDup_loop alloc h1 copy1 (?it as)
           else do { (h2, freed) \<leftarrow> dlistRelease h1 copy1; Some (h2, None, freed) }
         })"
    using a(1) by (subst dlistDup_loop.simps) (cases "l_dup copy"; simp add: dlistNext_def dup_value_def)
  note rel = dlistRelease_repr [OF Cons.prems(2)]
  show ?case
  proof (cases "dup_value copy v")
    case None
    then show ?thesis unfolding loop by (simp add: rel)
  next
    case dv: (Some w)
    show ?thesis
    proof (cases "alloc h")
      case None
      then show ?thesis unfolding loop by (simp add: dv rel dlistAddNodeTail_fails)
    next
      case (Some n)
      have n: "h n = None" using assms Some by (auto simp: alloc_ok_def)
      let ?h1 = "heap_insert h cs n w []"
      obtain copy1 where c1: "dlistAddNodeTail alloc h copy w = Some (?h1, copy1, True)"
        "dlist_repr ?h1 copy1 (cs @ [n]) (us @ [w])" "l_dup copy1 = l_dup copy"
        using dlistAddNodeTail_ok [where alloc = alloc, OF Cons.prems(2) Some n] Cons.prems(4) by auto
      have na: "n \<notin> set (a # as)" using seg_alive [OF Cons.prems(1)] n by blast
      have eq: "?h1 b = h b" if "b \<notin> set (cs @ [n])" for b using that by (simp add: heap_insert_frame)
      have "x \<notin> set (cs @ [n])" if "x \<in> set as" for x using that na Cons.prems(3) by auto
      then have "seg ?h1 (Some a) as vs' None"
        using a(2) eq by (subst seg_cong [of _ _ h]) auto
      from Cons.IH [OF this c1(2)] na Cons.prems(3,4)
      obtain h' res freed where ih: "dlistDup_loop alloc ?h1 copy1 (?it as) = Some (h', res, freed)"
        "case res of
         None \<Rightarrow> \<forall>b. h' b = (if b \<in> set (cs @ [n]) then None else ?h1 b)
       | Some copy' \<Rightarrow> \<exists>cs' ws. those (map (dup_value copy1) vs') = Some ws \<and> dlist_repr h' copy' ((cs @ [n]) @ cs') ((us @ [w]) @ ws) \<and>
           (\<forall>c \<in> set cs'. ?h1 c = None) \<and> (\<forall>b. b \<notin> set ((cs @ [n]) @ cs') \<longrightarrow> h' b = ?h1 b)" by auto
      have d: "dup_value copy1 = dup_value copy" using c1(3) by (simp add: dup_value_def fun_eq_iff)
      have r: "dlistDup_loop alloc h copy (?it (a # as)) = Some (h', res, freed)"
        unfolding loop by (simp add: dv c1(1) ih(1))
      show ?thesis
      proof (cases res)
        case None
        then have "\<forall>b. h' b = (if b \<in> set cs then None else h b)" using ih(2) eq n by auto
        with None r show ?thesis by simp
      next
        case (Some copy')
        then obtain cs' ws where cw: "those (map (dup_value copy1) vs') = Some ws" "dlist_repr h' copy' ((cs @ [n]) @ cs') ((us @ [w]) @ ws)"
          "\<forall>c \<in> set cs'. ?h1 c = None" "\<forall>b. b \<notin> set ((cs @ [n]) @ cs') \<longrightarrow> h' b = ?h1 b"
          using ih(2) by auto
        have "c \<notin> set (cs @ [n])" if "c \<in> set cs'" for c using dlist_reprD(1) [OF cw(2)] that by auto
        then have "\<forall>c \<in> set (n # cs'). h c = None" using cw(3) eq n by auto
        moreover have "\<forall>b. b \<notin> set (cs @ n # cs') \<longrightarrow> h' b = h b" using cw(4) eq by auto
        ultimately show ?thesis using r Some cw(1,2) vs dv d
          by (auto intro!: exI [of _ "n # cs'"] exI [of _ "w # ws"])
      qed
    qed
  qed
qed

section \<open>Histories of list operations\<close>

text \<open>A client that works by positions: it finds the node with \<open>dlistIndex\<close> and inserts next to it or deletes it. The
  flag is false when the allocation fails or there is no such node.\<close>

datatype 'v dlist_op = Add_head 'v | Add_tail 'v | Insert_at int 'v bool | Delete_at int | Rotate_op

fun dlist_step :: "'v dallocator \<Rightarrow> 'v dheap \<times> 'v dlist \<Rightarrow> 'v dlist_op \<Rightarrow> (('v dheap \<times> 'v dlist) \<times> bool) option" where
  "dlist_step alloc (h, l) (Add_head v) = do { (h1, l1, ok) \<leftarrow> dlistAddNodeHead alloc h l v; Some ((h1, l1), ok) }"
| "dlist_step alloc (h, l) (Add_tail v) = do { (h1, l1, ok) \<leftarrow> dlistAddNodeTail alloc h l v; Some ((h1, l1), ok) }"
| "dlist_step alloc (h, l) (Insert_at i v after) = do {
     n \<leftarrow> dlistIndex h l i;
     case n of
       None \<Rightarrow> Some ((h, l), False)
     | Some a \<Rightarrow> do { (h1, l1, ok) \<leftarrow> dlistInsertNode alloc h l a v after; Some ((h1, l1), ok) }
   }"
| "dlist_step alloc (h, l) (Delete_at i) = do {
     n \<leftarrow> dlistIndex h l i;
     case n of
       None \<Rightarrow> Some ((h, l), False)
     | Some a \<Rightarrow> do { (h1, l1, freed) \<leftarrow> dlistDelNode h l a; Some ((h1, l1), True) }
   }"
| "dlist_step alloc (h, l) Rotate_op = do { s \<leftarrow> dlistRotate h l; Some (s, True) }"

fun dlist_run :: "'v dallocator \<Rightarrow> 'v dheap \<times> 'v dlist \<Rightarrow> 'v dlist_op list \<Rightarrow> (('v dheap \<times> 'v dlist) \<times> bool list) option" where
  "dlist_run alloc s [] = Some (s, [])"
| "dlist_run alloc s (op # ops) = do {
     (s1, ok) \<leftarrow> dlist_step alloc s op;
     (s2, oks) \<leftarrow> dlist_run alloc s1 ops;
     Some (s2, ok # oks)
   }"

definition list_pos :: "int \<Rightarrow> 'v list \<Rightarrow> nat option" where
  "list_pos i vs = (if 0 \<le> i \<and> i < int (length vs) then Some (nat i)
     else if - int (length vs) \<le> i \<and> i < 0 then Some (nat (int (length vs) + i)) else None)"

fun list_step :: "'v list \<Rightarrow> 'v dlist_op \<Rightarrow> 'v list" where
  "list_step vs (Add_head v) = v # vs"
| "list_step vs (Add_tail v) = vs @ [v]"
| "list_step vs (Insert_at i v after) =
     (case list_pos i vs of None \<Rightarrow> vs | Some k \<Rightarrow> let j = (if after then k + 1 else k) in take j vs @ v # drop j vs)"
| "list_step vs (Delete_at i) = (case list_pos i vs of None \<Rightarrow> vs | Some k \<Rightarrow> take k vs @ drop (k + 1) vs)"
| "list_step vs Rotate_op = rotate (length vs - 1) vs"

fun list_run :: "'v list \<Rightarrow> 'v dlist_op list \<Rightarrow> bool list \<Rightarrow> 'v list" where
  "list_run vs (op # ops) (ok # oks) = list_run (if ok then list_step vs op else vs) ops oks"
| "list_run vs _ _ = vs"

text \<open>The step invariant: a representation, and nothing else in the heap changed or left behind.\<close>

definition dlist_moves :: "'v dheap \<times> 'v dlist \<Rightarrow> addr list \<Rightarrow> 'v dheap \<times> 'v dlist \<Rightarrow> addr list \<Rightarrow> bool" where
  "dlist_moves s as s' as' \<longleftrightarrow> (\<forall>b. b \<notin> set as \<and> b \<notin> set as' \<longrightarrow> fst s' b = fst s b) \<and>
     (\<forall>b \<in> set as' - set as. fst s b = None) \<and> (\<forall>b \<in> set as - set as'. fst s' b = None)"

lemma dlist_moves_refl: "dlist_moves s as s as"
  by (auto simp: dlist_moves_def)

lemma dlist_moves_trans: "dlist_moves s as s1 bs \<Longrightarrow> dlist_moves s1 bs s2 cs \<Longrightarrow> dlist_moves s as s2 cs"
  unfolding dlist_moves_def by (smt (verit, ccfv_threshold) DiffI DiffE)

lemma dlist_moves_insert: "h n = None \<Longrightarrow> dlist_moves (h, l) (xs @ ys) (heap_insert h xs n v ys, l') (xs @ n # ys)"
  by (auto simp: dlist_moves_def heap_insert_frame)

lemma dlist_moves_remove: "dlist_moves (h, l) (xs @ n # ys) (heap_remove h xs n ys, l') (xs @ ys)"
  by (auto simp: dlist_moves_def heap_insert_frame)

lemma list_pos_lt: "list_pos i vs = Some k \<Longrightarrow> k < length vs"
  by (auto simp: list_pos_def split: if_splits)

lemma dlistIndex_pos: "dlist_repr h l as vs \<Longrightarrow> dlistIndex h l i = Some (map_option ((!) as) (list_pos i vs))"
  using dlistIndex_ok [of h l as vs i] dlist_reprD(7) [of h l as vs] by (auto simp: list_pos_def)

lemma dlist_step_ok:
  assumes "alloc_ok alloc" "dlist_repr h l as vs" "length as < 2 ^ 64 - 2"
  shows "\<exists>h' l' ok as'. dlist_step alloc (h, l) op = Some ((h', l'), ok) \<and>
    dlist_repr h' l' as' (if ok then list_step vs op else vs) \<and> dlist_moves (h, l) as (h', l') as' \<and> length as' \<le> length as + 1 \<and>
    (\<not> ok \<longrightarrow> alloc h = None \<or> (\<exists>i. list_pos i vs = None))"
proof -
  note d = dlist_reprD [OF assms(2)]
  have same: ?thesis if "dlist_step alloc (h, l) op = Some ((h, l), False)" "alloc h = None \<or> (\<exists>i. list_pos i vs = None)"
    using that assms(2) dlist_moves_refl by (intro exI [of _ h] exI [of _ l] exI [of _ False] exI [of _ as]) auto
  have split: "as = take k as @ as ! k # drop (Suc k) as" "vs = take k vs @ vs ! k # drop (Suc k) vs"
    "length (take k as) = length (take k vs)" if "k < length vs" for k
    using that d(7) by (simp_all add: id_take_nth_drop [symmetric])
  have al: "h n = None" if "alloc h = Some n" for n using that assms(1) by (auto simp: alloc_ok_def)
  show ?thesis
  proof (cases op)
    case (Add_head v)
    show ?thesis
    proof (cases "alloc h")
      case None
      then show ?thesis using Add_head by (intro same) (auto simp: dlistAddNodeHead_def)
    next
      case (Some n)
      then show ?thesis
        using dlistAddNodeHead_ok [where alloc = alloc, OF assms(2) Some al [OF Some] assms(3), of v] Add_head
          dlist_moves_insert [where h = h and n = n, OF al [OF Some], of l "[]" as v] by fastforce
    qed
  next
    case (Add_tail v)
    show ?thesis
    proof (cases "alloc h")
      case None
      then show ?thesis using Add_tail by (intro same) (auto simp: dlistAddNodeTail_def)
    next
      case (Some n)
      then show ?thesis
        using dlistAddNodeTail_ok [where alloc = alloc, OF assms(2) Some al [OF Some] assms(3), of v] Add_tail
          dlist_moves_insert [where h = h and n = n, OF al [OF Some], of l as "[]" v] by fastforce
    qed
  next
    case (Insert_at i v after)
    show ?thesis
    proof (cases "list_pos i vs")
      case None
      then show ?thesis using Insert_at dlistIndex_pos [OF assms(2)] by (intro same) auto
    next
      case (Some k)
      have k: "k < length vs" "k < length as" using list_pos_lt [OF Some] d(7) by auto
      show ?thesis
      proof (cases "alloc h")
        case None
        then show ?thesis using Insert_at Some dlistIndex_pos [OF assms(2)] by (intro same) (auto simp: dlistInsertNode_def)
      next
        case (Some n)
        let ?j = "if after then k + 1 else k"
        let ?xs = "take ?j as" and ?ys = "drop ?j as"
        have r: "dlist_repr h l (?xs @ ?ys) (take ?j vs @ drop ?j vs)" using assms(2) by simp
        have c: "if after then ?xs \<noteq> [] \<and> as ! k = last ?xs else ?ys \<noteq> [] \<and> as ! k = hd ?ys"
          using k by (auto simp: take_Suc_conv_app_nth hd_drop_conv_nth)
        have len: "length ?xs = length (take ?j vs)" "length (?xs @ ?ys) < 2 ^ 64 - 2" using d(7) assms(3) by auto
        obtain l' where "dlistInsertNode alloc h l (as ! k) v after = Some (heap_insert h ?xs n v ?ys, l', True)"
          "dlist_repr (heap_insert h ?xs n v ?ys) l' (?xs @ n # ?ys) (take ?j vs @ v # drop ?j vs)"
          using dlistInsertNode_ok [where alloc = alloc, OF r len(1) Some al [OF Some] len(2) c] by blast
        then show ?thesis
          using Insert_at \<open>list_pos i vs = Some k\<close> dlistIndex_pos [OF assms(2), of i] dlist_moves_insert [where h = h and n = n, OF al [OF Some], of l ?xs ?ys v l']
          by (intro exI [of _ "heap_insert h ?xs n v ?ys"] exI [of _ l'] exI [of _ True] exI [of _ "?xs @ n # ?ys"]) (simp add: Let_def)
      qed
    qed
  next
    case (Delete_at i)
    show ?thesis
    proof (cases "list_pos i vs")
      case None
      then show ?thesis using Delete_at dlistIndex_pos [OF assms(2)] by (intro same) auto
    next
      case (Some k)
      have k: "k < length vs" using list_pos_lt [OF Some] .
      let ?xs = "take k as" and ?ys = "drop (Suc k) as"
      have r: "dlist_repr h l (?xs @ as ! k # ?ys) (take k vs @ vs ! k # drop (Suc k) vs)"
        using assms(2) split [OF k] by metis
      obtain l' where "dlistDelNode h l (as ! k) = Some (heap_remove h ?xs (as ! k) ?ys, l', if l_free l then [vs ! k] else [])"
        "dlist_repr (heap_remove h ?xs (as ! k) ?ys) l' (?xs @ ?ys) (take k vs @ drop (Suc k) vs)"
        using dlistDelNode_ok [OF r split(3) [OF k]] by blast
      moreover have "dlist_moves (h, l) as (heap_remove h ?xs (as ! k) ?ys, l') (?xs @ ?ys)"
        using dlist_moves_remove [of h l ?xs "as ! k" ?ys l'] split(1) [OF k] by simp
      ultimately show ?thesis
        using Delete_at Some dlistIndex_pos [OF assms(2), of i]
        by (intro exI [of _ "heap_remove h ?xs (as ! k) ?ys"] exI [of _ l'] exI [of _ True] exI [of _ "?xs @ ?ys"]) simp
    qed
  next
    case Rotate_op
    obtain h' l' where "dlistRotate h l = Some (h', l')" "dlist_repr h' l' (rotate (length as - 1) as) (rotate (length vs - 1) vs)"
      "\<forall>b. b \<notin> set as \<longrightarrow> h' b = h b"
      using dlistRotate_ok [OF assms(2)] by blast
    then show ?thesis using Rotate_op
      by (intro exI [of _ h'] exI [of _ l'] exI [of _ True] exI [of _ "rotate (length as - 1) as"]) (auto simp: dlist_moves_def)
  qed
qed

section \<open>Properties of the lists\<close>

lemma dlist_run_ok:
  assumes "alloc_ok alloc"
  shows "dlist_repr h l as vs \<Longrightarrow> length as + length ops < 2 ^ 64 - 2 \<Longrightarrow>
    \<exists>h' l' oks as'. dlist_run alloc (h, l) ops = Some ((h', l'), oks) \<and> dlist_repr h' l' as' (list_run vs ops oks) \<and>
      dlist_moves (h, l) as (h', l') as'"
proof (induction ops arbitrary: h l as vs)
  case Nil
  then show ?case using dlist_moves_refl by fastforce
next
  case (Cons op ops)
  obtain h1 l1 ok as1 where s: "dlist_step alloc (h, l) op = Some ((h1, l1), ok)"
    "dlist_repr h1 l1 as1 (if ok then list_step vs op else vs)" "dlist_moves (h, l) as (h1, l1) as1" "length as1 \<le> length as + 1"
    using dlist_step_ok [OF assms Cons.prems(1), of op] Cons.prems(2) by fastforce
  moreover obtain h' l' oks as' where "dlist_run alloc (h1, l1) ops = Some ((h', l'), oks)"
    "dlist_repr h' l' as' (list_run (if ok then list_step vs op else vs) ops oks)" "dlist_moves (h1, l1) as1 (h', l') as'"
    using Cons.IH [OF s(2)] s(4) Cons.prems(2) by fastforce
  ultimately show ?case using dlist_moves_trans by (intro exI [of _ h'] exI [of _ l'] exI [of _ "ok # oks"] exI [of _ as']) auto
qed

definition alloc_ex :: "nat dallocator" where
  "alloc_ex h = (if h 1 = None then Some 1 else if h 2 = None then Some 2 else if h 3 = None then Some 3 else None)"

lemma alloc_ex_ok: "alloc_ok alloc_ex"
  by (simp add: alloc_ok_def alloc_ex_def)

lemma dlistCreate_repr: "dlist_repr h (dlistCreate :: 'v dlist) [] []"
  by (simp add: dlist_repr_def dlistCreate_def)



text \<open>\<open>dlistDup\<close> returns. Either it gives a copy whose values are the duplicates of the original's, in the same order,
  in nodes that were free before, and leaves the original as it was; or, when the duplication of a value or an
  allocation fails, it gives no list and frees everything it has allocated, so that the heap is the same as
  before.\<close>

theorem dlistDup_copies:
  assumes "alloc_ok alloc" "dlist_repr h l as vs" "length as < 2 ^ 64 - 2"
  shows "\<exists>h' res freed. dlistDup alloc created h l = Some (h', res, freed) \<and>
    (case res of
       None \<Rightarrow> h' = h
     | Some copy \<Rightarrow> \<exists>cs ws. those (map (dup_value l) vs) = Some ws \<and> dlist_repr h' copy cs ws \<and> dlist_repr h' l as vs \<and>
         (\<forall>c \<in> set cs. h c = None))"
proof (cases created)
  case False
  then show ?thesis by (simp add: dlistDup_def)
next
  case True
  note d = dlist_reprD [OF assms(2)]
  let ?c = "dlistCreate\<lparr>l_dup := l_dup l, l_free := l_free l, l_match := l_match l\<rparr>"
  have "dlist_repr h ?c [] []" by (simp add: dlist_repr_def dlistCreate_def)
  from dlistDup_loop_ok [OF assms(1) d(2) this] assms(3)
  have "\<exists>h' res freed. dlistDup_loop alloc h ?c \<lparr>i_next = hd_or as None, i_direction = AL_START_HEAD\<rparr> = Some (h', res, freed) \<and>
    (case res of None \<Rightarrow> \<forall>b. h' b = h b
     | Some copy' \<Rightarrow> \<exists>cs' ws. those (map (dup_value ?c) vs) = Some ws \<and> dlist_repr h' copy' cs' ws \<and>
           (\<forall>c \<in> set cs'. h c = None) \<and> (\<forall>b. b \<notin> set cs' \<longrightarrow> h' b = h b))"
    by (simp cong: option.case_cong)
  then obtain h' res freed where r: "dlistDup_loop alloc h ?c \<lparr>i_next = hd_or as None, i_direction = AL_START_HEAD\<rparr> = Some (h', res, freed)"
    "case res of None \<Rightarrow> \<forall>b. h' b = h b
     | Some copy' \<Rightarrow> \<exists>cs' ws. those (map (dup_value ?c) vs) = Some ws \<and> dlist_repr h' copy' cs' ws \<and>
           (\<forall>c \<in> set cs'. h c = None) \<and> (\<forall>b. b \<notin> set cs' \<longrightarrow> h' b = h b)" by blast
  have dv: "dup_value ?c = dup_value l" by (simp add: dup_value_def fun_eq_iff)
  have eq: "dlistDup alloc created h l = Some (h', res, freed)"
    using True r(1) d(3) by (simp add: dlistDup_def dlistRewind_def)
  show ?thesis
  proof (cases res)
    case None
    with r(2) eq show ?thesis by (auto simp: fun_eq_iff)
  next
    case (Some copy)
    then obtain cs ws where c: "those (map (dup_value l) vs) = Some ws" "dlist_repr h' copy cs ws"
      "\<forall>c \<in> set cs. h c = None" "\<forall>b. b \<notin> set cs \<longrightarrow> h' b = h b" using r(2) dv by auto
    have "x \<notin> set cs" if "x \<in> set as" for x using c(3) d(8) [OF that] by auto
    then have "seg h' None as vs None" using d(2) c(4) by (subst seg_cong [of _ _ h]) auto
    then have "dlist_repr h' l as vs" using assms(2) by (simp add: dlist_repr_def)
    with c Some eq show ?thesis by auto
  qed
qed

definition dheap_ex :: "nat dheap" where
  "dheap_ex = [1 \<mapsto> \<lparr>n_prev = None, n_next = Some 2, n_value = 7\<rparr>, 2 \<mapsto> \<lparr>n_prev = Some 1, n_next = None, n_value = 8\<rparr>]"

definition dlist_ex :: "nat dlist" where
  "dlist_ex = \<lparr>l_head = Some 1, l_tail = Some 2, l_dup = Some (\<lambda>v. Some (v + 1)), l_free = False, l_match = None, l_len = 2\<rparr>"

lemma dlist_ex_repr: "dlist_repr dheap_ex dlist_ex [1, 2] [7, 8]"
  by (simp add: dlist_repr_def dheap_ex_def dlist_ex_def)

theorem dlistDup_copies_witness:
  "\<exists>h' res freed. dlistDup alloc_ex True dheap_ex dlist_ex = Some (h', res, freed) \<and>
    (case res of
       None \<Rightarrow> h' = dheap_ex
     | Some copy \<Rightarrow> \<exists>cs ws. those (map (dup_value dlist_ex) [7, 8]) = Some ws \<and> dlist_repr h' copy cs ws \<and>
         dlist_repr h' dlist_ex [1, 2] [7, 8] \<and> (\<forall>c \<in> set cs. dheap_ex c = None))"
  by (rule dlistDup_copies [OF alloc_ex_ok dlist_ex_repr]) simp

text \<open>An iterator visits the nodes in order, from either end.\<close>

fun dlist_iterate :: "nat \<Rightarrow> 'v dheap \<Rightarrow> dlistIter \<Rightarrow> addr list option" where
  "dlist_iterate 0 h iter = None"
| "dlist_iterate (Suc fuel) h iter = do {
     (iter1, node) \<leftarrow> dlistNext h iter;
     case node of None \<Rightarrow> Some [] | Some a \<Rightarrow> map_option ((#) a) (dlist_iterate fuel h iter1)
   }"

lemma dlist_iterate_head:
  "seg h p as vs None \<Longrightarrow> dlist_iterate (Suc (length as)) h \<lparr>i_next = hd_or as None, i_direction = AL_START_HEAD\<rparr> = Some as"
proof (induction as arbitrary: p vs)
  case (Cons a as)
  then obtain v vs' where "vs = v # vs'" by (cases vs) auto
  with Cons.prems Cons.IH [of "Some a" vs'] show ?case by (simp add: dlistNext_def)
qed (simp add: dlistNext_def)

lemma dlist_iterate_tail:
  "seg h None as vs q \<Longrightarrow> dlist_iterate (Suc (length as)) h \<lparr>i_next = last_or as None, i_direction = AL_START_TAIL\<rparr> = Some (rev as)"
proof (induction as arbitrary: vs q rule: rev_induct)
  case (snoc a as)
  then obtain vs' v where "vs = vs' @ [v]" "length as = length vs'"
    using seg_length by (cases vs rule: rev_cases) fastforce+
  with snoc.prems snoc.IH [of vs' "Some a"] show ?case by (simp add: dlistNext_def seg_append)
qed (simp add: dlistNext_def)

text \<open>C15: traversal and search. An iterator from the head (from the tail) returns every node of the list once, in order
  (in reverse order), and then \<open>NULL\<close>; \<open>dlistIndex\<close> finds the node at a position counted from either end, or none;
  \<open>dlistSearchKey\<close> finds the first node whose value matches.\<close>

theorem dlist_traversal:
  assumes "dlist_repr h l as vs"
  shows "dlist_iterate (Suc (length as)) h (dlistGetIterator l AL_START_HEAD) = Some as \<and>
    dlist_iterate (Suc (length as)) h (dlistGetIterator l AL_START_TAIL) = Some (rev as) \<and>
    dlistIndex h l i = Some (map_option ((!) as) (list_pos i as)) \<and>
    dlistSearchKey h l key =
      Some (map_option fst (find (\<lambda>(a, v). case l_match l of Some match \<Rightarrow> match v key | None \<Rightarrow> key = v) (zip as vs)))"
proof -
  note d = dlist_reprD [OF assms]
  have "list_pos i vs = list_pos i as" using d(7) by (simp add: list_pos_def)
  then show ?thesis
    using dlist_iterate_head [OF d(2)] dlist_iterate_tail [OF d(2)] dlistIndex_pos [OF assms, of i] dlistSearch_ok [OF d(2), of l key] d(3,4)
    by (simp add: dlistGetIterator_def dlistSearchKey_def dlistRewind_def)
qed

theorem dlist_traversal_witness:
  "dlist_iterate 3 dheap_ex (dlistGetIterator dlist_ex AL_START_TAIL) = Some [2, 1] \<and> dlistIndex dheap_ex dlist_ex (- 2) = Some (Some 1) \<and>
   dlistSearchKey dheap_ex dlist_ex 8 = Some (Some 2)"
  using dlist_traversal [OF dlist_ex_repr, of "- 2" 8] by (simp add: list_pos_def dlist_ex_def numeral_3_eq_3)

end
