(* ===== verification/Vire_Queue.thy ===== *)
theory Vire_Queue
  imports Vire_Dlist
begin

text \<open>
  The queues between threads, \<open>src/dep/dlist/dlockqueue.c\<close> and \<open>src/dep/dlist/dmtqueue.c\<close>: a linked list behind
  a mutex with a bound and a policy for a full queue, and the generic interface that dispatches to it. The queue
  is an instance of the queue contract of \<open>Vire_Interfaces\<close>.
\<close>


section \<open>The queue behind a mutex\<close>

text \<open>\<open>lmutex\<close> is true while the mutex is held; locking it again would block for ever and is \<^term>\<open>None\<close>.\<close>

record 'v dlockqueue =
  lq_l :: "'v dlist"
  maxlen :: int
  maxlen_policy :: int
  lmutex :: bool

definition MAX_LENGTH_POLICY_REJECT :: int where "MAX_LENGTH_POLICY_REJECT = 0"
definition MAX_LENGTH_POLICY_EVICT_HEAD :: int where "MAX_LENGTH_POLICY_EVICT_HEAD = 1"
definition MAX_LENGTH_POLICY_EVICT_END :: int where "MAX_LENGTH_POLICY_EVICT_END = 2"

lemmas policy_defs = MAX_LENGTH_POLICY_REJECT_def MAX_LENGTH_POLICY_EVICT_HEAD_def MAX_LENGTH_POLICY_EVICT_END_def

definition dlockqueue_create :: "'v dlockqueue" where
  "dlockqueue_create = \<lparr>lq_l = dlistCreate, maxlen = - 1, maxlen_policy = MAX_LENGTH_POLICY_REJECT, lmutex = False\<rparr>"

definition mutex_lock :: "'v dlockqueue \<Rightarrow> 'v dlockqueue option" where
  "mutex_lock q = (if lmutex q then None else Some (q\<lparr>lmutex := True\<rparr>))"

definition mutex_unlock :: "'v dlockqueue \<Rightarrow> 'v dlockqueue" where
  "mutex_unlock q = q\<lparr>lmutex := False\<rparr>"

text \<open>The eviction loops: delete the first, or the last, node while the queue is full. \<open>freed\<close> are the values
  passed to the free method.\<close>

partial_function (option) evict_loop :: "bool \<Rightarrow> 'v dheap \<Rightarrow> 'v dlist \<Rightarrow> int \<Rightarrow> int \<Rightarrow> ('v dheap \<times> 'v dlist \<times> int) option" where
  "evict_loop at_head h l len mx =
     (if len \<ge> mx then do {
        ln \<leftarrow> (if at_head then l_head l else l_tail l);
        (h1, l1, freed) \<leftarrow> dlistDelNode h l ln;
        evict_loop at_head h1 l1 (cast_s 64 (int (l_len l1))) mx
      } else Some (h, l, len))"

text \<open>\<open>dlockqueue_push\<close>. The pointer \<open>list\<close> that is tested at the end is only assigned when the value is inserted;
  otherwise it has whatever value \<open>junk\<close> the stack holds (true: not \<open>NULL\<close>).\<close>

definition dlockqueue_push :: "'v dallocator \<Rightarrow> bool \<Rightarrow> 'v dheap \<Rightarrow> 'v dlockqueue \<Rightarrow> 'v \<Rightarrow> ('v dheap \<times> 'v dlockqueue \<times> int) option" where
  "dlockqueue_push alloc junk h q0 v = do {
     q \<leftarrow> mutex_lock q0;
     let len = cast_s 64 (int (l_len (lq_l q)));
     (h1, l1, len1, list) \<leftarrow>
       (if maxlen q > 0 \<and> len \<ge> maxlen q
        then if maxlen_policy q = MAX_LENGTH_POLICY_REJECT then Some (h, lq_l q, - 1, junk)
             else if maxlen_policy q = MAX_LENGTH_POLICY_EVICT_HEAD then do {
               (h1, l1, len1) \<leftarrow> evict_loop True h (lq_l q) len (maxlen q);
               (h2, l2, ok) \<leftarrow> dlistAddNodeTail alloc h1 l1 v;
               Some (h2, l2, len1 + 1, ok)
             }
             else if maxlen_policy q = MAX_LENGTH_POLICY_EVICT_END then do {
               (h1, l1, len1) \<leftarrow> evict_loop False h (lq_l q) len (maxlen q);
               (h2, l2, ok) \<leftarrow> dlistAddNodeTail alloc h1 l1 v;
               Some (h2, l2, len1 + 1, ok)
             }
             else Some (h, lq_l q, len, junk)
        else do {
          (h2, l2, ok) \<leftarrow> dlistAddNodeTail alloc h (lq_l q) v;
          Some (h2, l2, len + 1, ok)
        });
     let q1 = mutex_unlock (q\<lparr>lq_l := l1\<rparr>);
     Some (h1, q1, if \<not> list then - 1 else len1)
   }"

text \<open>The value returned, and the values freed on the way.\<close>

definition dlockqueue_pop :: "'v dheap \<Rightarrow> 'v dlockqueue \<Rightarrow> ('v dheap \<times> 'v dlockqueue \<times> 'v option \<times> 'v list) option" where
  "dlockqueue_pop h q0 = do {
     q \<leftarrow> mutex_lock q0;
     case l_head (lq_l q) of
       None \<Rightarrow> Some (h, mutex_unlock q, None, [])
     | Some node \<Rightarrow> do {
         n \<leftarrow> h node;
         (h1, l1, freed) \<leftarrow> dlistDelNode h (lq_l q) node;
         Some (h1, mutex_unlock (q\<lparr>lq_l := l1\<rparr>), Some (n_value n), freed)
       }
   }"

definition dlockqueue_destroy :: "'v dheap \<Rightarrow> 'v dlockqueue \<Rightarrow> ('v dheap \<times> 'v list) option" where
  "dlockqueue_destroy h q = dlistRelease h (lq_l q)"

definition dlockqueue_length :: "'v dlockqueue \<Rightarrow> ('v dlockqueue \<times> int) option" where
  "dlockqueue_length q0 = do {
     q \<leftarrow> mutex_lock q0;
     Some (mutex_unlock q, cast_s 64 (int (l_len (lq_l q))))
   }"

section \<open>The generic queue\<close>

text \<open>A \<open>dmtqueue\<close> dispatches to the functions of the queue it is initialised with; \<^term>\<open>None\<close> in \<open>mt_q\<close> is a queue that
  is not initialised.\<close>

record 'v dmtqueue =
  mt_q :: "'v dlockqueue option"

definition dmtqueue_create :: "'v dmtqueue" where
  "dmtqueue_create = \<lparr>mt_q = None\<rparr>"

definition dmtqueue_init_with_lockqueue :: "'v dmtqueue \<Rightarrow> bool \<Rightarrow> 'v dmtqueue" where
  "dmtqueue_init_with_lockqueue q freefunc =
     q\<lparr>mt_q := Some (dlockqueue_create\<lparr>lq_l := dlistCreate\<lparr>l_free := freefunc\<rparr>\<rparr>)\<rparr>"

definition dmtqueue_push :: "'v dallocator \<Rightarrow> bool \<Rightarrow> 'v dheap \<Rightarrow> 'v dmtqueue \<Rightarrow> 'v \<Rightarrow> ('v dheap \<times> 'v dmtqueue \<times> int) option" where
  "dmtqueue_push alloc junk h q v =
     (case mt_q q of
        None \<Rightarrow> Some (h, q, - 1)
      | Some lq \<Rightarrow> do { (h1, lq1, r) \<leftarrow> dlockqueue_push alloc junk h lq v; Some (h1, q\<lparr>mt_q := Some lq1\<rparr>, r) })"

definition dmtqueue_pop :: "'v dheap \<Rightarrow> 'v dmtqueue \<Rightarrow> ('v dheap \<times> 'v dmtqueue \<times> 'v option \<times> 'v list) option" where
  "dmtqueue_pop h q =
     (case mt_q q of
        None \<Rightarrow> Some (h, q, None, [])
      | Some lq \<Rightarrow> do { (h1, lq1, r, freed) \<leftarrow> dlockqueue_pop h lq; Some (h1, q\<lparr>mt_q := Some lq1\<rparr>, r, freed) })"

definition dmtqueue_length :: "'v dmtqueue \<Rightarrow> ('v dmtqueue \<times> int) option" where
  "dmtqueue_length q =
     (case mt_q q of
        None \<Rightarrow> Some (q, - 1)
      | Some lq \<Rightarrow> do { (lq1, n) \<leftarrow> dlockqueue_length lq; Some (q\<lparr>mt_q := Some lq1\<rparr>, n) })"

definition dmtqueue_empty :: "'v dmtqueue \<Rightarrow> ('v dmtqueue \<times> int) option" where
  "dmtqueue_empty q =
     (case mt_q q of
        None \<Rightarrow> Some (q, - 1)
      | Some lq \<Rightarrow> do { (lq1, n) \<leftarrow> dlockqueue_length lq; Some (q\<lparr>mt_q := Some lq1\<rparr>, if n > 0 then 0 else 1) })"

definition dmtqueue_destroy :: "'v dheap \<Rightarrow> 'v dmtqueue \<Rightarrow> ('v dheap \<times> 'v list) option" where
  "dmtqueue_destroy h q = (case mt_q q of None \<Rightarrow> Some (h, []) | Some lq \<Rightarrow> dlockqueue_destroy h lq)"

section \<open>The queues are queues\<close>

definition lockqueue_repr :: "'v dheap \<times> 'v dlockqueue \<Rightarrow> 'v list \<Rightarrow> bool" where
  "lockqueue_repr s vs \<longleftrightarrow> (\<exists>as. dlist_repr (fst s) (lq_l (snd s)) as vs) \<and> \<not> lmutex (snd s) \<and> length vs < 2 ^ 62"

lemma repr_cast_len: "dlist_repr h l as vs \<Longrightarrow> length vs < 2 ^ 62 \<Longrightarrow> cast_s 64 (int (l_len l)) = int (length vs)"
  using dlist_reprD(5,7) [of h l as vs] by (simp add: cast_s_id)

lemma dlistAddNodeTail_any:
  assumes "alloc_ok alloc" "dlist_repr h l as vs" "length vs < 2 ^ 62"
  shows "\<exists>h' l' ok as'. dlistAddNodeTail alloc h l v = Some (h', l', ok) \<and> dlist_repr h' l' as' (if ok then vs @ [v] else vs) \<and>
    l_free l' = l_free l \<and> (ok \<longleftrightarrow> alloc h \<noteq> None)"
proof (cases "alloc h")
  case None
  then show ?thesis using assms(2) by (auto simp: dlistAddNodeTail_def)
next
  case (Some n)
  then have "h n = None" using assms(1) by (auto simp: alloc_ok_def)
  moreover have "length as < 2 ^ 64 - 2" using assms(3) dlist_reprD(7) [OF assms(2)] by simp
  ultimately show ?thesis using dlistAddNodeTail_ok [where alloc = alloc, OF assms(2) Some] Some by fastforce
qed

lemma evict_loop_ok:
  assumes "0 < mx"
  shows "dlist_repr h l as vs \<Longrightarrow> length vs < 2 ^ 62 \<Longrightarrow>
   \<exists>h' l' as'. evict_loop at_head h l (int (length vs)) mx = Some (h', l', min (int (length vs)) (mx - 1)) \<and>
     dlist_repr h' l' as' (if at_head then drop (length vs - (nat mx - 1)) vs else take (nat mx - 1) vs) \<and> l_free l' = l_free l"
proof (induction "length vs" arbitrary: h l as vs)
  case 0
  then show ?case using assms by (subst evict_loop.simps) auto
next
  case (Suc k)
  note d = dlist_reprD [OF Suc.prems(1)]
  show ?case
  proof (cases "int (length vs) \<ge> mx")
    case False
    then show ?thesis using Suc.prems by (subst evict_loop.simps) auto
  next
    case True
    obtain xs n ys us v ws where sp: "as = xs @ n # ys" "vs = us @ v # ws" "length xs = length us"
      "(if at_head then l_head l else l_tail l) = Some n" "if at_head then us = [] \<and> xs = [] else ws = [] \<and> ys = []"
    proof (cases at_head)
      case True
      then show ?thesis using that [of "[]" "hd as" "tl as" "[]" "hd vs" "tl vs"] Suc.hyps(2) d(3,7)
        by (cases as; cases vs) auto
    next
      case False
      then show ?thesis using that [of "butlast as" "last as" "[]" "butlast vs" "last vs" "[]"] Suc.hyps(2) d(4,7)
        by (cases as rule: rev_cases; cases vs rule: rev_cases) auto
    qed
    have "dlist_repr h l (xs @ n # ys) (us @ v # ws)" using Suc.prems(1) sp by simp
    from dlistDelNode_ok [OF this sp(3)] obtain l1 where
      l1: "dlistDelNode h l n = Some (heap_remove h xs n ys, l1, if l_free l then [v] else [])"
        "dlist_repr (heap_remove h xs n ys) l1 (xs @ ys) (us @ ws)" "l_free l1 = l_free l" by blast
    have k: "k = length (us @ ws)" "length (us @ ws) < 2 ^ 62" using Suc.hyps(2) Suc.prems(2) sp by auto
    obtain h' l' as' where r: "evict_loop at_head (heap_remove h xs n ys) l1 (int (length (us @ ws))) mx =
        Some (h', l', min (int (length (us @ ws))) (mx - 1))"
      "dlist_repr h' l' as' (if at_head then drop (length (us @ ws) - (nat mx - 1)) (us @ ws) else take (nat mx - 1) (us @ ws))"
      "l_free l' = l_free l1"
      using Suc.hyps(1) [OF k(1) l1(2) k(2)] by blast
    have "evict_loop at_head h l (int (length vs)) mx = Some (h', l', min (int (length (us @ ws))) (mx - 1))"
      using True sp(4) l1(1) r(1) repr_cast_len [OF l1(2) k(2)] by (subst evict_loop.simps) simp
    moreover have "min (int (length (us @ ws))) (mx - 1) = min (int (length vs)) (mx - 1)" using True sp(2) by auto
    moreover have "drop (length (us @ ws) - (nat mx - 1)) (us @ ws) = drop (length vs - (nat mx - 1)) vs" if at_head
      using that sp(2,5) True assms by (simp add: Suc_diff_le)
    moreover have "take (nat mx - 1) (us @ ws) = take (nat mx - 1) vs" if "\<not> at_head"
      using that sp(2,5) True assms by (simp add: nat_le_iff)
    ultimately show ?thesis using r(2,3) l1(3) by (cases at_head) auto
  qed
qed

text \<open>Whether a push tries to insert the value, and what is left of the content before it does.\<close>

definition queue_full :: "'v dlockqueue \<Rightarrow> 'v list \<Rightarrow> bool" where
  "queue_full q vs \<longleftrightarrow> 0 < maxlen q \<and> maxlen q \<le> int (length vs)"

definition evicting :: "'v dlockqueue \<Rightarrow> bool" where
  "evicting q \<longleftrightarrow> maxlen_policy q \<in> {MAX_LENGTH_POLICY_EVICT_HEAD, MAX_LENGTH_POLICY_EVICT_END}"

definition push_room :: "'v dlockqueue \<Rightarrow> 'v list \<Rightarrow> 'v list" where
  "push_room q vs =
     (if \<not> queue_full q vs then vs
      else if maxlen_policy q = MAX_LENGTH_POLICY_EVICT_HEAD then drop (length vs - (nat (maxlen q) - 1)) vs
      else take (nat (maxlen q) - 1) vs)"

lemma mutex_simps [simp]:
  "\<not> lmutex q \<Longrightarrow> mutex_lock q = Some (q\<lparr>lmutex := True\<rparr>)" "\<not> lmutex (mutex_unlock q)"
  "lq_l (mutex_unlock q) = lq_l q" "maxlen (mutex_unlock q) = maxlen q" "maxlen_policy (mutex_unlock q) = maxlen_policy q"
  by (simp_all add: mutex_lock_def mutex_unlock_def)

lemma dlockqueue_push_ok:
  assumes "alloc_ok alloc" "lockqueue_repr (h, q) vs" "length vs < 2 ^ 62 - 1"
  shows "\<exists>h' q' r. dlockqueue_push alloc junk h q v = Some (h', q', r) \<and> maxlen q' = maxlen q \<and> maxlen_policy q' = maxlen_policy q \<and>
    (if queue_full q vs \<and> \<not> evicting q
     then lockqueue_repr (h', q') vs \<and> (maxlen_policy q = MAX_LENGTH_POLICY_REJECT \<longrightarrow> r = - 1)
     else lockqueue_repr (h', q') (push_room q vs @ [v]) \<and> r = int (length (push_room q vs)) + 1 \<or>
       lockqueue_repr (h', q') (push_room q vs) \<and> r = - 1)"
proof -
  obtain as where rep: "dlist_repr h (lq_l q) as vs" "\<not> lmutex q" "length vs < 2 ^ 62"
    using assms(2) by (auto simp: lockqueue_repr_def)
  have len: "cast_s 64 (int (l_len (lq_l q))) = int (length vs)" using repr_cast_len rep(1,3) .
  consider (room) "\<not> queue_full q vs" | (reject) "queue_full q vs" "\<not> evicting q" | (evict) "queue_full q vs" "evicting q" by blast
  then show ?thesis
  proof cases
    case room
    obtain h' l' ok as' where a: "dlistAddNodeTail alloc h (lq_l q) v = Some (h', l', ok)" "dlist_repr h' l' as' (if ok then vs @ [v] else vs)"
      using dlistAddNodeTail_any [OF assms(1) rep(1,3)] by blast
    let ?q = "mutex_unlock (q\<lparr>lmutex := True, lq_l := l'\<rparr>)"
    have "dlockqueue_push alloc junk h q v = Some (h', ?q, if ok then int (length vs) + 1 else - 1)"
      using room rep(2) len a(1) by (auto simp: dlockqueue_push_def Let_def queue_full_def)
    then show ?thesis using room a(2) assms(3) rep(3)
      by (cases ok) (auto simp: lockqueue_repr_def push_room_def)
  next
    case reject
    let ?q = "mutex_unlock (q\<lparr>lmutex := True, lq_l := lq_l q\<rparr>)"
    have "\<exists>r. dlockqueue_push alloc junk h q v = Some (h, ?q, r) \<and> (maxlen_policy q = MAX_LENGTH_POLICY_REJECT \<longrightarrow> r = - 1)"
      using reject rep(2) len by (auto simp: dlockqueue_push_def Let_def policy_defs queue_full_def evicting_def)
    then show ?thesis using reject rep by (auto simp: lockqueue_repr_def)
  next
    case evict
    let ?hd = "maxlen_policy q = MAX_LENGTH_POLICY_EVICT_HEAD" and ?vs = "push_room q vs"
    have full: "0 < maxlen q" "maxlen q \<le> int (length vs)" using evict(1) by (auto simp: queue_full_def)
    have lv: "min (int (length vs)) (maxlen q - 1) = int (length ?vs)" "length ?vs < 2 ^ 62 - 1"
      using full evict(1) assms(3) by (auto simp: push_room_def nat_less_iff)
    have ve: "?vs = (if ?hd then drop (length vs - (nat (maxlen q) - 1)) vs else take (nat (maxlen q) - 1) vs)"
      using evict(1) by (simp add: push_room_def)
    obtain h1 l1 as1 where e: "evict_loop ?hd h (lq_l q) (int (length vs)) (maxlen q) = Some (h1, l1, int (length ?vs))"
      "dlist_repr h1 l1 as1 ?vs" using evict_loop_ok [OF full(1) rep(1,3), of ?hd] unfolding lv(1) ve by blast
    obtain h' l' ok as' where a: "dlistAddNodeTail alloc h1 l1 v = Some (h', l', ok)" "dlist_repr h' l' as' (if ok then ?vs @ [v] else ?vs)"
      using dlistAddNodeTail_any [OF assms(1) e(2), of v] lv(2) by auto
    let ?q = "mutex_unlock (q\<lparr>lmutex := True, lq_l := l'\<rparr>)"
    have "dlockqueue_push alloc junk h q v = Some (h', ?q, if ok then int (length ?vs) + 1 else - 1)"
      using full evict(2) rep(2) len e(1) a(1)
      by (cases ?hd) (auto simp: dlockqueue_push_def Let_def policy_defs evicting_def)
    then show ?thesis using a(2) lv(2) evict by (cases ok) (auto simp: lockqueue_repr_def)
  qed
qed

lemma dlockqueue_pop_ok:
  assumes "lockqueue_repr (h, q) vs"
  shows "\<exists>h' q' freed. dlockqueue_pop h q = Some (h', q', if vs = [] then None else Some (hd vs), freed) \<and> lockqueue_repr (h', q') (tl vs) \<and>
    maxlen q' = maxlen q \<and> maxlen_policy q' = maxlen_policy q \<and> freed = (if l_free (lq_l q) then take 1 vs else [])"
proof -
  obtain as where rep: "dlist_repr h (lq_l q) as vs" "\<not> lmutex q" "length vs < 2 ^ 62"
    using assms by (auto simp: lockqueue_repr_def)
  note d = dlist_reprD [OF rep(1)]
  show ?thesis
  proof (cases vs)
    case Nil
    then show ?thesis using rep d(3,7) by (auto simp: dlockqueue_pop_def lockqueue_repr_def)
  next
    case (Cons v ws)
    then obtain n ys where as: "as = n # ys" using d(7) by (cases as) auto
    have "dlist_repr h (lq_l q) ([] @ n # ys) ([] @ v # ws)" using rep(1) as Cons by simp
    from dlistDelNode_ok [OF this] obtain l1 where
      l1: "dlistDelNode h (lq_l q) n = Some (heap_remove h [] n ys, l1, if l_free (lq_l q) then [v] else [])"
        "dlist_repr (heap_remove h [] n ys) l1 ys ws" by auto
    have "h n = Some \<lparr>n_prev = None, n_next = hd_or ys None, n_value = v\<rparr>" using d(2) as Cons by simp
    then show ?thesis using rep l1 d(3) as Cons by (auto simp: dlockqueue_pop_def lockqueue_repr_def)
  qed
qed

text \<open>A queue without a bound, or one that rejects values when it is full.\<close>

definition fifo_repr :: "'v dallocator \<Rightarrow> 'v dheap \<times> 'v dlockqueue \<Rightarrow> 'v list \<Rightarrow> bool" where
  "fifo_repr alloc s vs \<longleftrightarrow> alloc_ok alloc \<and> lockqueue_repr s vs \<and> (maxlen (snd s) \<le> 0 \<or> \<not> evicting (snd s))"

definition lq_push :: "'v dallocator \<Rightarrow> bool \<Rightarrow> 'v dheap \<times> 'v dlockqueue \<Rightarrow> 'v \<Rightarrow> ('v dheap \<times> 'v dlockqueue) option" where
  "lq_push alloc junk s v = do { (h, q, r) \<leftarrow> dlockqueue_push alloc junk (fst s) (snd s) v; Some (h, q) }"

definition lq_pop :: "'v dheap \<times> 'v dlockqueue \<Rightarrow> (('v dheap \<times> 'v dlockqueue) \<times> 'v option) option" where
  "lq_pop s = do { (h, q, r, freed) \<leftarrow> dlockqueue_pop (fst s) (snd s); Some ((h, q), r) }"

lemma evicting_cong: "maxlen q' = maxlen q \<Longrightarrow> maxlen_policy q' = maxlen_policy q \<Longrightarrow> evicting q' = evicting q"
  by (simp add: evicting_def)

interpretation lockq: queue_impl "fifo_repr alloc" "lq_push alloc junk" lq_pop "2 ^ 62 - 1"
  for alloc :: "'v dallocator" and junk
proof unfold_locales
  fix s :: "'v dheap \<times> 'v dlockqueue" and vs v
  assume r: "fifo_repr alloc s vs" "length vs < 2 ^ 62 - 1"
  have "lockqueue_repr (fst s, snd s) vs" using r(1) by (simp add: fifo_repr_def)
  from dlockqueue_push_ok [OF _ this r(2), of alloc junk v] r(1) obtain h' q' r' where
    p: "dlockqueue_push alloc junk (fst s) (snd s) v = Some (h', q', r')" "maxlen q' = maxlen (snd s)" "maxlen_policy q' = maxlen_policy (snd s)"
      "if queue_full (snd s) vs \<and> \<not> evicting (snd s) then lockqueue_repr (h', q') vs
       else lockqueue_repr (h', q') (push_room (snd s) vs @ [v]) \<or> lockqueue_repr (h', q') (push_room (snd s) vs)"
    unfolding fifo_repr_def by (metis (no_types, lifting))
  have "queue_full (snd s) vs \<Longrightarrow> \<not> evicting (snd s)" "\<not> queue_full (snd s) vs \<Longrightarrow> push_room (snd s) vs = vs"
    using r(1) by (auto simp: fifo_repr_def queue_full_def push_room_def)
  then have "lockqueue_repr (h', q') (vs @ [v]) \<or> lockqueue_repr (h', q') vs"
    using p(4) by (cases "queue_full (snd s) vs") auto
  then show "\<exists>s'. lq_push alloc junk s v = Some s' \<and> (fifo_repr alloc s' (vs @ [v]) \<or> fifo_repr alloc s' vs)"
    using r(1) p(1,2) evicting_cong [OF p(2,3)] by (auto simp: lq_push_def fifo_repr_def)
next
  fix s :: "'v dheap \<times> 'v dlockqueue" and vs
  assume r: "fifo_repr alloc s vs"
  have "lockqueue_repr (fst s, snd s) vs" using r by (simp add: fifo_repr_def)
  from dlockqueue_pop_ok [OF this] obtain h' q' freed where
    p: "dlockqueue_pop (fst s) (snd s) = Some (h', q', if vs = [] then None else Some (hd vs), freed)" "lockqueue_repr (h', q') (tl vs)"
      "maxlen q' = maxlen (snd s)" "maxlen_policy q' = maxlen_policy (snd s)" by blast
  then show "\<exists>s'. lq_pop s = Some (s', if vs = [] then None else Some (hd vs)) \<and> fifo_repr alloc s' (tl vs)"
    using r evicting_cong [OF p(3,4)] p(3) by (auto simp: lq_pop_def fifo_repr_def)
qed

section \<open>Properties of the queues\<close>

lemma queue_ex_repr: "fifo_repr alloc_ex ((\<lambda>_. None), dlockqueue_create) []"
  using alloc_ex_ok dlistCreate_repr
  by (auto simp: fifo_repr_def lockqueue_repr_def dlockqueue_create_def evicting_def intro!: exI [of _ "[]"])



text \<open>The policies for a full queue. A push on a queue with a positive bound that holds at most that many values leaves
  at most that many; a full queue refuses the value (\<open>REJECT\<close>, return value -1), drops the oldest values (\<open>EVICT_HEAD\<close>)
  or the newest ones (\<open>EVICT_END\<close>) to make room for it. The return value is the new length whenever the value was
  inserted. The mutex is free afterwards.\<close>

theorem dlockqueue_push_bounded:
  assumes "alloc_ok alloc" "lockqueue_repr (h, q) vs" "0 < maxlen q" "int (length vs) \<le> maxlen q" "length vs < 2 ^ 62 - 1"
    "maxlen_policy q \<in> {0, 1, 2}"
  shows "\<exists>h' q' r vs'. dlockqueue_push alloc junk h q v = Some (h', q', r) \<and> lockqueue_repr (h', q') vs' \<and> int (length vs') \<le> maxlen q \<and>
    (r \<noteq> - 1 \<longrightarrow> r = int (length vs') \<and>
       vs' = (if int (length vs) < maxlen q then vs else if maxlen_policy q = 1 then tl vs else butlast vs) @ [v]) \<and>
    (int (length vs) = maxlen q \<and> maxlen_policy q = 0 \<longrightarrow> r = - 1 \<and> vs' = vs)"
proof -
  let ?c = "push_room q vs"
  obtain h' q' r where p: "dlockqueue_push alloc junk h q v = Some (h', q', r)"
    "if queue_full q vs \<and> \<not> evicting q
     then lockqueue_repr (h', q') vs \<and> (maxlen_policy q = MAX_LENGTH_POLICY_REJECT \<longrightarrow> r = - 1)
     else lockqueue_repr (h', q') (?c @ [v]) \<and> r = int (length ?c) + 1 \<or> lockqueue_repr (h', q') ?c \<and> r = - 1"
    using dlockqueue_push_ok [OF assms(1,2,5)] by blast
  have f: "queue_full q vs \<longleftrightarrow> int (length vs) = maxlen q" using assms(3,4) by (auto simp: queue_full_def)
  have n: "nat (maxlen q) = length vs" if "int (length vs) = maxlen q" using that by linarith
  have c: "?c = (if int (length vs) < maxlen q then vs else if maxlen_policy q = 1 then tl vs else butlast vs)"
    using assms(3,4) n f by (cases vs) (auto simp: push_room_def policy_defs butlast_conv_take)
  have len: "int (length ?c) < maxlen q" unfolding c using assms(3,4) by auto
  show ?thesis
  proof (cases "queue_full q vs \<and> \<not> evicting q")
    case True
    then have "maxlen_policy q = 0" using assms(6) by (auto simp: evicting_def policy_defs)
    with True p f show ?thesis by (intro exI [of _ h'] exI [of _ q'] exI [of _ "- 1"] exI [of _ vs]) (auto simp: policy_defs)
  next
    case False
    then have e: "\<not> (int (length vs) = maxlen q \<and> maxlen_policy q = 0)" using f by (auto simp: evicting_def policy_defs)
    from False p(2) consider "lockqueue_repr (h', q') (?c @ [v])" "r = int (length ?c) + 1" | "lockqueue_repr (h', q') ?c" "r = - 1" by auto
    then show ?thesis
    proof cases
      case 1
      with p(1) e len show ?thesis
        by (intro exI [of _ h'] exI [of _ q'] exI [of _ r] exI [of _ "?c @ [v]"]) (auto simp: c)
    next
      case 2
      with p(1) e len show ?thesis by (intro exI [of _ h'] exI [of _ q'] exI [of _ r] exI [of _ ?c]) auto
    qed
  qed
qed

theorem dlockqueue_push_bounded_witness:
  "\<exists>h' q' r vs'. dlockqueue_push alloc_ex True dheap_ex \<lparr>lq_l = dlist_ex, maxlen = 2, maxlen_policy = 1, lmutex = False\<rparr> 9 = Some (h', q', r) \<and>
    lockqueue_repr (h', q') vs' \<and> length vs' \<le> 2 \<and> (r \<noteq> - 1 \<longrightarrow> vs' = [8, 9])"
proof -
  let ?q = "\<lparr>lq_l = dlist_ex, maxlen = 2, maxlen_policy = 1, lmutex = False\<rparr>"
  have "lockqueue_repr (dheap_ex, ?q) [7, 8]" using dlist_ex_repr by (auto simp: lockqueue_repr_def)
  from dlockqueue_push_bounded [OF alloc_ex_ok this, of True 9] show ?thesis by fastforce
qed

text \<open>A queue with a free method: the value that \<open>dlockqueue_pop\<close> returns has just been freed by \<open>dlistDelNode\<close>
  (\<open>dlistPop\<close> returns \<open>NULL\<close> in this case).\<close>

lemma dlockqueue_pop_freed:
  assumes "lockqueue_repr (h, q) (v # vs)" "l_free (lq_l q)"
  shows "\<exists>h' q'. dlockqueue_pop h q = Some (h', q', Some v, [v])"
  using dlockqueue_pop_ok [OF assms(1)] assms(2) by auto

end
