(* ===== verification/Vire_Darray.thy ===== *)
theory Vire_Darray
  imports Vire_Interfaces
begin

text \<open>
  The growing arrays of \<open>src/dep/darray/darray.c\<close>, on the bytes of their memory.
\<close>


section \<open>The operations\<close>

text \<open>A pointer to an element is its offset from the start of the array. \<open>ok\<close> is whether the allocation of the call
  succeeds, \<open>fill\<close> what the allocator leaves in new memory.\<close>

record darray =
  nelem :: nat
  elem :: "byte list"
  esize :: nat
  nalloc :: nat

definition darray_create :: "fill \<Rightarrow> bool \<Rightarrow> nat \<Rightarrow> nat \<Rightarrow> darray option" where
  "darray_create fill ok n sz =
     (if \<not> ok then None
      else Some \<lparr>nelem = 0, elem = map fill [0..<cast_u 64 (int n * int sz)], esize = sz, nalloc = n\<rparr>)"

definition darray_init :: "fill \<Rightarrow> bool \<Rightarrow> darray \<Rightarrow> nat \<Rightarrow> nat \<Rightarrow> darray \<times> int" where
  "darray_init fill ok a n sz =
     (if \<not> ok then (a\<lparr>elem := []\<rparr>, - 1)
      else (\<lparr>nelem = 0, elem = map fill [0..<cast_u 64 (int n * int sz)], esize = sz, nalloc = n\<rparr>, 0))"

definition darray_n :: "darray \<Rightarrow> nat" where
  "darray_n a = nelem a"

definition darray_idx :: "darray \<Rightarrow> nat \<Rightarrow> nat option" where
  "darray_idx a off = (if esize a = 0 then None else Some (off div esize a))"

definition darray_push :: "fill \<Rightarrow> bool \<Rightarrow> darray \<Rightarrow> darray \<times> nat option" where
  "darray_push fill ok a =
     (if nelem a = nalloc a \<and> \<not> ok then (a, None)
      else let a1 = (if nelem a = nalloc a
                     then let sz = cast_u 64 (int (esize a) * int (nalloc a))
                          in a\<lparr>elem := drealloc fill (elem a) (cast_u 64 (2 * int sz)), nalloc := cast_u 64 (int (nalloc a) * 2)\<rparr>
                     else a)
           in (a1\<lparr>nelem := cast_u 64 (int (nelem a1) + 1)\<rparr>, Some (cast_u 64 (int (esize a1) * int (nelem a1)))))"

definition darray_pop :: "darray \<Rightarrow> darray \<times> nat" where
  "darray_pop a =
     (let a1 = a\<lparr>nelem := cast_u 64 (int (nelem a) - 1)\<rparr> in (a1, cast_u 64 (int (esize a1) * int (nelem a1))))"

definition darray_get :: "darray \<Rightarrow> nat \<Rightarrow> nat" where
  "darray_get a idx = cast_u 64 (int (esize a) * int idx)"

definition darray_top :: "darray \<Rightarrow> nat" where
  "darray_top a = darray_get a (cast_u 64 (int (nelem a) - 1))"

definition darray_swap :: "darray \<Rightarrow> darray \<Rightarrow> darray \<times> darray" where
  "darray_swap a b = (b, a)"

text \<open>\<open>func\<close> is applied to the bytes of the element and the state of the caller.\<close>

fun darray_each_loop :: "(byte list \<Rightarrow> 's \<Rightarrow> 's \<times> int) \<Rightarrow> darray \<Rightarrow> nat \<Rightarrow> nat \<Rightarrow> 's \<Rightarrow> ('s \<times> int) option" where
  "darray_each_loop func a i 0 s = Some (s, 0)"
| "darray_each_loop func a i (Suc n) s = do {
     e \<leftarrow> mem_read (elem a) (darray_get a i) (esize a);
     let (s', ret) = func e s;
     if ret \<noteq> 0 then Some (s', - 1) else darray_each_loop func a (i + 1) n s'
   }"

definition darray_each :: "(byte list \<Rightarrow> 's \<Rightarrow> 's \<times> int) \<Rightarrow> darray \<Rightarrow> 's \<Rightarrow> ('s \<times> int) option" where
  "darray_each func a s = darray_each_loop func a 0 (darray_n a) s"

section \<open>The array as a list of elements\<close>

definition darray_ok :: "darray \<Rightarrow> bool" where
  "darray_ok a \<longleftrightarrow> 0 < nalloc a \<and> 0 < esize a \<and> nelem a \<le> nalloc a \<and> length (elem a) = esize a * nalloc a \<and> esize a * nalloc a < 2 ^ 62"

definition darray_vals :: "darray \<Rightarrow> byte list list" where
  "darray_vals a = map (\<lambda>i. take (esize a) (drop (i * esize a) (elem a))) [0..<nelem a]"

text \<open>The client fills in the element it was given.\<close>

definition darray_add :: "fill \<Rightarrow> bool \<Rightarrow> darray \<Rightarrow> byte list \<Rightarrow> (darray \<times> bool) option" where
  "darray_add fill ok a b =
     (case darray_push fill ok a of
        (a1, None) \<Rightarrow> Some (a1, False)
      | (a1, Some off) \<Rightarrow> do { e \<leftarrow> mem_write (elem a1) off b; Some (a1\<lparr>elem := e\<rparr>, True) })"

lemma darray_okD:
  assumes "darray_ok a"
  shows "nalloc a < 2 ^ 62" "i \<le> nalloc a \<Longrightarrow> esize a * i < 2 ^ 62" "i \<le> nalloc a \<Longrightarrow> darray_get a i = esize a * i"
proof -
  have "nalloc a \<le> esize a * nalloc a" using assms by (simp add: darray_ok_def)
  then show "nalloc a < 2 ^ 62" using assms unfolding darray_ok_def by linarith
  have le: "esize a * i < 2 ^ 62" if "i \<le> nalloc a" for i
    using assms mult_le_mono2 [OF that, of "esize a"] unfolding darray_ok_def by linarith
  then show "i \<le> nalloc a \<Longrightarrow> esize a * i < 2 ^ 62" .
  show "darray_get a i = esize a * i" if "i \<le> nalloc a"
    using le [OF that] cast_u_int [of "esize a * i" 64] by (simp add: darray_get_def)
qed

lemma chunk_in: "i < n \<Longrightarrow> n \<le> m \<Longrightarrow> length xs = s * m \<Longrightarrow> i * s + s \<le> n * s \<and> n * s \<le> length xs"
  using mult_le_mono1 [of "Suc i" n s] mult_le_mono1 [of n m s] by (simp add: mult.commute)

lemma darray_vals_write:
  assumes "length b = esize a" "nelem a < nalloc a" "length (elem a) = esize a * nalloc a"
  shows "\<exists>e. mem_write (elem a) (esize a * nelem a) b = Some e \<and> length e = length (elem a) \<and>
    darray_vals (a\<lparr>elem := e, nelem := nelem a + 1\<rparr>) = darray_vals a @ [b]"
proof -
  let ?n = "nelem a * esize a"
  have le: "?n + esize a \<le> length (elem a)"
    using mult_le_mono1 [of "Suc (nelem a)" "nalloc a" "esize a"] assms(2,3) by (simp add: mult.commute add.commute)
  let ?e = "take ?n (elem a) @ b @ drop (?n + esize a) (elem a)"
  have "take (esize a) (drop (i * esize a) ?e) = take (esize a) (drop (i * esize a) (elem a))" if "i < nelem a" for i
  proof -
    have "i * esize a + esize a \<le> ?n" using mult_le_mono1 [of "Suc i" "nelem a" "esize a"] that by simp
    then show ?thesis using le by (simp add: drop_take min_def)
  qed
  moreover have "take (esize a) (drop ?n ?e) = b" using le assms(1) by simp
  ultimately have "darray_vals (a\<lparr>elem := ?e, nelem := nelem a + 1\<rparr>) = darray_vals a @ [b]"
    by (simp add: darray_vals_def)
  then show ?thesis using le assms(1) by (intro exI [of _ ?e]) (auto simp: mem_write_def mult.commute min_def)
qed

lemma darray_add_ok:
  assumes "darray_ok a" "length b = esize a" "esize a * nalloc a < 2 ^ 61"
  shows "\<exists>a' r. darray_add fill ok a b = Some (a', r) \<and> darray_ok a' \<and> esize a' = esize a \<and>
    darray_vals a' = (if r then darray_vals a @ [b] else darray_vals a) \<and> (r \<longleftrightarrow> nelem a < nalloc a \<or> ok)"
proof -
  note d = assms(1) [unfolded darray_ok_def]
  have nl: "nelem a < 2 ^ 62" using darray_okD(1) [OF assms(1)] d by linarith
  have inc: "cast_u 64 (int (nelem a) + 1) = nelem a + 1" using cast_u_int [of "nelem a + 1" 64] nl by (simp add: add.commute)
  have off: "cast_u 64 (int (esize a) * int (nelem a)) = esize a * nelem a"
    using darray_okD(3) [OF assms(1), of "nelem a"] d by (simp add: darray_get_def)
  show ?thesis
  proof (cases "nelem a = nalloc a")
    case False
    with d have "nelem a < nalloc a" by simp
    from darray_vals_write [OF assms(2) this] d obtain e where
      "mem_write (elem a) (esize a * nelem a) b = Some e" "length e = length (elem a)"
      "darray_vals (a\<lparr>elem := e, nelem := nelem a + 1\<rparr>) = darray_vals a @ [b]" by auto
    then show ?thesis using False d inc off \<open>nelem a < nalloc a\<close>
      by (intro exI [of _ "a\<lparr>nelem := nelem a + 1, elem := e\<rparr>"] exI [of _ True])
        (simp add: darray_add_def darray_push_def darray_ok_def darray_vals_def Let_def)
  next
    case full: True
    show ?thesis
    proof (cases ok)
      case False
      then show ?thesis using full assms(1) by (intro exI [of _ a] exI [of _ False]) (simp add: darray_add_def darray_push_def)
    next
      case True
      let ?e = "drealloc fill (elem a) (2 * (esize a * nalloc a))"
      let ?a = "a\<lparr>elem := ?e, nalloc := nalloc a * 2\<rparr>"
      have c: "cast_u 64 (int (esize a) * int (nalloc a)) = esize a * nalloc a" using off full by simp
      have c2: "cast_u 64 (2 * int (esize a * nalloc a)) = 2 * (esize a * nalloc a)"
        using cast_u_int [of "2 * (esize a * nalloc a)" 64] assms(3) by simp
      have c3: "cast_u 64 (int (nalloc a) * 2) = nalloc a * 2"
        using cast_u_int [of "nalloc a * 2" 64] darray_okD(1) [OF assms(1)] by (simp add: mult.commute)
      have "take (esize a) (drop (i * esize a) ?e) = take (esize a) (drop (i * esize a) (elem a))" if "i < nelem a" for i
      proof -
        have "i * esize a + esize a \<le> length (elem a)"
          using mult_le_mono1 [of "Suc i" "nalloc a" "esize a"] that d full by (simp add: mult.commute add.commute)
        then show ?thesis using d by (simp add: drealloc_grow)
      qed
      then have v: "darray_vals ?a = darray_vals a" by (simp add: darray_vals_def)
      have "\<exists>e. mem_write (elem ?a) (esize ?a * nelem ?a) b = Some e \<and> length e = length (elem ?a) \<and>
          darray_vals (?a\<lparr>elem := e, nelem := nelem ?a + 1\<rparr>) = darray_vals ?a @ [b]"
        using full d assms(2) by (intro darray_vals_write) auto
      then obtain e where "mem_write ?e (esize a * nelem a) b = Some e" "length e = length ?e"
        "darray_vals (?a\<lparr>elem := e, nelem := nelem ?a + 1\<rparr>) = darray_vals a @ [b]" using v by auto
      then show ?thesis using full True d inc off c c2 c3 assms(3)
        by (intro exI [of _ "a\<lparr>elem := e, nalloc := nalloc a * 2, nelem := nelem a + 1\<rparr>"] exI [of _ True])
          (simp add: darray_add_def darray_push_def darray_ok_def darray_vals_def Let_def)
    qed
  qed
qed

lemma darray_read:
  assumes "darray_ok a" "i < nelem a"
  shows "mem_read (elem a) (darray_get a i) (esize a) = Some (darray_vals a ! i)"
proof -
  have "i * esize a + esize a \<le> length (elem a)"
    using mult_le_mono1 [of "Suc i" "nalloc a" "esize a"] assms by (simp add: darray_ok_def mult.commute add.commute)
  moreover have "darray_get a i = i * esize a" using darray_okD(3) [OF assms(1), of i] assms by (simp add: darray_ok_def mult.commute)
  ultimately show ?thesis using assms(2) by (simp add: mem_read_def darray_vals_def)
qed

lemma darray_each_loop_ok:
  assumes "darray_ok a" "\<And>e s. snd (func e s) = 0"
  shows "i + n \<le> nelem a \<Longrightarrow> darray_each_loop func a i n s = Some (fold (\<lambda>e s. fst (func e s)) (take n (drop i (darray_vals a))) s, 0)"
proof (induction n arbitrary: i s)
  case (Suc n)
  have "length (darray_vals a) = nelem a" by (simp add: darray_vals_def)
  then have "take (Suc n) (drop i (darray_vals a)) = darray_vals a ! i # take n (drop (Suc i) (darray_vals a))"
    using Suc.prems by (simp add: Cons_nth_drop_Suc [symmetric])
  moreover have "snd (func (darray_vals a ! i) s) = 0" by (rule assms(2))
  ultimately show ?case
    using Suc.IH [of "Suc i"] Suc.prems darray_read [OF assms(1), of i] by (cases "func (darray_vals a ! i) s") simp
qed simp

section \<open>Properties of the arrays\<close>



text \<open>An array created for no elements never gets room for any: its capacity is doubled from 0 to 0 and the place that
  \<open>darray_push\<close> returns is outside the array.\<close>

lemma darray_push_empty:
  "\<exists>a a1. darray_create fill True 0 8 = Some a \<and> darray_push fill True a = (a1, Some 0) \<and> mem_read (elem a1) 0 8 = None"
proof -
  let ?a = "\<lparr>nelem = 0, elem = [], esize = 8, nalloc = 0\<rparr>"
  have c: "cast_u 64 0 = 0" "cast_u 64 1 = 1" by (simp_all add: cast_u_def)
  have "darray_create fill True 0 8 = Some ?a" by (simp add: darray_create_def c)
  moreover have "darray_push fill True ?a = (?a\<lparr>nelem := 1\<rparr>, Some 0)" by (simp add: darray_push_def c drealloc_def)
  moreover have "mem_read (elem (?a\<lparr>nelem := 1\<rparr>)) 0 8 = None" by (simp add: mem_read_def)
  ultimately show ?thesis by blast
qed

end
