(* ===== verification/Vire_Zipmap.thy ===== *)
theory Vire_Zipmap
  imports Vire_Interfaces
begin

text \<open>
  The zipmap of \<open>vr_zipmap.c\<close>: a string to string map in one block of bytes. The zipmap is its list of bytes, a pointer into
  it is an index, and an \<open>unsigned int\<close> wraps at 2^32. The first byte counts the entries (254: not known), an entry is the
  key with its length, then the value with its length, a byte with the number of unused bytes, and these, and byte 255 ends the
  zipmap. \<^verbatim>\<open>zipmap_ok\<close> gives the entries of a zipmap; every operation keeps it, and the zipmap is an instance of the map contract.
\<close>

section \<open>The operations\<close>

definition ZIPMAP_BIGLEN :: nat where [simp]: "ZIPMAP_BIGLEN = 254"
definition ZIPMAP_END :: nat where [simp]: "ZIPMAP_END = 255"
definition ZIPMAP_VALUE_MAX_FREE :: nat where [simp]: "ZIPMAP_VALUE_MAX_FREE = 4"

definition ZIPMAP_LEN_BYTES :: "nat \<Rightarrow> nat" where
  "ZIPMAP_LEN_BYTES l = (if l < ZIPMAP_BIGLEN then 1 else 4 + 1)"

definition zipmapNew :: "byte list" where
  "zipmapNew = [0, word_of_nat ZIPMAP_END]"

definition zipmapDecodeLength :: "byte list \<Rightarrow> nat \<Rightarrow> nat option" where
  "zipmapDecodeLength zm p = do {
     b \<leftarrow> byte_at zm p;
     if unat b < ZIPMAP_BIGLEN then Some (unat b)
     else do { bs \<leftarrow> mem_read zm (p + 1) 4; Some (le_val bs) }
   }"

text \<open>\<open>zipmapEncodeLength\<close> with a pointer; with \<open>NULL\<close> it is \<^const>\<open>ZIPMAP_LEN_BYTES\<close>.\<close>

definition zipmapEncodeLength :: "byte list \<Rightarrow> nat \<Rightarrow> nat \<Rightarrow> (byte list \<times> nat) option" where
  "zipmapEncodeLength zm p len =
     (if len < ZIPMAP_BIGLEN then do { zm1 \<leftarrow> mem_write zm p [word_of_nat len]; Some (zm1, 1) }
      else do {
        zm1 \<leftarrow> mem_write zm p [word_of_nat ZIPMAP_BIGLEN];
        zm2 \<leftarrow> mem_write zm1 (p + 1) (le_bytes 4 len);
        Some (zm2, 1 + 4)
      })"

text \<open>\<open>zipmapLookupRaw\<close>: a \<open>NULL\<close> key is \<^term>\<open>None\<close>, and \<open>tot\<close> is whether \<open>totlen\<close> is wanted. The loop runs over
  the entries from \<open>p\<close> on.\<close>

function zipmapLookupRaw_loop :: "byte list \<Rightarrow> byte list option \<Rightarrow> bool \<Rightarrow> nat \<Rightarrow> nat option \<Rightarrow> (nat option \<times> nat) option" where
  "zipmapLookupRaw_loop zm key tot p k = do {
     b \<leftarrow> byte_at zm p;
     if unat b = ZIPMAP_END then Some (k, cast_u 32 (int p) + 1)
     else do {
       l \<leftarrow> zipmapDecodeLength zm p;
       let llen = ZIPMAP_LEN_BYTES l;
       hit \<leftarrow> (case key of
                 None \<Rightarrow> Some False
               | Some ks \<Rightarrow> if k = None \<and> l = length ks then do { bs \<leftarrow> mem_read zm (p + llen) l; Some (bs = ks) }
                             else Some False);
       if hit \<and> \<not> tot then Some (Some p, 0)
       else do {
         let k' = (if hit then Some p else k);
         let p1 = p + (llen + l);
         vl \<leftarrow> zipmapDecodeLength zm p1;
         let p2 = p1 + ZIPMAP_LEN_BYTES vl;
         fr \<leftarrow> byte_at zm p2;
         zipmapLookupRaw_loop zm key tot (p2 + (vl + 1 + unat fr)) k'
       }
     }
   }"
  by pat_completeness auto

termination
  by (relation "measure (\<lambda>(zm, key, tot, p, k). length zm - p)") (auto simp: byte_at_def ZIPMAP_LEN_BYTES_def split: if_splits)

declare zipmapLookupRaw_loop.simps [simp del]

definition zipmapLookupRaw :: "byte list \<Rightarrow> byte list option \<Rightarrow> bool \<Rightarrow> (nat option \<times> nat) option" where
  "zipmapLookupRaw zm key tot = zipmapLookupRaw_loop zm key tot 1 None"

definition zipmapRequiredLength :: "nat \<Rightarrow> nat \<Rightarrow> nat" where
  "zipmapRequiredLength klen vlen =
     (let l = cast_u 32 (int klen + int vlen + 3);
          l = (if klen \<ge> ZIPMAP_BIGLEN then cast_u 32 (int l + 4) else l);
          l = (if vlen \<ge> ZIPMAP_BIGLEN then cast_u 32 (int l + 4) else l)
      in l)"

definition zipmapRawKeyLength :: "byte list \<Rightarrow> nat \<Rightarrow> nat option" where
  "zipmapRawKeyLength zm p = do { l \<leftarrow> zipmapDecodeLength zm p; Some (cast_u 32 (int (ZIPMAP_LEN_BYTES l) + int l)) }"

definition zipmapRawValueLength :: "byte list \<Rightarrow> nat \<Rightarrow> nat option" where
  "zipmapRawValueLength zm p = do {
     l \<leftarrow> zipmapDecodeLength zm p;
     let used = ZIPMAP_LEN_BYTES l;
     fr \<leftarrow> byte_at zm (p + used);
     Some (cast_u 32 (int used + (int (unat fr) + 1 + int l)))
   }"

definition zipmapRawEntryLength :: "byte list \<Rightarrow> nat \<Rightarrow> nat option" where
  "zipmapRawEntryLength zm p = do {
     l \<leftarrow> zipmapRawKeyLength zm p;
     vl \<leftarrow> zipmapRawValueLength zm (p + l);
     Some (cast_u 32 (int l + int vl))
   }"

definition zipmapResize :: "fill \<Rightarrow> byte list \<Rightarrow> nat \<Rightarrow> byte list option" where
  "zipmapResize fill zm len = mem_write (drealloc fill zm len) (len - 1) [word_of_nat ZIPMAP_END]"

text \<open>The end of \<open>zipmapSet\<close>: the entry is written at \<open>p\<close>.\<close>

definition zipmapSet_write :: "byte list \<Rightarrow> nat \<Rightarrow> byte list \<Rightarrow> byte list \<Rightarrow> nat \<Rightarrow> byte list option" where
  "zipmapSet_write zm p key val vempty = do {
     (zm1, n1) \<leftarrow> zipmapEncodeLength zm p (length key);
     zm2 \<leftarrow> mem_write zm1 (p + n1) key;
     let p2 = p + n1 + length key;
     (zm3, n3) \<leftarrow> zipmapEncodeLength zm2 p2 (length val);
     zm4 \<leftarrow> mem_write zm3 (p2 + n3) [word_of_nat vempty];
     mem_write zm4 (p2 + n3 + 1) val
   }"

definition zm_len_set :: "byte list \<Rightarrow> (nat \<Rightarrow> nat) \<Rightarrow> byte list option" where
  "zm_len_set zm f = do { c \<leftarrow> byte_at zm 0; if unat c < ZIPMAP_BIGLEN then byte_put zm 0 (word_of_nat (f (unat c))) else Some zm }"

text \<open>The flag is \<open>*update\<close>.\<close>

definition zipmapSet :: "fill \<Rightarrow> byte list \<Rightarrow> byte list \<Rightarrow> byte list \<Rightarrow> (byte list \<times> bool) option" where
  "zipmapSet fill zm key val = do {
     let reqlen = zipmapRequiredLength (length key) (length val);
     (p0, zmlen0) \<leftarrow> zipmapLookupRaw zm (Some key) True;
     (zm1, p, zmlen1, freelen, update) \<leftarrow>
       (case p0 of
          None \<Rightarrow> do {
            zm1 \<leftarrow> zipmapResize fill zm (cast_u 32 (int zmlen0 + int reqlen));
            zm2 \<leftarrow> zm_len_set zm1 (\<lambda>c. c + 1);
            Some (zm2, zmlen0 - 1, cast_u 32 (int zmlen0 + int reqlen), reqlen, False)
          }
        | Some p \<Rightarrow> do {
            freelen \<leftarrow> zipmapRawEntryLength zm p;
            if freelen < reqlen then do {
              let zmlen1 = cast_u 32 (int zmlen0 - int freelen + int reqlen);
              zm1 \<leftarrow> zipmapResize fill zm zmlen1;
              zm2 \<leftarrow> memmove zm1 (p + reqlen) (p + freelen) (cast_u 32 (int zmlen0 - (int p + int freelen + 1)));
              Some (zm2, p, zmlen1, reqlen, True)
            }
            else Some (zm, p, zmlen0, freelen, True)
          });
     let empty = cast_u 32 (int freelen - int reqlen);
     (zm2, vempty) \<leftarrow>
       (if empty \<ge> ZIPMAP_VALUE_MAX_FREE then do {
          zm2 \<leftarrow> memmove zm1 (p + reqlen) (p + freelen) (cast_u 32 (int zmlen1 - (int p + int freelen + 1)));
          zm3 \<leftarrow> zipmapResize fill zm2 (cast_u 32 (int zmlen1 - int empty));
          Some (zm3, 0)
        }
        else Some (zm1, empty));
     zm3 \<leftarrow> zipmapSet_write zm2 p key val vempty;
     Some (zm3, update)
   }"

text \<open>The flag is \<open>*deleted\<close>.\<close>

definition zipmapDel :: "fill \<Rightarrow> byte list \<Rightarrow> byte list \<Rightarrow> (byte list \<times> bool) option" where
  "zipmapDel fill zm key = do {
     (p0, zmlen) \<leftarrow> zipmapLookupRaw zm (Some key) True;
     case p0 of
       None \<Rightarrow> Some (zm, False)
     | Some p \<Rightarrow> do {
         freelen \<leftarrow> zipmapRawEntryLength zm p;
         zm1 \<leftarrow> memmove zm p (p + freelen) (cast_u 32 (int zmlen - ((int p + int freelen) + 1)));
         zm2 \<leftarrow> zipmapResize fill zm1 (cast_u 32 (int zmlen - int freelen));
         zm3 \<leftarrow> zm_len_set zm2 (\<lambda>c. c - 1);
         Some (zm3, True)
       }
   }"

definition zipmapRewind :: nat where
  "zipmapRewind = 1"

text \<open>\<open>zipmapNext\<close> on the zipmap with a pointer into it: the next pointer with the places and lengths of key and value.\<close>

definition zipmapNext :: "byte list \<Rightarrow> nat \<Rightarrow> (nat \<times> (nat \<times> nat) \<times> (nat \<times> nat)) option option" where
  "zipmapNext zm p = do {
     b \<leftarrow> byte_at zm p;
     if unat b = ZIPMAP_END then Some None
     else do {
       klen \<leftarrow> zipmapDecodeLength zm p;
       let key = p + ZIPMAP_LEN_BYTES klen;
       kl \<leftarrow> zipmapRawKeyLength zm p;
       let p1 = p + kl;
       vlen \<leftarrow> zipmapDecodeLength zm p1;
       let val = p1 + 1 + ZIPMAP_LEN_BYTES vlen;
       vl \<leftarrow> zipmapRawValueLength zm p1;
       Some (Some (p1 + vl, (key, klen), (val, vlen)))
     }
   }"

text \<open>The place and length of the value.\<close>

definition zipmapGet :: "byte list \<Rightarrow> byte list \<Rightarrow> (nat \<times> nat) option option" where
  "zipmapGet zm key = do {
     (p0, _) \<leftarrow> zipmapLookupRaw zm (Some key) False;
     case p0 of
       None \<Rightarrow> Some None
     | Some p \<Rightarrow> do {
         kl \<leftarrow> zipmapRawKeyLength zm p;
         vlen \<leftarrow> zipmapDecodeLength zm (p + kl);
         Some (Some (p + kl + ZIPMAP_LEN_BYTES vlen + 1, vlen))
       }
   }"

definition zipmapExists :: "byte list \<Rightarrow> byte list \<Rightarrow> bool option" where
  "zipmapExists zm key = do { (p0, _) \<leftarrow> zipmapLookupRaw zm (Some key) False; Some (p0 \<noteq> None) }"

partial_function (option) zipmapLen_loop :: "byte list \<Rightarrow> nat \<Rightarrow> nat \<Rightarrow> nat option" where
  "zipmapLen_loop zm p len = do {
     r \<leftarrow> zipmapNext zm p;
     case r of None \<Rightarrow> Some len | Some (p', _) \<Rightarrow> zipmapLen_loop zm p' (len + 1)
   }"

definition zipmapLen :: "byte list \<Rightarrow> (byte list \<times> nat) option" where
  "zipmapLen zm = do {
     c \<leftarrow> byte_at zm 0;
     if unat c < ZIPMAP_BIGLEN then Some (zm, unat c)
     else do {
       len \<leftarrow> zipmapLen_loop zm zipmapRewind 0;
       zm1 \<leftarrow> (if len < ZIPMAP_BIGLEN then byte_put zm 0 (word_of_nat len) else Some zm);
       Some (zm1, len)
     }
   }"

definition zipmapBlobLen :: "byte list \<Rightarrow> nat option" where
  "zipmapBlobLen zm = do { (_, totlen) \<leftarrow> zipmapLookupRaw zm None True; Some totlen }"

section \<open>The representation\<close>

text \<open>An entry is a key, a value and the unused bytes after the value.\<close>

type_synonym zentry = "byte list \<times> byte list \<times> byte list"

definition len_text :: "nat \<Rightarrow> byte list" where
  "len_text l = (if l < 254 then [word_of_nat l] else 254 # le_bytes 4 l)"

definition entry_text :: "zentry \<Rightarrow> byte list" where
  "entry_text e = (case e of (k, v, pad) \<Rightarrow>
     len_text (length k) @ k @ len_text (length v) @ word_of_nat (length pad) # v @ pad)"

definition entries_text :: "zentry list \<Rightarrow> byte list" where
  "entries_text es = concat (map entry_text es)"

definition pads_ok :: "zentry list \<Rightarrow> bool" where
  "pads_ok es \<longleftrightarrow> (\<forall>e \<in> set es. length (snd (snd e)) < 4)"

definition zipmap_ok :: "byte list \<Rightarrow> nat \<Rightarrow> zentry list \<Rightarrow> bool" where
  "zipmap_ok zm c es \<longleftrightarrow> zm = word_of_nat c # entries_text es @ [255] \<and> length zm < 2 ^ 32 \<and> distinct (map fst es) \<and>
     pads_ok es \<and> c \<le> 254 \<and> (c < 254 \<longrightarrow> c = length es)"

definition zipmap_map :: "zentry list \<Rightarrow> byte list \<Rightarrow> byte list option" where
  "zipmap_map es k = map_option fst (map_of es k)"

lemma entries_text_simps [simp]:
  "entries_text [] = []" "entries_text (e # es) = entry_text e @ entries_text es"
  "entries_text (es @ fs) = entries_text es @ entries_text fs"
  by (simp_all add: entries_text_def)

lemma length_len_text [simp]: "length (len_text l) = ZIPMAP_LEN_BYTES l"
  by (simp add: len_text_def ZIPMAP_LEN_BYTES_def)

lemma len_text_ne [simp]: "len_text l \<noteq> []"
  by (simp add: len_text_def)

lemma unat_small: "n < 256 \<Longrightarrow> unat (word_of_nat n :: byte) = n"
  by (simp add: unat_of_nat)

lemma hd_len_text: "l < 2 ^ 32 \<Longrightarrow> unat (hd (len_text l)) \<noteq> 255"
  by (auto simp: len_text_def unat_small)

lemma decode_len:
  assumes "l < 2 ^ 32" "p = length pre"
  shows "zipmapDecodeLength (pre @ len_text l @ post) p = Some l"
proof (cases "l < 254")
  case True
  then show ?thesis using assms by (simp add: zipmapDecodeLength_def len_text_def byte_at_def unat_small)
next
  case False
  have "mem_read (pre @ 254 # le_bytes 4 l @ post) (Suc (length pre)) 4 = Some (le_bytes 4 l)"
    using mem_read_mid [of "pre @ [254]" "Suc (length pre)" "le_bytes 4 l" 4 post] by simp
  moreover have "le_val (le_bytes 4 l) = l" using assms by (simp add: le_val_le_bytes)
  ultimately show ?thesis using assms(2) False by (simp add: zipmapDecodeLength_def len_text_def byte_at_def)
qed

lemma encode_len:
  assumes "p = length pre" "length blk = ZIPMAP_LEN_BYTES l"
  shows "zipmapEncodeLength (pre @ blk @ post) p l = Some (pre @ len_text l @ post, ZIPMAP_LEN_BYTES l)"
proof (cases "l < 254")
  case True
  then show ?thesis using assms mem_write_mid [of pre p blk "[word_of_nat l]" post]
    by (simp add: zipmapEncodeLength_def len_text_def ZIPMAP_LEN_BYTES_def)
next
  case False
  then obtain b bs where b: "blk = b # bs" "length bs = 4" using assms(2) by (cases blk) (auto simp: ZIPMAP_LEN_BYTES_def)
  have "mem_write (pre @ [b] @ bs @ post) p [254] = Some (pre @ [254] @ bs @ post)"
    using assms(1) by (intro mem_write_mid) auto
  moreover have "mem_write ((pre @ [254]) @ bs @ post) (p + 1) (le_bytes 4 l) = Some ((pre @ [254]) @ le_bytes 4 l @ post)"
    using assms(1) b by (intro mem_write_mid) auto
  ultimately show ?thesis using False b by (simp add: zipmapEncodeLength_def len_text_def ZIPMAP_LEN_BYTES_def)
qed

lemma length_entry_text [simp]:
  "length (entry_text (k, v, pad)) = ZIPMAP_LEN_BYTES (length k) + length k + ZIPMAP_LEN_BYTES (length v) + 1 + length v + length pad"
  by (simp add: entry_text_def)

lemma entry_text_layout:
  assumes "zm = pre @ entry_text (k, v, pad) @ post" "length zm < 2 ^ 32" "length pad < 4" "p = length pre"
  shows "byte_at zm p = Some (hd (len_text (length k)))"
    and "zipmapDecodeLength zm p = Some (length k)"
    and "mem_read zm (p + ZIPMAP_LEN_BYTES (length k)) (length k) = Some k"
    and "zipmapDecodeLength zm (p + (ZIPMAP_LEN_BYTES (length k) + length k)) = Some (length v)"
    and "byte_at zm (p + (ZIPMAP_LEN_BYTES (length k) + length k) + ZIPMAP_LEN_BYTES (length v)) = Some (word_of_nat (length pad))"
    and "mem_read zm (p + (ZIPMAP_LEN_BYTES (length k) + length k) + ZIPMAP_LEN_BYTES (length v) + 1) (length v) = Some v"
proof -
  let ?L = ZIPMAP_LEN_BYTES
  have k: "length k < 2 ^ 32" and v: "length v < 2 ^ 32" using assms(1,2) by simp_all
  have 1: "zm = pre @ len_text (length k) @ (k @ len_text (length v) @ word_of_nat (length pad) # v @ pad @ post)"
    and 2: "zm = (pre @ len_text (length k)) @ k @ (len_text (length v) @ word_of_nat (length pad) # v @ pad @ post)"
    and 3: "zm = (pre @ len_text (length k) @ k) @ len_text (length v) @ (word_of_nat (length pad) # v @ pad @ post)"
    and 4: "zm = (pre @ len_text (length k) @ k @ len_text (length v)) @ word_of_nat (length pad) # (v @ pad @ post)"
    and 5: "zm = (pre @ len_text (length k) @ k @ len_text (length v) @ [word_of_nat (length pad)]) @ v @ (pad @ post)"
    using assms(1) by (simp_all add: entry_text_def)
  show "byte_at zm p = Some (hd (len_text (length k)))"
    unfolding 1 using assms(4) by (cases "len_text (length k)") (auto simp: byte_at_def)
  show "zipmapDecodeLength zm p = Some (length k)" unfolding 1 by (rule decode_len [OF k assms(4)])
  show "mem_read zm (p + ?L (length k)) (length k) = Some k" unfolding 2 by (rule mem_read_mid) (simp_all add: assms(4))
  show "zipmapDecodeLength zm (p + (?L (length k) + length k)) = Some (length v)"
    unfolding 3 by (rule decode_len [OF v]) (simp add: assms(4))
  show "byte_at zm (p + (?L (length k) + length k) + ?L (length v)) = Some (word_of_nat (length pad))"
    unfolding 4 by (simp add: assms(4) byte_at_def nth_append)
  show "mem_read zm (p + (?L (length k) + length k) + ?L (length v) + 1) (length v) = Some v"
    unfolding 5 by (rule mem_read_mid) (simp_all add: assms(4))
qed

lemma lookup_end:
  assumes "zm = pre @ 255 # post" "length pre < 2 ^ 32"
  shows "zipmapLookupRaw_loop zm key tot (length pre) k = Some (k, length pre + 1)"
  using assms by (subst zipmapLookupRaw_loop.simps) (simp add: byte_at_def cast_u_int)

lemma lookup_entry:
  assumes "zm = pre @ entry_text (k, v, pad) @ post" "length zm < 2 ^ 32" "length pad < 4"
  shows "zipmapLookupRaw_loop zm key tot (length pre) r =
    (if key = Some k \<and> r = None
     then if tot then zipmapLookupRaw_loop zm key tot (length (pre @ entry_text (k, v, pad))) (Some (length pre))
          else Some (Some (length pre), 0)
     else zipmapLookupRaw_loop zm key tot (length (pre @ entry_text (k, v, pad))) r)"
proof -
  note L = entry_text_layout [OF assms refl]
  have k: "length k < 2 ^ 32" using assms(1,2) by simp
  note h = hd_len_text [OF k]
  have pad: "unat (word_of_nat (length pad) :: byte) = length pad" using assms(3) by (simp add: unat_small)
  show ?thesis
    by (subst zipmapLookupRaw_loop.simps) (use L h pad in \<open>auto simp: Let_def add_ac split: option.splits\<close>)
qed

lemma pads_ok_simps [simp]: "pads_ok []" "pads_ok (e # es) \<longleftrightarrow> length (snd (snd e)) < 4 \<and> pads_ok es"
  "pads_ok (es @ fs) \<longleftrightarrow> pads_ok es \<and> pads_ok fs"
  by (auto simp: pads_ok_def)

lemma lookup_skip:
  assumes "pads_ok es" "key = None \<or> r \<noteq> None \<or> the key \<notin> fst ` set es"
    "zm = pre @ entries_text es @ post" "length zm < 2 ^ 32"
  shows "zipmapLookupRaw_loop zm key tot (length pre) r = zipmapLookupRaw_loop zm key tot (length (pre @ entries_text es)) r"
  using assms
proof (induction es arbitrary: pre)
  case Nil
  then show ?case by simp
next
  case (Cons e es)
  obtain k v pad where e: "e = (k, v, pad)" by (cases e)
  have "zipmapLookupRaw_loop zm key tot (length pre) r = zipmapLookupRaw_loop zm key tot (length (pre @ entry_text e)) r"
    using lookup_entry [of zm pre k v pad "entries_text es @ post" key tot r] Cons.prems e by (auto split: if_splits)
  also have "\<dots> = zipmapLookupRaw_loop zm key tot (length ((pre @ entry_text e) @ entries_text es)) r"
    by (rule Cons.IH) (use Cons.prems e in auto)
  finally show ?case by (simp add: e)
qed

lemma lookup_absent:
  assumes "pads_ok es" "key = None \<or> the key \<notin> fst ` set es" "zm = c # entries_text es @ [255]" "length zm < 2 ^ 32"
  shows "zipmapLookupRaw zm key tot = Some (None, length zm)"
proof -
  have zm: "zm = [c] @ entries_text es @ [255]" using assms(3) by simp
  have "zipmapLookupRaw zm key tot = zipmapLookupRaw_loop zm key tot (length [c]) None" by (simp add: zipmapLookupRaw_def)
  also have "\<dots> = zipmapLookupRaw_loop zm key tot (length ([c] @ entries_text es)) None"
    by (rule lookup_skip [OF assms(1) _ zm assms(4)]) (use assms(2) in auto)
  also have "\<dots> = Some (None, length ([c] @ entries_text es) + 1)"
    by (rule lookup_end [of _ _ "[]"]) (use assms(3,4) in auto)
  finally show ?thesis using assms(3) by simp
qed

lemma lookup_present:
  assumes "pads_ok (es @ (k, v, pad) # fs)" "k \<notin> fst ` set es" "zm = c # entries_text (es @ (k, v, pad) # fs) @ [255]"
    "length zm < 2 ^ 32"
  shows "zipmapLookupRaw zm (Some k) tot = Some (Some (length (c # entries_text es)), if tot then length zm else 0)"
proof -
  let ?e = "(k, v, pad)" let ?p = "length ([c] @ entries_text es)"
  have zm: "zm = [c] @ entries_text es @ entry_text ?e @ entries_text fs @ [255]"
    "zm = ([c] @ entries_text es) @ entry_text ?e @ entries_text fs @ [255]"
    "zm = ([c] @ entries_text es @ entry_text ?e) @ entries_text fs @ [255]"
    "zm = ([c] @ entries_text es @ entry_text ?e @ entries_text fs) @ 255 # []" using assms(3) by simp_all
  have pads: "pads_ok es" "length pad < 4" "pads_ok fs" using assms(1) by simp_all
  have "zipmapLookupRaw zm (Some k) tot = zipmapLookupRaw_loop zm (Some k) tot (length [c]) None" by (simp add: zipmapLookupRaw_def)
  also have "\<dots> = zipmapLookupRaw_loop zm (Some k) tot ?p None"
    by (rule lookup_skip [OF pads(1) _ zm(1) assms(4)]) (use assms(2) in auto)
  also have "\<dots> = (if tot then zipmapLookupRaw_loop zm (Some k) tot (length ([c] @ entries_text es @ entry_text ?e)) (Some ?p)
      else Some (Some ?p, 0))"
    using lookup_entry [OF zm(2) assms(4) pads(2), of "Some k" tot None] by simp
  also have "zipmapLookupRaw_loop zm (Some k) tot (length ([c] @ entries_text es @ entry_text ?e)) (Some ?p) =
      zipmapLookupRaw_loop zm (Some k) tot (length (([c] @ entries_text es @ entry_text ?e) @ entries_text fs)) (Some ?p)"
    by (rule lookup_skip [OF pads(3) _ zm(3) assms(4)]) auto
  also have "\<dots> = zipmapLookupRaw_loop zm (Some k) tot (length ([c] @ entries_text es @ entry_text ?e @ entries_text fs)) (Some ?p)"
    by (simp add: add_ac)
  also have "\<dots> = Some (Some ?p, length ([c] @ entries_text es @ entry_text ?e @ entries_text fs) + 1)"
    by (rule lookup_end [OF zm(4)]) (use assms(4) zm(1) in simp)
  finally show ?thesis using zm(1) by simp
qed

lemma entry_length:
  assumes "zm = pre @ entry_text (k, v, pad) @ post" "length zm < 2 ^ 32" "length pad < 4" "p = length pre"
  shows "zipmapRawKeyLength zm p = Some (ZIPMAP_LEN_BYTES (length k) + length k)"
    and "zipmapRawValueLength zm (p + (ZIPMAP_LEN_BYTES (length k) + length k)) =
           Some (ZIPMAP_LEN_BYTES (length v) + 1 + length v + length pad)"
    and "zipmapRawEntryLength zm p = Some (length (entry_text (k, v, pad)))"
proof -
  note L = entry_text_layout [OF assms]
  have n: "int (ZIPMAP_LEN_BYTES (length k)) + int (length k) + int (ZIPMAP_LEN_BYTES (length v)) + 1 + int (length v) + int (length pad) < 2 ^ 32"
    using assms(1,2) by simp
  have pad: "uint (word_of_nat (length pad) :: byte) = int (length pad)" using unat_small [of "length pad"] assms(3) by (simp only: uint_nat)
  show 1: "zipmapRawKeyLength zm p = Some (ZIPMAP_LEN_BYTES (length k) + length k)"
    using L(2) n by (simp add: zipmapRawKeyLength_def cast_u_id nat_add_distrib)
  show 2: "zipmapRawValueLength zm (p + (ZIPMAP_LEN_BYTES (length k) + length k)) =
           Some (ZIPMAP_LEN_BYTES (length v) + 1 + length v + length pad)"
    using L(4,5) pad n by (simp add: zipmapRawValueLength_def Let_def cast_u_id nat_add_distrib)
  show "zipmapRawEntryLength zm p = Some (length (entry_text (k, v, pad)))"
    using 1 2 n by (simp add: zipmapRawEntryLength_def cast_u_id nat_add_distrib)
qed

lemma required_length:
  "length (entry_text (k, v, [])) < 2 ^ 32 \<Longrightarrow> zipmapRequiredLength (length k) (length v) = length (entry_text (k, v, []))"
  by (auto simp: zipmapRequiredLength_def ZIPMAP_LEN_BYTES_def Let_def cast_u_id nat_add_distrib split: if_splits)

lemma split_at:
  assumes "length xs = n + m"
  obtains a r where "xs = a @ r" "length a = n" "length r = m"
  using assms append_take_drop_id [of n xs, symmetric] by (intro that [of "take n xs" "drop n xs"]) simp_all

lemma entry_blocks:
  assumes "length blk = length (entry_text (k, v, [])) + n"
  obtains a b c d e pad where "blk = a @ b @ c @ [d] @ e @ pad" "length a = ZIPMAP_LEN_BYTES (length k)" "length b = length k"
    "length c = ZIPMAP_LEN_BYTES (length v)" "length e = length v" "length pad = n"
proof -
  let ?L = "ZIPMAP_LEN_BYTES"
  obtain a r where 1: "blk = a @ r" "length a = ?L (length k)" "length r = length k + (?L (length v) + (1 + (length v + n)))"
    by (rule split_at) (use assms in auto)
  obtain b r1 where 2: "r = b @ r1" "length b = length k" "length r1 = ?L (length v) + (1 + (length v + n))" by (rule split_at [OF 1(3)])
  obtain c r2 where 3: "r1 = c @ r2" "length c = ?L (length v)" "length r2 = 1 + (length v + n)" by (rule split_at [OF 2(3)])
  obtain d r3 where 4: "r2 = d # r3" "length r3 = length v + n" using 3(3) by (cases r2) auto
  obtain e pad where 5: "r3 = e @ pad" "length e = length v" "length pad = n" by (rule split_at [OF 4(2)])
  show ?thesis by (rule that [of a b c d e pad]) (use 1 2 3 4 5 in simp_all)
qed

lemma write_entry:
  assumes "length blk = length (entry_text (k, v, [])) + n" "p = length pre"
  shows "\<exists>pad. length pad = n \<and> zipmapSet_write (pre @ blk @ post) p k v n = Some (pre @ entry_text (k, v, pad) @ post)"
proof -
  let ?L = "ZIPMAP_LEN_BYTES"
  obtain a b c d e pad where blk: "blk = a @ b @ c @ [d] @ e @ pad" and len: "length a = ?L (length k)" "length b = length k"
      "length c = ?L (length v)" "length e = length v" "length pad = n" by (rule entry_blocks [OF assms(1)])
  let ?d = "word_of_nat n :: byte"
  have 1: "zipmapEncodeLength (pre @ a @ (b @ c @ [d] @ e @ pad @ post)) p (length k) =
      Some (pre @ len_text (length k) @ (b @ c @ [d] @ e @ pad @ post), ?L (length k))" by (rule encode_len) (use assms len in auto)
  have 2: "mem_write ((pre @ len_text (length k)) @ b @ (c @ [d] @ e @ pad @ post)) (p + ?L (length k)) k =
      Some ((pre @ len_text (length k)) @ k @ (c @ [d] @ e @ pad @ post))" by (rule mem_write_mid) (use assms len in auto)
  have 3: "zipmapEncodeLength ((pre @ len_text (length k) @ k) @ c @ ([d] @ e @ pad @ post)) (p + ?L (length k) + length k) (length v) =
      Some ((pre @ len_text (length k) @ k) @ len_text (length v) @ ([d] @ e @ pad @ post), ?L (length v))"
    by (rule encode_len) (use assms len in auto)
  have 4: "mem_write ((pre @ len_text (length k) @ k @ len_text (length v)) @ [d] @ (e @ pad @ post))
      (p + ?L (length k) + length k + ?L (length v)) [?d] =
      Some ((pre @ len_text (length k) @ k @ len_text (length v)) @ [?d] @ (e @ pad @ post))" by (rule mem_write_mid) (use assms len in auto)
  have 5: "mem_write ((pre @ len_text (length k) @ k @ len_text (length v) @ [?d]) @ e @ (pad @ post))
      (p + ?L (length k) + length k + ?L (length v) + 1) v =
      Some ((pre @ len_text (length k) @ k @ len_text (length v) @ [?d]) @ v @ (pad @ post))" by (rule mem_write_mid) (use assms len in auto)
  show ?thesis using 1 2 3 4 5 len(5) by (auto simp: zipmapSet_write_def blk entry_text_def Let_def)
qed

lemma resize_grow:
  assumes "length zm = n" "0 < m"
  shows "\<exists>js. length js = m - 1 \<and> zipmapResize fill zm (n + m) = Some (zm @ js @ [255])"
proof -
  obtain js j where js: "map fill [n..<n + m] = js @ [j]" using assms(2) by (cases "map fill [n..<n + m]" rule: rev_cases) auto
  then have l: "length js = m - 1" by (metis add_diff_cancel_left' butlast_snoc length_butlast length_map length_upt)
  have "mem_write ((zm @ js) @ [j]) (n + m - 1) [255] = Some ((zm @ js) @ [255])"
    by (rule mem_write_mid_end) (use assms l in auto)
  then show ?thesis using l js assms(1) by (auto simp: zipmapResize_def drealloc_grow)
qed

lemma resize_shrink:
  assumes "length xs + 1 = n"
  shows "zipmapResize fill (xs @ x # ys) n = Some (xs @ [255])"
proof -
  have "mem_write (xs @ [x]) (n - 1) [255] = Some (xs @ [255])" by (rule mem_write_mid_end) (use assms in auto)
  moreover have "take n (xs @ x # ys) = xs @ [x]" using assms by (auto simp: take_Cons')
  ultimately show ?thesis using assms by (simp add: zipmapResize_def drealloc_shrink)
qed

text \<open>The three ways the entry at \<open>p\<close> gets room of the right size.\<close>

lemma room_new:
  assumes "zm = pre @ [255]" "length zm = n" "0 < req"
  shows "\<exists>blk. length blk = req \<and> zipmapResize fill zm (n + req) = Some (pre @ blk @ [255])"
proof -
  obtain js where "length js = req - 1" "zipmapResize fill zm (n + req) = Some (zm @ js @ [255])"
    using resize_grow [OF assms(2,3)] by blast
  then show ?thesis using assms by (intro exI [of _ "255 # js"]) auto
qed

lemma room_grow:
  assumes "zm = pre @ old @ rest @ [255]" "length zm = n" "length old < req"
  shows "\<exists>zm1 blk. length blk = req \<and> zipmapResize fill zm (n - length old + req) = Some zm1 \<and>
           memmove zm1 (length pre + req) (length pre + length old) (length rest) = Some (pre @ blk @ rest @ [255])"
proof -
  have n: "n - length old + req = n + (req - length old)" using assms by simp
  obtain js where js: "length js = req - length old - 1"
    "zipmapResize fill zm (n + (req - length old)) = Some (zm @ js @ [255])"
    using resize_grow [OF assms(2), of "req - length old" fill] assms(3) by auto
  obtain g h where gh: "rest @ [255] @ js = g @ h" "length g = req - length old" "length h = length rest"
    by (rule split_at [of "rest @ [255] @ js" "req - length old" "length rest"]) (use js(1) assms(3) in auto)
  have z: "zm @ js @ [255] = (pre @ old) @ rest @ ([255] @ js @ [255])" "zm @ js @ [255] = (pre @ old @ g) @ h @ [255]"
    using assms(1) gh(1) by simp_all
  have "mem_read (zm @ js @ [255]) (length pre + length old) (length rest) = Some rest"
    unfolding z(1) by (rule mem_read_mid) auto
  moreover have "mem_write (zm @ js @ [255]) (length pre + req) rest = Some ((pre @ old @ g) @ rest @ [255])"
    unfolding z(2) by (rule mem_write_mid) (use gh assms(3) in auto)
  ultimately have "memmove (zm @ js @ [255]) (length pre + req) (length pre + length old) (length rest) = Some (pre @ (old @ g) @ rest @ [255])"
    by (simp add: memmove_def)
  moreover have "length (old @ g) = req" using gh assms(3) by simp
  ultimately show ?thesis using js(2) unfolding n by blast
qed

lemma room_shrink:
  assumes "zm = pre @ old @ rest @ [255]" "length zm = n" "req \<le> length old"
  shows "\<exists>zm1 blk. length blk = req \<and> memmove zm (length pre + req) (length pre + length old) (length rest) = Some zm1 \<and>
           zipmapResize fill zm1 (n - (length old - req)) = Some (pre @ blk @ rest @ [255])"
proof -
  obtain a b where ab: "old = a @ b" "length a = req" "length b = length old - req" by (rule split_at [of old req "length old - req"]) (use assms(3) in simp)
  obtain g h where gh: "b @ rest = g @ h" "length g = length rest" "length h = length b"
    by (rule split_at [of "b @ rest" "length rest" "length b"]) auto
  have z: "zm = (pre @ old) @ rest @ [255]" "zm = (pre @ a) @ g @ (h @ [255])" using assms(1) ab(1) gh(1) by simp_all
  have "mem_read zm (length pre + length old) (length rest) = Some rest" unfolding z(1) by (rule mem_read_mid) auto
  moreover have "mem_write zm (length pre + req) rest = Some ((pre @ a) @ rest @ (h @ [255]))"
    unfolding z(2) by (rule mem_write_mid) (use gh(2) ab(2) in simp_all)
  ultimately have m: "memmove zm (length pre + req) (length pre + length old) (length rest) = Some ((pre @ a) @ rest @ (h @ [255]))"
    by (simp add: memmove_def)
  obtain x xs where x: "h @ [255] = x # xs" by (cases "h @ [255]") auto
  have "zipmapResize fill ((pre @ a @ rest) @ x # xs) (n - (length old - req)) = Some ((pre @ a @ rest) @ [255])"
    by (rule resize_shrink) (use assms ab(2,3) in simp)
  then have "zipmapResize fill ((pre @ a) @ rest @ (h @ [255])) (n - (length old - req)) = Some (pre @ a @ rest @ [255])" using x by simp
  then show ?thesis using m ab(2) by blast
qed

lemma len_set_byte:
  assumes "c \<le> 254" "c < 254 \<Longrightarrow> f c < 256"
  shows "zm_len_set (word_of_nat c # xs) f = Some (word_of_nat (if c < 254 then f c else c) # xs)"
  using assms by (simp add: zm_len_set_def byte_at_def byte_put_def unat_small)

lemma zipmap_okD:
  assumes "zipmap_ok zm c es"
  shows "zm = word_of_nat c # entries_text es @ [255]" "length zm < 2 ^ 32" "distinct (map fst es)" "pads_ok es" "c \<le> 254"
    "c < 254 \<Longrightarrow> c = length es"
  using assms unfolding zipmap_ok_def by blast+

lemma zipmapSet_new:
  assumes ok: "zipmap_ok zm c es" and k: "k \<notin> fst ` set es" and room: "length zm + length (entry_text (k, v, [])) < 2 ^ 32"
  shows "\<exists>zm' c'. zipmapSet fill zm k v = Some (zm', False) \<and> zipmap_ok zm' c' (es @ [(k, v, [])]) \<and>
           length zm' = length zm + length (entry_text (k, v, []))"
proof -
  note Z = zipmap_okD [OF ok]
  let ?req = "length (entry_text (k, v, []))"
  define c1 where "c1 = (if c < 254 then c + 1 else c)"
  have req: "zipmapRequiredLength (length k) (length v) = ?req" by (rule required_length) (use room in simp)
  have look: "zipmapLookupRaw zm (Some k) True = Some (None, length zm)" by (rule lookup_absent) (use Z k in auto)
  obtain blk where blk: "length blk = ?req" "zipmapResize fill zm (length zm + ?req) = Some ((word_of_nat c # entries_text es) @ blk @ [255])"
    using room_new [of zm "word_of_nat c # entries_text es" "length zm" ?req fill] Z(1) by auto
  obtain pad where pad: "length pad = 0" "zipmapSet_write ((word_of_nat c1 # entries_text es) @ blk @ [255]) (length zm - 1) k v 0 =
      Some ((word_of_nat c1 # entries_text es) @ entry_text (k, v, pad) @ [255])"
    using write_entry [of blk k v 0 "length zm - 1" "word_of_nat c1 # entries_text es" "[255]"] blk(1) Z(1) by auto
  have cs: "cast_u 32 (int (length zm) + int ?req) = length zm + ?req" "cast_u 32 (int ?req - int ?req) = 0"
    using room by (simp_all add: cast_u_def)
  have ls: "zm_len_set ((word_of_nat c # entries_text es) @ blk @ [255]) (\<lambda>c. c + 1) = Some ((word_of_nat c1 # entries_text es) @ blk @ [255])"
    using len_set_byte [of c "\<lambda>c. c + 1" "entries_text es @ blk @ [255]"] Z(5) by (simp add: c1_def)
  have "zipmapSet fill zm k v = Some ((word_of_nat c1 # entries_text es) @ entry_text (k, v, pad) @ [255], False)"
    unfolding zipmapSet_def Let_def req
    by (simp only: look cs blk(2) ls pad(2) bind.bind_lunit split option.case) (simp add: pad(2) [simplified])
  moreover have "zipmap_ok ((word_of_nat c1 # entries_text es) @ entry_text (k, v, pad) @ [255]) c1 (es @ [(k, v, [])])"
    using Z k room pad(1) by (auto simp: zipmap_ok_def c1_def)
  ultimately show ?thesis using Z(1) pad(1) by (intro exI conjI) auto
qed

text \<open>An entry at its place in the whole zipmap.\<close>

lemma zipmap_at:
  assumes ok: "zipmap_ok zm c (es @ (k, v, pad) # fs)"
  defines "pre \<equiv> word_of_nat c # entries_text es" and "rest \<equiv> entries_text fs"
  shows "zm = pre @ entry_text (k, v, pad) @ rest @ [255]"
    and "zipmapLookupRaw zm (Some k) tot = Some (Some (length pre), if tot then length zm else 0)"
    and "zipmapRawKeyLength zm (length pre) = Some (ZIPMAP_LEN_BYTES (length k) + length k)"
    and "zipmapRawEntryLength zm (length pre) = Some (length (entry_text (k, v, pad)))"
    and "length zm = length pre + length (entry_text (k, v, pad)) + length rest + 1" and "length pad < 4"
proof -
  note Z = zipmap_okD [OF ok]
  show 1: "zm = pre @ entry_text (k, v, pad) @ rest @ [255]" using Z(1) by (simp add: pre_def rest_def)
  show "zipmapLookupRaw zm (Some k) tot = Some (Some (length pre), if tot then length zm else 0)"
    unfolding pre_def by (rule lookup_present) (use Z in auto)
  show p: "length pad < 4" using Z(4) by simp
  show "zipmapRawKeyLength zm (length pre) = Some (ZIPMAP_LEN_BYTES (length k) + length k)"
    "zipmapRawEntryLength zm (length pre) = Some (length (entry_text (k, v, pad)))"
    by (rule entry_length [OF 1 Z(2) p refl])+
  show "length zm = length pre + length (entry_text (k, v, pad)) + length rest + 1" using 1 by simp
qed

lemma zipmap_ok_replace:
  assumes "zipmap_ok zm c (es @ (k, v0, pad0) # fs)" "length pad < 4"
    "length zm + length (entry_text (k, v, pad)) < 2 ^ 32 + length (entry_text (k, v0, pad0))"
  shows "zipmap_ok ((word_of_nat c # entries_text es) @ entry_text (k, v, pad) @ entries_text fs @ [255]) c (es @ (k, v, pad) # fs)"
  using zipmap_okD [OF assms(1)] assms(2,3) by (auto simp: zipmap_ok_def)

lemma zipmapSet_found:
  assumes ok: "zipmap_ok zm c (es @ (k, v0, pad0) # fs)" and room: "length zm + length (entry_text (k, v, [])) < 2 ^ 32"
  shows "\<exists>zm' pad. zipmapSet fill zm k v = Some (zm', True) \<and> zipmap_ok zm' c (es @ (k, v, pad) # fs) \<and>
           length zm' \<le> length zm + length (entry_text (k, v, []))"
proof -
  note Z = zipmap_okD(2) [OF ok] and A = zipmap_at [OF ok]
  define pre old rest where defs: "pre = word_of_nat c # entries_text es" "old = entry_text (k, v0, pad0)" "rest = entries_text fs"
  define req where "req = length (entry_text (k, v, []))"
  note A = A [folded defs]
  have req: "zipmapRequiredLength (length k) (length v) = req" unfolding req_def by (rule required_length) (use room in simp)
  have look: "zipmapLookupRaw zm (Some k) True = Some (Some (length pre), length zm)" using A(2) [of True] by simp
  have rest: "cast_u 32 (int (length zm) - (int (length pre) + int (length old) + 1)) = length rest"
    using A(5) Z by (simp add: cast_u_id)
  have W: "\<exists>pad. length pad = n \<and> zipmapSet_write (pre @ blk @ rest @ [255]) (length pre) k v n = Some (pre @ entry_text (k, v, pad) @ rest @ [255])"
    if "length blk = req + n" for blk n using write_entry [of blk k v n] that req_def by simp
  consider (grow) "length old < req" | (keep) "req \<le> length old" "length old - req < 4" | (shrink) "req + 4 \<le> length old" by linarith
  then have "\<exists>pad. length pad < 4 \<and> zipmapSet fill zm k v = Some (pre @ entry_text (k, v, pad) @ rest @ [255], True) \<and>
     (length pad = 0 \<or> req + length pad = length old)"
  proof cases
    case grow
    obtain zm1 blk where g: "length blk = req" "zipmapResize fill zm (length zm - length old + req) = Some zm1"
      "memmove zm1 (length pre + req) (length pre + length old) (length rest) = Some (pre @ blk @ rest @ [255])"
      using room_grow [OF A(1) refl grow, of fill] by blast
    obtain pad where "length pad = 0" "zipmapSet_write (pre @ blk @ rest @ [255]) (length pre) k v 0 = Some (pre @ entry_text (k, v, pad) @ rest @ [255])"
      using W [of blk 0] g(1) by auto
    moreover have "cast_u 32 (int (length zm) - int (length old) + int req) = length zm - length old + req"
      "cast_u 32 (int req - int req) = 0" using A(5) room by (simp_all add: req_def cast_u_def)
    ultimately show ?thesis using grow g look rest A(4) by (intro exI [of _ pad]) (simp add: zipmapSet_def req)
  next
    case keep
    define n where "n = length old - req"
    obtain pad where "length pad = n" "zipmapSet_write (pre @ old @ rest @ [255]) (length pre) k v n = Some (pre @ entry_text (k, v, pad) @ rest @ [255])"
      using W [of old n] keep(1) n_def by auto
    moreover have "cast_u 32 (int (length old) - int req) = n" using keep n_def by (simp add: cast_u_id)
    ultimately show ?thesis using keep n_def look A(4) A(1) by (intro exI [of _ pad]) (simp add: zipmapSet_def req)
  next
    case shrink
    obtain zm1 blk where g: "length blk = req" "memmove zm (length pre + req) (length pre + length old) (length rest) = Some zm1"
      "zipmapResize fill zm1 (length zm - (length old - req)) = Some (pre @ blk @ rest @ [255])"
      using room_shrink [OF A(1) refl, of req fill] shrink by auto
    obtain pad where "length pad = 0" "zipmapSet_write (pre @ blk @ rest @ [255]) (length pre) k v 0 = Some (pre @ entry_text (k, v, pad) @ rest @ [255])"
      using W [of blk 0] g(1) by auto
    moreover have "cast_u 32 (int (length old) - int req) = length old - req"
      using A(5) Z shrink by (simp add: cast_u_id)
    moreover have "cast_u 32 (int (length zm) - int (length old - req)) = length zm - (length old - req)"
      using A(5) Z by (simp add: cast_u_id)
    ultimately show ?thesis using g look rest A(4) le_diff_conv2 [of req "length old" 4] shrink
      by (intro exI [of _ pad]) (simp add: zipmapSet_def req Let_def)
  qed
  then obtain pad where P: "length pad < 4" "zipmapSet fill zm k v = Some (pre @ entry_text (k, v, pad) @ rest @ [255], True)"
     "length pad = 0 \<or> req + length pad = length old" by blast
  have l: "length (entry_text (k, v, pad)) = req + length pad" by (simp add: req_def)
  have "length zm + length (entry_text (k, v, pad)) < 2 ^ 32 + length old" unfolding l using P(3) room Z by (auto simp: req_def)
  from zipmap_ok_replace [OF ok P(1) this [unfolded defs]] P(2)
  show ?thesis using A(5) P(3) l by (intro exI [of _ pad] exI conjI) (auto simp: defs [symmetric] req_def [symmetric])
qed

lemma zipmapDel_absent:
  assumes "zipmap_ok zm c es" "k \<notin> fst ` set es"
  shows "zipmapDel fill zm k = Some (zm, False)"
  using lookup_absent [of es "Some k" zm _ True] zipmap_okD [OF assms(1)] assms(2) by (simp add: zipmapDel_def)

lemma zipmapDel_found:
  assumes ok: "zipmap_ok zm c (es @ (k, v, pad) # fs)"
  shows "\<exists>zm' c'. zipmapDel fill zm k = Some (zm', True) \<and> zipmap_ok zm' c' (es @ fs) \<and> length zm' \<le> length zm"
proof -
  note Z = zipmap_okD [OF ok] and A = zipmap_at [OF ok]
  define c1 where "c1 = (if c < 254 then c - 1 else c)"
  define pre old rest where defs: "pre = word_of_nat c # entries_text es" "old = entry_text (k, v, pad)" "rest = entries_text fs"
  note A = A [folded defs]
  obtain zm1 blk where g: "length blk = 0" "memmove zm (length pre + 0) (length pre + length old) (length rest) = Some zm1"
      "zipmapResize fill zm1 (length zm - (length old - 0)) = Some (pre @ blk @ rest @ [255])"
    using room_shrink [OF A(1) refl, of 0 fill] by auto
  have look: "zipmapLookupRaw zm (Some k) True = Some (Some (length pre), length zm)" using A(2) [of True] by simp
  have cs: "cast_u 32 (int (length zm) - (int (length pre) + int (length old) + 1)) = length rest"
    "cast_u 32 (int (length zm) - int (length old)) = length zm - length old"
    using A(5) Z(2) by (simp_all add: cast_u_id)
  have ls: "zm_len_set (pre @ rest @ [255]) (\<lambda>c. c - 1) = Some (word_of_nat c1 # entries_text es @ rest @ [255])"
    using len_set_byte [of c "\<lambda>c. c - 1" "entries_text es @ rest @ [255]"] Z(5) by (simp add: defs c1_def)
  have "zipmapDel fill zm k = Some (word_of_nat c1 # entries_text es @ rest @ [255], True)"
    using g look cs A(4) ls by (simp add: zipmapDel_def)
  moreover have "zipmap_ok (word_of_nat c1 # entries_text es @ rest @ [255]) c1 (es @ fs)"
    using Z A(5) by (auto simp: zipmap_ok_def defs c1_def)
  ultimately show ?thesis using A(5) by (intro exI conjI) (auto simp: defs)
qed

lemma zipmapGet_found:
  assumes ok: "zipmap_ok zm c (es @ (k, v, pad) # fs)"
  shows "\<exists>p. zipmapGet zm k = Some (Some (p, length v)) \<and> mem_read zm p (length v) = Some v"
proof -
  note A = zipmap_at [OF ok]
  note L = entry_text_layout [OF A(1) zipmap_okD(2) [OF ok] A(6) refl]
  show ?thesis using A(2) [of False] A(3) L(4,6) by (simp add: zipmapGet_def)
qed

lemma zipmapGet_absent:
  assumes "zipmap_ok zm c es" "k \<notin> fst ` set es"
  shows "zipmapGet zm k = Some None"
  using lookup_absent [of es "Some k" zm _ False] zipmap_okD [OF assms(1)] assms(2) by (simp add: zipmapGet_def)

section \<open>A zipmap is a map\<close>

definition zipmap_repr :: "byte list \<Rightarrow> (byte list \<Rightarrow> byte list option) \<Rightarrow> bool" where
  "zipmap_repr zm m \<longleftrightarrow> (\<exists>c es. zipmap_ok zm c es \<and> m = zipmap_map es)"

text \<open>The operations with the shape of the interface: whether the key is new, and the bytes of the value.\<close>

definition zipmap_put :: "fill \<Rightarrow> byte list \<Rightarrow> byte list \<Rightarrow> byte list \<Rightarrow> (byte list \<times> bool) option" where
  "zipmap_put fill zm k v = do { (zm', update) \<leftarrow> zipmapSet fill zm k v; Some (zm', \<not> update) }"

definition zipmap_get :: "byte list \<Rightarrow> byte list \<Rightarrow> byte list option option" where
  "zipmap_get zm k = do {
     r \<leftarrow> zipmapGet zm k;
     case r of None \<Rightarrow> Some None | Some (p, n) \<Rightarrow> do { bs \<leftarrow> mem_read zm p n; Some (Some bs) }
   }"

definition zipmap_cost :: "byte list \<Rightarrow> byte list \<Rightarrow> nat" where
  "zipmap_cost k v = length (entry_text (k, v, []))"

lemma map_of_absent: "k \<notin> fst ` set es \<Longrightarrow> map_of es k = None"
  by (simp add: map_of_eq_None_iff)

lemma key_cases:
  assumes "distinct (map fst es)"
  obtains (absent) "k \<notin> fst ` set es" "zipmap_map es k = None"
  | (found) es1 v pad es2 where "es = es1 @ (k, v, pad) # es2" "k \<notin> fst ` set es1" "k \<notin> fst ` set es2" "zipmap_map es k = Some v"
proof (cases "k \<in> fst ` set es")
  case True
  then obtain vp where "(k, vp) \<in> set es" by auto
  then obtain es1 es2 where es: "es = es1 @ (k, vp) # es2" by (meson split_list)
  obtain v pad where "vp = (v, pad)" by (cases vp)
  then show ?thesis using es assms found [of es1 v pad es2] by (auto simp: zipmap_map_def map_of_absent map_add_def)
next
  case False
  then show ?thesis using absent by (simp add: zipmap_map_def map_of_absent)
qed

lemma zipmap_map_simps:
  "k \<notin> fst ` set es \<Longrightarrow> zipmap_map (es @ [(k, v, pad)]) = (zipmap_map es)(k \<mapsto> v)"
  "k \<notin> fst ` set es \<Longrightarrow> zipmap_map (es @ (k, v, pad) # fs) = (zipmap_map (es @ (k, v0, pad0) # fs))(k \<mapsto> v)"
  "k \<notin> fst ` set es \<Longrightarrow> k \<notin> fst ` set fs \<Longrightarrow> zipmap_map (es @ fs) = (zipmap_map (es @ (k, v, pad) # fs))(k := None)"
  by (auto simp: zipmap_map_def map_add_def map_of_absent fun_eq_iff split: option.splits)

interpretation zipmaps: map_impl zipmap_repr "(=)" id "zipmap_put fill" "zipmapDel fill" zipmap_get length zipmap_cost "2 ^ 32 - 1"
  for fill
proof
  fix zm m k v
  assume "zipmap_repr zm m"
  then obtain c es where ok: "zipmap_ok zm c es" and m: "m = zipmap_map es" by (auto simp: zipmap_repr_def)
  note d = zipmap_okD(3) [OF ok]
  show "\<exists>zm'. zipmap_put fill zm k v = Some (zm', m k = None) \<and> zipmap_repr zm' (map_upd (=) m k (Some (id v))) \<and>
     length zm' \<le> length zm + zipmap_cost k v" if "length zm + zipmap_cost k v \<le> 2 ^ 32 - 1"
    using d
  proof (cases rule: key_cases [of es k])
    case absent
    from that have room: "length zm + length (entry_text (k, v, [])) < 2 ^ 32" by (simp add: zipmap_cost_def)
    obtain zm' c' where "zipmapSet fill zm k v = Some (zm', False)" "zipmap_ok zm' c' (es @ [(k, v, [])])"
      "length zm' = length zm + length (entry_text (k, v, []))" using zipmapSet_new [OF ok absent(1) room] by blast
    then show ?thesis using absent m zipmap_map_simps(1) [OF absent(1), of v "[]"]
      by (auto simp: zipmap_put_def zipmap_repr_def zipmap_cost_def map_upd_def fun_eq_iff intro!: exI)
  next
    case (found es1 v0 pad0 es2)
    from that have room: "length zm + length (entry_text (k, v, [])) < 2 ^ 32" by (simp add: zipmap_cost_def)
    obtain zm' pad where "zipmapSet fill zm k v = Some (zm', True)" "zipmap_ok zm' c (es1 @ (k, v, pad) # es2)"
      "length zm' \<le> length zm + length (entry_text (k, v, []))" using zipmapSet_found [OF ok [unfolded found(1)] room] by blast
    then show ?thesis using found(4) m zipmap_map_simps(2) [OF found(2), of v pad es2 v0 pad0] found(1)
      by (auto simp: zipmap_put_def zipmap_repr_def zipmap_cost_def map_upd_def fun_eq_iff intro!: exI)
  qed
  show "\<exists>zm'. zipmapDel fill zm k = Some (zm', m k \<noteq> None) \<and> zipmap_repr zm' (map_upd (=) m k None) \<and> length zm' \<le> length zm"
    using d
  proof (cases rule: key_cases [of es k])
    case absent
    then have "map_upd (=) m k None = m" using m by (auto simp: map_upd_def fun_eq_iff)
    then show ?thesis using zipmapDel_absent [OF ok absent(1)] absent(2) m ok by (auto simp: zipmap_repr_def)
  next
    case (found es1 v0 pad0 es2)
    obtain zm' c' where "zipmapDel fill zm k = Some (zm', True)" "zipmap_ok zm' c' (es1 @ es2)" "length zm' \<le> length zm"
      using zipmapDel_found [OF ok [unfolded found(1)]] by blast
    then show ?thesis using found(4) m zipmap_map_simps(3) [OF found(2,3), of v0 pad0] found(1)
      by (auto simp: zipmap_repr_def map_upd_def fun_eq_iff intro!: exI)
  qed
  show "zipmap_get zm k = Some (m k)" using d
  proof (cases rule: key_cases [of es k])
    case absent
    then show ?thesis using zipmapGet_absent [OF ok absent(1)] m by (simp add: zipmap_get_def)
  next
    case (found es1 v0 pad0 es2)
    then show ?thesis using zipmapGet_found [OF ok [unfolded found(1)]] m by (auto simp: zipmap_get_def)
  qed
qed

section \<open>Walking a zipmap\<close>

lemma next_end: "zipmapNext (pre @ 255 # post) (length pre) = Some None"
  by (simp add: zipmapNext_def byte_at_def)

lemma next_entry:
  assumes "zm = pre @ entry_text (k, v, pad) @ post" "length zm < 2 ^ 32" "length pad < 4"
  shows "\<exists>kp vp. zipmapNext zm (length pre) = Some (Some (length (pre @ entry_text (k, v, pad)), (kp, length k), (vp, length v))) \<and>
           mem_read zm kp (length k) = Some k \<and> mem_read zm vp (length v) = Some v"
proof -
  note L = entry_text_layout [OF assms refl] and E = entry_length [OF assms refl]
  have k: "length k < 2 ^ 32" using assms(1,2) by simp
  note h = hd_len_text [OF k]
  let ?L = "ZIPMAP_LEN_BYTES"
  have "length pre + (?L (length k) + length k) + 1 + ?L (length v) = length pre + (?L (length k) + length k) + ?L (length v) + 1" by simp
  then have vr: "mem_read zm (length pre + (?L (length k) + length k) + 1 + ?L (length v)) (length v) = Some v" using L(6) by metis
  have "zipmapNext zm (length pre) = Some (Some (length (pre @ entry_text (k, v, pad)), (length pre + ?L (length k), length k),
      (length pre + (?L (length k) + length k) + 1 + ?L (length v), length v)))"
    using L(1,2,4) E(1,2) h by (simp add: zipmapNext_def Let_def)
  with L(3) vr show ?thesis by blast
qed

text \<open>The loop over a zipmap with \<open>zipmapRewind\<close> and \<open>zipmapNext\<close>, and the pairs it sees.\<close>

partial_function (option) zipmap_walk :: "byte list \<Rightarrow> nat \<Rightarrow> (byte list \<times> byte list) list \<Rightarrow> (byte list \<times> byte list) list option" where
  "zipmap_walk zm p acc = do {
     r \<leftarrow> zipmapNext zm p;
     case r of
       None \<Rightarrow> Some acc
     | Some (p', (kp, klen), (vp, vlen)) \<Rightarrow> do {
         k \<leftarrow> mem_read zm kp klen;
         v \<leftarrow> mem_read zm vp vlen;
         zipmap_walk zm p' (acc @ [(k, v)])
       }
   }"

lemma walk_entries:
  assumes "zm = pre @ entries_text es @ [255]" "length zm < 2 ^ 32" "pads_ok es"
  shows "zipmap_walk zm (length pre) acc = Some (acc @ map (\<lambda>(k, v, pad). (k, v)) es)"
    and "zipmapLen_loop zm (length pre) n = Some (n + length es)"
  using assms
proof (induction es arbitrary: pre acc n)
  case Nil
  { case 1 then show ?case using next_end [of pre "[]"] by (subst zipmap_walk.simps) simp }
  { case 2 then show ?case using next_end [of pre "[]"] by (subst zipmapLen_loop.simps) simp }
next
  case (Cons e es)
  obtain k v pad where e: "e = (k, v, pad)" by (cases e)
  { case 1
    have zm: "zm = pre @ entry_text (k, v, pad) @ (entries_text es @ [255])" "zm = (pre @ entry_text (k, v, pad)) @ entries_text es @ [255]"
      using 1(1) by (simp_all add: e)
    have IH: "zipmap_walk zm (length (pre @ entry_text (k, v, pad))) (acc @ [(k, v)]) = Some ((acc @ [(k, v)]) @ map (\<lambda>(k, v, pad). (k, v)) es)"
      by (rule Cons.IH(1) [OF zm(2) 1(2)]) (use 1(3) in simp)
    obtain kp vp where n: "zipmapNext zm (length pre) = Some (Some (length (pre @ entry_text (k, v, pad)), (kp, length k), (vp, length v)))"
       "mem_read zm kp (length k) = Some k" "mem_read zm vp (length v) = Some v"
      using next_entry [OF zm(1) 1(2)] 1(3) e by auto
    show ?case by (subst zipmap_walk.simps) (use n IH in \<open>simp add: e del: length_append\<close>) }
  { case 2
    have zm: "zm = pre @ entry_text (k, v, pad) @ (entries_text es @ [255])" "zm = (pre @ entry_text (k, v, pad)) @ entries_text es @ [255]"
      using 2(1) by (simp_all add: e)
    have IH: "zipmapLen_loop zm (length (pre @ entry_text (k, v, pad))) (n + 1) = Some (n + 1 + length es)"
      by (rule Cons.IH(2) [OF zm(2) 2(2)]) (use 2(3) in simp)
    obtain kp vp where n: "zipmapNext zm (length pre) = Some (Some (length (pre @ entry_text (k, v, pad)), (kp, length k), (vp, length v)))"
      using next_entry [OF zm(1) 2(2)] 2(3) e by auto
    show ?case by (subst zipmapLen_loop.simps) (use n IH in \<open>simp del: length_append\<close>) }
qed

lemma map_of_pairs: "map_of (map (\<lambda>(k, v, pad). (k, v)) es) = zipmap_map es"
  by (induction es) (auto simp: zipmap_map_def fun_eq_iff)

lemma card_dom_zipmap: "distinct (map fst es) \<Longrightarrow> card (dom (zipmap_map es)) = length es"
proof -
  assume "distinct (map fst es)"
  moreover have "dom (zipmap_map es) = dom (map_of es)" by (auto simp: zipmap_map_def)
  then have "dom (zipmap_map es) = set (map fst es)" by (simp add: dom_map_of_conv_image_fst)
  ultimately show ?thesis by (metis distinct_card length_map)
qed

lemma zipmapLen_count:
  assumes "zipmap_ok zm c es"
  shows "\<exists>zm' c'. zipmapLen zm = Some (zm', length es) \<and> zipmap_ok zm' c' es \<and> length zm' = length zm"
proof (cases "c < 254")
  case True
  then show ?thesis using zipmap_okD(1,6) [OF assms] assms by (simp add: zipmapLen_def byte_at_def unat_small) blast
next
  case False
  note Z = zipmap_okD [OF assms]
  have c: "c = 254" using False Z(5) by simp
  have w: "zipmapLen_loop zm zipmapRewind 0 = Some (length es)"
    using walk_entries(2) [of zm "[word_of_nat c]" es 0] Z by (simp add: zipmapRewind_def)
  show ?thesis
  proof (cases "length es < 254")
    case True
    then have "zipmapLen zm = Some (word_of_nat (length es) # entries_text es @ [255], length es)"
      using w Z(1) c by (simp add: zipmapLen_def byte_at_def byte_put_def)
    moreover have "zipmap_ok (word_of_nat (length es) # entries_text es @ [255]) (length es) es" using Z True by (auto simp: zipmap_ok_def)
    ultimately show ?thesis using Z(1) by (intro exI conjI) auto
  next
    case False
    then show ?thesis using w Z(1) c assms by (intro exI [of _ zm] exI [of _ c]) (simp add: zipmapLen_def byte_at_def)
  qed
qed

lemma zipmapNew_repr: "zipmap_repr zipmapNew Map.empty"
  by (auto simp: zipmap_repr_def zipmap_ok_def zipmapNew_def zipmap_map_def intro!: exI [of _ 0] exI [of _ "[]"])

section \<open>Properties\<close>

text \<open>C18: for every history of \<open>zipmapSet\<close>, \<open>zipmapDel\<close> and \<open>zipmapGet\<close> on a new zipmap whose entries fit into 2^32 bytes,
  no operation accesses memory outside of the zipmap, and the answers and the final contents are those of a finite map.\<close>

theorem zipmap_history:
  assumes "sum_list (map (map_op_cost zipmap_cost) ops) \<le> 2 ^ 32 - 3"
  shows "\<exists>zm. map_run (zipmap_put fill) (zipmapDel fill) zipmap_get zipmapNew ops = Some (zm, snd (map_spec_run (=) id Map.empty ops)) \<and>
           zipmap_repr zm (fst (map_spec_run (=) id Map.empty ops))"
  by (rule zipmaps.history_refines [OF zipmapNew_repr]) (use assms in \<open>simp add: zipmapNew_def\<close>)

theorem zipmap_history_witness:
  "\<exists>zm. map_run (zipmap_put (\<lambda>i. 7)) (zipmapDel (\<lambda>i. 7)) zipmap_get zipmapNew
      [Put_op [1] [2, 3], Put_op [4] [5], Put_op [1] [6], Get_op [1], Del_op [4], Get_op [4]] =
    Some (zm, [Flag True, Flag True, Flag False, Val (Some [6]), Flag True, Val None])"
  using zipmap_history [of "[Put_op [1] [2, 3], Put_op [4] [5], Put_op [1] [6], Get_op [1], Del_op [4], Get_op [4]]" "\<lambda>i. 7"]
  by (auto simp: zipmap_cost_def ZIPMAP_LEN_BYTES_def map_upd_def simp del: map_run.simps)

text \<open>On every zipmap, the loop over \<open>zipmapNext\<close> sees each pair of the map once, \<open>zipmapLen\<close> returns their number
  (also when the count byte no longer holds it) and keeps the map, \<open>zipmapBlobLen\<close> returns the size of the zipmap, and
  \<open>zipmapExists\<close> tells the keys.\<close>

theorem zipmap_enumerates:
  assumes "zipmap_repr zm m"
  shows "\<exists>ps. zipmap_walk zm zipmapRewind [] = Some ps \<and> distinct (map fst ps) \<and> map_of ps = m \<and>
           (\<exists>zm'. zipmapLen zm = Some (zm', length ps) \<and> zipmap_repr zm' m) \<and> length ps = card (dom m) \<and>
           zipmapBlobLen zm = Some (length zm) \<and> zipmapExists zm k = Some (k \<in> dom m)"
proof -
  obtain c es where ok: "zipmap_ok zm c es" and m: "m = zipmap_map es" using assms by (auto simp: zipmap_repr_def)
  note Z = zipmap_okD [OF ok]
  let ?ps = "map (\<lambda>(k, v, pad). (k, v)) es"
  have "map fst ?ps = map fst es" by (auto simp: case_prod_beta)
  then have d: "distinct (map fst ?ps)" using Z(3) by metis
  have "map_of ?ps = m" by (simp add: m map_of_pairs)
  moreover have "zipmap_walk zm zipmapRewind [] = Some ?ps"
    using walk_entries(1) [of zm "[word_of_nat c]" es "[]"] Z by (simp add: zipmapRewind_def)
  moreover have "zipmapBlobLen zm = Some (length zm)"
    using lookup_absent [of es None zm _ True] Z by (simp add: zipmapBlobLen_def)
  moreover have "zipmapExists zm k = Some (k \<in> dom m)"
    using Z(3)
  proof (cases rule: key_cases [of es k])
    case absent
    then show ?thesis using lookup_absent [of es "Some k" zm _ False] Z m by (auto simp: zipmapExists_def)
  next
    case (found es1 v pad es2)
    then show ?thesis using zipmap_at(2) [OF ok [unfolded found(1)], of False] m by (auto simp: zipmapExists_def)
  qed
  moreover have "\<exists>zm'. zipmapLen zm = Some (zm', length ?ps) \<and> zipmap_repr zm' m"
    using zipmapLen_count [OF ok] m by (auto simp: zipmap_repr_def)
  ultimately show ?thesis using d card_dom_zipmap [OF Z(3)] m by (intro exI [of _ ?ps]) simp
qed

theorem zipmap_enumerates_witness:
  "\<exists>ps. zipmap_walk [1, 1, 97, 2, 1, 98, 99, 0, 255] zipmapRewind [] = Some ps \<and> map_of ps = [[97] \<mapsto> [98, 99]]"
proof -
  have "zipmap_ok [1, 1, 97, 2, 1, 98, 99, 0, 255] 1 [([97], [98, 99], [0])]"
    by (simp add: zipmap_ok_def entry_text_def len_text_def)
  moreover have "zipmap_map [([97], [98, 99], [0])] = [[97] \<mapsto> [98, 99]]" by (auto simp: zipmap_map_def fun_eq_iff)
  ultimately have "zipmap_repr [1, 1, 97, 2, 1, 98, 99, 0, 255] [[97] \<mapsto> [98, 99]]" unfolding zipmap_repr_def by metis
  from zipmap_enumerates [OF this] show ?thesis by blast
qed

end
