(* ===== verification/Vire_Lzf.thy ===== *)
theory Vire_Lzf
  imports Vire_Interfaces
begin

text \<open>
  The compressor of \<open>vr_lzf_c.c\<close> and the decompressor of \<open>vr_lzf_d.c\<close>, in the configuration of \<open>vr_lzfP.h\<close> on a 64 bit
  machine: \<open>HLOG\<close> 16, \<open>VERY_FAST\<close>, no \<open>INIT_HTAB\<close>, \<open>CHECK_INPUT\<close>, and hash slots that hold offsets into the input. Input
  and output are lists of bytes, \<open>ip\<close>, \<open>op\<close> and \<open>ref\<close> are indices into them, and the hash table starts with arbitrary content.
  The theory of the format (\<^verbatim>\<open>tok_text\<close>, \<^verbatim>\<open>tok_run\<close>) links the two: the compressor writes tokens whose meaning is
  the input, and the decompressor computes the meaning of tokens.
\<close>

unbundle bit_operations_syntax

section \<open>The compressor\<close>

definition HLOG :: nat where [simp]: "HLOG = 16"
definition MAX_LIT :: nat where [simp]: "MAX_LIT = 32"
definition MAX_OFF :: nat where [simp]: "MAX_OFF = 8192"
definition MAX_REF :: nat where [simp]: "MAX_REF = 264"

type_synonym LZF_STATE = "nat \<Rightarrow> 32 word"

definition FRST :: "byte list \<Rightarrow> nat \<Rightarrow> 32 word option" where
  "FRST inp p = do { a \<leftarrow> byte_at inp p; b \<leftarrow> byte_at inp (p + 1); Some (push_bit 8 (ucast a) OR ucast b) }"

definition NEXT :: "32 word \<Rightarrow> byte list \<Rightarrow> nat \<Rightarrow> 32 word option" where
  "NEXT v inp p = do { c \<leftarrow> byte_at inp (p + 2); Some (push_bit 8 v OR ucast c) }"

definition IDX :: "32 word \<Rightarrow> nat" where
  "IDX h = unat ((drop_bit (3 * 8 - HLOG) h - h * 5) AND (2 ^ HLOG - 1))"

text \<open>\<open>off = ip - ref - 1\<close> in \<open>unsigned long\<close>.\<close>

definition lzf_off :: "nat \<Rightarrow> nat \<Rightarrow> nat" where
  "lzf_off ip ref = cast_u 64 (int ip - int ref - 1)"

text \<open>The test for a match of three octets: \<open>ref\<close> is an index into the input, and reading it is the test's last part.\<close>

definition lzf_same :: "byte list \<Rightarrow> nat \<Rightarrow> nat \<Rightarrow> nat \<Rightarrow> bool option" where
  "lzf_same inp ref ip off =
     (if off < MAX_OFF \<and> ref > 0 then do {
        r2 \<leftarrow> byte_at inp (ref + 2);
        i2 \<leftarrow> byte_at inp (ip + 2);
        if r2 = i2 then do { r \<leftarrow> mem_read inp ref 2; i \<leftarrow> mem_read inp ip 2; Some (r = i) } else Some False
      }
      else Some False)"

text \<open>The length of the match: sixteen unrolled tests (\<open>True\<close>: one of them failed), then a loop.\<close>

fun lzf_match_unrolled :: "byte list \<Rightarrow> nat \<Rightarrow> nat \<Rightarrow> nat \<Rightarrow> nat \<Rightarrow> (nat \<times> bool) option" where
  "lzf_match_unrolled inp ref ip len 0 = Some (len, False)"
| "lzf_match_unrolled inp ref ip len (Suc k) = do {
     r \<leftarrow> byte_at inp (ref + (len + 1));
     i \<leftarrow> byte_at inp (ip + (len + 1));
     if r \<noteq> i then Some (len + 1, True) else lzf_match_unrolled inp ref ip (len + 1) k
   }"

function lzf_match_loop :: "byte list \<Rightarrow> nat \<Rightarrow> nat \<Rightarrow> nat \<Rightarrow> nat \<Rightarrow> nat option" where
  "lzf_match_loop inp ref ip maxlen len =
     (if len + 1 < maxlen then do {
        r \<leftarrow> byte_at inp (ref + (len + 1));
        i \<leftarrow> byte_at inp (ip + (len + 1));
        if r = i then lzf_match_loop inp ref ip maxlen (len + 1) else Some (len + 1)
      }
      else Some (len + 1))"
  by pat_completeness auto

termination
  by (relation "measure (\<lambda>(inp, ref, ip, maxlen, len). maxlen - len)") auto

declare lzf_match_loop.simps [simp del]

definition lzf_match :: "byte list \<Rightarrow> nat \<Rightarrow> nat \<Rightarrow> nat \<Rightarrow> nat option" where
  "lzf_match inp ref ip maxlen =
     (if maxlen > 16 then do {
        (len, stop) \<leftarrow> lzf_match_unrolled inp ref ip 2 16;
        if stop then Some len else lzf_match_loop inp ref ip maxlen len
      }
      else lzf_match_loop inp ref ip maxlen 2)"

definition lzf_maxlen :: "byte list \<Rightarrow> nat \<Rightarrow> nat" where
  "lzf_maxlen inp ip = (let maxlen = length inp - ip - 2 in if maxlen > MAX_REF then MAX_REF else maxlen)"

text \<open>\<open>op[-lit-1] = lit-1\<close>, and the end of a full run after a literal octet.\<close>

definition lzf_stop_run :: "byte list \<Rightarrow> nat \<Rightarrow> nat \<Rightarrow> byte list option" where
  "lzf_stop_run out op lit = (if lit + 1 \<le> op then byte_put out (op - lit - 1) (word_of_int (int lit - 1)) else None)"

definition lzf_lit :: "byte list \<Rightarrow> byte list \<Rightarrow> nat \<Rightarrow> nat \<Rightarrow> nat \<Rightarrow> (byte list \<times> nat \<times> nat) option" where
  "lzf_lit inp out ip op lit = do {
     b \<leftarrow> byte_at inp ip;
     out1 \<leftarrow> byte_put out op b;
     if lit + 1 = MAX_LIT then do { out2 \<leftarrow> lzf_stop_run out1 (op + 1) (lit + 1); Some (out2, op + 1 + 1, 0) }
     else Some (out1, op + 1, lit + 1)
   }"

definition lzf_put_ref :: "byte list \<Rightarrow> nat \<Rightarrow> nat \<Rightarrow> nat \<Rightarrow> (byte list \<times> nat) option" where
  "lzf_put_ref out op off len =
     (if len < 7 then do {
        out1 \<leftarrow> byte_put out op (word_of_nat (off div 2 ^ 8 + len * 2 ^ 5));
        out2 \<leftarrow> byte_put out1 (op + 1) (word_of_nat off);
        Some (out2, op + 2)
      }
      else do {
        out1 \<leftarrow> byte_put out op (word_of_nat (off div 2 ^ 8 + 7 * 2 ^ 5));
        out2 \<leftarrow> byte_put out1 (op + 1) (word_of_nat (len - 7));
        out3 \<leftarrow> byte_put out2 (op + 2) (word_of_nat off);
        Some (out3, op + 3)
      })"

text \<open>The main loop: \<^term>\<open>Inl\<close> is \<open>return 0\<close>.\<close>

partial_function (option) lzf_loop :: "byte list \<Rightarrow> byte list \<Rightarrow> LZF_STATE \<Rightarrow> nat \<Rightarrow> nat \<Rightarrow> nat \<Rightarrow> 32 word \<Rightarrow>
    (byte list + byte list \<times> nat \<times> nat \<times> nat) option" where
  "lzf_loop inp out htab ip op lit hval =
     (if ip + 2 < length inp then do {
        hval1 \<leftarrow> NEXT hval inp ip;
        let ref = unat (htab (IDX hval1));
        let htab1 = htab(IDX hval1 := word_of_nat ip);
        let off = lzf_off ip ref;
        hit \<leftarrow> lzf_same inp ref ip off;
        if hit then do {
          let maxlen = lzf_maxlen inp ip;
          let undo = (if lit = 0 then 1 else 0);
          if op + 3 + 1 \<ge> length out \<and> op - undo + 3 + 1 \<ge> length out then Some (Inl out)
          else do {
            out1 \<leftarrow> lzf_stop_run out op lit;
            n \<leftarrow> lzf_match inp ref ip maxlen;
            let len = n - 2;
            (out2, op2) \<leftarrow> lzf_put_ref out1 (op - undo) off len;
            let ip1 = ip + 1 + (len + 1);
            if ip1 + 2 \<ge> length inp then Some (Inr (out2, ip1, op2 + 1, 0))
            else do {
              h1 \<leftarrow> FRST inp (ip1 - 2);
              h2 \<leftarrow> NEXT h1 inp (ip1 - 2);
              let htab2 = htab1(IDX h2 := word_of_nat (ip1 - 2));
              h3 \<leftarrow> NEXT h2 inp (ip1 - 1);
              let htab3 = htab2(IDX h3 := word_of_nat (ip1 - 1));
              lzf_loop inp out2 htab3 ip1 (op2 + 1) 0 h3
            }
          }
        }
        else if op \<ge> length out then Some (Inl out)
        else do {
          (out1, op1, lit1) \<leftarrow> lzf_lit inp out ip op lit;
          lzf_loop inp out1 htab1 (ip + 1) op1 lit1 hval1
        }
      }
      else Some (Inr (out, ip, op, lit)))"

declare lzf_loop.simps [code]

function lzf_tail :: "byte list \<Rightarrow> byte list \<Rightarrow> nat \<Rightarrow> nat \<Rightarrow> nat \<Rightarrow> (byte list \<times> nat \<times> nat) option" where
  "lzf_tail inp out ip op lit =
     (if ip < length inp then do {
        (out1, op1, lit1) \<leftarrow> lzf_lit inp out ip op lit;
        lzf_tail inp out1 (ip + 1) op1 lit1
      }
      else Some (out, op, lit))"
  by pat_completeness auto

termination
  by (relation "measure (\<lambda>(inp, out, ip, op, lit). length inp - ip)") auto

declare lzf_tail.simps [simp del]

text \<open>The hash table is not initialised: its content is the parameter \<open>htab\<close>.\<close>

definition lzf_compress :: "LZF_STATE \<Rightarrow> byte list \<Rightarrow> byte list \<Rightarrow> (byte list \<times> nat) option" where
  "lzf_compress htab inp out =
     (if inp = [] \<or> out = [] then Some (out, 0)
      else do {
        hval \<leftarrow> FRST inp 0;
        r \<leftarrow> lzf_loop inp out htab 0 1 0 hval;
        case r of
          Inl out1 \<Rightarrow> Some (out1, 0)
        | Inr (out1, ip, op, lit) \<Rightarrow>
            if op + 3 > length out1 then Some (out1, 0)
            else do {
              (out2, op2, lit2) \<leftarrow> lzf_tail inp out1 ip op lit;
              out3 \<leftarrow> lzf_stop_run out2 op2 lit2;
              Some (out3, op2 - (if lit2 = 0 then 1 else 0))
            }
      })"

section \<open>The decompressor\<close>

datatype lzf_errno = E2BIG | EINVAL

text \<open>Octet by octet copying inside the output.\<close>

fun lzf_copy :: "byte list \<Rightarrow> nat \<Rightarrow> nat \<Rightarrow> nat \<Rightarrow> byte list option" where
  "lzf_copy out op ref 0 = Some out"
| "lzf_copy out op ref (Suc n) = do {
     b \<leftarrow> byte_at out ref;
     out1 \<leftarrow> byte_put out op b;
     lzf_copy out1 (op + 1) (ref + 1) n
   }"

text \<open>The two areas of the \<open>switch\<close> over the length of a reference; \<open>memcpy\<close> is used when they do not overlap.\<close>

definition lzf_copy_ref :: "byte list \<Rightarrow> nat \<Rightarrow> nat \<Rightarrow> nat \<Rightarrow> byte list option" where
  "lzf_copy_ref out op ref len =
     (if len > 9 then
        if op \<ge> ref + (len + 2) then do { bs \<leftarrow> mem_read out ref (len + 2); mem_write out op bs }
        else lzf_copy out op ref (len + 2)
      else lzf_copy out op ref (len + 2))"

text \<open>The loop: the output, the value returned and the error number that is set.\<close>

function lzf_dloop :: "byte list \<Rightarrow> byte list \<Rightarrow> nat \<Rightarrow> nat \<Rightarrow> (byte list \<times> nat \<times> lzf_errno option) option" where
  "lzf_dloop inp out ip op = do {
     c \<leftarrow> byte_at inp ip;
     let ctrl = unat c;
     if ctrl < 2 ^ 5 then
       if op + (ctrl + 1) > length out then Some (out, 0, Some E2BIG)
       else if ip + 1 + (ctrl + 1) > length inp then Some (out, 0, Some EINVAL)
       else do {
         bs \<leftarrow> mem_read inp (ip + 1) (ctrl + 1);
         out1 \<leftarrow> mem_write out op bs;
         if ip + 1 + (ctrl + 1) < length inp then lzf_dloop inp out1 (ip + 1 + (ctrl + 1)) (op + (ctrl + 1))
         else Some (out1, op + (ctrl + 1), None)
       }
     else do {
       let len0 = ctrl div 2 ^ 5;
       let ref0 = int op - int (ctrl mod 2 ^ 5) * 2 ^ 8 - 1;
       if ip + 1 \<ge> length inp then Some (out, 0, Some EINVAL)
       else do {
         e \<leftarrow> (if len0 = 7 then do { x \<leftarrow> byte_at inp (ip + 1); Some (len0 + unat x, ip + 2) } else Some (len0, ip + 1));
         if len0 = 7 \<and> snd e \<ge> length inp then Some (out, 0, Some EINVAL)
         else do {
           lo \<leftarrow> byte_at inp (snd e);
           let ref = ref0 - int (unat lo);
           if op + fst e + 2 > length out then Some (out, 0, Some E2BIG)
           else if ref < 0 then Some (out, 0, Some EINVAL)
           else do {
             out1 \<leftarrow> lzf_copy_ref out op (nat ref) (fst e);
             if snd e + 1 < length inp then lzf_dloop inp out1 (snd e + 1) (op + (fst e + 2))
             else Some (out1, op + (fst e + 2), None)
           }
         }
       }
     }
   }"
  by pat_completeness auto

termination
  by (relation "measure (\<lambda>(inp, out, ip, op). length inp - ip)") (auto simp: byte_at_def split: if_splits)

declare lzf_dloop.simps [simp del]

definition lzf_decompress :: "byte list \<Rightarrow> byte list \<Rightarrow> (byte list \<times> nat \<times> lzf_errno option) option" where
  "lzf_decompress inp out = lzf_dloop inp out 0 0"

section \<open>The compressed format\<close>

text \<open>A compressed text is a sequence of literal runs and references back into the text.\<close>

datatype lzf_tok = Lit "byte list" | Ref nat nat

fun tok_text :: "lzf_tok \<Rightarrow> byte list" where
  "tok_text (Lit bs) = word_of_nat (length bs - 1) # bs"
| "tok_text (Ref off len) =
     (if len < 7 then [word_of_nat (off div 256 + len * 32), word_of_nat off]
      else [word_of_nat (off div 256 + 224), word_of_nat (len - 7), word_of_nat off])"

fun copy_back :: "byte list \<Rightarrow> nat \<Rightarrow> nat \<Rightarrow> byte list" where
  "copy_back acc off 0 = acc"
| "copy_back acc off (Suc n) = copy_back (acc @ [acc ! (length acc - 1 - off)]) off n"

fun tok_run :: "byte list \<Rightarrow> lzf_tok list \<Rightarrow> byte list option" where
  "tok_run acc [] = Some acc"
| "tok_run acc (Lit bs # ts) = (if bs \<noteq> [] \<and> length bs \<le> 32 then tok_run (acc @ bs) ts else None)"
| "tok_run acc (Ref off len # ts) =
     (if off < length acc \<and> off < 8192 \<and> 1 \<le> len \<and> len \<le> 262 then tok_run (copy_back acc off (len + 2)) ts else None)"

definition toks_text :: "lzf_tok list \<Rightarrow> byte list" where
  "toks_text ts = concat (map tok_text ts)"

lemma toks_text_simps [simp]:
  "toks_text [] = []" "toks_text (t # ts) = tok_text t @ toks_text ts" "toks_text (ts @ us) = toks_text ts @ toks_text us"
  by (simp_all add: toks_text_def)

lemma tok_run_append: "tok_run acc (ts @ us) = do { a \<leftarrow> tok_run acc ts; tok_run a us }"
  by (induction acc ts rule: tok_run.induct) simp_all

lemma length_copy_back [simp]: "length (copy_back acc off n) = length acc + n"
  by (induction acc off n rule: copy_back.induct) (simp_all add: copy_back.simps)

declare copy_back.simps [simp del]

lemma byte_at_append [simp]: "byte_at (xs @ y # ys) (length xs) = Some y"
  by (simp add: byte_at_def)

lemma byte_put_append [simp]: "byte_put (xs @ y # ys) (length xs) b = Some (xs @ b # ys)"
  by (simp add: byte_put_def)

lemma lzf_copy_back:
  assumes "ref < length acc" "length junk = n"
  shows "lzf_copy (acc @ junk @ post) (length acc) ref n = Some (copy_back acc (length acc - 1 - ref) n @ post)"
  using assms
proof (induction n arbitrary: acc ref junk)
  case 0
  then show ?case by (simp add: copy_back.simps)
next
  case (Suc n)
  then obtain j js where junk: "junk = j # js" "length js = n" by (cases junk) auto
  have IH: "lzf_copy ((acc @ [acc ! ref]) @ js @ post) (length (acc @ [acc ! ref])) (ref + 1) n =
      Some (copy_back (acc @ [acc ! ref]) (length (acc @ [acc ! ref]) - 1 - (ref + 1)) n @ post)"
    by (rule Suc.IH) (use Suc.prems junk in auto)
  have "length acc - 1 - (length acc - 1 - ref) = ref" "length (acc @ [acc ! ref]) - 1 - (ref + 1) = length acc - 1 - ref"
    using Suc.prems(1) by auto
  then show ?case using IH Suc.prems(1) by (simp add: junk byte_at_def nth_append byte_put_def copy_back.simps)
qed

text \<open>\<open>memcpy\<close> of an area that does not overlap gives the same octets.\<close>

lemma copy_back_disjoint:
  assumes "ref + n \<le> length acc"
  shows "copy_back acc (length acc - 1 - ref) n = acc @ take n (drop ref acc)"
  using assms
proof (induction n arbitrary: acc ref)
  case 0
  then show ?case by (simp add: copy_back.simps)
next
  case (Suc n)
  have "copy_back (acc @ [acc ! ref]) (length (acc @ [acc ! ref]) - 1 - (ref + 1)) n =
      (acc @ [acc ! ref]) @ take n (drop (ref + 1) (acc @ [acc ! ref]))" by (rule Suc.IH) (use Suc.prems in simp)
  moreover have "take n (drop (ref + 1) (acc @ [acc ! ref])) = take n (drop (ref + 1) acc)" using Suc.prems by simp
  moreover have "take (Suc n) (drop ref acc) = acc ! ref # take n (drop (ref + 1) acc)"
    using Suc.prems by (simp add: Cons_nth_drop_Suc [symmetric])
  moreover have "length acc - 1 - (length acc - 1 - ref) = ref" "length (acc @ [acc ! ref]) - 1 - (ref + 1) = length acc - 1 - ref"
    using Suc.prems by auto
  ultimately show ?case by (simp add: copy_back.simps)
qed

lemma lzf_copy_ref_back:
  assumes "ref < length acc" "length junk = len + 2"
  shows "lzf_copy_ref (acc @ junk @ post) (length acc) ref len = Some (copy_back acc (length acc - 1 - ref) (len + 2) @ post)"
proof (cases "len > 9 \<and> ref + (len + 2) \<le> length acc")
  case True
  have "mem_read (acc @ junk @ post) ref (len + 2) = Some (take (len + 2) (drop ref acc))"
    using True by (simp add: mem_read_def)
  moreover have "mem_write (acc @ junk @ post) (length acc) (take (len + 2) (drop ref acc)) = Some (acc @ take (len + 2) (drop ref acc) @ post)"
    by (rule mem_write_mid) (use True assms in auto)
  ultimately show ?thesis using True copy_back_disjoint [of ref "len + 2" acc] by (simp add: lzf_copy_ref_def)
next
  case False
  then show ?thesis using lzf_copy_back [OF assms] by (auto simp: lzf_copy_ref_def)
qed

section \<open>Safety of the decompressor\<close>

lemma lzf_copy_ref_safe:
  assumes "ref < op" "op + len + 2 \<le> length out"
  shows "\<exists>out'. lzf_copy_ref out op ref len = Some out' \<and> length out' = length out"
proof -
  have out: "out = take op out @ take (len + 2) (drop op out) @ drop (op + (len + 2)) out"
    by (metis append_take_drop_id drop_drop add.commute)
  have "lzf_copy_ref (take op out @ take (len + 2) (drop op out) @ drop (op + (len + 2)) out) (length (take op out)) ref len =
     Some (copy_back (take op out) (length (take op out) - 1 - ref) (len + 2) @ drop (op + (len + 2)) out)"
    by (rule lzf_copy_ref_back) (use assms in auto)
  then show ?thesis using assms out by simp
qed

text \<open>One step of the loop at a reference with all its octets.\<close>

lemma dloop_back:
  assumes "byte_at inp ip = Some c" "32 \<le> unat c" "ip + 1 < length inp"
    and e: "e = (if unat c div 32 = 7 then (7 + unat (inp ! (ip + 1)), ip + 2) else (unat c div 32, ip + 1))"
    and "snd e < length inp" and ref: "ref = int op - int (unat c mod 32) * 256 - 1 - int (unat (inp ! snd e))"
  shows "lzf_dloop inp out ip op =
     (if op + fst e + 2 > length out then Some (out, 0, Some E2BIG)
      else if ref < 0 then Some (out, 0, Some EINVAL)
      else do { out1 \<leftarrow> lzf_copy_ref out op (nat ref) (fst e);
        if snd e + 1 < length inp then lzf_dloop inp out1 (snd e + 1) (op + (fst e + 2)) else Some (out1, op + (fst e + 2), None) })"
proof -
  have e': "(if unat c div 32 = 7 then do { x \<leftarrow> byte_at inp (ip + 1); Some (unat c div 32 + unat x, ip + 2) }
      else Some (unat c div 32, ip + 1)) = Some e"
    using assms(3) by (simp add: e byte_at_def)
  show ?thesis using assms(1,2,3,5) e'
    by (subst lzf_dloop.simps) (simp add: Let_def byte_at_def [of _ "snd e"] ref)
qed

lemma lzf_dloop_safe:
  assumes "ip < length inp" "op \<le> length out"
  shows "\<exists>out' n e. lzf_dloop inp out ip op = Some (out', n, e) \<and> length out' = length out \<and> n \<le> length out \<and> (e \<noteq> None \<longrightarrow> n = 0)"
  using assms
proof (induction "length inp - ip" arbitrary: ip op out rule: less_induct)
  case less
  note IH = less.hyps and P = less.prems
  define c where "c = inp ! ip"
  have c: "byte_at inp ip = Some c" using P(1) by (simp add: byte_at_def c_def)
  show ?case
  proof (cases "unat c < 32")
    case True
    define n where "n = unat c + 1"
    define out1 where "out1 = take op out @ take n (drop (ip + 1) inp) @ drop (op + n) out"
    have body: "lzf_dloop inp out ip op =
       (if op + n > length out then Some (out, 0, Some E2BIG)
        else if ip + 1 + n > length inp then Some (out, 0, Some EINVAL)
        else if ip + 1 + n < length inp then lzf_dloop inp out1 (ip + 1 + n) (op + n) else Some (out1, op + n, None))"
      using True by (subst lzf_dloop.simps) (simp add: c Let_def mem_read_def mem_write_def out1_def n_def)
    show ?thesis
    proof (cases "op + n > length out \<or> ip + 1 + n > length inp")
      case False
      then have "length out1 = length out" by (auto simp: out1_def min_def)
      then show ?thesis using body False IH [of "ip + 1 + n" "op + n" out1] by auto
    qed (use body in auto)
  next
    case False
    show ?thesis
    proof (cases "ip + 1 < length inp")
      case ip1: True
      define e where e: "e = (if unat c div 32 = 7 then (7 + unat (inp ! (ip + 1)), ip + 2) else (unat c div 32, ip + 1))"
      have es: "ip < snd e" using e by (auto split: if_splits)
      show ?thesis
      proof (cases "snd e < length inp")
        case se: True
        define ref where "ref = int op - int (unat c mod 32) * 256 - 1 - int (unat (inp ! snd e))"
        note body = dloop_back [OF c _ ip1 e se ref_def, of out]
        show ?thesis
        proof (cases "op + fst e + 2 > length out \<or> ref < 0")
          case True
          then show ?thesis using body \<open>\<not> unat c < 32\<close> by auto
        next
          case ok: False
          have "0 \<le> int (unat c mod 32) * 256" "0 \<le> int (unat (inp ! snd e))" by simp_all
          then have "ref < int op" unfolding ref_def by linarith
          then have "nat ref < op" using ok by linarith
          then obtain out1 where o1: "lzf_copy_ref out op (nat ref) (fst e) = Some out1" "length out1 = length out"
            using lzf_copy_ref_safe [of "nat ref" op "fst e" out] ok by auto
          then show ?thesis using body \<open>\<not> unat c < 32\<close> ok es IH [of "snd e + 1" "op + (fst e + 2)" out1] P by auto
        qed
      next
        case False
        then have "unat c div 32 = 7" "length inp \<le> ip + 2" using ip1 e by (auto split: if_splits)
        then show ?thesis using False \<open>\<not> unat c < 32\<close> ip1
          by (subst lzf_dloop.simps) (simp add: c Let_def byte_at_def [of _ "Suc ip"])
      qed
    next
      case False
      then show ?thesis using \<open>\<not> unat c < 32\<close> by (subst lzf_dloop.simps) (simp add: c Let_def)
    qed
  qed
qed

section \<open>The decompressor runs the format\<close>

lemma length_tok_run: "tok_run acc ts = Some res \<Longrightarrow> length acc \<le> length res"
  by (induction acc ts rule: tok_run.induct) (fastforce split: if_splits)+

lemma unat_of_small: "n < 256 \<Longrightarrow> unat (word_of_nat n :: byte) = n"
  by (simp add: unat_of_nat)

lemma unat_of_mod: "unat (word_of_nat n :: byte) = n mod 256"
  by (simp add: unat_of_nat)

lemma dloop_lit:
  assumes "inp = pre @ tok_text (Lit bs) @ rest" "bs \<noteq> []" "length bs \<le> 32" "out = acc @ junk @ post" "length junk = length bs"
  shows "lzf_dloop inp out (length pre) (length acc) =
    (if rest = [] then Some (acc @ bs @ post, length (acc @ bs), None)
     else lzf_dloop inp (acc @ bs @ post) (length (pre @ tok_text (Lit bs))) (length (acc @ bs)))"
proof -
  define c :: byte where "c = word_of_nat (length bs - 1)"
  have n: "unat c + 1 = length bs" unfolding c_def using assms(2,3) unat_of_small [of "length bs - 1"] by (cases bs) simp_all
  then have lt: "unat c < 32" using assms(3) by linarith
  have inp: "inp = pre @ c # bs @ rest" using assms(1) by (simp add: c_def)
  have r: "mem_read inp (length pre + 1) (length bs) = Some bs"
    using mem_read_mid [of "pre @ [c]" "length pre + 1" bs "length bs" rest] inp by simp
  have w: "mem_write out (length acc) bs = Some (acc @ bs @ post)" unfolding assms(4) by (rule mem_write_mid) (use assms(5) in auto)
  show ?thesis
    by (subst lzf_dloop.simps) (use r w n lt assms(4,5) in \<open>auto simp: inp Let_def\<close>)
qed

lemma dloop_ref:
  assumes "inp = pre @ tok_text (Ref off len) @ rest" "off < length acc" "off < 8192" "1 \<le> len" "len \<le> 262"
    "out = acc @ junk @ post" "length junk = len + 2"
  shows "lzf_dloop inp out (length pre) (length acc) =
    (if rest = [] then Some (copy_back acc off (len + 2) @ post, length acc + (len + 2), None)
     else lzf_dloop inp (copy_back acc off (len + 2) @ post) (length (pre @ tok_text (Ref off len))) (length acc + (len + 2)))"
proof -
  have hi: "off div 256 < 32" using assms(3) by simp
  have lo: "unat (word_of_nat off :: byte) = off mod 256" by (rule unat_of_mod)
  have "int off = int (off div 256) * 256 + int (off mod 256)" by (metis div_mult_mod_eq of_nat_add of_nat_mult of_nat_numeral)
  then have ref: "int (length acc - 1 - off) = int (length acc) - int (off div 256) * 256 - 1 - int (off mod 256)"
    using assms(2) by simp
  have "length acc - 1 - (length acc - 1 - off) = off" using assms(2) by auto
  then have cp: "lzf_copy_ref out (length acc) (length acc - 1 - off) len = Some (copy_back acc off (len + 2) @ post)"
    using lzf_copy_ref_back [of "length acc - 1 - off" acc junk len post] assms(2,6,7) by auto
  have room: "\<not> length acc + len + 2 > length out" using assms(6,7) by simp
  define e where "e = (len, length pre + (if len < 7 then 1 else 2))"
  define k where "k = (if len < 7 then len else 7)"
  define c :: byte where "c = word_of_nat (off div 256 + k * 32)"
  have c: "unat c = off div 256 + k * 32" unfolding c_def using hi by (intro unat_of_small) (auto simp: k_def)
  then have d: "unat c div 32 = k" "unat c mod 32 = off div 256" using hi by simp_all
  have "unat (word_of_nat (len - 7) :: byte) = len - 7" using assms(5) by (intro unat_of_small) simp
  moreover have at: "byte_at inp (length pre) = Some c" "7 \<le> len \<Longrightarrow> inp ! (length pre + 1) = word_of_nat (len - 7)"
      "length inp = snd e + 1 + length rest" "inp ! snd e = word_of_nat off"
    using assms(1) by (auto simp: e_def c_def k_def byte_at_def nth_append)
  ultimately have e: "e = (if unat c div 32 = 7 then (7 + unat (inp ! (length pre + 1)), length pre + 2) else (unat c div 32, length pre + 1))"
    using d(1) by (auto simp: e_def k_def)
  have "lzf_dloop inp out (length pre) (length acc) =
     (if length acc + fst e + 2 > length out then Some (out, 0, Some E2BIG)
      else if int (length acc - 1 - off) < 0 then Some (out, 0, Some EINVAL)
      else do { out1 \<leftarrow> lzf_copy_ref out (length acc) (nat (int (length acc - 1 - off))) (fst e);
        if snd e + 1 < length inp then lzf_dloop inp out1 (snd e + 1) (length acc + (fst e + 2)) else Some (out1, length acc + (fst e + 2), None) })"
    by (rule dloop_back [OF at(1) _ _ e]) (use c at assms(4) ref d lo in \<open>auto simp: e_def k_def\<close>)
  then show ?thesis using at(3) room cp assms(4) by (simp add: e_def split: if_splits)
qed

lemma dloop_run:
  assumes "tok_run acc ts = Some res" "ts \<noteq> []" "inp = pre @ toks_text ts" "out = acc @ junk" "length res \<le> length out"
  shows "lzf_dloop inp out (length pre) (length acc) = Some (res @ drop (length res) out, length res, None)"
  using assms
proof (induction ts arbitrary: acc pre out junk)
  case Nil
  then show ?case by simp
next
  case (Cons t ts)
  obtain acc1 n where step: "tok_run acc1 ts = Some res" "length acc1 = length acc + n"
    and body: "\<And>j1 j2. junk = j1 @ j2 \<Longrightarrow> length j1 = n \<Longrightarrow> lzf_dloop inp out (length pre) (length acc) =
      (if toks_text ts = [] then Some (acc1 @ j2, length acc1, None) else lzf_dloop inp (acc1 @ j2) (length (pre @ tok_text t)) (length acc1))"
  proof (cases t)
    case (Lit bs)
    show ?thesis
    proof (rule that [of "acc @ bs" "length bs"])
      show "tok_run (acc @ bs) ts = Some res" using Cons.prems(1) Lit by (simp split: if_splits)
      show "lzf_dloop inp out (length pre) (length acc) = (if toks_text ts = [] then Some ((acc @ bs) @ j2, length (acc @ bs), None)
          else lzf_dloop inp ((acc @ bs) @ j2) (length (pre @ tok_text t)) (length (acc @ bs)))" if "junk = j1 @ j2" "length j1 = length bs" for j1 j2
        using dloop_lit [of inp pre bs "toks_text ts" out acc j1 j2] Cons.prems(1,3,4) Lit that by (auto split: if_splits)
    qed simp
  next
    case (Ref off len)
    show ?thesis
    proof (rule that [of "copy_back acc off (len + 2)" "len + 2"])
      show "tok_run (copy_back acc off (len + 2)) ts = Some res" using Cons.prems(1) Ref by (simp split: if_splits)
      show "lzf_dloop inp out (length pre) (length acc) = (if toks_text ts = [] then Some (copy_back acc off (len + 2) @ j2, length (copy_back acc off (len + 2)), None)
          else lzf_dloop inp (copy_back acc off (len + 2) @ j2) (length (pre @ tok_text t)) (length (copy_back acc off (len + 2))))"
        if "junk = j1 @ j2" "length j1 = len + 2" for j1 j2
        using dloop_ref [of inp pre off len "toks_text ts" acc out j1 j2] Cons.prems(1,3,4) Ref that
        by (auto split: if_splits simp del: tok_text.simps)
    qed simp
  qed
  have le: "length acc1 \<le> length res" by (rule length_tok_run [OF step(1)])
  define j1 j2 where j: "j1 = take n junk" "j2 = drop n junk"
  have l: "length j1 = n" "junk = j1 @ j2" using le step(2) Cons.prems(4,5) by (simp_all add: j)
  note body = body [OF l(2,1)]
  have out: "drop (length res) out = drop (length res) (acc1 @ j2)" "length (acc1 @ j2) = length out"
    using le step(2) l(1) by (simp_all add: Cons.prems(4) l(2))
  show ?case
  proof (cases "ts = []")
    case True
    then show ?thesis using body step(1) out by simp
  next
    case False
    then have "toks_text ts \<noteq> []" by (cases ts; cases "hd ts") auto
    then show ?thesis using body out Cons.IH [OF step(1) False, of "pre @ tok_text t" "acc1 @ j2" j2] Cons.prems(3,5) by simp
  qed
qed

section \<open>The compressor writes the format\<close>

definition same_octets :: "byte list \<Rightarrow> nat \<Rightarrow> nat \<Rightarrow> nat \<Rightarrow> bool" where
  "same_octets inp ref ip n \<longleftrightarrow> (\<forall>i < n. inp ! (ref + i) = inp ! (ip + i))"

lemma same_octets_Suc: "same_octets inp ref ip (Suc n) \<longleftrightarrow> same_octets inp ref ip n \<and> inp ! (ref + n) = inp ! (ip + n)"
  by (auto simp: same_octets_def less_Suc_eq)

lemma match_unrolled_same:
  assumes "same_octets inp ref ip (len + 1)" "ref < ip" "ip + len + k < length inp"
  shows "\<exists>n stop. lzf_match_unrolled inp ref ip len k = Some (n, stop) \<and>
           (if stop then len < n \<and> n \<le> len + k \<and> same_octets inp ref ip n else n = len + k \<and> same_octets inp ref ip (n + 1))"
  using assms
proof (induction k arbitrary: len)
  case 0
  then show ?case by (intro exI [of _ len] exI [of _ False]) simp
next
  case (Suc k)
  have at: "byte_at inp (ref + (len + 1)) = Some (inp ! (ref + (len + 1)))" "byte_at inp (ip + (len + 1)) = Some (inp ! (ip + (len + 1)))"
    using Suc.prems by (simp_all add: byte_at_def)
  show ?case
  proof (cases "inp ! (ref + (len + 1)) = inp ! (ip + (len + 1))")
    case True
    then have "same_octets inp ref ip (len + 1 + 1)" using Suc.prems(1) by (simp add: same_octets_Suc)
    then obtain n stop where n: "lzf_match_unrolled inp ref ip (len + 1) k = Some (n, stop)"
      "if stop then len + 1 < n \<and> n \<le> len + 1 + k \<and> same_octets inp ref ip n else n = len + 1 + k \<and> same_octets inp ref ip (n + 1)"
      using Suc.IH [of "len + 1"] Suc.prems(2,3) by auto
    have "lzf_match_unrolled inp ref ip len (Suc k) = Some (n, stop)" using n(1) at True by simp
    then show ?thesis using n(2) by (intro exI [of _ n] exI [of _ stop]) (cases stop; auto)
  next
    case False
    then show ?thesis using at Suc.prems(1) by (intro exI [of _ "len + 1"] exI [of _ True]) simp
  qed
qed

lemma match_loop_same:
  assumes "same_octets inp ref ip (len + 1)" "ref < ip" "ip + maxlen \<le> length inp"
  shows "\<exists>n. lzf_match_loop inp ref ip maxlen len = Some n \<and> len + 1 \<le> n \<and> n \<le> max maxlen (len + 1) \<and> same_octets inp ref ip n"
  using assms
proof (induction "maxlen - len" arbitrary: len rule: less_induct)
  case less
  show ?case
  proof (cases "len + 1 < maxlen \<and> inp ! (ref + (len + 1)) = inp ! (ip + (len + 1))")
    case True
    have at: "byte_at inp (ref + (len + 1)) = Some (inp ! (ref + (len + 1)))" "byte_at inp (ip + (len + 1)) = Some (inp ! (ip + (len + 1)))"
      using less.prems True by (simp_all add: byte_at_def)
    have "same_octets inp ref ip (len + 1 + 1)" using less.prems(1) True by (simp add: same_octets_Suc)
    then obtain n where n: "lzf_match_loop inp ref ip maxlen (len + 1) = Some n" "len + 1 + 1 \<le> n" "n \<le> max maxlen (len + 1 + 1)" "same_octets inp ref ip n"
      using less.hyps [OF diff_less_mono2 [of len "len + 1" maxlen] _ less.prems(2,3)] True by auto
    have "lzf_match_loop inp ref ip maxlen len = Some n" using n(1) at True by (subst lzf_match_loop.simps) simp
    then show ?thesis using n True by auto
  next
    case False
    then show ?thesis using less.prems by (subst lzf_match_loop.simps) (auto simp: byte_at_def)
  qed
qed

lemma lzf_match_same:
  assumes "same_octets inp ref ip 3" "ref < ip" "ip + 2 < length inp" "maxlen = min 264 (length inp - ip - 2)"
  shows "\<exists>n. lzf_match inp ref ip maxlen = Some n \<and> 3 \<le> n \<and> n \<le> 264 \<and> ip + n \<le> length inp \<and> same_octets inp ref ip n"
proof (cases "maxlen > 16")
  case True
  have bound: "ip + 2 + 16 < length inp" "ip + maxlen \<le> length inp" using True assms(4) by auto
  obtain n stop where n: "lzf_match_unrolled inp ref ip 2 16 = Some (n, stop)"
    "if stop then 2 < n \<and> n \<le> 2 + 16 \<and> same_octets inp ref ip n else n = 2 + 16 \<and> same_octets inp ref ip (n + 1)"
    using match_unrolled_same [of inp ref ip 2 16] assms(1,2) bound(1) by auto
  show ?thesis
  proof (cases stop)
    case True
    then show ?thesis using n \<open>maxlen > 16\<close> bound by (auto simp: lzf_match_def)
  next
    case False
    then obtain n' where "lzf_match_loop inp ref ip maxlen n = Some n'" "n + 1 \<le> n'" "n' \<le> max maxlen (n + 1)" "same_octets inp ref ip n'"
      using match_loop_same [of inp ref ip n maxlen] n(2) assms(2) bound(2) by auto
    then show ?thesis using n False \<open>maxlen > 16\<close> bound assms(4) by (auto simp: lzf_match_def)
  qed
next
  case False
  have "ip + maxlen \<le> length inp" using assms(3,4) by auto
  then obtain n where "lzf_match_loop inp ref ip maxlen 2 = Some n" "2 + 1 \<le> n" "n \<le> max maxlen (2 + 1)" "same_octets inp ref ip n"
    using match_loop_same [of inp ref ip 2 maxlen] assms(1,2) by auto
  then show ?thesis using False assms(3,4) by (auto simp: lzf_match_def)
qed

lemma copy_back_same:
  assumes "same_octets inp ref ip n" "ref < ip" "ip + n \<le> length inp"
  shows "copy_back (take ip inp) (ip - 1 - ref) n = take (ip + n) inp"
  using assms
proof (induction n arbitrary: ip ref)
  case 0
  then show ?case by (simp add: copy_back.simps)
next
  case (Suc n)
  have "same_octets inp (ref + 1) (ip + 1) n" using Suc.prems(1) by (auto simp: same_octets_def)
  then have IH: "copy_back (take (ip + 1) inp) (ip + 1 - 1 - (ref + 1)) n = take (ip + 1 + n) inp"
    by (rule Suc.IH) (use Suc.prems in auto)
  have "inp ! ref = inp ! ip" using Suc.prems(1) by (auto simp: same_octets_def dest: spec [of _ 0])
  then have "take ip inp @ [inp ! ref] = take (ip + 1) inp" using Suc.prems(3) by (simp add: take_Suc_conv_app_nth)
  moreover have "ip - 1 - (ip - 1 - ref) = ref" "ip + 1 - 1 - (ref + 1) = ip - 1 - ref" using Suc.prems(2) by auto
  ultimately show ?case using IH Suc.prems(2,3) by (simp add: copy_back.simps min_def)
qed

lemma lzf_same_octets:
  assumes "ip + 2 < length inp" "length inp < 2 ^ 32" "ref < 2 ^ 32" "off = lzf_off ip ref"
  shows "\<exists>b. lzf_same inp ref ip off = Some b \<and> (b \<longrightarrow> ref < ip \<and> off = ip - 1 - ref \<and> off < 8192 \<and> same_octets inp ref ip 3)"
proof (cases "ref < ip")
  case True
  have off: "off = ip - 1 - ref" using assms True by (simp add: lzf_off_def cast_u_id nat_diff_distrib)
  have two: "take 2 (drop ref inp) = take 2 (drop ip inp) \<longleftrightarrow> inp ! ref = inp ! ip \<and> inp ! (ref + 1) = inp ! (ip + 1)"
    using True assms(1) by (simp add: numeral_2_eq_2 Cons_nth_drop_Suc [symmetric])
  have three: "same_octets inp ref ip 3 \<longleftrightarrow> inp ! ref = inp ! ip \<and> inp ! (ref + 1) = inp ! (ip + 1) \<and> inp ! (ref + 2) = inp ! (ip + 2)"
    using same_octets_Suc [of inp ref ip 2] same_octets_Suc [of inp ref ip 1] same_octets_Suc [of inp ref ip 0]
    by (auto simp: eval_nat_numeral same_octets_def [of _ _ _ 0])
  show ?thesis using assms(1) True off two three by (auto simp: lzf_same_def byte_at_def mem_read_def)
next
  case False
  have "int off = int ip - int ref - 1 + 2 ^ 64"
  proof -
    have "(int ip - int ref - 1) mod 2 ^ 64 = (int ip - int ref - 1 + 2 ^ 64) mod 2 ^ 64" by (rule mod_add_self2 [symmetric])
    also have "\<dots> = int ip - int ref - 1 + 2 ^ 64" using False assms by (intro mod_pos_pos_trivial) auto
    finally show ?thesis using assms(4) by (simp add: lzf_off_def int_cast_u)
  qed
  then have "8192 \<le> int off" using assms(3) by simp
  then have "\<not> off < 8192" by simp
  then show ?thesis by (intro exI [of _ False]) (simp add: lzf_same_def)
qed

text \<open>The state between two steps: the finished tokens, a place for the length of the current run, and the run's octets. The
  place of an empty run may lie just after the end of the output.\<close>

definition lzf_inv :: "byte list \<Rightarrow> byte list \<Rightarrow> nat \<Rightarrow> nat \<Rightarrow> nat \<Rightarrow> bool" where
  "lzf_inv inp out ip op lit \<longleftrightarrow> ip \<le> length inp \<and> lit < 32 \<and> (\<exists>ts acc bs. tok_run [] ts = Some acc \<and> acc @ bs = take ip inp \<and>
     length bs = lit \<and> op = length (toks_text ts) + 1 + lit \<and>
     ((\<exists>h post. out = toks_text ts @ h # bs @ post) \<or> bs = [] \<and> out = toks_text ts))"

lemma lzf_invI:
  assumes "tok_run [] ts = Some (take ip inp)" "out = toks_text ts @ rest" "ip \<le> length inp" "op = length (toks_text ts) + 1"
  shows "lzf_inv inp out ip op 0"
  unfolding lzf_inv_def using assms by (cases rest) (auto intro!: exI [of _ ts])

lemma lzf_inv_runI:
  assumes "tok_run [] ts = Some acc" "acc @ bs = take ip inp" "out = toks_text ts @ h # bs @ post" "ip \<le> length inp"
    "length bs = lit" "lit < 32" "op = length (toks_text ts) + 1 + lit"
  shows "lzf_inv inp out ip op lit"
  unfolding lzf_inv_def using assms by blast

lemma inv_stop:
  assumes inv: "lzf_inv inp out ip op lit" and op: "op \<le> length out + lit"
  shows "\<exists>out1 ts rest. lzf_stop_run out op lit = Some out1 \<and> tok_run [] ts = Some (take ip inp) \<and> out1 = toks_text ts @ rest \<and>
           length (toks_text ts) = op - (if lit = 0 then 1 else 0) \<and> length out1 = length out"
proof -
  obtain ts acc bs where ts: "tok_run [] ts = Some acc" "acc @ bs = take ip inp" "length bs = lit" "op = length (toks_text ts) + 1 + lit"
    "(\<exists>h post. out = toks_text ts @ h # bs @ post) \<or> bs = [] \<and> out = toks_text ts" and lit: "lit < 32"
    using inv by (auto simp: lzf_inv_def)
  then obtain h post where out: "out = toks_text ts @ h # bs @ post" using op by auto
  have stop: "lzf_stop_run out op lit = Some (toks_text ts @ word_of_int (int lit - 1) # bs @ post)"
    by (simp add: lzf_stop_run_def ts(4) out)
  show ?thesis
  proof (cases "lit = 0")
    case True
    then show ?thesis using stop ts out by (intro exI [of _ "toks_text ts @ word_of_int (int lit - 1) # bs @ post"] exI [of _ ts]
        exI [of _ "word_of_int (int lit - 1) # bs @ post"]) simp
  next
    case False
    have "word_of_int (int lit - 1) = (word_of_nat (length bs - 1) :: byte)" using False ts(3) by (simp add: of_nat_diff)
    then have "toks_text (ts @ [Lit bs]) @ post = toks_text ts @ word_of_int (int lit - 1) # bs @ post" by simp
    moreover have "tok_run [] (ts @ [Lit bs]) = Some (take ip inp)" using ts lit False by (auto simp: tok_run_append)
    ultimately show ?thesis using stop ts(3,4) out False
      by (intro exI [of _ "toks_text (ts @ [Lit bs]) @ post"] exI [of _ "ts @ [Lit bs]"] exI [of _ post]) simp
  qed
qed

lemma inv_lit:
  assumes inv: "lzf_inv inp out ip op lit" and "ip < length inp" "op < length out"
  shows "\<exists>out1 op1 lit1. lzf_lit inp out ip op lit = Some (out1, op1, lit1) \<and> lzf_inv inp out1 (ip + 1) op1 lit1 \<and> length out1 = length out \<and>
           (lit1 = lit + 1 \<and> op1 = op + 1 \<or> lit = 31 \<and> lit1 = 0 \<and> op1 = op + 2)"
proof -
  obtain ts acc bs where ts: "tok_run [] ts = Some acc" "acc @ bs = take ip inp" "length bs = lit" "op = length (toks_text ts) + 1 + lit"
    "(\<exists>h post. out = toks_text ts @ h # bs @ post) \<or> bs = [] \<and> out = toks_text ts" and lit: "lit < 32"
    using inv by (auto simp: lzf_inv_def)
  then obtain h post where "out = toks_text ts @ h # bs @ post" using assms(3) by auto
  moreover from this obtain p post1 where "post = p # post1" using assms(3) ts(3,4) by (cases post) auto
  ultimately have out: "out = (toks_text ts @ h # bs) @ p # post1" by simp
  let ?b = "inp ! ip" let ?bs = "bs @ [inp ! ip]"
  have len: "length (toks_text ts @ h # bs) = op" using ts(3,4) by simp
  have put: "byte_put out op ?b = Some (toks_text ts @ h # ?bs @ post1)" using byte_put_append [of "toks_text ts @ h # bs" p post1 ?b] out len by simp
  have at: "byte_at inp ip = Some ?b" using assms(2) by (simp add: byte_at_def)
  have acc: "acc @ ?bs = take (ip + 1) inp" using ts(2) assms(2) by (simp add: take_Suc_conv_app_nth flip: append_assoc)
  show ?thesis
  proof (cases "lit + 1 = 32")
    case False
    have "lzf_inv inp (toks_text ts @ h # ?bs @ post1) (ip + 1) (op + 1) (lit + 1)"
      by (rule lzf_inv_runI [OF ts(1) acc]) (use ts lit False assms(2) in auto)
    then show ?thesis using at put False out by (simp add: lzf_lit_def)
  next
    case True
    have st: "lzf_stop_run (toks_text ts @ h # ?bs @ post1) (op + 1) (lit + 1) = Some (toks_text ts @ 31 # ?bs @ post1)"
      using True ts(4) by (simp add: lzf_stop_run_def)
    have tx: "toks_text (ts @ [Lit ?bs]) = toks_text ts @ 31 # ?bs" using True ts(3) by simp
    have "lzf_inv inp (toks_text (ts @ [Lit ?bs]) @ post1) (ip + 1) (op + 2) 0"
      by (rule lzf_invI [of "ts @ [Lit ?bs]"]) (use acc ts True assms(2) in \<open>auto simp: tok_run_append\<close>)
    then show ?thesis using at put True st out unfolding tx by (simp add: lzf_lit_def)
  qed
qed

lemma put_ref_text:
  assumes "out = pre @ rest" "4 \<le> length rest" "op = length pre" "len \<le> 262"
  shows "\<exists>rest1. lzf_put_ref out op off len = Some (pre @ tok_text (Ref off len) @ rest1, op + length (tok_text (Ref off len))) \<and>
           length (pre @ tok_text (Ref off len) @ rest1) = length out"
proof -
  obtain a b c rest1 where "rest = a # b # c # rest1" using assms(2)
    by (cases rest; cases "tl rest"; cases "tl (tl rest)") auto
  then show ?thesis using assms by (auto simp: lzf_put_ref_def byte_put_def list_update_append)
qed

lemma inv_ref:
  assumes inv: "lzf_inv inp out ip op lit" and room: "op - (if lit = 0 then 1 else 0) + 4 < length out"
    and ref: "same_octets inp ref ip n" "ref < ip" "ip + n \<le> length inp" "3 \<le> n" "n \<le> 264" and off: "off = ip - 1 - ref" "off < 8192"
  shows "\<exists>out1 out2 op2. lzf_stop_run out op lit = Some out1 \<and>
           lzf_put_ref out1 (op - (if lit = 0 then 1 else 0)) off (n - 2) = Some (out2, op2) \<and>
           lzf_inv inp out2 (ip + n) (op2 + 1) 0 \<and> length out2 = length out"
proof -
  have "op \<le> length out + lit" using room by (cases "lit = 0") auto
  from inv_stop [OF inv this] obtain out1 ts rest where o1: "lzf_stop_run out op lit = Some out1" "tok_run [] ts = Some (take ip inp)"
    "out1 = toks_text ts @ rest" "length (toks_text ts) = op - (if lit = 0 then 1 else 0)" "length out1 = length out" by blast
  have n: "n - 2 \<le> 262" using ref(5) by simp
  have "4 \<le> length rest" using o1(3,4,5) room by simp
  then obtain rest1 where r: "lzf_put_ref out1 (op - (if lit = 0 then 1 else 0)) off (n - 2) =
      Some (toks_text ts @ tok_text (Ref off (n - 2)) @ rest1, op - (if lit = 0 then 1 else 0) + length (tok_text (Ref off (n - 2))))"
    "length (toks_text ts @ tok_text (Ref off (n - 2)) @ rest1) = length out1"
    using put_ref_text [OF o1(3) _ o1(4) [symmetric] n, of off] by blast
  have "tok_run [] (ts @ [Ref off (n - 2)]) = Some (copy_back (take ip inp) off n)"
  proof -
    have "n - 2 + 2 = n" "1 \<le> n - 2" using ref(4) by simp_all
    moreover have "off < length (take ip inp)" using ref(2,3) off(1) by simp
    ultimately show ?thesis using o1(2) n off(2) by (simp add: tok_run_append)
  qed
  then have "tok_run [] (ts @ [Ref off (n - 2)]) = Some (take (ip + n) inp)"
    using copy_back_same [OF ref(1-3)] off by simp
  then have "lzf_inv inp (toks_text ts @ tok_text (Ref off (n - 2)) @ rest1) (ip + n)
      (op - (if lit = 0 then 1 else 0) + length (tok_text (Ref off (n - 2))) + 1) 0"
    by (rule lzf_invI) (use ref(3) o1(4) in auto)
  then show ?thesis using o1(1) r(1) r(2) [unfolded o1(5)] by blast
qed

lemma NEXT_Some: "p + 2 < length inp \<Longrightarrow> \<exists>h. NEXT v inp p = Some h"
  by (simp add: NEXT_def byte_at_def)

lemma FRST_Some: "p + 1 < length inp \<Longrightarrow> \<exists>h. FRST inp p = Some h"
  by (simp add: FRST_def byte_at_def)

definition loop_result :: "byte list \<Rightarrow> nat \<Rightarrow> byte list + byte list \<times> nat \<times> nat \<times> nat \<Rightarrow> bool" where
  "loop_result inp n r = (case r of Inl out \<Rightarrow> length out = n
     | Inr (out, ip, op, lit) \<Rightarrow> length out = n \<and> lzf_inv inp out ip op lit \<and> length inp \<le> ip + 2)"

lemma lzf_loop_inv:
  assumes "lzf_inv inp out ip op lit" "length inp < 2 ^ 32"
  shows "\<exists>r. lzf_loop inp out htab ip op lit hval = Some r \<and> loop_result inp (length out) r"
  using assms
proof (induction "length inp - ip" arbitrary: out htab ip op lit hval rule: less_induct)
  case less
  note inv = less.prems(1)
  show ?case
  proof (cases "ip + 2 < length inp")
    case False
    then show ?thesis using inv by (subst lzf_loop.simps) (simp add: loop_result_def)
  next
    case True
    obtain h where h: "NEXT hval inp ip = Some h" using NEXT_Some [OF True] by blast
    define ref htab1 where "ref = unat (htab (IDX h))" and "htab1 = htab(IDX h := word_of_nat ip)"
    define off where "off = lzf_off ip ref"
    define undo where "undo = (if lit = 0 then 1 else (0 :: nat))"
    have "ref < 2 ^ 32" unfolding ref_def by (rule order.strict_trans2 [OF unsigned_less]) simp
    from lzf_same_octets [OF True less.prems(2) this off_def]
    obtain b where b: "lzf_same inp ref ip off = Some b" "b \<Longrightarrow> ref < ip \<and> off = ip - 1 - ref \<and> off < 8192 \<and> same_octets inp ref ip 3"
      by blast
    note step = h b(1)
    show ?thesis
    proof (cases b)
      case False
      show ?thesis
      proof (cases "op < length out")
        case op: True
        obtain out1 op1 lit1 where l: "lzf_lit inp out ip op lit = Some (out1, op1, lit1)" "lzf_inv inp out1 (ip + 1) op1 lit1" "length out1 = length out"
          using inv_lit [OF inv _ op] True by auto
        have "length inp - (ip + 1) < length inp - ip" using True by simp
        from less.hyps [OF this l(2) less.prems(2), of htab1 h] obtain r where
          r: "lzf_loop inp out1 htab1 (ip + 1) op1 lit1 h = Some r" "loop_result inp (length out) r" using l(3) by auto
        have "lzf_loop inp out htab ip op lit hval = Some r"
          by (subst lzf_loop.simps) (use True step False op l(1) r(1) in \<open>simp add: Let_def flip: ref_def htab1_def off_def del: fun_upd_apply\<close>)
        then show ?thesis using r(2) by blast
      next
        case op: False
        have "lzf_loop inp out htab ip op lit hval = Some (Inl out)"
          by (subst lzf_loop.simps) (use True step False op in \<open>simp add: Let_def flip: ref_def htab1_def off_def\<close>)
        then show ?thesis by (simp add: loop_result_def)
      qed
    next
      case hit: True
      note B = b(2) [OF hit]
      show ?thesis
      proof (cases "op + 3 + 1 \<ge> length out \<and> op - undo + 3 + 1 \<ge> length out")
        case full: True
        have "lzf_loop inp out htab ip op lit hval = Some (Inl out)"
          by (subst lzf_loop.simps) (use full True step hit in \<open>simp add: Let_def flip: ref_def htab1_def off_def undo_def\<close>)
        then show ?thesis by (simp add: loop_result_def)
      next
        case room: False
        then have room': "op - (if lit = 0 then 1 else 0) + 4 < length out" by (auto simp: undo_def)
        have "lzf_maxlen inp ip = min 264 (length inp - ip - 2)" by (auto simp: lzf_maxlen_def Let_def min_def)
        from lzf_match_same [OF _ _ True this, of ref] B obtain n where n: "lzf_match inp ref ip (lzf_maxlen inp ip) = Some n" "3 \<le> n" "n \<le> 264"
          "ip + n \<le> length inp" "same_octets inp ref ip n" by blast
        from inv_ref [OF inv room' n(5) _ n(4,2,3), of off] B obtain out1 out2 op2 where
          o: "lzf_stop_run out op lit = Some out1" "lzf_put_ref out1 (op - undo) off (n - 2) = Some (out2, op2)"
          "lzf_inv inp out2 (ip + n) (op2 + 1) 0" "length out2 = length out" unfolding undo_def by blast
        obtain len where len [simp]: "n = len + 2" using n(2) by (metis add.commute le_Suc_ex numeral_3_eq_3 numeral_2_eq_2 add_Suc_right add_Suc)
        show ?thesis
        proof (cases "length inp \<le> ip + n + 2")
          case True
          have "lzf_loop inp out htab ip op lit hval = Some (Inr (out2, ip + n, op2 + 1, 0))"
            by (subst lzf_loop.simps) (use room \<open>ip + 2 < length inp\<close> step hit n(1) o(1,2) True
              in \<open>simp add: Let_def flip: ref_def htab1_def off_def undo_def\<close>)
          then show ?thesis using True o(3,4) by (simp add: loop_result_def)
        next
          case False
          obtain h1 where h1: "FRST inp (ip + n - 2) = Some h1" using FRST_Some [of "ip + n - 2" inp] n(4) by auto
          obtain h2 where h2: "NEXT h1 inp (ip + n - 2) = Some h2" using NEXT_Some [of "ip + n - 2" inp h1] False by auto
          obtain h3 where h3: "NEXT h2 inp (ip + n - 1) = Some h3" using NEXT_Some [of "ip + n - 1" inp h2] False by auto
          let ?htab3 = "htab1(IDX h2 := word_of_nat (ip + n - 2), IDX h3 := word_of_nat (ip + n - 1))"
          have "length inp - (ip + n) < length inp - ip" using \<open>ip + 2 < length inp\<close> n(2) by simp
          from less.hyps [OF this o(3) less.prems(2), of ?htab3 h3] obtain r where
            r: "lzf_loop inp out2 ?htab3 (ip + n) (op2 + 1) 0 h3 = Some r" "loop_result inp (length out) r" using o(4) by auto
          have "lzf_loop inp out htab ip op lit hval = Some r"
            by (subst lzf_loop.simps) (use room \<open>ip + 2 < length inp\<close> step hit n(1) o(1,2) False h1 h2 h3 r(1)
              in \<open>auto simp: Let_def ref_def [symmetric] htab1_def [symmetric] off_def [symmetric] undo_def [symmetric] simp del: fun_upd_apply\<close>)
          then show ?thesis using r(2) by blast
        qed
      qed
    qed
  qed
qed

lemma lzf_tail_inv:
  assumes inv: "lzf_inv inp out ip op lit" and "op + 3 \<le> length out" "length inp \<le> ip + 2"
  shows "\<exists>out1 op1 lit1. lzf_tail inp out ip op lit = Some (out1, op1, lit1) \<and> lzf_inv inp out1 (length inp) op1 lit1 \<and>
           length out1 = length out \<and> op1 \<le> length out"
proof -
  have fin: "lzf_tail inp out' (length inp) op' lit' = Some (out', op', lit')" for out' op' lit' by (simp add: lzf_tail.simps)
  have le: "ip \<le> length inp" using inv by (simp add: lzf_inv_def)
  then consider "ip = length inp" | "ip + 1 = length inp" | "ip + 2 = length inp" using assms(3) by linarith
  then show ?thesis
  proof cases
    case 1
    then show ?thesis using inv assms(2) fin by auto
  next
    case 2
    obtain out1 op1 lit1 where l: "lzf_lit inp out ip op lit = Some (out1, op1, lit1)" "lzf_inv inp out1 (ip + 1) op1 lit1" "length out1 = length out"
      "lit1 = lit + 1 \<and> op1 = op + 1 \<or> lit = 31 \<and> lit1 = 0 \<and> op1 = op + 2" using inv_lit [OF inv] 2 assms(2) by auto
    have "lzf_tail inp out ip op lit = Some (out1, op1, lit1)" using 2 l(1) fin by (subst lzf_tail.simps) simp
    then show ?thesis using l assms(2) 2 by auto
  next
    case 3
    obtain out1 op1 lit1 where l: "lzf_lit inp out ip op lit = Some (out1, op1, lit1)" "lzf_inv inp out1 (ip + 1) op1 lit1" "length out1 = length out"
      "lit1 = lit + 1 \<and> op1 = op + 1 \<or> lit = 31 \<and> lit1 = 0 \<and> op1 = op + 2" using inv_lit [OF inv] 3 assms(2) by auto
    have "ip + 1 < length inp" "op1 < length out1" using 3 l(3,4) assms(2) by auto
    then obtain out2 op2 lit2 where m: "lzf_lit inp out1 (ip + 1) op1 lit1 = Some (out2, op2, lit2)" "lzf_inv inp out2 (ip + 1 + 1) op2 lit2"
      "length out2 = length out1" "lit2 = lit1 + 1 \<and> op2 = op1 + 1 \<or> lit1 = 31 \<and> lit2 = 0 \<and> op2 = op1 + 2"
      using inv_lit [OF l(2)] by auto
    have "lzf_tail inp out1 (ip + 1) op1 lit1 = Some (out2, op2, lit2)" using 3 m(1) fin by (subst lzf_tail.simps) simp
    then have "lzf_tail inp out ip op lit = Some (out2, op2, lit2)" using 3 l(1) by (subst lzf_tail.simps) simp
    moreover have "op2 \<le> length out" using l(3,4) m(3,4) assms(2) by auto
    ultimately show ?thesis using m(2,3) l(3) 3 by (auto simp: numeral_2_eq_2)
  qed
qed

lemma lzf_compress_text:
  assumes "2 \<le> length inp" "length inp < 2 ^ 32"
  shows "\<exists>out1 n. lzf_compress htab inp out = Some (out1, n) \<and> length out1 = length out \<and> n \<le> length out \<and>
           (0 < n \<longrightarrow> (\<exists>ts. take n out1 = toks_text ts \<and> tok_run [] ts = Some inp))"
proof (cases "out = []")
  case True
  then show ?thesis by (simp add: lzf_compress_def)
next
  case False
  obtain h where h: "FRST inp 0 = Some h" using FRST_Some [of 0 inp] assms(1) by auto
  have "lzf_inv inp out 0 1 0" by (rule lzf_invI [of "[]"]) auto
  from lzf_loop_inv [OF this assms(2), of htab h] obtain r where r: "lzf_loop inp out htab 0 1 0 h = Some r" "loop_result inp (length out) r" by blast
  have start: "lzf_compress htab inp out = (case r of Inl out1 \<Rightarrow> Some (out1, 0) | Inr (out1, ip, op, lit) \<Rightarrow>
      if op + 3 > length out1 then Some (out1, 0)
      else do { (out2, op2, lit2) \<leftarrow> lzf_tail inp out1 ip op lit; out3 \<leftarrow> lzf_stop_run out2 op2 lit2; Some (out3, op2 - (if lit2 = 0 then 1 else 0)) })"
    using assms(1) False h r(1) by (auto simp: lzf_compress_def)
  show ?thesis
  proof (cases r)
    case (Inl out1)
    then show ?thesis using start r(2) by (simp add: loop_result_def)
  next
    case (Inr q)
    obtain out1 ip op lit where q: "q = (out1, ip, op, lit)" by (cases q)
    have R: "length out1 = length out" "lzf_inv inp out1 ip op lit" "length inp \<le> ip + 2" using r(2) Inr q by (auto simp: loop_result_def)
    show ?thesis
    proof (cases "op + 3 > length out1")
      case True
      then show ?thesis using start Inr q R(1) by simp
    next
      case room: False
      from lzf_tail_inv [OF R(2) _ R(3)] room obtain out2 op2 lit2 where
        t: "lzf_tail inp out1 ip op lit = Some (out2, op2, lit2)" "lzf_inv inp out2 (length inp) op2 lit2" "length out2 = length out1" "op2 \<le> length out1"
        by auto
      have "op2 \<le> length out2 + lit2" using t(3,4) by simp
      from inv_stop [OF t(2) this] obtain out3 ts rest where s: "lzf_stop_run out2 op2 lit2 = Some out3" "tok_run [] ts = Some (take (length inp) inp)"
        "out3 = toks_text ts @ rest" "length (toks_text ts) = op2 - (if lit2 = 0 then 1 else 0)" "length out3 = length out2" by blast
      have "lzf_compress htab inp out = Some (out3, length (toks_text ts))" using start Inr q room t(1) s(1,4) by simp
      moreover have "take (length (toks_text ts)) out3 = toks_text ts" "length (toks_text ts) \<le> length out3" using s(3) by simp_all
      ultimately show ?thesis using s(2,5) t(3) R(1) by auto
    qed
  qed
qed

section \<open>Properties\<close>

text \<open>C19: for every input of at least two octets, every output area and every content of the uninitialised hash table,
  \<open>lzf_compress\<close> ends without an access outside of its input and output, and when it reports a compressed size, \<open>lzf_decompress\<close>
  of these octets gives back the input, whatever the larger area it is unpacked into contains.\<close>

theorem lzf_roundtrip:
  assumes "2 \<le> length inp" "length inp < 2 ^ 32"
  shows "\<exists>out1 n. lzf_compress htab inp out = Some (out1, n) \<and> length out1 = length out \<and> n \<le> length out \<and>
           (0 < n \<longrightarrow> (\<forall>area. length inp \<le> length area \<longrightarrow>
              lzf_decompress (take n out1) area = Some (inp @ drop (length inp) area, length inp, None)))"
proof -
  obtain out1 n where c: "lzf_compress htab inp out = Some (out1, n)" "length out1 = length out" "n \<le> length out"
    "0 < n \<Longrightarrow> \<exists>ts. take n out1 = toks_text ts \<and> tok_run [] ts = Some inp" using lzf_compress_text [OF assms] by blast
  have "lzf_decompress (take n out1) area = Some (inp @ drop (length inp) area, length inp, None)" if n: "0 < n" and a: "length inp \<le> length area" for area
  proof -
    obtain ts where ts: "take n out1 = toks_text ts" "tok_run [] ts = Some inp" using c(4) n by blast
    then have "ts \<noteq> []" using assms(1) by auto
    then show ?thesis using dloop_run [OF ts(2), of "take n out1" "[]" area area] ts(1) a by (simp add: lzf_decompress_def)
  qed
  then show ?thesis using c by blast
qed

theorem lzf_roundtrip_witness:
  "\<exists>out1. lzf_compress (\<lambda>_. 0) [1, 2, 3] [0, 0, 0, 0, 0, 0, 0, 0] = Some (out1, 4) \<and>
     lzf_decompress (take 4 out1) [9, 9, 9, 9] = Some ([1, 2, 3, 9], 3, None)"
proof -
  have "lzf_compress (\<lambda>_. 0) [1, 2, 3] [0, 0, 0, 0, 0, 0, 0, 0] = Some ([2, 1, 2, 3, 0, 0, 0, 0], 4)"
    by (simp add: lzf_compress_def FRST_def NEXT_def byte_at_def lzf_loop.simps lzf_same_def lzf_lit_def byte_put_def lzf_tail.simps
      lzf_stop_run_def Let_def)
  then show ?thesis using lzf_roundtrip [of "[1, 2, 3]" "\<lambda>_. 0" "[0, 0, 0, 0, 0, 0, 0, 0]"] by (auto dest: spec [of _ "[9, 9, 9, 9]"])
qed



text \<open>A single octet: \<open>FRST\<close> reads the octet after the input.\<close>

lemma lzf_compress_single: "out \<noteq> [] \<Longrightarrow> lzf_compress htab [b] out = None"
  by (simp add: lzf_compress_def FRST_def byte_at_def)

end
