(* ===== verification/Vire_Bitops.thy ===== *)
theory Vire_Bitops
  imports Vire_Interfaces
begin

text \<open>
  The bit level functions of \<open>vr_bitops.c\<close>: counting bits, searching a bit, reading and writing integers of any width at
  any bit offset, detecting their overflow, and combining strings bit by bit. A string is its list of bytes, and an address is
  a number only for the tests of its alignment. \<^verbatim>\<open>string_bits\<close> gives the bits of a string in the order of the commands, with the
  most significant bit of the first byte at position 0.
\<close>

section \<open>Counting bits\<close>

definition bitsinbyte :: "nat list" where
  "bitsinbyte =
    [0, 1, 1, 2, 1, 2, 2, 3, 1, 2, 2, 3, 2, 3, 3, 4, 1, 2, 2, 3, 2, 3, 3, 4, 2, 3, 3, 4, 3, 4, 4, 5,
     1, 2, 2, 3, 2, 3, 3, 4, 2, 3, 3, 4, 3, 4, 4, 5, 2, 3, 3, 4, 3, 4, 4, 5, 3, 4, 4, 5, 4, 5, 5, 6,
     1, 2, 2, 3, 2, 3, 3, 4, 2, 3, 3, 4, 3, 4, 4, 5, 2, 3, 3, 4, 3, 4, 4, 5, 3, 4, 4, 5, 4, 5, 5, 6,
     2, 3, 3, 4, 3, 4, 4, 5, 3, 4, 4, 5, 4, 5, 5, 6, 3, 4, 4, 5, 4, 5, 5, 6, 4, 5, 5, 6, 5, 6, 6, 7,
     1, 2, 2, 3, 2, 3, 3, 4, 2, 3, 3, 4, 3, 4, 4, 5, 2, 3, 3, 4, 3, 4, 4, 5, 3, 4, 4, 5, 4, 5, 5, 6,
     2, 3, 3, 4, 3, 4, 4, 5, 3, 4, 4, 5, 4, 5, 5, 6, 3, 4, 4, 5, 4, 5, 5, 6, 4, 5, 5, 6, 5, 6, 6, 7,
     2, 3, 3, 4, 3, 4, 4, 5, 3, 4, 4, 5, 4, 5, 5, 6, 3, 4, 4, 5, 4, 5, 5, 6, 4, 5, 5, 6, 5, 6, 6, 7,
     3, 4, 4, 5, 4, 5, 5, 6, 4, 5, 5, 6, 5, 6, 6, 7, 4, 5, 5, 6, 5, 6, 6, 7, 5, 6, 6, 7, 6, 7, 7, 8]"

text \<open>The three loops of \<open>redisPopcount\<close>: up to a four byte boundary, 28 bytes at a time, and the rest. The string starts at
  the address \<open>addr\<close>; \<open>p\<close> is the index of the next byte.\<close>

function popcount_align :: "byte list \<Rightarrow> nat \<Rightarrow> nat \<Rightarrow> int \<Rightarrow> nat \<Rightarrow> (nat \<times> int \<times> nat) option" where
  "popcount_align s addr p count bits =
     (if (addr + p) mod 4 \<noteq> 0 \<and> count \<noteq> 0
      then do { b \<leftarrow> byte_at s p; popcount_align s addr (p + 1) (count - 1) (bits + bitsinbyte ! unat b) }
      else Some (p, count, bits))"
  by pat_completeness auto

termination
  by (relation "measure (\<lambda>(s, addr, p, count, bits). length s - p)") (auto simp: byte_at_def split: if_splits)

declare popcount_align.simps [simp del]

definition popcount_fields :: "u32 \<Rightarrow> u32" where
  "popcount_fields aux =
     (let aux = aux - (drop_bit 1 aux AND 0x55555555)
      in (aux AND 0x33333333) + (drop_bit 2 aux AND 0x33333333))"

definition popcount_7 :: "u32 list \<Rightarrow> u32" where
  "popcount_7 auxs = drop_bit 24 (sum_list (map (\<lambda>aux. (aux + drop_bit 4 aux) AND 0x0F0F0F0F) auxs) * 0x01010101)"

fun words32 :: "nat \<Rightarrow> byte list \<Rightarrow> u32 list" where
  "words32 0 bs = []"
| "words32 (Suc n) bs = word_of_nat (le_val (take 4 bs)) # words32 n (drop 4 bs)"

function popcount_28 :: "byte list \<Rightarrow> nat \<Rightarrow> int \<Rightarrow> nat \<Rightarrow> (nat \<times> int \<times> nat) option" where
  "popcount_28 s p count bits =
     (if count \<ge> 28
      then do { bs \<leftarrow> mem_read s p 28;
                popcount_28 s (p + 28) (count - 28) (bits + unat (popcount_7 (map popcount_fields (words32 7 bs)))) }
      else Some (p, count, bits))"
  by pat_completeness auto

termination
  by (relation "measure (\<lambda>(s, p, count, bits). nat count)") auto

declare popcount_28.simps [simp del]

function popcount_rest :: "byte list \<Rightarrow> nat \<Rightarrow> int \<Rightarrow> nat \<Rightarrow> nat option" where
  "popcount_rest s p count bits =
     (if count \<noteq> 0 then do { b \<leftarrow> byte_at s p; popcount_rest s (p + 1) (count - 1) (bits + bitsinbyte ! unat b) }
      else Some bits)"
  by pat_completeness auto

termination
  by (relation "measure (\<lambda>(s, p, count, bits). length s - p)") (auto simp: byte_at_def split: if_splits)

declare popcount_rest.simps [simp del]

definition redisPopcount :: "byte list \<Rightarrow> nat \<Rightarrow> int \<Rightarrow> nat option" where
  "redisPopcount s addr count = do {
     (p, count, bits) \<leftarrow> popcount_align s addr 0 count 0;
     (p, count, bits) \<leftarrow> popcount_28 s p count bits;
     popcount_rest s p count bits
   }"

section \<open>The bits of a string\<close>

definition byte_bits :: "byte \<Rightarrow> bool list" where
  "byte_bits b = map (bit b) [7, 6, 5, 4, 3, 2, 1, 0]"

definition string_bits :: "byte list \<Rightarrow> bool list" where
  "string_bits s = concat (map byte_bits s)"

definition ones :: "bool list \<Rightarrow> nat" where
  "ones bs = length (filter id bs)"

lemma ones_simps [simp]: "ones [] = 0" "ones (b # bs) = of_bool b + ones bs" "ones (bs @ cs) = ones bs + ones cs"
  by (simp_all add: ones_def)

lemma string_bits_simps [simp]:
  "string_bits [] = []" "string_bits (b # s) = byte_bits b @ string_bits s" "string_bits (s @ t) = string_bits s @ string_bits t"
  by (simp_all add: string_bits_def)

lemma bitsinbyte_table: "bitsinbyte = map (\<lambda>n. ones (byte_bits (word_of_nat n))) [0..<256]"
  by code_simp

section \<open>Numbers as digits\<close>

fun num :: "nat \<Rightarrow> nat list \<Rightarrow> nat" where
  "num k [] = 0"
| "num k (d # ds) = d + 2 ^ k * num k ds"

fun pair_sums :: "nat list \<Rightarrow> nat list" where
  "pair_sums (a # b # ds) = (a + b) # pair_sums ds"
| "pair_sums ds = ds"

lemma bit_digit:
  assumes "a < 2 ^ k"
  shows "bit (a + 2 ^ k * b :: nat) i \<longleftrightarrow> (if i < k then bit a i else bit b (i - k))"
proof (cases "i < k")
  case True
  then obtain j where k: "k = i + Suc j" using less_imp_Suc_add by fastforce
  have "(a + 2 ^ k * b) div 2 ^ i = (a + 2 ^ i * (2 * (2 ^ j * b))) div 2 ^ i" by (simp add: k power_add mult_ac)
  also have "\<dots> = a div 2 ^ i + 2 * (2 ^ j * b)" by simp
  finally show ?thesis using True by (simp add: bit_iff_odd)
next
  case False
  then obtain j where i: "i = k + j" using le_Suc_ex not_less by blast
  have "(a + 2 ^ k * b) div 2 ^ i = (a + 2 ^ k * b) div 2 ^ k div 2 ^ j" by (simp add: i power_add div_mult2_eq)
  also have "\<dots> = b div 2 ^ j" using assms by simp
  finally show ?thesis using False i by (simp add: bit_iff_odd)
qed

lemma and_digit:
  assumes "a < 2 ^ k" "m < 2 ^ k"
  shows "(a + 2 ^ k * b) AND (m + 2 ^ k * n) = (a AND m) + 2 ^ k * (b AND n :: nat)"
proof (rule bit_eqI)
  fix i
  have "a AND m < 2 ^ k" using assms(1) by (metis and_nat_def le_less_trans of_nat_0_le_iff nat_mono AND_upper1 nat_int)
  then show "bit ((a + 2 ^ k * b) AND (m + 2 ^ k * n)) i = bit ((a AND m) + 2 ^ k * (b AND n)) i"
    using assms by (auto simp: bit_digit bit_and_iff)
qed

lemma shift_digits:
  "(d + 4 * n) div 2 = (d div 2 + 2 * (n mod 2)) + 4 * (n div 2 :: nat)"
  "a < 4 \<Longrightarrow> (a + 4 * (b + 4 * n)) div 4 = (b + 4 * (n mod 4)) + 16 * (n div 4 :: nat)"
  "a < 16 \<Longrightarrow> (a + 16 * (b + 16 * n)) + (a + 16 * (b + 16 * n)) div 16 = ((a + b) + 16 * (b + n mod 16)) + 256 * (n + n div 16 :: nat)"
proof -
  have "(d + 4 * n) div 2 = d div 2 + 2 * n" using div_mult_self2 [of 2 d "2 * n"] by (simp add: mult.commute)
  moreover have "2 * n = 2 * (n mod 2) + 4 * (n div 2)" using mult_div_mod_eq [of 2 n] by linarith
  ultimately show "(d + 4 * n) div 2 = (d div 2 + 2 * (n mod 2)) + 4 * (n div 2)" by linarith
  show "(a + 4 * (b + 4 * n)) div 4 = (b + 4 * (n mod 4)) + 16 * (n div 4)" if "a < 4"
  proof -
    have "(a + 4 * (b + 4 * n)) div 4 = b + 4 * n" using that div_mult_self2 [of 4 a "b + 4 * n"] by simp
    then show ?thesis using mult_div_mod_eq [of 4 n] by linarith
  qed
  show "(a + 16 * (b + 16 * n)) + (a + 16 * (b + 16 * n)) div 16 = ((a + b) + 16 * (b + n mod 16)) + 256 * (n + n div 16)" if "a < 16"
  proof -
    have "(a + 16 * (b + 16 * n)) div 16 = b + 16 * n" using that div_mult_self2 [of 16 a "b + 16 * n"] by simp
    moreover have "16 * n = 16 * (n mod 16) + 256 * (n div 16)" using mult_div_mod_eq [of 16 n] by linarith
    ultimately show ?thesis by (simp only: add_mult_distrib2)
  qed
qed

lemma half_fields:
  "\<forall>d \<in> set ds. d < 4 \<Longrightarrow> (num 2 ds div 2) AND num 2 (replicate (length ds) 1) = num 2 (map (\<lambda>d. d div 2) ds)"
proof (induction ds)
  case Nil
  then show ?case by simp
next
  case (Cons d ds)
  let ?N = "num 2 ds" and ?M = "num 2 (replicate (length ds) 1)"
  have d: "d < 4" using Cons.prems by simp
  have n: "num 2 (d # ds) div 2 = (d div 2 + 2 * (?N mod 2)) + 2 ^ 2 * (?N div 2)"
    using shift_digits(1) [of d ?N] by simp
  have "((d div 2 + 2 * (?N mod 2)) + 2 ^ 2 * (?N div 2)) AND (1 + 2 ^ 2 * ?M) =
      ((d div 2 + 2 * (?N mod 2)) AND 1) + 2 ^ 2 * ((?N div 2) AND ?M)"
    by (rule and_digit) (use d in auto)
  also have "(d div 2 + 2 * (?N mod 2)) AND 1 = d div 2" using d by (simp add: and_one_eq)
  finally show ?case using Cons n by simp
qed

lemma num_diff:
  "\<forall>d \<in> set ds. f d \<le> d \<Longrightarrow> num k ds - num k (map f ds) = num k (map (\<lambda>d. d - f d) ds) \<and> num k (map f ds) \<le> num k ds"
proof (induction ds)
  case (Cons d ds)
  have "num k ds = num k (map f ds) + num k (map (\<lambda>d. d - f d) ds)" using Cons by auto
  then show ?case using Cons.prems by (simp add: algebra_simps)
qed simp

lemma pair_fields:
  assumes "\<forall>d \<in> set ds. d < 4" "length ds = 2 * n"
  shows "(num 2 ds AND num 4 (replicate n 3)) + ((num 2 ds div 4) AND num 4 (replicate n 3)) = num 4 (pair_sums ds)"
  using assms
proof (induction n arbitrary: ds)
  case 0
  then show ?case by simp
next
  case (Suc n)
  then obtain a b es where ds: "ds = a # b # es" by (cases ds; cases "tl ds") auto
  let ?N = "num 2 es" and ?M = "num 4 (replicate n 3)"
  have ab: "a < 4" "b < 4" using Suc.prems(1) ds by auto
  have m3: "x AND 3 = x" if "x < 4" for x :: nat
    using that take_bit_nat_eq_self [of x 2] by (simp add: take_bit_eq_mask mask_eq_exp_minus_1)
  have "num 2 ds AND num 4 (replicate (Suc n) 3) = (a + 2 ^ 2 * b + 2 ^ 4 * ?N) AND (3 + 2 ^ 4 * ?M)" by (simp add: ds add.assoc)
  also have "\<dots> = ((a + 2 ^ 2 * b) AND 3) + 2 ^ 4 * (?N AND ?M)" by (rule and_digit) (use ab in auto)
  also have "(a + 2 ^ 2 * b) AND 3 = a" using and_digit [of a 2 3 b 0] ab m3 by simp
  finally have 1: "num 2 ds AND num 4 (replicate (Suc n) 3) = a + 16 * (?N AND ?M)" by simp
  have "num 2 ds div 4 = (b + 2 ^ 2 * (?N mod 4)) + 2 ^ 4 * (?N div 4)" using shift_digits(2) [of a b ?N] ab by (simp add: ds)
  moreover have "((b + 2 ^ 2 * (?N mod 4)) + 2 ^ 4 * (?N div 4)) AND (3 + 2 ^ 4 * ?M) = ((b + 2 ^ 2 * (?N mod 4)) AND 3) + 2 ^ 4 * ((?N div 4) AND ?M)"
    by (rule and_digit) (use ab mod_less_divisor [of 4 ?N] in auto)
  moreover have "(b + 2 ^ 2 * (?N mod 4)) AND 3 = b" using and_digit [of b 2 3 "?N mod 4" 0] ab m3 by simp
  ultimately have 2: "(num 2 ds div 4) AND num 4 (replicate (Suc n) 3) = b + 16 * ((?N div 4) AND ?M)" by simp
  have "(?N AND ?M) + ((?N div 4) AND ?M) = num 4 (pair_sums es)" by (rule Suc.IH) (use Suc.prems ds in auto)
  then show ?case unfolding 1 2 by (simp add: ds)
qed

lemma nibble_fields:
  assumes "\<forall>d \<in> set ds. d \<le> 4" "length ds = 2 * n"
  shows "(num 4 ds + num 4 ds div 16) AND num 8 (replicate n 15) = num 8 (pair_sums ds)"
  using assms
proof (induction n arbitrary: ds)
  case 0
  then show ?case by simp
next
  case (Suc n)
  then obtain a b es where ds: "ds = a # b # es" by (cases ds; cases "tl ds") auto
  let ?N = "num 4 es" and ?M = "num 8 (replicate n 15)"
  have ab: "a \<le> 4" "b \<le> 4" using Suc.prems(1) ds by auto
  have n0: "?N mod 16 \<le> 4" using Suc.prems(1) ds by (cases es) auto
  have m15: "x AND 15 = x" if "x < 16" for x :: nat
    using that take_bit_nat_eq_self [of x 4] by (simp add: take_bit_eq_mask mask_eq_exp_minus_1)
  have sum: "num 4 ds + num 4 ds div 16 = ((a + b) + 2 ^ 4 * (b + ?N mod 16)) + 2 ^ 8 * (?N + ?N div 16)"
    using shift_digits(3) [of a b ?N] ab by (simp add: ds del: div_mult_self2)
  have "(((a + b) + 2 ^ 4 * (b + ?N mod 16)) + 2 ^ 8 * (?N + ?N div 16)) AND (15 + 2 ^ 8 * ?M) =
      (((a + b) + 2 ^ 4 * (b + ?N mod 16)) AND 15) + 2 ^ 8 * ((?N + ?N div 16) AND ?M)"
    by (rule and_digit) (use ab n0 in auto)
  moreover have "((a + b) + 2 ^ 4 * (b + ?N mod 16)) AND 15 = a + b"
    using and_digit [of "a + b" 4 15 "b + ?N mod 16" 0] ab m15 by simp
  moreover note sum
  moreover have "(?N + ?N div 16) AND ?M = num 8 (pair_sums es)" by (rule Suc.IH) (use Suc.prems ds in auto)
  moreover have "num 8 (replicate (Suc n) 15) = 15 + 2 ^ 8 * ?M" by simp
  ultimately show ?case unfolding ds by (simp only: pair_sums.simps num.simps)
qed

lemma num_replicate: "2 ^ k * num k (replicate n c) + c = num k (replicate n c) + c * 2 ^ (k * n)"
proof (induction n)
  case (Suc n)
  let ?N = "num k (replicate n c)"
  have "2 ^ k * (2 ^ k * ?N + c) = 2 ^ k * (?N + c * 2 ^ (k * n))" by (simp only: Suc)
  then show ?case by (simp add: algebra_simps power_add)
qed simp

lemma num_masks: "num 2 (replicate 16 (Suc 0)) = 0x55555555" "num 4 (replicate 8 3) = 0x33333333" "num 8 (replicate 4 15) = 0x0F0F0F0F"
  using num_replicate [of 2 16 1] num_replicate [of 4 8 3] num_replicate [of 8 4 15] by simp_all

lemma num_lt: "\<forall>d \<in> set ds. d < 2 ^ k \<Longrightarrow> num k ds < 2 ^ (k * length ds)"
proof (induction ds)
  case (Cons d ds)
  then have "d + 2 ^ k * num k ds + 1 \<le> 2 ^ k * (num k ds + 1)" by simp
  also have "\<dots> \<le> 2 ^ k * 2 ^ (k * length ds)" using Cons by (intro mult_le_mono) auto
  finally show ?case by (simp add: power_add)
qed simp

lemma pair_sums_le: "\<forall>d \<in> set ds. d \<le> n \<Longrightarrow> \<forall>d \<in> set (pair_sums ds). d \<le> 2 * n"
  by (induction ds rule: pair_sums.induct) auto

lemma length_pair_sums: "length ds = 2 * n \<Longrightarrow> length (pair_sums ds) = n"
proof (induction n arbitrary: ds)
  case (Suc n)
  then obtain a b es where "ds = a # b # es" by (cases ds; cases "tl ds") auto
  with Suc show ?case by simp
qed simp

lemma num_mono: "\<forall>d \<in> set ds. d \<le> c \<Longrightarrow> num k ds \<le> num k (replicate (length ds) c)"
  by (induction ds) (auto intro!: add_mono mult_le_mono)

lemma sum_pair_sums: "sum_list (pair_sums ds) = sum_list ds"
  by (induction ds rule: pair_sums.induct) auto

lemma unat_ops:
  fixes a b :: u32
  shows "unat (drop_bit n a) = unat a div 2 ^ n" "unat (a AND b) = unat a AND unat b"
    "unat a + unat b < 2 ^ 32 \<Longrightarrow> unat (a + b) = unat a + unat b" "unat b \<le> unat a \<Longrightarrow> unat (a - b) = unat a - unat b"
proof -
  show "unat (drop_bit n a) = unat a div 2 ^ n" by (simp only: unat_drop_bit_eq) (simp only: drop_bit_eq_div)
  show "unat (a AND b) = unat a AND unat b" by (rule unsigned_and_eq)
  show "unat (a + b) = unat a + unat b" if "unat a + unat b < 2 ^ 32" using that by (simp add: unat_word_ariths)
  show "unat (a - b) = unat a - unat b" if "unat b \<le> unat a" using that by (simp add: unat_sub word_le_nat_alt)
qed

lemma popcount_fields_num:
  assumes w: "unat w = num 2 ds" and ds: "length ds = 16" "\<forall>d \<in> set ds. d < 4"
  shows "unat (popcount_fields w) = num 4 (pair_sums (map (\<lambda>d. d - d div 2) ds))"
proof -
  define es where "es = map (\<lambda>d. d - d div 2) ds"
  define y where "y = w - (drop_bit 1 w AND 0x55555555)"
  have es: "length es = 2 * 8" "\<forall>d \<in> set es. d < 4" using ds by (auto simp: es_def)
  have "unat (drop_bit 1 w AND 0x55555555) = num 2 (map (\<lambda>d. d div 2) ds)"
    using half_fields [OF ds(2)] by (simp add: unat_ops w ds(1) num_masks)
  then have y: "unat y = num 2 es" using num_diff [of ds "\<lambda>d. d div 2" 2] by (simp add: y_def unat_ops w es_def)
  have f: "unat (y AND 0x33333333) + unat (drop_bit 2 y AND 0x33333333) = num 4 (pair_sums es)"
    using pair_fields [OF es(2,1)] by (simp add: unat_ops y num_masks)
  have "\<forall>d \<in> set es. d \<le> 2" using ds(2) by (auto simp: es_def)
  from pair_sums_le [OF this] have "num 4 (pair_sums es) < 2 ^ (4 * length (pair_sums es))" by (intro num_lt) auto
  then have "num 4 (pair_sums es) < 2 ^ 32" by (simp add: length_pair_sums [OF es(1)])
  then have "unat ((y AND 0x33333333) + (drop_bit 2 y AND 0x33333333)) = num 4 (pair_sums es)"
    using unat_ops(3) [of "y AND 0x33333333" "drop_bit 2 y AND 0x33333333"] f by simp
  then show ?thesis by (simp add: popcount_fields_def Let_def y_def es_def)
qed

lemma popcount_bytes_num:
  fixes a :: u32
  assumes a: "unat a = num 4 ns" and ns: "length ns = 8" "\<forall>d \<in> set ns. d \<le> 4"
  shows "unat ((a + drop_bit 4 a) AND 0x0F0F0F0F) = num 8 (pair_sums ns)"
proof -
  have "num 4 (replicate 8 4) = 0x44444444" using num_replicate [of 4 8 4] by simp
  then have le: "unat a \<le> 0x44444444" using num_mono [OF ns(2), of 4] ns(1) a by simp
  have "unat a + unat a div 16 < 2 ^ 32" using le div_le_mono [OF le, of 16] by simp
  then have "unat (a + drop_bit 4 a) = unat a + unat a div 16" using unat_ops(3) [of a "drop_bit 4 a"] by (simp add: unat_ops(1))
  then show ?thesis using nibble_fields [OF ns(2), of 4] ns(1) a by (simp add: unat_ops(2) num_masks)
qed

lemma num_add: "length ds = length es \<Longrightarrow> num k ds + num k es = num k (map2 (+) ds es)"
proof (induction ds es rule: list_induct2)
  case (Cons d ds e es)
  then show ?case by (simp add: Cons.IH [symmetric] distrib_left)
qed simp

lemma num_8_sum:
  assumes "unat x = num 8 [s0, s1, s2, s3]" "s0 + s1 + s2 + s3 < 256"
  shows "unat (drop_bit 24 (x * 0x01010101 :: u32)) = s0 + s1 + s2 + s3"
proof -
  define lo where "lo = s0 + 256 * (s0 + s1) + 65536 * (s0 + s1 + s2)"
  define hi where "hi = (s1 + s2 + s3) + 256 * (s2 + s3) + 65536 * s3"
  have lo: "lo < 2 ^ 24" using assms(2) unfolding lo_def by simp
  have "unat x * 0x01010101 = lo + 2 ^ 24 * (s0 + s1 + s2 + s3) + 2 ^ 32 * hi"
    unfolding assms(1) lo_def hi_def by simp
  then have "unat (x * 0x01010101) = (lo + 2 ^ 24 * (s0 + s1 + s2 + s3) + 2 ^ 32 * hi) mod 2 ^ 32" by (simp add: unat_word_ariths)
  also have "\<dots> = lo + 2 ^ 24 * (s0 + s1 + s2 + s3)" using lo assms(2) by simp
  finally show ?thesis using lo by (simp add: unat_ops(1))
qed

definition digits4 :: "nat \<Rightarrow> nat list" where
  "digits4 n = [n mod 4, n div 4 mod 4, n div 16 mod 4, n div 64 mod 4]"

lemma digit_ones: "n mod 4 - n mod 4 div 2 = of_bool (odd n) + of_bool (odd (n div 2 :: nat))"
proof -
  define d where "d = n mod 4"
  have "d < 4" by (simp add: d_def)
  then consider "d = 0" | "d = 1" | "d = 2" | "d = 3" by linarith
  moreover have "odd n \<longleftrightarrow> odd d" "odd (n div 2) \<longleftrightarrow> odd (d div 2)" unfolding d_def by presburger+
  ultimately show ?thesis unfolding d_def [symmetric] by cases auto
qed

lemma digits4_ones: "sum_list (map (\<lambda>d. d - d div 2) (digits4 (unat b))) = ones (byte_bits b)"
proof -
  have bit: "bit b i = odd (unat b div 2 ^ i)" for i by (simp add: bit_unsigned_iff flip: bit_iff_odd)
  have d: "unat b div 4 div 2 = unat b div 2 ^ 3" "unat b div 16 div 2 = unat b div 2 ^ 5" "unat b div 64 div 2 = unat b div 2 ^ 7"
    by (simp_all add: div_mult2_eq [symmetric])
  show ?thesis unfolding digits4_def byte_bits_def by (simp add: digit_ones d bit)
qed

lemma digits4_num:
  assumes "n < 256"
  shows "num 2 (digits4 n @ ds) = n + 256 * num 2 ds"
proof -
  have "n div 64 mod 4 = n div 64" using assms by simp
  moreover have "n mod 4 + 4 * (n div 4) = n" "n div 4 = n div 4 mod 4 + 4 * (n div 16)" "n div 16 = n div 16 mod 4 + 4 * (n div 64)"
    by (simp, simp add: div_mult2_eq [of n 4 4, simplified], simp add: div_mult2_eq [of n 16 4, simplified])
  moreover have "num 2 (digits4 n @ ds) = n mod 4 + 4 * (n div 4 mod 4 + 4 * (n div 16 mod 4 + 4 * (n div 64 mod 4 + 4 * num 2 ds)))"
    by (simp add: digits4_def)
  moreover have "a + 4 * x = m \<Longrightarrow> x = b + 4 * y \<Longrightarrow> y = c + 4 * d \<Longrightarrow> a + 4 * (b + 4 * (c + 4 * (d + 4 * r))) = m + 256 * r"
    for a b c d x y r m :: nat by simp
  ultimately show ?thesis by metis
qed

lemma ones_byte_le: "ones (byte_bits b) \<le> 8"
  using length_filter_le [of id "byte_bits b"] by (simp add: ones_def byte_bits_def)

lemma pair_sums_byte: "pair_sums (pair_sums (map f (digits4 n) @ ds)) = sum_list (map f (digits4 n)) # pair_sums (pair_sums ds)"
  by (simp add: digits4_def)

lemma popcount_word:
  assumes "length bs = 4"
  shows "\<exists>cs. length cs = 4 \<and> (\<forall>c \<in> set cs. c \<le> 8) \<and> sum_list cs = ones (string_bits bs) \<and>
     (let a = popcount_fields (word_of_nat (le_val bs)) in unat ((a + drop_bit 4 a) AND 0x0F0F0F0F) = num 8 cs)"
proof -
  obtain b0 b1 b2 b3 where bs: "bs = [b0, b1, b2, b3]" using assms
    by (cases bs; cases "tl bs"; cases "tl (tl bs)"; cases "tl (tl (tl bs))") auto
  define ds where "ds = digits4 (unat b0) @ digits4 (unat b1) @ digits4 (unat b2) @ digits4 (unat b3) @ []"
  have "le_val bs < 2 ^ 32" using le_val_lt [of bs] assms by simp
  then have "unat (word_of_nat (le_val bs) :: u32) = le_val bs" by (simp add: unat_of_nat)
  moreover have "le_val bs = num 2 ds" unfolding ds_def by (simp only: digits4_num [OF unat_byte_lt]) (simp add: bs)
  ultimately have u: "unat (word_of_nat (le_val bs) :: u32) = num 2 ds" by metis
  have ds: "length ds = 16" "\<forall>d \<in> set ds. d < 4" by (auto simp: ds_def digits4_def)
  define ns where "ns = pair_sums (map (\<lambda>d. d - d div 2) ds)"
  have "\<forall>d \<in> set (map (\<lambda>d. d - d div 2) ds). d \<le> 2" using ds(2) by auto
  then have ns: "length ns = 8" "\<forall>d \<in> set ns. d \<le> 4" using pair_sums_le [of "map (\<lambda>d. d - d div 2) ds" 2] ds(1)
    by (auto simp: ns_def length_pair_sums)
  have cs: "pair_sums ns = map (\<lambda>b. ones (byte_bits b)) bs"
    unfolding ns_def ds_def map_append pair_sums_byte digits4_ones by (simp add: bs)
  have "unat (popcount_fields (word_of_nat (le_val bs))) = num 4 ns" unfolding ns_def by (rule popcount_fields_num [OF u ds])
  from popcount_bytes_num [OF this ns] cs show ?thesis
    by (intro exI [of _ "map (\<lambda>b. ones (byte_bits b)) bs"]) (auto simp: bs Let_def ones_byte_le)
qed

lemma sum_map2: "length xs = length ys \<Longrightarrow> sum_list (map2 (+) xs ys) = sum_list xs + (sum_list ys :: nat)"
  by (induction xs ys rule: list_induct2) simp_all

lemma popcount_sum:
  assumes "\<forall>x \<in> set xs. \<exists>cs. length cs = 4 \<and> (\<forall>c \<in> set cs. c \<le> 8) \<and> sum_list cs = f x \<and> unat (g x :: u32) = num 8 cs" "length xs \<le> 7"
  shows "\<exists>cs. length cs = 4 \<and> (\<forall>c \<in> set cs. c \<le> 8 * length xs) \<and> sum_list cs = sum_list (map f xs) \<and> unat (sum_list (map g xs)) = num 8 cs"
  using assms
proof (induction xs)
  case Nil
  then show ?case by (intro exI [of _ "[0, 0, 0, 0]"]) simp
next
  case (Cons x xs)
  obtain cs where cs: "length cs = 4" "\<forall>c \<in> set cs. c \<le> 8 * length xs" "sum_list cs = sum_list (map f xs)" "unat (sum_list (map g xs)) = num 8 cs"
    using Cons by auto
  obtain ds where ds: "length ds = 4" "\<forall>c \<in> set ds. c \<le> 8" "sum_list ds = f x" "unat (g x) = num 8 ds" using Cons.prems(1) by auto
  define es where "es = map2 (+) ds cs"
  have es: "length es = 4" "\<forall>c \<in> set es. c \<le> 8 * length (x # xs)" "sum_list es = sum_list ds + sum_list cs"
    using cs(1,2) ds(1,2) by (auto simp: es_def sum_map2 dest: set_zip_leftD set_zip_rightD intro!: add_mono)
  have "\<forall>c \<in> set es. c < 2 ^ 8" using es(2) Cons.prems(2) by fastforce
  from num_lt [OF this] es(1) have "num 8 es < 2 ^ 32" by simp
  moreover have "num 8 ds + num 8 cs = num 8 es" using num_add [of ds cs 8] ds(1) cs(1) by (simp add: es_def)
  ultimately have "unat (g x + sum_list (map g xs)) = num 8 es" using unat_ops(3) [of "g x" "sum_list (map g xs)"] ds(4) cs(4) by simp
  then show ?case using es ds(3) cs(3) by (intro exI [of _ es]) simp
qed

fun chunks4 :: "nat \<Rightarrow> byte list \<Rightarrow> byte list list" where
  "chunks4 0 bs = []"
| "chunks4 (Suc n) bs = take 4 bs # chunks4 n (drop 4 bs)"

lemma words32_chunks: "words32 n bs = map (\<lambda>c. word_of_nat (le_val c)) (chunks4 n bs)"
  by (induction n bs rule: chunks4.induct) simp_all

lemma length_chunks4: "length (chunks4 n bs) = n"
  by (induction n bs rule: chunks4.induct) simp_all

lemma chunks4_length: "length bs = 4 * n \<Longrightarrow> \<forall>c \<in> set (chunks4 n bs). length c = 4"
  by (induction n bs rule: chunks4.induct) simp_all

lemma chunks4_ones: "length bs = 4 * n \<Longrightarrow> sum_list (map (\<lambda>c. ones (string_bits c)) (chunks4 n bs)) = ones (string_bits bs)"
proof (induction n bs rule: chunks4.induct)
  case (2 n bs)
  have "ones (string_bits (take 4 bs @ drop 4 bs)) = ones (string_bits (take 4 bs)) + ones (string_bits (drop 4 bs))"
    by (simp only: string_bits_simps ones_simps)
  then show ?case using 2 by simp
qed simp

lemma popcount_7_ones:
  assumes "length bs = 28"
  shows "unat (popcount_7 (map popcount_fields (words32 7 bs))) = ones (string_bits bs)"
proof -
  let ?g = "\<lambda>c. let a = popcount_fields (word_of_nat (le_val c)) in (a + drop_bit 4 a) AND 0x0F0F0F0F"
  have len: "length bs = 4 * 7" using assms by simp
  note C = length_chunks4 [of 7 bs] chunks4_length [OF len] chunks4_ones [OF len]
  have "\<forall>x \<in> set (chunks4 7 bs). \<exists>cs. length cs = 4 \<and> (\<forall>c \<in> set cs. c \<le> 8) \<and> sum_list cs = ones (string_bits x) \<and> unat (?g x) = num 8 cs"
    using C(2) popcount_word by (auto simp: Let_def)
  from popcount_sum [OF this] C(1) obtain cs where cs: "length cs = 4" "\<forall>c \<in> set cs. c \<le> 8 * length (chunks4 7 bs)"
    "sum_list cs = sum_list (map (\<lambda>c. ones (string_bits c)) (chunks4 7 bs))" "unat (sum_list (map ?g (chunks4 7 bs))) = num 8 cs" by auto
  obtain s0 s1 s2 s3 where s: "cs = [s0, s1, s2, s3]" using cs(1) by (cases cs; cases "tl cs"; cases "tl (tl cs)"; cases "tl (tl (tl cs))") auto
  have "s0 + s1 + s2 + s3 < 256" using cs(2) C(1) s by simp
  from num_8_sum [OF cs(4) [unfolded s] this] show ?thesis
    using cs(3) C(3) s by (simp add: popcount_7_def words32_chunks comp_def Let_def)
qed

lemma bitsinbyte_ones: "bitsinbyte ! unat b = ones (byte_bits b)"
  using unat_byte_lt [of b] by (simp add: bitsinbyte_table)

lemma ones_take_Suc: "p < length s \<Longrightarrow> ones (string_bits (take (Suc p) s)) = ones (string_bits (take p s)) + ones (byte_bits (s ! p))"
  by (simp add: take_Suc_conv_app_nth)

lemma popcount_align_ones:
  assumes "p + n \<le> length s" "bits = ones (string_bits (take p s))"
  shows "\<exists>q m. popcount_align s addr p (int n) bits = Some (q, int m, ones (string_bits (take q s))) \<and> q + m = p + n"
  using assms
proof (induction n arbitrary: p bits)
  case 0
  then show ?case by (subst popcount_align.simps) (auto intro!: exI [of _ 0])
next
  case (Suc n)
  show ?case
  proof (cases "(addr + p) mod 4 = 0")
    case True
    then show ?thesis using Suc.prems by (subst popcount_align.simps) (auto intro!: exI [of _ "Suc n"])
  next
    case False
    have "popcount_align s addr p (int (Suc n)) bits = popcount_align s addr (p + 1) (int n) (bits + bitsinbyte ! unat (s ! p))"
      using False Suc.prems by (subst popcount_align.simps) (simp add: byte_at_def)
    moreover have "bits + bitsinbyte ! unat (s ! p) = ones (string_bits (take (p + 1) s))"
      using Suc.prems by (simp add: bitsinbyte_ones ones_take_Suc)
    ultimately show ?thesis using Suc.IH [of "p + 1" "bits + bitsinbyte ! unat (s ! p)"] Suc.prems(1) by auto
  qed
qed

lemma popcount_28_ones:
  assumes "p + n \<le> length s" "bits = ones (string_bits (take p s))"
  shows "\<exists>q m. popcount_28 s p (int n) bits = Some (q, int m, ones (string_bits (take q s))) \<and> q + m = p + n"
  using assms
proof (induction n arbitrary: p bits rule: less_induct)
  case (less n)
  show ?case
  proof (cases "n < 28")
    case True
    then show ?thesis using less.prems by (subst popcount_28.simps) (auto intro!: exI [of _ n])
  next
    case False
    define bs where "bs = take 28 (drop p s)"
    have bs: "length bs = 28" "mem_read s p 28 = Some bs" using less.prems(1) False by (simp_all add: bs_def mem_read_def)
    have "take (p + 28) s = take p s @ bs" by (simp add: bs_def take_add)
    then have o: "bits + unat (popcount_7 (map popcount_fields (words32 7 bs))) = ones (string_bits (take (p + 28) s))"
      using less.prems(2) popcount_7_ones [OF bs(1)] by simp
    have "popcount_28 s p (int n) bits = popcount_28 s (p + 28) (int (n - 28)) (bits + unat (popcount_7 (map popcount_fields (words32 7 bs))))"
      using False bs(2) by (subst popcount_28.simps) (simp add: of_nat_diff)
    then show ?thesis using less.IH [OF _ _ o, of "n - 28"] less.prems(1) False by auto
  qed
qed

lemma popcount_rest_ones:
  assumes "p + n \<le> length s" "bits = ones (string_bits (take p s))"
  shows "popcount_rest s p (int n) bits = Some (ones (string_bits (take (p + n) s)))"
  using assms
proof (induction n arbitrary: p bits)
  case 0
  then show ?case by (subst popcount_rest.simps) simp
next
  case (Suc n)
  have "popcount_rest s p (int (Suc n)) bits = popcount_rest s (p + 1) (int n) (bits + bitsinbyte ! unat (s ! p))"
    using Suc.prems by (subst popcount_rest.simps) (simp add: byte_at_def)
  then show ?case using Suc.IH [of "p + 1" "bits + bitsinbyte ! unat (s ! p)"] Suc.prems
    by (simp add: bitsinbyte_ones ones_take_Suc)
qed

text \<open>C21: \<open>redisPopcount\<close>, with its aligned start, its seven words at a time in parallel fields and its table for the rest, returns the
  number of ones among the bits of the first \<open>count\<close> bytes, at every alignment of the string and without reading past them.\<close>

theorem redisPopcount_counts:
  assumes "count \<le> length s"
  shows "redisPopcount s addr (int count) = Some (ones (string_bits (take count s)))"
proof -
  obtain p m where a: "popcount_align s addr 0 (int count) 0 = Some (p, int m, ones (string_bits (take p s)))" "p + m = count"
    using popcount_align_ones [of 0 count s 0 addr] assms by auto
  obtain q k where b: "popcount_28 s p (int m) (ones (string_bits (take p s))) = Some (q, int k, ones (string_bits (take q s)))" "q + k = p + m"
    using popcount_28_ones [OF _ refl, of p m s] a(2) assms by auto
  show ?thesis using popcount_rest_ones [OF _ refl, of q k s] a b assms by (simp add: redisPopcount_def)
qed

theorem redisPopcount_counts_witness: "redisPopcount (replicate 40 255) 3 (int 33) = Some 264"
proof -
  have "redisPopcount (replicate 40 255) 3 (int 33) = Some (ones (string_bits (take 33 (replicate 40 255))))"
    by (rule redisPopcount_counts) simp
  also have "ones (string_bits (take 33 (replicate 40 255))) = 264" by (simp add: string_bits_def byte_bits_def ones_def) code_simp
  finally show ?thesis .
qed

section \<open>Searching a bit\<close>

text \<open>\<open>redisBitpos\<close>: the skipping loops up to an eight byte boundary and over whole words, the loading of the last word with the
  first byte on top, and the scan over its bits. \<open>serverPanic\<close> is \<^term>\<open>None\<close>.\<close>

function bitpos_align :: "byte list \<Rightarrow> nat \<Rightarrow> nat \<Rightarrow> nat \<Rightarrow> nat \<Rightarrow> int \<Rightarrow> (nat \<times> nat \<times> int) option" where
  "bitpos_align s addr skipval c count pos =
     (if (addr + c) mod 8 \<noteq> 0 \<and> count \<noteq> 0 then do {
        b \<leftarrow> byte_at s c;
        if unat b \<noteq> skipval then Some (c, count, pos)
        else bitpos_align s addr skipval (c + 1) (count - 1) (pos + 8)
      }
      else Some (c, count, pos))"
  by pat_completeness auto

termination
  by (relation "measure (\<lambda>(s, addr, skipval, c, count, pos). count)") auto

declare bitpos_align.simps [simp del]

function bitpos_words :: "byte list \<Rightarrow> nat \<Rightarrow> nat \<Rightarrow> nat \<Rightarrow> int \<Rightarrow> (nat \<times> nat \<times> int) option" where
  "bitpos_words s skipval c count pos =
     (if count \<ge> 8 then do {
        l \<leftarrow> mem_read s c 8;
        if le_val l \<noteq> skipval then Some (c, count, pos)
        else bitpos_words s skipval (c + 8) (count - 8) (pos + 8 * 8)
      }
      else Some (c, count, pos))"
  by pat_completeness auto

termination
  by (relation "measure (\<lambda>(s, skipval, c, count, pos). count)") auto

declare bitpos_words.simps [simp del]

fun bitpos_load :: "byte list \<Rightarrow> nat \<Rightarrow> nat \<Rightarrow> nat \<Rightarrow> u64 \<Rightarrow> u64 option" where
  "bitpos_load s c count 0 word = Some word"
| "bitpos_load s c count (Suc j) word =
     (if count \<noteq> 0 then do { b \<leftarrow> byte_at s c; bitpos_load s (c + 1) (count - 1) j (push_bit 8 word OR ucast b) }
      else bitpos_load s c count j (push_bit 8 word))"

function bitpos_scan :: "u64 \<Rightarrow> int \<Rightarrow> u64 \<Rightarrow> int \<Rightarrow> int option" where
  "bitpos_scan word bv one pos =
     (if one \<noteq> 0 then
        if of_bool (one AND word \<noteq> 0) = bv then Some pos
        else bitpos_scan word bv (drop_bit 1 one) (pos + 1)
      else None)"
  by pat_completeness auto

termination
proof (relation "measure (\<lambda>(word, bv, one, pos). unat one)")
  fix word :: u64 and bv :: int and one :: u64 and pos :: int
  assume "one \<noteq> 0"
  then have "0 < unat one" by (simp add: unat_gt_0)
  moreover have "unat (drop_bit 1 one) = unat one div 2" by (simp only: unat_drop_bit_eq) (simp only: drop_bit_eq_div power_one_right)
  ultimately show "((word, bv, drop_bit 1 one, pos + 1), (word, bv, one, pos)) \<in> measure (\<lambda>(word, bv, one, pos). unat one)" by simp
qed simp

declare bitpos_scan.simps [simp del]

definition redisBitpos :: "byte list \<Rightarrow> nat \<Rightarrow> nat \<Rightarrow> int \<Rightarrow> int option" where
  "redisBitpos s addr count bv = do {
     (c, count, pos) \<leftarrow> bitpos_align s addr (if bv \<noteq> 0 then 0 else 255) 0 count 0;
     (c, count, pos) \<leftarrow> bitpos_words s (if bv \<noteq> 0 then 0 else ULLONG_MAX) c count pos;
     word \<leftarrow> bitpos_load s c count 8 0;
     if bv = 1 \<and> word = 0 then Some (- 1)
     else bitpos_scan word bv (NOT (drop_bit 1 (- 1))) pos
   }"

text \<open>The bits of a word from position \<open>n - 1\<close> down to 0.\<close>

definition word_bits :: "nat \<Rightarrow> u64 \<Rightarrow> bool list" where
  "word_bits n w = map (bit w) (rev [0..<n])"

lemma word_bits_Suc: "word_bits (Suc n) w = bit w n # word_bits n w"
  by (simp add: word_bits_def)

lemma length_byte_bits [simp]: "length (byte_bits b) = 8"
  by (simp add: byte_bits_def)

lemma length_string_bits [simp]: "length (string_bits s) = 8 * length s"
  by (induction s) simp_all

lemma word_bits_push:
  assumes "n \<le> 56"
  shows "word_bits (n + 8) (push_bit 8 w OR ucast b) = word_bits n w @ byte_bits b"
proof -
  let ?v = "push_bit 8 w OR ucast b :: u64"
  have "[0..<n + 8] = [0..<8] @ map (\<lambda>i. i + 8) [0..<n]" using upt_add_eq_append [of 0 8 n] by (simp add: map_add_upt add.commute)
  then have "word_bits (n + 8) ?v = map (\<lambda>i. bit ?v (i + 8)) (rev [0..<n]) @ map (bit ?v) (rev [0..<8])"
    by (simp add: word_bits_def rev_map comp_def)
  moreover have "bit ?v (i + 8) = bit w i" if "i < n" for i
    using that assms by (auto simp: bit_or_iff bit_push_bit_iff bit_ucast_iff dest: bit_imp_le_length)
  moreover have "bit ?v i = bit b i" if "i < 8" for i
    using that by (auto simp: bit_or_iff bit_push_bit_iff bit_ucast_iff)
  moreover have "rev [0..<8] = [7, 6, 5, 4, 3, 2, 1, 0::nat]" by code_simp
  ultimately show ?thesis by (auto simp: word_bits_def byte_bits_def)
qed

lemma scan_bits:
  assumes "n \<le> 64" "b = (bv = 1)" "bv = 0 \<or> bv = 1"
  shows "bitpos_scan w bv (if n = 0 then 0 else push_bit (n - 1) 1) pos =
    (if b \<in> set (word_bits n w) then Some (pos + int (length (takeWhile (\<lambda>x. x \<noteq> b) (word_bits n w)))) else None)"
  using assms(1)
proof (induction n arbitrary: pos)
  case 0
  then show ?case by (subst bitpos_scan.simps) (simp add: word_bits_def)
next
  case (Suc n)
  have a: "push_bit n 1 AND w \<noteq> 0 \<longleftrightarrow> bit w n" using and_exp_eq_0_iff_not_bit [of w n] by (simp add: push_bit_eq_mult and.commute)
  have z: "push_bit n 1 \<noteq> (0 :: u64)" using Suc.prems by (simp add: push_bit_eq_mult)
  have d: "drop_bit 1 (push_bit n 1) = (if n = 0 then 0 else push_bit (n - 1) 1 :: u64)"
    using Suc.prems by (cases n) (auto intro!: bit_eqI simp: bit_drop_bit_eq bit_exp_iff simp flip: power_Suc)
  have "bitpos_scan w bv (push_bit n 1) pos = (if of_bool (bit w n) = bv then Some pos
      else bitpos_scan w bv (if n = 0 then 0 else push_bit (n - 1) 1) (pos + 1))"
    by (subst bitpos_scan.simps) (simp only: z a d not_False_eq_True if_True)
  moreover have "of_bool (bit w n) = bv \<longleftrightarrow> bit w n = b" using assms(2,3) by auto
  ultimately show ?case using Suc.IH [of "pos + 1"] Suc.prems by (auto simp: word_bits_Suc)
qed

text \<open>Loading the bytes of \<open>bs\<close> and zeros.\<close>

lemma load_bits:
  assumes "bs = take j (take count (drop c s))" "c + count \<le> length s" "n + 8 * j \<le> 64"
  shows "\<exists>v. bitpos_load s c count j w = Some v \<and> word_bits (n + 8 * j) v = word_bits n w @ string_bits bs @ replicate (8 * (j - length bs)) False"
  using assms
proof (induction s c count j w arbitrary: n bs rule: bitpos_load.induct)
  case (1 s c count word)
  then show ?case by simp
next
  case (2 s c count j word)
  show ?case
  proof (cases "count = 0")
    case True
    have w: "word_bits (n + 8) (push_bit 8 word) = word_bits n word @ replicate 8 False"
      using word_bits_push [of n word 0] 2(5) by (simp add: byte_bits_def eval_nat_numeral)
    then show ?thesis using 2(2) [of "[]" "n + 8"] 2(3-5) True by (auto simp: replicate_add [symmetric] algebra_simps)
  next
    case False
    then obtain m where m: "count = Suc m" by (cases count) auto
    have c: "c < length s" using 2(4) m by simp
    define b where "b = s ! c"
    have at: "byte_at s c = Some b" using c by (simp add: byte_at_def b_def)
    have bs: "bs = b # take j (take m (drop (c + 1) s))" using 2(3) c by (simp add: m b_def Cons_nth_drop_Suc [symmetric])
    have w: "word_bits (n + 8) (push_bit 8 word OR ucast b) = word_bits n word @ byte_bits b"
      using word_bits_push [of n word b] 2(5) by simp
    have "\<exists>v. bitpos_load s (c + 1) (count - 1) j (push_bit 8 word OR ucast b) = Some v \<and> word_bits (n + 8 + 8 * j) v =
       word_bits (n + 8) (push_bit 8 word OR ucast b) @ string_bits (tl bs) @ replicate (8 * (j - length (tl bs))) False"
      by (rule 2(1) [OF False at]) (use 2(4,5) m bs in auto)
    then show ?thesis using at w False bs by (auto simp: algebra_simps)
  qed
qed

text \<open>The byte that the loops skip.\<close>

definition skip_byte :: "int \<Rightarrow> byte" where
  "skip_byte bv = (if bv \<noteq> 0 then 0 else 255)"

lemma unat_skip_byte: "unat (skip_byte bv) = (if bv \<noteq> 0 then 0 else 255)"
  by (simp add: skip_byte_def)

lemma skip_byte_bits: "byte_bits (skip_byte bv) = replicate 8 (bv = 0)"
  by (simp add: byte_bits_def skip_byte_def eval_nat_numeral)

lemma string_bits_replicate: "string_bits (replicate n (skip_byte bv)) = replicate (8 * n) (bv = 0)"
proof (induction n)
  case (Suc n)
  have "8 * Suc n = 8 + 8 * n" by simp
  then show ?case using Suc by (simp only: replicate_Suc string_bits_simps skip_byte_bits replicate_add)
qed simp

definition skipped :: "byte list \<Rightarrow> nat \<Rightarrow> int \<Rightarrow> bool" where
  "skipped s c bv \<longleftrightarrow> c \<le> length s \<and> take c s = replicate c (skip_byte bv)"

lemma skipped_step: "skipped s c bv \<Longrightarrow> c + n \<le> length s \<Longrightarrow> take n (drop c s) = replicate n (skip_byte bv) \<Longrightarrow> skipped s (c + n) bv"
  by (simp add: skipped_def take_add replicate_add)

lemma bitpos_align_skips:
  assumes "skipped s c bv" "c + n \<le> length s" "pos = 8 * int c"
  shows "\<exists>d m. bitpos_align s addr (unat (skip_byte bv)) c n pos = Some (d, m, 8 * int d) \<and> skipped s d bv \<and> d + m = c + n"
  using assms
proof (induction n arbitrary: c pos)
  case 0
  then show ?case by (subst bitpos_align.simps) auto
next
  case (Suc n)
  define b where "b = s ! c"
  have at: "byte_at s c = Some b" using Suc.prems(2) by (simp add: byte_at_def b_def)
  show ?case
  proof (cases "(addr + c) mod 8 \<noteq> 0 \<and> unat b = unat (skip_byte bv)")
    case True
    then have b: "b = skip_byte bv" by (simp add: word_unat_eq_iff)
    have "take 1 (drop c s) = [b]" using Suc.prems(2) by (simp add: b_def take_Suc_conv_app_nth)
    then have "skipped s (c + 1) bv" using skipped_step [OF Suc.prems(1), of 1] Suc.prems(2) b by simp
    from Suc.IH [OF this, of "pos + 8"] Suc.prems(2,3) obtain d m where
      "bitpos_align s addr (unat (skip_byte bv)) (c + 1) n (pos + 8) = Some (d, m, 8 * int d)" "skipped s d bv" "d + m = c + Suc n" by auto
    moreover have "bitpos_align s addr (unat (skip_byte bv)) c (Suc n) pos = bitpos_align s addr (unat (skip_byte bv)) (c + 1) n (pos + 8)"
      using True at by (subst bitpos_align.simps) simp
    ultimately show ?thesis by auto
  next
    case False
    then have "bitpos_align s addr (unat (skip_byte bv)) c (Suc n) pos = Some (c, Suc n, pos)"
      using at by (subst bitpos_align.simps) auto
    then show ?thesis using Suc.prems by auto
  qed
qed

lemma le_val_skip: "le_val (replicate 8 (skip_byte bv)) = (if bv \<noteq> 0 then 0 else ULLONG_MAX)"
proof -
  have "replicate 8 x = [x, x, x, x, x, x, x, x]" for x :: byte by (simp add: eval_nat_numeral)
  then show ?thesis by (simp add: skip_byte_def ULLONG_MAX_def)
qed

lemma bitpos_words_skips:
  assumes sv: "sv = le_val (replicate 8 (skip_byte bv))" and "skipped s c bv" "c + n \<le> length s" "pos = 8 * int c"
  shows "\<exists>d m. bitpos_words s sv c n pos = Some (d, m, 8 * int d) \<and> skipped s d bv \<and> d + m = c + n \<and>
     (m < 8 \<or> take 8 (drop d s) \<noteq> replicate 8 (skip_byte bv))"
  using assms(2-)
proof (induction n arbitrary: c pos rule: less_induct)
  case (less n)
  show ?case
  proof (cases "8 \<le> n \<and> take 8 (drop c s) = replicate 8 (skip_byte bv)")
    case True
    have "skipped s (c + 8) bv" by (rule skipped_step [OF less.prems(1)]) (use True less.prems(2) in auto)
    from less.IH [OF _ this, of "n - 8" "pos + 64"] True less.prems(2,3) obtain d m where
      r: "bitpos_words s sv (c + 8) (n - 8) (pos + 8 * 8) = Some (d, m, 8 * int d)" "skipped s d bv" "d + m = c + n"
       "m < 8 \<or> take 8 (drop d s) \<noteq> replicate 8 (skip_byte bv)" by auto
    have "mem_read s c 8 = Some (replicate 8 (skip_byte bv))" using True less.prems(2) by (simp add: mem_read_def)
    then have "bitpos_words s sv c n pos = Some (d, m, 8 * int d)"
      using True r(1) by (subst bitpos_words.simps) (simp add: sv)
    then show ?thesis using r by blast
  next
    case False
    have "le_val (take 8 (drop c s)) \<noteq> sv" if "8 \<le> n"
      using le_val_inj [of "take 8 (drop c s)" "replicate 8 (skip_byte bv)"] that False less.prems(2) by (auto simp: sv)
    then have "bitpos_words s sv c n pos = Some (c, n, pos)"
      using less.prems(2) by (subst bitpos_words.simps) (auto simp: mem_read_def)
    then show ?thesis using False less.prems by auto
  qed
qed

text \<open>The position of the first bit with a value, in a list that may not have one.\<close>

definition first_bit :: "bool \<Rightarrow> bool list \<Rightarrow> nat" where
  "first_bit b bs = length (takeWhile (\<lambda>x. x \<noteq> b) bs)"

lemma first_bit_append: "first_bit b (xs @ ys) = (if b \<in> set xs then first_bit b xs else length xs + first_bit b ys)"
  by (auto simp: first_bit_def takeWhile_append)

lemma word_bits_zero: "w = 0 \<longleftrightarrow> True \<notin> set (word_bits 64 w)"
  by (auto simp: word_bits_def bit_eq_iff)

lemma byte_bits_inj: "byte_bits b = byte_bits c \<longleftrightarrow> b = c"
proof
  assume "byte_bits b = byte_bits c"
  then have "bit b n = bit c n" if "n < 8" for n
    using that by (auto simp: byte_bits_def eval_nat_numeral less_Suc_eq)
  then show "b = c" by (auto intro!: bit_eqI)
qed simp

lemma all_skipped: "(bv = 1) \<notin> set (string_bits bs) \<Longrightarrow> bv = 0 \<or> bv = (1::int) \<Longrightarrow> bs = replicate (length bs) (skip_byte bv)"
proof (induction bs)
  case (Cons b bs)
  have "x = (bv = 0)" if "x \<in> set (byte_bits b)" for x using Cons.prems that by (cases x) auto
  then have "byte_bits b = replicate 8 (bv = 0)" by (intro replicate_eqI) simp_all
  then have "b = skip_byte bv" using skip_byte_bits byte_bits_inj by metis
  then show ?case using Cons by simp
qed simp

text \<open>C22: \<open>redisBitpos\<close> returns the position of the first bit with the value \<open>bit\<close> among the bits of the first \<open>count\<close> bytes, at every
  alignment and without reading past them; when there is none, it returns -1 for a one and the number of bits for a zero.\<close>

theorem redisBitpos_first:
  assumes "count \<le> length s" "bv = 0 \<or> bv = 1"
  shows "redisBitpos s addr count bv =
    (let bs = string_bits (take count s) in
     Some (if bv = 1 \<and> True \<notin> set bs then - 1 else int (first_bit (bv = 1) bs)))"
proof -
  obtain c m where a: "bitpos_align s addr (unat (skip_byte bv)) 0 count 0 = Some (c, m, 8 * int c)" "skipped s c bv" "c + m = count"
    using bitpos_align_skips [of s 0 bv count 0 addr] assms(1) by (auto simp: skipped_def)
  define sv where "sv = (if bv \<noteq> 0 then 0 else ULLONG_MAX)"
  have sv: "sv = le_val (replicate 8 (skip_byte bv))" by (simp add: sv_def le_val_skip)
  obtain d k where w: "bitpos_words s sv c m (8 * int c) = Some (d, k, 8 * int d)" "skipped s d bv" "d + k = count"
     "k < 8 \<or> take 8 (drop d s) \<noteq> replicate 8 (skip_byte bv)"
    using bitpos_words_skips [OF sv a(2) _ refl, of m] a(3) assms(1) by auto
  define bs where "bs = take 8 (take k (drop d s))"
  have le: "d + k \<le> length s" using w(3) assms(1) by simp
  obtain v where v: "bitpos_load s d k 8 0 = Some v" "word_bits 64 v = string_bits bs @ replicate (8 * (8 - length bs)) False"
    using load_bits [OF bs_def le, of 0 0] by (auto simp: word_bits_def)
  define rest where "rest = drop 8 (take k (drop d s))"
  have all: "take count s = replicate d (skip_byte bv) @ bs @ rest"
    using w(2) unfolding w(3) [symmetric] take_add skipped_def bs_def rest_def append_take_drop_id by simp
  let ?b = "bv = 1"
  have bits: "string_bits (take count s) = replicate (8 * d) (\<not> ?b) @ string_bits bs @ string_bits rest"
    using assms(2) by (auto simp: all string_bits_replicate)
  have hit: "k < 8 \<and> rest = [] \<and> length bs = k \<or> ?b \<in> set (string_bits bs)"
  proof (cases "k < 8")
    case True
    then show ?thesis using le by (simp add: rest_def bs_def)
  next
    case False
    then have "bs = take 8 (drop d s)" "length bs = 8" using le by (simp_all add: bs_def)
    then show ?thesis using w(4) False all_skipped [of bv bs] assms(2) by auto
  qed
  have one: "NOT (drop_bit 1 (- 1)) = (push_bit 63 1 :: u64)" by code_simp
  have scan: "bitpos_scan v bv (NOT (drop_bit 1 (- 1))) (8 * int d) = Some (8 * int d + int (first_bit ?b (word_bits 64 v)))"
    if "?b \<in> set (word_bits 64 v)" using scan_bits [of 64 ?b bv v "8 * int d"] that assms(2) one by (simp add: first_bit_def)
  have "redisBitpos s addr count bv = (if bv = 1 \<and> v = 0 then Some (- 1) else bitpos_scan v bv (NOT (drop_bit 1 (- 1))) (8 * int d))"
    using a(1) w(1) v(1) by (simp add: redisBitpos_def unat_skip_byte sv_def)
  moreover have "first_bit ?b (string_bits (take count s)) = 8 * d + first_bit ?b (string_bits bs @ string_bits rest)"
    unfolding bits by (subst first_bit_append) simp
  ultimately show ?thesis using hit scan assms(2) unfolding bits word_bits_zero v(2) Let_def
    by (auto simp: first_bit_append first_bit_def [of _ "[]"] first_bit_def [of _ "replicate _ _"])
qed

theorem redisBitpos_first_witness: "redisBitpos [0, 0, 7, 1] 5 4 1 = Some 21"
  using redisBitpos_first [of 4 "[0, 0, 7, 1]" 1 5] by (simp add: byte_bits_def first_bit_def)

section \<open>Integers at bit offsets\<close>

text \<open>The loops of \<open>setUnsignedBitfield\<close> and \<open>getUnsignedBitfield\<close>, with the number of bits that remain. A shift by 64 or more
  is undefined in C and \<^term>\<open>None\<close> here.\<close>

definition bitfield_byte :: "byte \<Rightarrow> nat \<Rightarrow> u64 \<Rightarrow> byte" where
  "bitfield_byte b bpos bitval = ucast (((ucast b AND NOT (push_bit bpos 1)) OR push_bit bpos bitval) AND 0xff :: u64)"

fun setUnsigned_loop :: "byte list \<Rightarrow> nat \<Rightarrow> nat \<Rightarrow> u64 \<Rightarrow> byte list option" where
  "setUnsigned_loop p offset 0 value = Some p"
| "setUnsigned_loop p offset (Suc k) value =
     (if k < 64 then do {
        let bitval = of_bool (value AND push_bit k 1 \<noteq> 0);
        let byte = offset div 2 ^ 3;
        let bpos = 7 - offset mod 8;
        b \<leftarrow> byte_at p byte;
        p' \<leftarrow> byte_put p byte (bitfield_byte b bpos bitval);
        setUnsigned_loop p' (offset + 1) k value
      }
      else None)"

definition setUnsignedBitfield :: "byte list \<Rightarrow> nat \<Rightarrow> nat \<Rightarrow> u64 \<Rightarrow> byte list option" where
  "setUnsignedBitfield p offset bits value = setUnsigned_loop p offset bits value"

definition setSignedBitfield :: "byte list \<Rightarrow> nat \<Rightarrow> nat \<Rightarrow> int \<Rightarrow> byte list option" where
  "setSignedBitfield p offset bits value =
     (let uv = (if value \<ge> 0 then word_of_int value else - 1 + word_of_int value + 1)
      in setUnsignedBitfield p offset bits uv)"

fun getUnsigned_loop :: "byte list \<Rightarrow> nat \<Rightarrow> nat \<Rightarrow> u64 \<Rightarrow> u64 option" where
  "getUnsigned_loop p offset 0 value = Some value"
| "getUnsigned_loop p offset (Suc k) value = do {
     let byte = offset div 2 ^ 3;
     let bpos = 7 - offset mod 8;
     b \<leftarrow> byte_at p byte;
     let bitval = drop_bit bpos (ucast b) AND 1;
     getUnsigned_loop p (offset + 1) k (push_bit 1 value OR bitval)
   }"

definition getUnsignedBitfield :: "byte list \<Rightarrow> nat \<Rightarrow> nat \<Rightarrow> u64 option" where
  "getUnsignedBitfield p offset bits = getUnsigned_loop p offset bits 0"

definition getSignedBitfield :: "byte list \<Rightarrow> nat \<Rightarrow> nat \<Rightarrow> int option" where
  "getSignedBitfield p offset bits = do {
     value \<leftarrow> getUnsignedBitfield p offset bits;
     if 1 \<le> bits \<and> bits \<le> 64 then
       if value AND push_bit (bits - 1) 1 \<noteq> 0 then
         if bits < 64 then Some (sint (value OR push_bit bits (- 1))) else None
       else Some (sint value)
     else None
   }"

lemma byte_bits_nth: "r < 8 \<Longrightarrow> byte_bits b ! r = bit b (7 - r)"
  by (auto simp: byte_bits_def nth_Cons' eval_nat_numeral less_Suc_eq)

lemma string_bits_nth: "n < 8 * length p \<Longrightarrow> string_bits p ! n = bit (p ! (n div 8)) (7 - n mod 8)"
proof (induction p arbitrary: n)
  case (Cons b p)
  show ?case
  proof (cases "n < 8")
    case True
    then show ?thesis by (simp add: nth_append byte_bits_nth)
  next
    case False
    then obtain q where q: "n = q + 8" by (metis add.commute le_Suc_ex not_less)
    then show ?thesis using Cons by (simp add: nth_append div_add_self2)
  qed
qed simp

text \<open>Writing one bit.\<close>

lemma bit_written:
  assumes "r < 8"
  shows "bit (bitfield_byte b r (of_bool v)) i = (if i = r then v else bit b i)"
proof (cases "i < 8")
  case True
  have "bit (0xff :: u64) i" using True by (auto simp: eval_nat_numeral less_Suc_eq)
  then show ?thesis using True assms
    by (auto simp: bitfield_byte_def bit_ucast_iff bit_and_iff bit_or_iff bit_not_iff bit_exp_iff bit_push_bit_iff bit_1_iff)
next
  case False
  then show ?thesis using assms by (auto dest: bit_imp_le_length)
qed

lemma string_bits_put:
  assumes "n < 8 * length p" "byte_put p (n div 8) (bitfield_byte (p ! (n div 8)) (7 - n mod 8) (of_bool v)) = Some p'"
  shows "string_bits p' = (string_bits p)[n := v]" "length p' = length p"
proof -
  let ?b = "bitfield_byte (p ! (n div 8)) (7 - n mod 8) (of_bool v)"
  have p': "p' = p[n div 8 := ?b]" using assms by (auto simp: byte_put_def split: if_splits)
  show len: "length p' = length p" by (simp add: p')
  show "string_bits p' = (string_bits p)[n := v]"
  proof (rule nth_equalityI)
    fix i assume "i < length (string_bits p')"
    then have i: "i < 8 * length p" using len by simp
    define v' where "v' = (if i div 8 = n div 8 then bit ?b (7 - i mod 8) else bit (p ! (i div 8)) (7 - i mod 8))"
    have "string_bits p' ! i = v'"
      using i assms(1) by (subst string_bits_nth) (auto simp: len p' nth_list_update v'_def)
    moreover have "v' = (if i = n then v else bit (p ! (i div 8)) (7 - i mod 8))"
    proof (cases "i div 8 = n div 8")
      case True
      have "7 - i mod 8 = 7 - n mod 8 \<longleftrightarrow> i mod 8 = n mod 8" using mod_less_divisor [of 8 i] mod_less_divisor [of 8 n] by linarith
      moreover have "i = n \<longleftrightarrow> i mod 8 = n mod 8" using True by (metis div_mult_mod_eq)
      moreover have "7 - n mod 8 < 8" by simp
      ultimately show ?thesis using True by (simp add: v'_def bit_written)
    qed (auto simp: v'_def)
    ultimately show "string_bits p' ! i = (string_bits p)[n := v] ! i"
      using i by (simp add: nth_list_update string_bits_nth)
  qed (simp add: len)
qed

lemma value_bit: "value AND push_bit k 1 \<noteq> 0 \<longleftrightarrow> bit value k"
  using and_exp_eq_0_iff_not_bit [of "value" k] by (simp add: push_bit_eq_mult)

lemma setUnsigned_bits:
  assumes "n + k \<le> 8 * length p" "k \<le> 64"
  shows "\<exists>p'. setUnsigned_loop p n k value = Some p' \<and> length p' = length p \<and>
     string_bits p' = take n (string_bits p) @ word_bits k value @ drop (n + k) (string_bits p)"
  using assms
proof (induction k arbitrary: p n)
  case 0
  then show ?case by (simp add: word_bits_def)
next
  case (Suc k)
  have n: "n < 8 * length p" "n div 8 < length p" using Suc.prems(1) by auto
  obtain p1 where p1: "byte_put p (n div 8) (bitfield_byte (p ! (n div 8)) (7 - n mod 8) (of_bool (bit value k))) = Some p1"
    using n(2) by (simp add: byte_put_def)
  note S = string_bits_put [OF n(1) p1]
  obtain p' where p': "setUnsigned_loop p1 (n + 1) k value = Some p'" "length p' = length p1"
    "string_bits p' = take (n + 1) (string_bits p1) @ word_bits k value @ drop (n + 1 + k) (string_bits p1)"
    using Suc.IH [of "n + 1" p1] Suc.prems S(2) by auto
  have "setUnsigned_loop p n (Suc k) value = Some p'"
    using p1 p'(1) n(2) Suc.prems(2) by (simp add: byte_at_def and_exp_eq_0_iff_not_bit Let_def)
  moreover have "take (n + 1) (string_bits p1) = take n (string_bits p) @ [bit value k]"
    using n(1) by (simp add: S(1) take_Suc_conv_app_nth)
  ultimately show ?case using p'(2,3) S by (simp add: word_bits_Suc)
qed

lemma bit_shift_in:
  "bit (push_bit 1 w OR (drop_bit r (ucast (b :: byte)) AND 1) :: u64) i \<longleftrightarrow> (if i = 0 then bit b r else i < 64 \<and> bit w (i - 1))"
  unfolding bit_or_iff bit_push_bit_iff bit_and_iff bit_1_iff bit_drop_bit_eq bit_ucast_iff comp_def
  by (auto dest: bit_imp_le_length)

lemma word_bits_shift:
  assumes "n < 64"
  shows "word_bits (Suc n) (push_bit 1 w OR (drop_bit r (ucast (b :: byte)) AND 1)) = word_bits n w @ [bit b r]"
proof -
  let ?v = "push_bit 1 w OR (drop_bit r (ucast b) AND 1) :: u64"
  have "rev [0..<Suc n] = map Suc (rev [0..<n]) @ [0]" by (simp only: upt_conv_Cons zero_less_Suc rev.simps map_Suc_upt [symmetric] rev_map)
  then have "word_bits (Suc n) ?v = map (\<lambda>i. bit ?v (Suc i)) (rev [0..<n]) @ [bit ?v 0]"
    by (simp only: word_bits_def map_append map_map comp_def list.map)
  moreover have "bit ?v (Suc i) = bit w i" if "i < n" for i
    using that assms unfolding bit_shift_in by simp
  moreover have "bit ?v 0 = bit b r" unfolding bit_shift_in by simp
  ultimately show ?thesis by (simp add: word_bits_def)
qed

lemma getUnsigned_bits:
  assumes "n + k \<le> 8 * length p" "m + k \<le> 64" "take_bit m w = w"
  shows "\<exists>v. getUnsigned_loop p n k w = Some v \<and> word_bits (m + k) v = word_bits m w @ take k (drop n (string_bits p)) \<and> take_bit (m + k) v = v"
  using assms
proof (induction k arbitrary: n m w)
  case 0
  then show ?case by simp
next
  case (Suc k)
  have n: "n < 8 * length p" "n div 8 < length p" using Suc.prems(1) by auto
  let ?w = "push_bit 1 w OR (drop_bit (7 - n mod 8) (ucast (p ! (n div 8))) AND 1)"
  have w: "word_bits (Suc m) ?w = word_bits m w @ [string_bits p ! n]"
    using word_bits_shift [of m w "7 - n mod 8" "p ! (n div 8)"] Suc.prems(2) by (simp add: string_bits_nth [OF n(1)])
  have "i < m" if "bit w i" for i using that Suc.prems(3) by (metis bit_take_bit_iff)
  then have "i < Suc m" if "bit ?w i" for i using that unfolding bit_shift_in by (cases i) auto
  then have "take_bit (Suc m) ?w = ?w" unfolding bit_eq_iff bit_take_bit_iff by blast
  then obtain v where "getUnsigned_loop p (n + 1) k ?w = Some v" "word_bits (Suc m + k) v = word_bits (Suc m) ?w @ take k (drop (n + 1) (string_bits p))"
    "take_bit (Suc m + k) v = v" using Suc.IH [of "n + 1" "Suc m" ?w] Suc.prems by auto
  moreover have "take (Suc k) (drop n (string_bits p)) = string_bits p ! n # take k (drop (n + 1) (string_bits p))"
    using n(1) by (simp add: Cons_nth_drop_Suc [symmetric])
  ultimately show ?case using w n(2) by (simp add: byte_at_def Let_def)
qed

lemma word_bits_eq_iff: "word_bits n v = word_bits n w \<longleftrightarrow> take_bit n v = take_bit n w"
proof -
  have "word_bits n v = word_bits n w \<longleftrightarrow> (\<forall>i < n. bit v i = bit w i)" by (auto simp: word_bits_def)
  also have "\<dots> \<longleftrightarrow> take_bit n v = take_bit n w"
  proof
    assume "take_bit n v = take_bit n w"
    then show "\<forall>i < n. bit v i = bit w i" by (metis bit_take_bit_iff)
  qed (auto intro!: bit_eqI simp: bit_take_bit_iff)
  finally show ?thesis .
qed

lemma unsigned_bitfield:
  assumes "offset + bits \<le> 8 * length p" "bits \<le> 64"
  shows "\<exists>p'. setUnsignedBitfield p offset bits value = Some p' \<and> length p' = length p \<and>
           string_bits p' = take offset (string_bits p) @ word_bits bits value @ drop (offset + bits) (string_bits p) \<and>
           getUnsignedBitfield p' offset bits = Some (take_bit bits value)"
proof -
  obtain p' where p': "setUnsigned_loop p offset bits value = Some p'" "length p' = length p"
    "string_bits p' = take offset (string_bits p) @ word_bits bits value @ drop (offset + bits) (string_bits p)"
    using setUnsigned_bits [OF assms] by blast
  have l: "length (word_bits bits value) = bits" by (simp add: word_bits_def)
  have "take bits (drop offset (string_bits p')) = word_bits bits value" using assms(1) l by (simp add: p'(3))
  moreover obtain v where "getUnsigned_loop p' offset bits 0 = Some v" "word_bits bits v = take bits (drop offset (string_bits p'))" "take_bit bits v = v"
    using getUnsigned_bits [of offset bits p' 0 0] assms p'(2) by (auto simp: word_bits_def)
  ultimately show ?thesis using p' assms(2)
    by (auto simp: setUnsignedBitfield_def getUnsignedBitfield_def word_bits_eq_iff)
qed

text \<open>Extending the sign of an integer of \<open>b\<close> bits.\<close>

lemma sign_extend:
  assumes "1 \<le> b" "b \<le> 63"
  shows "(word_of_int (signed_take_bit (b - 1) x) :: u64) =
    (if bit (word_of_int x :: u64) (b - 1) then word_of_int x OR push_bit b (- 1) else word_of_int x AND NOT (push_bit b (- 1)))"
proof (rule bit_word_eqI)
  fix i assume i: "i < LENGTH(64)"
  have "min (b - 1) i = (if i < b then i else b - 1)" using assms by auto
  then show "bit (word_of_int (signed_take_bit (b - 1) x) :: u64) i =
    bit (if bit (word_of_int x :: u64) (b - 1) then word_of_int x OR push_bit b (- 1) else word_of_int x AND NOT (push_bit b (- 1)) :: u64) i"
    using i assms by (auto simp: bit_of_int_iff bit_signed_take_bit_iff bit_or_iff bit_and_iff bit_not_iff bit_push_bit_iff bit_minus_1_iff bit_mask_iff split: if_splits)
qed

lemma signed_range:
  assumes "1 \<le> b" "b \<le> 63"
  shows "sint (word_of_int (signed_take_bit (b - 1) x) :: u64) = signed_take_bit (b - 1) x"
proof -
  have "(2::int) ^ (b - 1) \<le> 2 ^ 63" using assms by (intro power_increasing) auto
  moreover have "- (2 ^ (b - 1)) \<le> signed_take_bit (b - 1) x" "signed_take_bit (b - 1) x < 2 ^ (b - 1)"
    by (rule signed_take_bit_int_greater_eq_minus_exp, rule signed_take_bit_int_less_exp)
  ultimately have "signed_take_bit 63 (signed_take_bit (b - 1) x) = signed_take_bit (b - 1) x"
    by (intro signed_take_bit_int_eq_self) linarith+
  then show ?thesis by (simp add: sint_sbintrunc')
qed

text \<open>C23: an integer of up to 64 bits that is written at any bit offset inside a string is read back from there, cut to its
  width, and all other bits of the string stay as they were; a signed integer of up to 63 bits in its range is read back with
  its sign.\<close>

theorem bitfield_roundtrip:
  assumes "offset + bits \<le> 8 * length p" "1 \<le> bits" "bits \<le> 64"
  shows "(\<exists>p'. setUnsignedBitfield p offset bits value = Some p' \<and> length p' = length p \<and>
            getUnsignedBitfield p' offset bits = Some (take_bit bits value) \<and>
            take offset (string_bits p') = take offset (string_bits p) \<and> drop (offset + bits) (string_bits p') = drop (offset + bits) (string_bits p)) \<and>
         (bits \<le> 63 \<longrightarrow> - (2 ^ (bits - 1)) \<le> v \<longrightarrow> v < 2 ^ (bits - 1) \<longrightarrow>
            (\<exists>p'. setSignedBitfield p offset bits v = Some p' \<and> getSignedBitfield p' offset bits = Some v))"
proof (intro conjI impI)
  obtain p' where "setUnsignedBitfield p offset bits value = Some p'" "length p' = length p"
    "string_bits p' = take offset (string_bits p) @ word_bits bits value @ drop (offset + bits) (string_bits p)"
    "getUnsignedBitfield p' offset bits = Some (take_bit bits value)" using unsigned_bitfield [OF assms(1,3)] by blast
  then show "\<exists>p'. setUnsignedBitfield p offset bits value = Some p' \<and> length p' = length p \<and>
            getUnsignedBitfield p' offset bits = Some (take_bit bits value) \<and>
            take offset (string_bits p') = take offset (string_bits p) \<and> drop (offset + bits) (string_bits p') = drop (offset + bits) (string_bits p)"
    using assms(1) by (intro exI [of _ p']) (auto simp: word_bits_def)
next
  assume b: "bits \<le> 63" and v: "- (2 ^ (bits - 1)) \<le> v" "v < 2 ^ (bits - 1)"
  define uv :: u64 where "uv = word_of_int v"
  have uv: "(if v \<ge> 0 then word_of_int v else - 1 + word_of_int v + 1) = uv" by (simp add: uv_def)
  obtain p' where p': "setUnsignedBitfield p offset bits uv = Some p'" "getUnsignedBitfield p' offset bits = Some (take_bit bits uv)"
    using unsigned_bitfield [OF assms(1,3)] by blast
  have x: "signed_take_bit (bits - 1) v = v" by (rule signed_take_bit_int_eq_self [OF v])
  have top: "take_bit bits uv AND push_bit (bits - 1) 1 \<noteq> 0 \<longleftrightarrow> bit uv (bits - 1)"
    using assms(2) by (simp add: and_exp_eq_0_iff_not_bit bit_take_bit_iff)
  have ext: "take_bit bits uv OR push_bit bits (- 1) = uv OR push_bit bits (- 1)" "take_bit bits uv = uv AND NOT (push_bit bits (- 1))"
    by (auto intro!: bit_eqI simp: bit_or_iff bit_take_bit_iff bit_push_bit_iff bit_minus_1_iff bit_and_iff bit_not_iff bit_mask_iff)
  have "getSignedBitfield p' offset bits = Some (sint (if bit uv (bits - 1) then uv OR push_bit bits (- 1) else uv AND NOT (push_bit bits (- 1))))"
  proof (cases "bit uv (bits - 1)")
    case True
    then have "take_bit bits uv AND push_bit (bits - 1) 1 \<noteq> 0" using top by blast
    then show ?thesis unfolding getSignedBitfield_def p'(2) using True assms(2) b ext(1) by simp
  next
    case False
    then have "take_bit bits uv AND push_bit (bits - 1) 1 = 0" using top by blast
    then show ?thesis unfolding getSignedBitfield_def p'(2) using False assms(2) b ext(2) by simp
  qed
  then have "getSignedBitfield p' offset bits = Some v"
    unfolding uv_def sign_extend [OF assms(2) b, symmetric] using signed_range [OF assms(2) b, of v] x by simp
  then show "\<exists>p'. setSignedBitfield p offset bits v = Some p' \<and> getSignedBitfield p' offset bits = Some v"
    using p'(1) by (simp add: setSignedBitfield_def uv)
qed

theorem bitfield_roundtrip_witness:
  "\<exists>p'. setSignedBitfield [1, 2, 3] 5 12 (- 7) = Some p' \<and> getSignedBitfield p' 5 12 = Some (- 7)"
  using bitfield_roundtrip [of 5 12 "[1, 2, 3]" 0 "- 7"] by simp

text \<open>A negative signed integer of 64 bits: the code shifts by 64.\<close>

lemma getSignedBitfield_64: "getSignedBitfield [255, 255, 255, 255, 255, 255, 255, 255] 0 64 = None"
proof -
  let ?p = "[255, 255, 255, 255, 255, 255, 255, 255] :: byte list"
  obtain v where v: "getUnsigned_loop ?p 0 64 0 = Some v" "word_bits 64 v = take 64 (drop 0 (string_bits ?p))"
    using getUnsigned_bits [of 0 64 ?p 0 0] by (auto simp: word_bits_def)
  have "word_bits 64 v ! 0 = bit v 63" by (simp add: word_bits_def rev_nth)
  moreover have "string_bits ?p ! 0" by (subst string_bits_nth) simp_all
  ultimately have "bit v 63" using v(2) by simp
  then have "v AND push_bit 63 1 \<noteq> 0" using value_bit by blast
  then show ?thesis using v(1) by (simp add: getSignedBitfield_def getUnsignedBitfield_def)
qed

section \<open>Overflow of bit fields\<close>

datatype bfoverflow = BFOVERFLOW_WRAP | BFOVERFLOW_SAT | BFOVERFLOW_FAIL

text \<open>The result with the limit, when it is set. A difference of \<open>int64_t\<close> values wraps at 64 bits.\<close>

definition checkUnsignedBitfieldOverflow :: "nat \<Rightarrow> int \<Rightarrow> nat \<Rightarrow> bfoverflow \<Rightarrow> (int \<times> nat option) option" where
  "checkUnsignedBitfieldOverflow value incr bits owtype =
     (let max = (if bits = 64 then ULLONG_MAX else 2 ^ bits - 1);
          maxincr = cast_s 64 (int max - int value);
          minincr = cast_s 64 (- int value);
          wrap = (if bits < 64
                  then Some (1, Some (unat ((word_of_nat value + word_of_int incr) AND NOT (push_bit bits (- 1)) :: u64)))
                  else None)
      in if value > max \<or> incr > 0 \<and> incr > maxincr then
           case owtype of BFOVERFLOW_WRAP \<Rightarrow> wrap | BFOVERFLOW_SAT \<Rightarrow> Some (1, Some max) | BFOVERFLOW_FAIL \<Rightarrow> Some (1, None)
         else if incr < 0 \<and> incr < minincr then
           case owtype of BFOVERFLOW_WRAP \<Rightarrow> wrap | BFOVERFLOW_SAT \<Rightarrow> Some (- 1, Some 0) | BFOVERFLOW_FAIL \<Rightarrow> Some (- 1, None)
         else Some (0, None))"

definition checkSignedBitfieldOverflow :: "int \<Rightarrow> int \<Rightarrow> nat \<Rightarrow> bfoverflow \<Rightarrow> (int \<times> int option) option" where
  "checkSignedBitfieldOverflow value incr bits owtype =
     (let max = (if bits = 64 then LLONG_MAX else 2 ^ (bits - 1) - 1);
          min = - max - 1;
          maxincr = cast_s 64 (max - value);
          minincr = cast_s 64 (min - value);
          c = word_of_int value + word_of_int incr :: u64;
          wrap = (if bits < 64
                  then Some (1, Some (sint (if c AND push_bit (bits - 1) 1 \<noteq> 0 then c OR push_bit bits (- 1)
                                            else c AND NOT (push_bit bits (- 1)))))
                  else None)
      in if value > max \<or> bits \<noteq> 64 \<and> incr > maxincr \<or> value \<ge> 0 \<and> incr > 0 \<and> incr > maxincr then
           case owtype of BFOVERFLOW_WRAP \<Rightarrow> wrap | BFOVERFLOW_SAT \<Rightarrow> Some (1, Some max) | BFOVERFLOW_FAIL \<Rightarrow> Some (1, None)
         else if value < min \<or> bits \<noteq> 64 \<and> incr < minincr \<or> value < 0 \<and> incr < 0 \<and> incr < minincr then
           case owtype of BFOVERFLOW_WRAP \<Rightarrow> wrap | BFOVERFLOW_SAT \<Rightarrow> Some (- 1, Some min) | BFOVERFLOW_FAIL \<Rightarrow> Some (- 1, None)
         else Some (0, None))"

text \<open>What the two functions report for a sum \<open>n\<close> against a range: for an underflow too, a wrapped value is reported as 1.\<close>

definition overflow_report :: "int \<Rightarrow> int \<Rightarrow> int \<Rightarrow> int \<Rightarrow> bfoverflow \<Rightarrow> int \<times> int option" where
  "overflow_report lo hi wrapped n owtype =
     (if lo \<le> n \<and> n \<le> hi then (0, None)
      else case owtype of
        BFOVERFLOW_WRAP \<Rightarrow> (1, Some wrapped)
      | BFOVERFLOW_SAT \<Rightarrow> if n > hi then (1, Some hi) else (- 1, Some lo)
      | BFOVERFLOW_FAIL \<Rightarrow> (if n > hi then 1 else - 1, None))"

lemma cast_s_signed_take_bit: "1 \<le> b \<Longrightarrow> signed_take_bit (b - 1) x = cast_s b x"
  by (simp add: cast_s_def signed_take_bit_eq_take_bit_shift take_bit_eq_mod)

lemma take_bit_of_int: "take_bit b (word_of_int n :: u64) = word_of_int (take_bit b n)"
  by (rule bit_word_eqI) (auto simp: bit_take_bit_iff bit_of_int_iff)

lemma unsigned_wrap:
  assumes "b < 64"
  shows "int (unat ((word_of_nat value + word_of_int incr) AND NOT (push_bit b (- 1)) :: u64)) = (int value + incr) mod 2 ^ b"
proof -
  have "(word_of_nat value + word_of_int incr) AND NOT (push_bit b (- 1)) = take_bit b (word_of_int (int value + incr) :: u64)"
    by (simp add: take_bit_eq_mask)
  then have e: "(word_of_nat value + word_of_int incr) AND NOT (push_bit b (- 1)) = (word_of_int ((int value + incr) mod 2 ^ b) :: u64)"
    by (simp only: take_bit_of_int) (simp only: take_bit_eq_mod)
  have "(int value + incr) mod 2 ^ b < 2 ^ b" by simp
  also have "(2::int) ^ b \<le> 2 ^ 64" using assms by (intro power_increasing) auto
  finally show ?thesis unfolding e by (simp add: uint_word_of_int)
qed

lemma signed_wrap:
  assumes "1 \<le> b" "b \<le> 63" "c = word_of_int value + word_of_int incr"
  shows "sint (if c AND push_bit (b - 1) 1 \<noteq> 0 then c OR push_bit b (- 1) else c AND NOT (push_bit b (- 1)) :: u64) = cast_s b (value + incr)"
proof -
  have c: "c = word_of_int (value + incr)" by (simp add: assms(3))
  have "sint (if c AND push_bit (b - 1) 1 \<noteq> 0 then c OR push_bit b (- 1) else c AND NOT (push_bit b (- 1))) =
      sint (word_of_int (signed_take_bit (b - 1) (value + incr)) :: u64)"
    unfolding value_bit sign_extend [OF assms(1,2)] c ..
  also have "\<dots> = cast_s b (value + incr)" unfolding signed_range [OF assms(1,2)] by (rule cast_s_signed_take_bit [OF assms(1)])
  finally show ?thesis .
qed



text \<open>A value below the range that \<open>SET\<close> stores with saturation: the difference to the maximum wraps, the check reports an overflow
  instead of an underflow, and the largest value is stored instead of the smallest. The wrapping mode at 64 bits shifts by 64.\<close>

lemma signed_set_saturates_wrong: "checkSignedBitfieldOverflow LLONG_MIN 0 63 BFOVERFLOW_SAT = Some (1, Some (2 ^ 62 - 1))"
  by (simp add: checkSignedBitfieldOverflow_def vire_limits cast_s_def)

lemma signed_wrap_64: "checkSignedBitfieldOverflow LLONG_MAX 1 64 BFOVERFLOW_WRAP = None"
  by (simp add: checkSignedBitfieldOverflow_def vire_limits cast_s_def)

section \<open>Combining strings\<close>

datatype bitop = BITOP_AND | BITOP_OR | BITOP_XOR | BITOP_NOT

text \<open>The loop over the source keys: a missing key is \<^term>\<open>None\<close>. The results are \<open>minlen\<close> and \<open>maxlen\<close>.\<close>

fun bitop_lens :: "nat \<Rightarrow> byte list option list \<Rightarrow> nat \<Rightarrow> nat \<Rightarrow> nat \<times> nat" where
  "bitop_lens j [] minlen maxlen = (minlen, maxlen)"
| "bitop_lens j (None # os) minlen maxlen = bitop_lens (j + 1) os 0 maxlen"
| "bitop_lens j (Some s # os) minlen maxlen =
     bitop_lens (j + 1) os (if j = 0 \<or> length s < minlen then length s else minlen) (if length s > maxlen then length s else maxlen)"

definition load64 :: "byte list \<Rightarrow> nat \<Rightarrow> u64 option" where
  "load64 buf p = do { bs \<leftarrow> mem_read buf p 8; Some (word_of_nat (le_val bs)) }"

definition store64 :: "byte list \<Rightarrow> nat \<Rightarrow> u64 \<Rightarrow> byte list option" where
  "store64 buf p w = mem_write buf p (le_bytes 8 (unat w))"

text \<open>One statement \<open>lres[k] op= lp[i][k]\<close>, or \<open>lres[k] = ~lres[k]\<close>.\<close>

fun bitop_u64 :: "bitop \<Rightarrow> u64 \<Rightarrow> u64 \<Rightarrow> u64" where
  "bitop_u64 BITOP_AND a b = a AND b"
| "bitop_u64 BITOP_OR a b = a OR b"
| "bitop_u64 BITOP_XOR a b = a XOR b"
| "bitop_u64 BITOP_NOT a b = NOT a"

definition bitop_word :: "bitop \<Rightarrow> byte list \<Rightarrow> nat \<Rightarrow> byte list \<Rightarrow> byte list option" where
  "bitop_word op src p res = do {
     a \<leftarrow> load64 res p;
     b \<leftarrow> (if op = BITOP_NOT then Some 0 else load64 src p);
     store64 res p (bitop_u64 op a b)
   }"

definition bitop_words4 :: "bitop \<Rightarrow> byte list \<Rightarrow> nat \<Rightarrow> byte list \<Rightarrow> byte list option" where
  "bitop_words4 op src j res = do {
     r \<leftarrow> bitop_word op src j res;
     r \<leftarrow> bitop_word op src (j + 8) r;
     r \<leftarrow> bitop_word op src (j + 16) r;
     bitop_word op src (j + 24) r
   }"

fun bitop_srcs :: "bitop \<Rightarrow> byte list list \<Rightarrow> nat \<Rightarrow> byte list \<Rightarrow> byte list option" where
  "bitop_srcs op [] j res = Some res"
| "bitop_srcs op (s # ss) j res = do { r \<leftarrow> bitop_words4 op s j res; bitop_srcs op ss j r }"

function bitop_fast :: "bitop \<Rightarrow> byte list list \<Rightarrow> nat \<Rightarrow> nat \<Rightarrow> byte list \<Rightarrow> (byte list \<times> nat) option" where
  "bitop_fast op srcs minlen j res =
     (if minlen \<ge> 32 then do {
        r \<leftarrow> (if op = BITOP_NOT then bitop_words4 op [] j res else bitop_srcs op (tl srcs) j res);
        bitop_fast op srcs (minlen - 32) (j + 32) r
      }
      else Some (res, j))"
  by pat_completeness auto

termination
  by (relation "measure (\<lambda>(op, srcs, minlen, j, res). minlen)") auto

declare bitop_fast.simps [simp del]

fun bitop_byte :: "bitop \<Rightarrow> byte \<Rightarrow> byte \<Rightarrow> byte" where
  "bitop_byte BITOP_AND a b = a AND b"
| "bitop_byte BITOP_OR a b = a OR b"
| "bitop_byte BITOP_XOR a b = a XOR b"
| "bitop_byte BITOP_NOT a b = a"

definition src_byte :: "nat \<Rightarrow> byte list \<Rightarrow> byte" where
  "src_byte j s = (if length s \<le> j then 0 else s ! j)"

definition bitop_output :: "bitop \<Rightarrow> byte list list \<Rightarrow> nat \<Rightarrow> byte" where
  "bitop_output op srcs j =
     (let output = src_byte j (hd srcs);
          output = (if op = BITOP_NOT then NOT output else output)
      in foldl (\<lambda>output s. bitop_byte op output (src_byte j s)) output (tl srcs))"

function bitop_slow :: "bitop \<Rightarrow> byte list list \<Rightarrow> nat \<Rightarrow> nat \<Rightarrow> byte list \<Rightarrow> byte list option" where
  "bitop_slow op srcs maxlen j res =
     (if j < maxlen then do { r \<leftarrow> byte_put res j (bitop_output op srcs j); bitop_slow op srcs maxlen (j + 1) r }
      else Some res)"
  by pat_completeness auto

termination
  by (relation "measure (\<lambda>(op, srcs, maxlen, j, res). maxlen - j)") auto

declare bitop_slow.simps [simp del]

text \<open>The string that \<open>bitopCommand\<close> computes from the strings of its keys, with the condition and the first copy of the fast path.\<close>

definition bitop_compute :: "bitop \<Rightarrow> byte list option list \<Rightarrow> byte list option" where
  "bitop_compute op objects =
     (let (minlen, maxlen) = bitop_lens 0 objects 0 0;
          srcs = map (\<lambda>o'. case o' of None \<Rightarrow> [] | Some s \<Rightarrow> s) objects;
          res = replicate maxlen 0
      in if maxlen = 0 then Some res
         else do {
           (res, j) \<leftarrow> (if minlen \<ge> 32 \<and> length objects \<le> 16 then do {
                bs \<leftarrow> mem_read (hd srcs) 0 minlen;
                r \<leftarrow> mem_write res 0 bs;
                bitop_fast op srcs minlen 0 r
              }
              else Some (res, 0));
           bitop_slow op srcs maxlen j res
         })"

lemma bit_le_val: "bit (le_val bs) i \<longleftrightarrow> i < 8 * length bs \<and> bit (bs ! (i div 8)) (i mod 8)"
proof (induction bs arbitrary: i)
  case (Cons b bs)
  have "unat b < 2 ^ 8" using unat_byte_lt [of b] by simp
  from bit_digit [OF this, of "le_val bs" i] have s: "bit (le_val (b # bs)) i \<longleftrightarrow> (if i < 8 then bit (unat b) i else bit (le_val bs) (i - 8))" by simp
  show ?case
  proof (cases "i < 8")
    case True
    then show ?thesis unfolding s by (simp add: bit_unsigned_iff)
  next
    case False
    then obtain k where "i = k + 8" by (metis add.commute le_Suc_ex not_less)
    then show ?thesis unfolding s by (simp add: Cons div_add_self2)
  qed
qed simp

lemma unat_load: "length bs = 8 \<Longrightarrow> unat (word_of_nat (le_val bs) :: u64) = le_val bs"
  using le_val_lt [of bs] by (simp add: unat_of_nat)

lemma bit_load:
  assumes "length bs = 8"
  shows "bit (word_of_nat (le_val bs) :: u64) i \<longleftrightarrow> i < 64 \<and> bit (bs ! (i div 8)) (i mod 8)"
proof -
  have "bit (unat (word_of_nat (le_val bs) :: u64)) i = bit (word_of_nat (le_val bs) :: u64) i" by (simp add: bit_unsigned_iff)
  then show ?thesis using unat_load [OF assms] by (simp add: bit_le_val assms)
qed

definition bitop_fun :: "bitop \<Rightarrow> byte \<Rightarrow> byte \<Rightarrow> byte" where
  "bitop_fun op a b = (if op = BITOP_NOT then NOT a else bitop_byte op a b)"

text \<open>A word operation is the operation on its eight bytes.\<close>

lemma store_load:
  assumes "length as = 8" "length bs = 8" "w = bitop_u64 op (word_of_nat (le_val as)) (word_of_nat (le_val bs))"
  shows "le_bytes 8 (unat w) = map2 (bitop_fun op) as bs"
proof -
  let ?cs = "map2 (bitop_fun op) as bs"
  have len: "length ?cs = 8" using assms by simp
  have "w = word_of_nat (le_val ?cs)"
  proof (rule bit_word_eqI)
    fix i assume "i < LENGTH(64)"
    then have i: "i < 64" "i div 8 < 8" "i mod 8 < 8" by auto
    then show "bit w i = bit (word_of_nat (le_val ?cs) :: u64) i"
      using assms by (cases op) (auto simp: bit_load [OF len] bit_load bitop_fun_def bit_not_iff bit_and_iff bit_or_iff bit_xor_iff)
  qed
  then have "unat w = le_val ?cs" using unat_load [OF len] by simp
  then show ?thesis using le_bytes_le_val [of ?cs] len by simp
qed

definition combined :: "bitop \<Rightarrow> byte list \<Rightarrow> nat \<Rightarrow> nat \<Rightarrow> byte list \<Rightarrow> byte list \<Rightarrow> bool" where
  "combined op src p n res r \<longleftrightarrow> length r = length res \<and>
     (\<forall>i < length res. r ! i = (if p \<le> i \<and> i < p + n then bitop_fun op (res ! i) (src ! i) else res ! i))"

lemma combined_trans: "combined op src p n res r \<Longrightarrow> combined op src (p + n) m r r' \<Longrightarrow> combined op src p (n + m) res r'"
  by (auto simp: combined_def)

lemma bitop_word_combined:
  assumes "p + 8 \<le> length res" "op = BITOP_NOT \<or> p + 8 \<le> length src"
  shows "\<exists>r. bitop_word op src p res = Some r \<and> combined op src p 8 res r"
proof -
  define as bs where "as = take 8 (drop p res)" and "bs = (if op = BITOP_NOT then replicate 8 0 else take 8 (drop p src))"
  have len: "length as = 8" "length bs = 8" using assms by (auto simp: as_def bs_def)
  let ?r = "take p res @ map2 (bitop_fun op) as bs @ drop (p + 8) res"
  have "bitop_word op src p res = Some ?r"
    using assms store_load [OF len refl, of op]
    by (cases op) (simp_all add: bitop_word_def load64_def store64_def mem_read_def mem_write_def as_def bs_def)
  moreover have "combined op src p 8 res ?r"
    using assms len by (auto simp: combined_def nth_append as_def bs_def bitop_fun_def)
  ultimately show ?thesis by blast
qed

lemma bitop_words4_combined:
  assumes "j + 32 \<le> length res" "op = BITOP_NOT \<or> j + 32 \<le> length src"
  shows "\<exists>r. bitop_words4 op src j res = Some r \<and> combined op src j 32 res r"
proof -
  obtain r1 where 1: "bitop_word op src j res = Some r1" "combined op src j 8 res r1" using bitop_word_combined [of j res op src] assms by auto
  then have l1: "length r1 = length res" by (simp add: combined_def)
  obtain r2 where 2: "bitop_word op src (j + 8) r1 = Some r2" "combined op src (j + 8) 8 r1 r2"
    using bitop_word_combined [of "j + 8" r1 op src] assms l1 by auto
  then have l2: "length r2 = length res" using l1 by (simp add: combined_def)
  obtain r3 where 3: "bitop_word op src (j + 16) r2 = Some r3" "combined op src (j + 16) 8 r2 r3"
    using bitop_word_combined [of "j + 16" r2 op src] assms l2 by auto
  then have l3: "length r3 = length res" using l2 by (simp add: combined_def)
  obtain r4 where 4: "bitop_word op src (j + 24) r3 = Some r4" "combined op src (j + 24) 8 r3 r4"
    using bitop_word_combined [of "j + 24" r3 op src] assms l3 by auto
  have "combined op src j (8 + 8) res r2" by (rule combined_trans [OF 1(2) 2(2)])
  then have "combined op src j (8 + 8 + 8) res r3" by (rule combined_trans) (use 3(2) in simp)
  then have "combined op src j (8 + 8 + 8 + 8) res r4" by (rule combined_trans) (use 4(2) in simp)
  then show ?thesis using 1 2 3 4 by (simp add: bitop_words4_def)
qed

definition combined_all :: "bitop \<Rightarrow> byte list list \<Rightarrow> nat \<Rightarrow> nat \<Rightarrow> byte list \<Rightarrow> byte list \<Rightarrow> bool" where
  "combined_all op ss p n res r \<longleftrightarrow> length r = length res \<and>
     (\<forall>i < length res. r ! i = (if p \<le> i \<and> i < p + n then foldl (\<lambda>x s. bitop_fun op x (s ! i)) (res ! i) ss else res ! i))"

lemma bitop_srcs_combined:
  assumes "j + 32 \<le> length res" "\<forall>s \<in> set ss. j + 32 \<le> length s"
  shows "\<exists>r. bitop_srcs op ss j res = Some r \<and> combined_all op ss j 32 res r"
  using assms
proof (induction ss arbitrary: res)
  case Nil
  then show ?case by (simp add: combined_all_def)
next
  case (Cons s ss)
  obtain r where r: "bitop_words4 op s j res = Some r" "combined op s j 32 res r" using bitop_words4_combined [of j res op s] Cons.prems by auto
  have l: "length r = length res" using r(2) by (simp add: combined_def)
  obtain r' where r': "bitop_srcs op ss j r = Some r'" "combined_all op ss j 32 r r'" using Cons.IH [of r] Cons.prems l by auto
  have "combined_all op (s # ss) j 32 res r'" using r(2) r'(2) by (auto simp: combined_def combined_all_def)
  then show ?case using r(1) r'(1) by simp
qed

text \<open>The sources of a step of the fast path: for \<open>NOT\<close> there is only the copy of the first one.\<close>

lemma bitop_fast_combined:
  assumes "j + minlen \<le> length res" "\<forall>s \<in> set srcs. j + minlen \<le> length s" "srcs \<noteq> []" "op = BITOP_NOT \<Longrightarrow> length srcs = 1"
    "\<forall>i < j. res ! i = bitop_output op srcs i" "\<forall>i. j \<le> i \<and> i < j + minlen \<longrightarrow> res ! i = hd srcs ! i"
  shows "\<exists>r j'. bitop_fast op srcs minlen j res = Some (r, j') \<and> length r = length res \<and> j' \<le> j + minlen \<and> (\<forall>i < j'. r ! i = bitop_output op srcs i)"
  using assms
proof (induction minlen arbitrary: j res rule: less_induct)
  case (less minlen)
  show ?case
  proof (cases "32 \<le> minlen")
    case False
    then show ?thesis using less.prems(5) by (subst bitop_fast.simps) simp
  next
    case True
    define ss where "ss = (if op = BITOP_NOT then [[]] else tl srcs)"
    obtain r where r: "(if op = BITOP_NOT then bitop_words4 op [] j res else bitop_srcs op (tl srcs) j res) = Some r" "combined_all op ss j 32 res r"
    proof (cases "op = BITOP_NOT")
      case T: True
      then obtain r where "bitop_words4 op [] j res = Some r" "combined op [] j 32 res r"
        using bitop_words4_combined [of j res op "[]"] less.prems(1) True by auto
      then show ?thesis using T that [of r] by (auto simp: combined_def combined_all_def ss_def)
    next
      case F: False
      have "\<forall>s \<in> set (tl srcs). j + 32 \<le> length s" using less.prems(2,3) True by (meson list.set_sel(2) le_trans add_left_mono)
      then show ?thesis using bitop_srcs_combined [of j res "tl srcs" op] less.prems(1) True F that by (auto simp: ss_def)
    qed
    have out: "foldl (\<lambda>x s. bitop_fun op x (s ! i)) (hd srcs ! i) ss = bitop_output op srcs i" if i: "j \<le> i" "i < j + minlen" for i
    proof -
      have sb: "src_byte i s = s ! i" if "s \<in> set srcs" for s using that i less.prems(2) by (fastforce simp: src_byte_def)
      show ?thesis
      proof (cases "op = BITOP_NOT")
        case True
        then have "tl srcs = []" using less.prems(4) by (cases srcs) auto
        then show ?thesis using True sb [of "hd srcs"] less.prems(3) by (simp add: ss_def bitop_output_def bitop_fun_def)
      next
        case False
        have "foldl (\<lambda>x s. bitop_fun op x (s ! i)) y (tl srcs) = foldl (\<lambda>x s. bitop_byte op x (src_byte i s)) y (tl srcs)" for y
          using sb False less.prems(3) by (intro foldl_cong refl) (auto simp: bitop_fun_def dest: list.set_sel(2) [rotated])
        then show ?thesis using False sb [of "hd srcs"] less.prems(3) by (simp add: ss_def bitop_output_def)
      qed
    qed
    have len: "length r = length res" using r(2) by (simp add: combined_all_def)
    have nth: "r ! i = (if j \<le> i \<and> i < j + 32 then foldl (\<lambda>x s. bitop_fun op x (s ! i)) (res ! i) ss else res ! i)" if "i < length res" for i
      using r(2) that by (simp add: combined_all_def)
    have "\<exists>r' j'. bitop_fast op srcs (minlen - 32) (j + 32) r = Some (r', j') \<and> length r' = length r \<and> j' \<le> j + 32 + (minlen - 32) \<and>
        (\<forall>i < j'. r' ! i = bitop_output op srcs i)"
    proof (rule less.IH)
      show "\<forall>i < j + 32. r ! i = bitop_output op srcs i"
      proof (intro allI impI)
        fix i assume "i < j + 32"
        then show "r ! i = bitop_output op srcs i" using nth [of i] out [of i] less.prems(1,5,6) True by (cases "i < j") auto
      qed
      show "\<forall>i. j + 32 \<le> i \<and> i < j + 32 + (minlen - 32) \<longrightarrow> r ! i = hd srcs ! i" using nth less.prems(1,6) True by auto
    qed (use less.prems True len in auto)
    moreover have "bitop_fast op srcs minlen j res = bitop_fast op srcs (minlen - 32) (j + 32) r"
      using True r(1) by (subst bitop_fast.simps) simp
    ultimately show ?thesis using len True by auto
  qed
qed

lemma bitop_slow_output:
  assumes "length res = maxlen" "j \<le> maxlen" "\<forall>i < j. res ! i = bitop_output op srcs i"
  shows "bitop_slow op srcs maxlen j res = Some (map (bitop_output op srcs) [0..<maxlen])"
  using assms
proof (induction "maxlen - j" arbitrary: j res)
  case 0
  then show ?case by (subst bitop_slow.simps) (auto intro!: nth_equalityI)
next
  case (Suc k)
  have "bitop_slow op srcs maxlen j res = bitop_slow op srcs maxlen (j + 1) (res[j := bitop_output op srcs j])"
  proof -
    have "j < maxlen" using Suc.hyps(2) by simp
    then show ?thesis using Suc.prems(1) by (subst bitop_slow.simps) (simp add: byte_put_def)
  qed
  also have "\<dots> = Some (map (bitop_output op srcs) [0..<maxlen])"
    by (rule Suc.hyps(1)) (use Suc in \<open>auto simp: less_Suc_eq nth_list_update\<close>)
  finally show ?case .
qed

text \<open>A string as the commands read it: the bits behind its end are zero. \<^verbatim>\<open>bitop_spec\<close> is the documented meaning of the operations on one
  position.\<close>

definition padded_bit :: "byte list \<Rightarrow> nat \<Rightarrow> bool" where
  "padded_bit s k \<longleftrightarrow> k < length (string_bits s) \<and> string_bits s ! k"

fun bitop_spec :: "bitop \<Rightarrow> bool list \<Rightarrow> bool" where
  "bitop_spec BITOP_AND bs = list_all id bs"
| "bitop_spec BITOP_OR bs = list_ex id bs"
| "bitop_spec BITOP_XOR bs = odd (ones bs)"
| "bitop_spec BITOP_NOT bs = (\<not> hd bs)"

lemma padded_bit_src: "padded_bit s k \<longleftrightarrow> bit (src_byte (k div 8) s) (7 - k mod 8)"
  by (auto simp: padded_bit_def src_byte_def string_bits_nth)

lemma bitop_fold_bit:
  assumes "op \<noteq> BITOP_NOT" "b < 8"
  shows "bit (foldl (\<lambda>x s. bitop_byte op x (f s)) y ss) b \<longleftrightarrow> bitop_spec op (bit y b # map (\<lambda>s. bit (f s) b) ss)"
  using assms(1)
proof (induction ss arbitrary: y)
  case Nil
  then show ?case by (cases op) auto
next
  case (Cons s ss)
  then show ?case using assms(2) by (cases op) (auto simp: bit_simps)
qed

lemma bitop_output_bit:
  assumes "srcs \<noteq> []" "op = BITOP_NOT \<Longrightarrow> length srcs = 1" "b < 8"
  shows "bit (bitop_output op srcs i) b \<longleftrightarrow> bitop_spec op (map (\<lambda>s. bit (src_byte i s) b) srcs)"
proof (cases "op = BITOP_NOT")
  case True
  then have "tl srcs = []" using assms(2) by (cases srcs) auto
  then show ?thesis using True assms by (simp add: bitop_output_def bit_simps hd_map)
next
  case False
  then show ?thesis using assms bitop_fold_bit [of op b "src_byte i" "src_byte i (hd srcs)" "tl srcs"] by (cases srcs) (simp_all add: bitop_output_def)
qed

lemma bitop_lens_bounds:
  assumes "bitop_lens j os mn mx = (mn', mx')"
  shows "mx' = foldl max mx (map (\<lambda>o'. length (case o' of None \<Rightarrow> [] | Some s \<Rightarrow> s)) os)" "0 < j \<Longrightarrow> mn' \<le> mn"
    "\<forall>o' \<in> set os. mn' \<le> length (case o' of None \<Rightarrow> [] | Some s \<Rightarrow> s)"
  using assms
proof (induction j os mn mx rule: bitop_lens.induct)
  case (3 j s os mn mx)
  { case 1 then show ?case using 3 by (simp add: max_def) }
  { case 2 then show ?case using 3 by (fastforce split: if_splits) }
  { case 3 then show ?case using "3.IH" by (fastforce split: if_splits) }
qed auto

lemma foldl_max_ge: "x \<in> set xs \<Longrightarrow> x \<le> foldl max a xs" for x :: nat
proof -
  have "a \<le> foldl max a xs \<and> (\<forall>x \<in> set xs. x \<le> foldl max a xs)" for a
    by (induction xs arbitrary: a) (auto dest: max.boundedE)
  then show "x \<in> set xs \<Longrightarrow> x \<le> foldl max a xs" by blast
qed

text \<open>C25: \<open>BITOP\<close> returns, for any number of keys and any lengths, a string as long as the longest source in which every bit is the operation
  applied to the bits of the sources at that position, a missing key and the part behind a shorter source counting as zeros. The word-wise path,
  taken for up to sixteen long sources, and the bytewise one give the same string.\<close>

theorem bitop_combines:
  assumes "objects \<noteq> []" "op = BITOP_NOT \<Longrightarrow> length objects = 1"
  defines "srcs \<equiv> map (\<lambda>o'. case o' of None \<Rightarrow> [] | Some s \<Rightarrow> s) objects"
  shows "\<exists>res. bitop_compute op objects = Some res \<and> length res = foldl max 0 (map length srcs) \<and>
    (\<forall>k < length (string_bits res). string_bits res ! k = bitop_spec op (map (\<lambda>s. padded_bit s k) srcs))"
proof -
  obtain mn mx where m: "bitop_lens 0 objects 0 0 = (mn, mx)" by fastforce
  have mx: "mx = foldl max 0 (map length srcs)" and mn: "\<forall>s \<in> set srcs. mn \<le> length s"
    using bitop_lens_bounds [OF m] by (auto simp: srcs_def o_def)
  have ne: "srcs \<noteq> []" and nt: "op = BITOP_NOT \<Longrightarrow> length srcs = 1" using assms by (auto simp: srcs_def)
  have hd: "mn \<le> length (hd srcs)" using mn hd_in_set [OF ne] by blast
  have "length (hd srcs) \<le> mx" unfolding mx by (rule foldl_max_ge) (use ne in simp)
  then have mnmx: "mn \<le> mx" using hd by simp
  have start: "\<exists>r j. (if mn \<ge> 32 \<and> length objects \<le> 16 then do {
                bs \<leftarrow> mem_read (hd srcs) 0 mn;
                r \<leftarrow> mem_write (replicate mx 0) 0 bs;
                bitop_fast op srcs mn 0 r
              }
              else Some (replicate mx 0, 0)) = Some (r, j) \<and> length r = mx \<and> j \<le> mx \<and> (\<forall>i < j. r ! i = bitop_output op srcs i)"
  proof (cases "mn \<ge> 32 \<and> length objects \<le> 16")
    case True
    let ?r = "take mn (hd srcs) @ replicate (mx - mn) 0"
    have "\<exists>r j. bitop_fast op srcs mn 0 ?r = Some (r, j) \<and> length r = length ?r \<and> j \<le> 0 + mn \<and> (\<forall>i < j. r ! i = bitop_output op srcs i)"
      by (rule bitop_fast_combined) (use mn ne nt hd mnmx in \<open>auto simp: nth_append\<close>)
    moreover have "mem_read (hd srcs) 0 mn = Some (take mn (hd srcs))" "mem_write (replicate mx 0) 0 (take mn (hd srcs)) = Some ?r"
      using hd mnmx by (simp_all add: mem_read_def mem_write_def)
    moreover have "length ?r = mx" using hd mnmx by simp
    ultimately show ?thesis using True mnmx by (auto intro: le_trans)
  qed auto
  have "bitop_compute op objects = Some (map (bitop_output op srcs) [0..<mx])"
  proof (cases "mx = 0")
    case True
    then show ?thesis using m by (simp add: bitop_compute_def)
  next
    case False
    then show ?thesis using m start bitop_slow_output by (fastforce simp: bitop_compute_def srcs_def [symmetric])
  qed
  then show ?thesis using mx ne nt
    by (auto simp: string_bits_nth bitop_output_bit padded_bit_src [abs_def])
qed

theorem bitop_combines_witness:
  "bitop_compute BITOP_XOR [Some [0x0F, 0xFF], None, Some [0xFF]] = Some [0xF0, 0xFF] \<and>
   string_bits [0xF0, 0xFF] ! 9 = bitop_spec BITOP_XOR (map (\<lambda>s. padded_bit s 9) [[0x0F, 0xFF], [], [0xFF]])"
proof -
  have c: "bitop_compute BITOP_XOR [Some [0x0F, 0xFF], None, Some [0xFF]] = Some [0xF0, 0xFF]" by code_simp
  have "9 < length (string_bits [0xF0, 0xFF])" by (simp only: length_string_bits) simp
  then show ?thesis using bitop_combines [of "[Some [0x0F, 0xFF], None, Some [0xFF]]" BITOP_XOR] c by (simp del: string_bits_simps bitop_spec.simps)
qed

end
