(* ===== verification/Vire_Hashkit.thy ===== *)
theory Vire_Hashkit
  imports Vire_Interfaces
begin

text \<open>The hash functions of \<open>dep/dhashkit\<close>: the table driven checksums, FNV, one-at-a-time, Hsieh, Murmur and Jenkins. A key is a block of
  bytes that may be longer than the hashed length, and its address matters only where the code tests its alignment.\<close>

unbundle bit_operations_syntax

section \<open>Tables and byte loops\<close>

text \<open>A loop over the bytes of a key. A read outside of the memory of the key is \<^term>\<open>None\<close>.\<close>

fun hash_loop :: "('h \<Rightarrow> byte \<Rightarrow> 'h) \<Rightarrow> byte list \<Rightarrow> nat \<Rightarrow> nat \<Rightarrow> 'h \<Rightarrow> 'h option" where
  "hash_loop f key x 0 h = Some h"
| "hash_loop f key x (Suc n) h = do { c \<leftarrow> byte_at key x; hash_loop f key (x + 1) n (f h c) }"

definition crc16tab :: "u32 list" where
  "crc16tab =
    [0x0, 0x1021, 0x2042, 0x3063, 0x4084, 0x50A5, 0x60C6, 0x70E7,
     0x8108, 0x9129, 0xA14A, 0xB16B, 0xC18C, 0xD1AD, 0xE1CE, 0xF1EF,
     0x1231, 0x210, 0x3273, 0x2252, 0x52B5, 0x4294, 0x72F7, 0x62D6,
     0x9339, 0x8318, 0xB37B, 0xA35A, 0xD3BD, 0xC39C, 0xF3FF, 0xE3DE,
     0x2462, 0x3443, 0x420, 0x1401, 0x64E6, 0x74C7, 0x44A4, 0x5485,
     0xA56A, 0xB54B, 0x8528, 0x9509, 0xE5EE, 0xF5CF, 0xC5AC, 0xD58D,
     0x3653, 0x2672, 0x1611, 0x630, 0x76D7, 0x66F6, 0x5695, 0x46B4,
     0xB75B, 0xA77A, 0x9719, 0x8738, 0xF7DF, 0xE7FE, 0xD79D, 0xC7BC,
     0x48C4, 0x58E5, 0x6886, 0x78A7, 0x840, 0x1861, 0x2802, 0x3823,
     0xC9CC, 0xD9ED, 0xE98E, 0xF9AF, 0x8948, 0x9969, 0xA90A, 0xB92B,
     0x5AF5, 0x4AD4, 0x7AB7, 0x6A96, 0x1A71, 0xA50, 0x3A33, 0x2A12,
     0xDBFD, 0xCBDC, 0xFBBF, 0xEB9E, 0x9B79, 0x8B58, 0xBB3B, 0xAB1A,
     0x6CA6, 0x7C87, 0x4CE4, 0x5CC5, 0x2C22, 0x3C03, 0xC60, 0x1C41,
     0xEDAE, 0xFD8F, 0xCDEC, 0xDDCD, 0xAD2A, 0xBD0B, 0x8D68, 0x9D49,
     0x7E97, 0x6EB6, 0x5ED5, 0x4EF4, 0x3E13, 0x2E32, 0x1E51, 0xE70,
     0xFF9F, 0xEFBE, 0xDFDD, 0xCFFC, 0xBF1B, 0xAF3A, 0x9F59, 0x8F78,
     0x9188, 0x81A9, 0xB1CA, 0xA1EB, 0xD10C, 0xC12D, 0xF14E, 0xE16F,
     0x1080, 0xA1, 0x30C2, 0x20E3, 0x5004, 0x4025, 0x7046, 0x6067,
     0x83B9, 0x9398, 0xA3FB, 0xB3DA, 0xC33D, 0xD31C, 0xE37F, 0xF35E,
     0x2B1, 0x1290, 0x22F3, 0x32D2, 0x4235, 0x5214, 0x6277, 0x7256,
     0xB5EA, 0xA5CB, 0x95A8, 0x8589, 0xF56E, 0xE54F, 0xD52C, 0xC50D,
     0x34E2, 0x24C3, 0x14A0, 0x481, 0x7466, 0x6447, 0x5424, 0x4405,
     0xA7DB, 0xB7FA, 0x8799, 0x97B8, 0xE75F, 0xF77E, 0xC71D, 0xD73C,
     0x26D3, 0x36F2, 0x691, 0x16B0, 0x6657, 0x7676, 0x4615, 0x5634,
     0xD94C, 0xC96D, 0xF90E, 0xE92F, 0x99C8, 0x89E9, 0xB98A, 0xA9AB,
     0x5844, 0x4865, 0x7806, 0x6827, 0x18C0, 0x8E1, 0x3882, 0x28A3,
     0xCB7D, 0xDB5C, 0xEB3F, 0xFB1E, 0x8BF9, 0x9BD8, 0xABBB, 0xBB9A,
     0x4A75, 0x5A54, 0x6A37, 0x7A16, 0xAF1, 0x1AD0, 0x2AB3, 0x3A92,
     0xFD2E, 0xED0F, 0xDD6C, 0xCD4D, 0xBDAA, 0xAD8B, 0x9DE8, 0x8DC9,
     0x7C26, 0x6C07, 0x5C64, 0x4C45, 0x3CA2, 0x2C83, 0x1CE0, 0xCC1,
     0xEF1F, 0xFF3E, 0xCF5D, 0xDF7C, 0xAF9B, 0xBFBA, 0x8FD9, 0x9FF8,
     0x6E17, 0x7E36, 0x4E55, 0x5E74, 0x2E93, 0x3EB2, 0xED1, 0x1EF0]"

definition crc32tab :: "u32 list" where
  "crc32tab =
    [0x0, 0x77073096, 0xEE0E612C, 0x990951BA, 0x76DC419, 0x706AF48F, 0xE963A535, 0x9E6495A3,
     0xEDB8832, 0x79DCB8A4, 0xE0D5E91E, 0x97D2D988, 0x9B64C2B, 0x7EB17CBD, 0xE7B82D07, 0x90BF1D91,
     0x1DB71064, 0x6AB020F2, 0xF3B97148, 0x84BE41DE, 0x1ADAD47D, 0x6DDDE4EB, 0xF4D4B551, 0x83D385C7,
     0x136C9856, 0x646BA8C0, 0xFD62F97A, 0x8A65C9EC, 0x14015C4F, 0x63066CD9, 0xFA0F3D63, 0x8D080DF5,
     0x3B6E20C8, 0x4C69105E, 0xD56041E4, 0xA2677172, 0x3C03E4D1, 0x4B04D447, 0xD20D85FD, 0xA50AB56B,
     0x35B5A8FA, 0x42B2986C, 0xDBBBC9D6, 0xACBCF940, 0x32D86CE3, 0x45DF5C75, 0xDCD60DCF, 0xABD13D59,
     0x26D930AC, 0x51DE003A, 0xC8D75180, 0xBFD06116, 0x21B4F4B5, 0x56B3C423, 0xCFBA9599, 0xB8BDA50F,
     0x2802B89E, 0x5F058808, 0xC60CD9B2, 0xB10BE924, 0x2F6F7C87, 0x58684C11, 0xC1611DAB, 0xB6662D3D,
     0x76DC4190, 0x1DB7106, 0x98D220BC, 0xEFD5102A, 0x71B18589, 0x6B6B51F, 0x9FBFE4A5, 0xE8B8D433,
     0x7807C9A2, 0xF00F934, 0x9609A88E, 0xE10E9818, 0x7F6A0DBB, 0x86D3D2D, 0x91646C97, 0xE6635C01,
     0x6B6B51F4, 0x1C6C6162, 0x856530D8, 0xF262004E, 0x6C0695ED, 0x1B01A57B, 0x8208F4C1, 0xF50FC457,
     0x65B0D9C6, 0x12B7E950, 0x8BBEB8EA, 0xFCB9887C, 0x62DD1DDF, 0x15DA2D49, 0x8CD37CF3, 0xFBD44C65,
     0x4DB26158, 0x3AB551CE, 0xA3BC0074, 0xD4BB30E2, 0x4ADFA541, 0x3DD895D7, 0xA4D1C46D, 0xD3D6F4FB,
     0x4369E96A, 0x346ED9FC, 0xAD678846, 0xDA60B8D0, 0x44042D73, 0x33031DE5, 0xAA0A4C5F, 0xDD0D7CC9,
     0x5005713C, 0x270241AA, 0xBE0B1010, 0xC90C2086, 0x5768B525, 0x206F85B3, 0xB966D409, 0xCE61E49F,
     0x5EDEF90E, 0x29D9C998, 0xB0D09822, 0xC7D7A8B4, 0x59B33D17, 0x2EB40D81, 0xB7BD5C3B, 0xC0BA6CAD,
     0xEDB88320, 0x9ABFB3B6, 0x3B6E20C, 0x74B1D29A, 0xEAD54739, 0x9DD277AF, 0x4DB2615, 0x73DC1683,
     0xE3630B12, 0x94643B84, 0xD6D6A3E, 0x7A6A5AA8, 0xE40ECF0B, 0x9309FF9D, 0xA00AE27, 0x7D079EB1,
     0xF00F9344, 0x8708A3D2, 0x1E01F268, 0x6906C2FE, 0xF762575D, 0x806567CB, 0x196C3671, 0x6E6B06E7,
     0xFED41B76, 0x89D32BE0, 0x10DA7A5A, 0x67DD4ACC, 0xF9B9DF6F, 0x8EBEEFF9, 0x17B7BE43, 0x60B08ED5,
     0xD6D6A3E8, 0xA1D1937E, 0x38D8C2C4, 0x4FDFF252, 0xD1BB67F1, 0xA6BC5767, 0x3FB506DD, 0x48B2364B,
     0xD80D2BDA, 0xAF0A1B4C, 0x36034AF6, 0x41047A60, 0xDF60EFC3, 0xA867DF55, 0x316E8EEF, 0x4669BE79,
     0xCB61B38C, 0xBC66831A, 0x256FD2A0, 0x5268E236, 0xCC0C7795, 0xBB0B4703, 0x220216B9, 0x5505262F,
     0xC5BA3BBE, 0xB2BD0B28, 0x2BB45A92, 0x5CB36A04, 0xC2D7FFA7, 0xB5D0CF31, 0x2CD99E8B, 0x5BDEAE1D,
     0x9B64C2B0, 0xEC63F226, 0x756AA39C, 0x26D930A, 0x9C0906A9, 0xEB0E363F, 0x72076785, 0x5005713,
     0x95BF4A82, 0xE2B87A14, 0x7BB12BAE, 0xCB61B38, 0x92D28E9B, 0xE5D5BE0D, 0x7CDCEFB7, 0xBDBDF21,
     0x86D3D2D4, 0xF1D4E242, 0x68DDB3F8, 0x1FDA836E, 0x81BE16CD, 0xF6B9265B, 0x6FB077E1, 0x18B74777,
     0x88085AE6, 0xFF0F6A70, 0x66063BCA, 0x11010B5C, 0x8F659EFF, 0xF862AE69, 0x616BFFD3, 0x166CCF45,
     0xA00AE278, 0xD70DD2EE, 0x4E048354, 0x3903B3C2, 0xA7672661, 0xD06016F7, 0x4969474D, 0x3E6E77DB,
     0xAED16A4A, 0xD9D65ADC, 0x40DF0B66, 0x37D83BF0, 0xA9BCAE53, 0xDEBB9EC5, 0x47B2CF7F, 0x30B5FFE9,
     0xBDBDF21C, 0xCABAC28A, 0x53B39330, 0x24B4A3A6, 0xBAD03605, 0xCDD70693, 0x54DE5729, 0x23D967BF,
     0xB3667A2E, 0xC4614AB8, 0x5D681B02, 0x2A6F2B94, 0xB40BBE37, 0xC30C8EA1, 0x5A05DF1B, 0x2D02EF8D]"

text \<open>The expression \<open>*key\<close> has type \<open>char\<close>, which is signed: it is sign extended before the operation. The variable \<open>crc\<close> of
  \<open>hash_crc16\<close> has 32 bits and is not cut back to 16.\<close>

definition crc16_byte :: "u32 \<Rightarrow> byte \<Rightarrow> u32" where
  "crc16_byte crc c = push_bit 8 crc XOR crc16tab ! unat ((drop_bit 8 crc XOR scast c) AND 0x00ff)"

definition hash_crc16 :: "byte list \<Rightarrow> nat \<Rightarrow> u32 option" where
  "hash_crc16 key key_length = hash_loop crc16_byte key 0 key_length 0"

definition crc32_byte :: "u32 \<Rightarrow> byte \<Rightarrow> u32" where
  "crc32_byte crc c = drop_bit 8 crc XOR crc32tab ! unat ((ucast crc XOR scast c :: u64) AND 0xff)"

definition hash_crc32 :: "byte list \<Rightarrow> nat \<Rightarrow> u32 option" where
  "hash_crc32 key key_length = do {
     crc \<leftarrow> hash_loop crc32_byte key 0 key_length (- 1);
     Some (drop_bit 16 (NOT crc) AND 0x7fff)
   }"

definition crc32a_byte :: "u32 \<Rightarrow> byte \<Rightarrow> u32" where
  "crc32a_byte crc c = crc32tab ! unat ((crc XOR ucast c) AND 0xFF) XOR drop_bit 8 crc"

definition hash_crc32a :: "byte list \<Rightarrow> nat \<Rightarrow> u32 option" where
  "hash_crc32a key key_length = do {
     crc \<leftarrow> hash_loop crc32a_byte key 0 key_length (NOT 0);
     Some (crc XOR NOT 0)
   }"

lemma hash_loop_foldl: "x + n \<le> length key \<Longrightarrow> hash_loop f key x n h = Some (foldl f h (take n (drop x key)))"
proof (induction n arbitrary: x h)
  case (Suc n)
  then have "drop x key = key ! x # drop (x + 1) key" by (simp add: Cons_nth_drop_Suc)
  then show ?case using Suc by (simp add: byte_at_def)
qed simp

text \<open>Reference definitions: one bit of a message at a time. The first is CRC-16 with polynomial \<open>x\<^sup>1\<^sup>6 + x\<^sup>1\<^sup>2 + x\<^sup>5 + 1\<close>, most significant
  bit first; the second is the reflected CRC-32.\<close>

definition crc16_bit :: "16 word \<Rightarrow> bool \<Rightarrow> 16 word" where
  "crc16_bit crc b = push_bit 1 crc XOR (if bit crc 15 \<noteq> b then 0x1021 else 0)"

definition crc32_bit :: "u32 \<Rightarrow> bool \<Rightarrow> u32" where
  "crc32_bit crc b = drop_bit 1 crc XOR (if bit crc 0 \<noteq> b then 0xEDB88320 else 0)"

definition bits_msb :: "byte \<Rightarrow> bool list" where
  "bits_msb c = map (\<lambda>k. bit c (7 - k)) [0..<8]"

definition bits_lsb :: "byte \<Rightarrow> bool list" where
  "bits_lsb c = map (bit c) [0..<8]"

definition crc16_ref :: "byte list \<Rightarrow> 16 word" where
  "crc16_ref m = foldl crc16_bit 0 (concat (map bits_msb m))"

definition crc32_ref :: "byte list \<Rightarrow> u32" where
  "crc32_ref m = NOT (foldl crc32_bit (- 1) (concat (map bits_lsb m)))"

text \<open>The bit steps are linear.\<close>

definition step16 :: "16 word \<Rightarrow> 16 word" where
  "step16 crc = crc16_bit crc False"

definition step32 :: "u32 \<Rightarrow> u32" where
  "step32 crc = crc32_bit crc False"

definition xor_linear :: "('a::len word \<Rightarrow> 'b::len word) \<Rightarrow> bool" where
  "xor_linear f \<longleftrightarrow> (\<forall>x y. f (x XOR y) = f x XOR f y)"

lemma step16_linear: "xor_linear step16"
  by (auto simp: xor_linear_def step16_def crc16_bit_def bit_simps intro!: bit_word_eqI)

lemma step32_linear: "xor_linear step32"
  by (auto simp: xor_linear_def step32_def crc32_bit_def bit_simps intro!: bit_word_eqI)

lemma xor_linear_funpow: "xor_linear f \<Longrightarrow> xor_linear (f ^^ n)" for f :: "'a::len word \<Rightarrow> 'a word"
  by (induction n) (simp_all add: xor_linear_def)

lemma xor_linear_apply: "xor_linear f \<Longrightarrow> f (x XOR y) = f x XOR f y"
  by (simp add: xor_linear_def)

lemma xor_linear_zero: "xor_linear f \<Longrightarrow> f 0 = 0"
  unfolding xor_linear_def by (metis xor_self_eq)

text \<open>A table of a linear function, built by doubling from its values at the powers of two.\<close>

definition doubled :: "'a::len word list \<Rightarrow> 'a word list" where
  "doubled = foldl (\<lambda>t b. t @ map (\<lambda>x. x XOR b) t) [0]"

lemma word_of_nat_split:
  assumes "j < 2 ^ k" "k < LENGTH('a)"
  shows "(word_of_nat j :: 'a::len word) XOR word_of_nat (2 ^ k) = word_of_nat (j + 2 ^ k)"
proof -
  have "bit (unat (word_of_nat j :: 'a word)) k = bit (word_of_nat j :: 'a word) k" by (simp add: bit_unsigned_iff)
  moreover have "unat (word_of_nat j :: 'a word) < 2 ^ k"
    using assms(1) le_less_trans [OF mod_less_eq_dividend] by (simp add: unat_of_nat)
  ultimately have "\<not> bit (word_of_nat j :: 'a word) k" by (simp add: bit_iff_odd)
  then have "(word_of_nat j :: 'a word) AND word_of_nat (2 ^ k) = 0" by (simp add: and_exp_eq_0_iff_not_bit)
  then have "(word_of_nat j :: 'a word) XOR word_of_nat (2 ^ k) = word_of_nat j + word_of_nat (2 ^ k)"
    by (rule disjunctive_add_eq_xor [symmetric])
  then show ?thesis by simp
qed

lemma doubled_table:
  assumes "xor_linear f" "length bs \<le> LENGTH('a)" "\<forall>k < length bs. bs ! k = f (word_of_nat (2 ^ k))"
  shows "doubled bs = map (\<lambda>i. f (word_of_nat i :: 'a::len word)) [0..<2 ^ length bs]"
  using assms(2,3)
proof (induction bs rule: rev_induct)
  case Nil
  then show ?case using xor_linear_zero [OF assms(1)] by (simp add: doubled_def)
next
  case (snoc b bs)
  let ?n = "2 ^ length bs :: nat"
  have b: "b = f (word_of_nat ?n)" using snoc.prems(2) by auto
  have "doubled (bs @ [b]) = doubled bs @ map (\<lambda>x. x XOR b) (doubled bs)" by (simp add: doubled_def)
  also have "doubled bs = map (\<lambda>i. f (word_of_nat i)) [0..<?n]" 
  proof (rule snoc.IH)
    show "\<forall>k < length bs. bs ! k = f (word_of_nat (2 ^ k))"
    proof (intro allI impI)
      fix k assume "k < length bs"
      then show "bs ! k = f (word_of_nat (2 ^ k))" using snoc.prems(2) by (metis less_SucI length_append_singleton nth_append)
    qed
  qed (use snoc.prems(1) in simp)
  also have "map (\<lambda>x. x XOR b) (map (\<lambda>i. f (word_of_nat i :: 'a word)) [0..<?n]) = map (\<lambda>i. f (word_of_nat i)) [?n..<2 * ?n]"
  proof (rule nth_equalityI)
    fix i assume "i < length (map (\<lambda>x. x XOR b) (map (\<lambda>i. f (word_of_nat i :: 'a word)) [0..<?n]))"
    then have i: "i < ?n" by simp
    have "f (word_of_nat i) XOR b = f (word_of_nat i XOR word_of_nat ?n)" using assms(1) b by (simp add: xor_linear_def)
    also have "(word_of_nat i :: 'a word) XOR word_of_nat ?n = word_of_nat (i + ?n)"
      using word_of_nat_split [of i "length bs", where 'a = 'a] i snoc.prems(1) by simp
    finally show "map (\<lambda>x. x XOR b) (map (\<lambda>i. f (word_of_nat i :: 'a word)) [0..<?n]) ! i = map (\<lambda>i. f (word_of_nat i)) [?n..<2 * ?n] ! i"
      using i by (simp add: ac_simps)
  qed simp
  finally show ?case using upt_add_eq_append [of 0 ?n ?n] by (simp add: mult_2)
qed

lemma crc32tab_doubled: "crc32tab = doubled [0x77073096, 0xEE0E612C, 0x076DC419, 0x0EDB8832, 0x1DB71064, 0x3B6E20C8, 0x76DC4190, 0xEDB88320]"
  by (simp add: doubled_def crc32tab_def)


lemma funpow_8: "f ^^ 8 = (\<lambda>x. f (f (f (f (f (f (f (f x))))))))"
  by (simp add: numeral_eq_Suc fun_eq_iff)

lemma step32_basis:
  "\<forall>k < 8. [0x77073096, 0xEE0E612C, 0x076DC419, 0x0EDB8832, 0x1DB71064, 0x3B6E20C8, 0x76DC4190, 0xEDB88320] ! k = (step32 ^^ 8) (word_of_nat (2 ^ k))"
  by (simp add: all_less_numeral step32_def crc32_bit_def funpow_8)

lemma crc32tab_step: "crc32tab = map (\<lambda>i. (step32 ^^ 8) (word_of_nat i)) [0..<256]"
  unfolding crc32tab_doubled using doubled_table [OF xor_linear_funpow [OF step32_linear], of _ 8] step32_basis by simp

lemma crc16tab_doubled: "map ucast crc16tab = (doubled [0x1021, 0x2042, 0x4084, 0x8108, 0x1231, 0x2462, 0x48c4, 0x9188] :: 16 word list)"
  by (simp add: doubled_def crc16tab_def)

lemma step16_basis:
  "\<forall>k < 8. [0x1021, 0x2042, 0x4084, 0x8108, 0x1231, 0x2462, 0x48c4, 0x9188] ! k = (step16 ^^ 8) (push_bit 8 (word_of_nat (2 ^ k)))"
  by (simp add: all_less_numeral step16_def crc16_bit_def funpow_8)

lemma crc16tab_step: "map ucast crc16tab = map (\<lambda>i. (step16 ^^ 8) (push_bit 8 (word_of_nat i))) [0..<256]"
proof -
  have "xor_linear (\<lambda>x. (step16 ^^ 8) (push_bit 8 x))"
    using xor_linear_funpow [OF step16_linear, of 8] by (simp add: xor_linear_def push_bit_xor)
  then show ?thesis unfolding crc16tab_doubled
    using doubled_table [of "\<lambda>x. (step16 ^^ 8) (push_bit 8 x)"] step16_basis by simp
qed

lemma step16_input: "k < 8 \<Longrightarrow> step16 (s XOR push_bit (8 + k) (ucast c)) = crc16_bit s (bit c (7 - k)) XOR push_bit (9 + k) (ucast c)" for c :: byte
  by (auto simp: step16_def crc16_bit_def bit_simps intro!: bit_word_eqI)

lemma step32_input: "k < 8 \<Longrightarrow> step32 (s XOR drop_bit k (ucast c)) = crc32_bit s (bit c k) XOR drop_bit (Suc k) (ucast c)" for c :: byte
  by (auto simp: step32_def crc32_bit_def bit_simps intro!: bit_word_eqI)

lemma not_bit_byte: "8 \<le> n \<Longrightarrow> \<not> bit (c :: byte) n"
  using bit_imp_le_length [of c n] by auto

lemma crc16_bits: "foldl crc16_bit s (bits_msb c) = (step16 ^^ 8) (s XOR push_bit 8 (ucast c))"
proof -
  have "k \<le> 8 \<Longrightarrow> (step16 ^^ k) (s XOR push_bit 8 (ucast c)) = foldl crc16_bit s (map (\<lambda>k. bit c (7 - k)) [0..<k]) XOR push_bit (8 + k) (ucast c)" for k
    by (induction k) (simp_all add: step16_input)
  from this [of 8] show ?thesis by (simp add: bits_msb_def)
qed

lemma crc32_bits: "foldl crc32_bit s (bits_lsb c) = (step32 ^^ 8) (s XOR ucast c)"
proof -
  have "k \<le> 8 \<Longrightarrow> (step32 ^^ k) (s XOR ucast c) = foldl crc32_bit s (map (bit c) [0..<k]) XOR drop_bit k (ucast c)" for k
    by (induction k) (simp_all add: step32_input)
  moreover have "drop_bit 8 (ucast c :: u32) = 0" by (auto intro!: bit_word_eqI simp: bit_simps not_bit_byte)
  ultimately show ?thesis by (simp add: bits_lsb_def)
qed

text \<open>Eight steps on a state: the table gives those of one byte, and the other bits are only shifted.\<close>

lemma step16_shift: "n \<le> 8 \<Longrightarrow> (step16 ^^ n) (take_bit 8 x) = push_bit n (take_bit 8 x)"
proof (induction n)
  case (Suc n)
  have "\<not> bit (push_bit n (take_bit 8 x)) 15"
  proof -
    have "\<not> 15 - n < 8" using Suc.prems by arith
    then show ?thesis by (simp add: bit_simps)
  qed
  then have "step16 (push_bit n (take_bit 8 x)) = push_bit 1 (push_bit n (take_bit 8 x))" by (simp add: step16_def crc16_bit_def)
  then show ?case using Suc by simp
qed simp

lemma step16_byte: "(step16 ^^ 8) x = push_bit 8 x XOR ucast (crc16tab ! unat (ucast (drop_bit 8 x) :: byte))"
proof -
  let ?h = "ucast (drop_bit 8 x) :: byte"
  have x: "x = push_bit 8 (ucast ?h) XOR (take_bit 8 x)" by (auto intro!: bit_word_eqI simp: bit_simps not_bit_byte)
  have "ucast (crc16tab ! unat ?h) = (map ucast crc16tab :: 16 word list) ! unat ?h" using unat_byte_lt [of ?h] by (simp add: crc16tab_def del: list.map)
  also have "\<dots> = (step16 ^^ 8) (push_bit 8 (ucast ?h))" using unat_byte_lt [of ?h] by (simp add: crc16tab_step)
  finally have t: "ucast (crc16tab ! unat ?h) = (step16 ^^ 8) (push_bit 8 (ucast ?h))" .
  have "(step16 ^^ 8) x = (step16 ^^ 8) (push_bit 8 (ucast ?h)) XOR (step16 ^^ 8) (take_bit 8 x)"
    by (subst x) (rule xor_linear_apply [OF xor_linear_funpow [OF step16_linear]])
  also have "(step16 ^^ 8) (take_bit 8 x) = push_bit 8 x" unfolding step16_shift [OF order_refl] by (auto intro!: bit_word_eqI simp: bit_simps not_bit_byte)
  finally show ?thesis unfolding t by (simp add: ac_simps)
qed

lemma push_bit_drop_bit_drop: "drop_bit n (push_bit n (drop_bit n x)) = drop_bit n x" for x :: "'a::len word"
proof (rule bit_word_eqI)
  fix k assume "k < LENGTH('a)"
  then show "bit (drop_bit n (push_bit n (drop_bit n x))) k = bit (drop_bit n x) k"
    using bit_imp_le_length [of x "n + k"] by (auto simp: bit_simps)
qed

lemma step32_shift: "n \<le> 8 \<Longrightarrow> (step32 ^^ n) (push_bit 8 (drop_bit 8 x)) = drop_bit n (push_bit 8 (drop_bit 8 x))"
proof (induction n)
  case (Suc n)
  have "\<not> bit (drop_bit n (push_bit 8 (drop_bit 8 x))) 0" using Suc.prems by (simp add: bit_simps)
  then have "step32 (drop_bit n (push_bit 8 (drop_bit 8 x))) = drop_bit 1 (drop_bit n (push_bit 8 (drop_bit 8 x)))" by (simp add: step32_def crc32_bit_def)
  then show ?case using Suc by simp
qed simp

lemma step32_byte: "(step32 ^^ 8) x = drop_bit 8 x XOR crc32tab ! unat (ucast x :: byte)"
proof -
  have x: "x = ucast (ucast x :: byte) XOR (push_bit 8 (drop_bit 8 x))" by (auto intro!: bit_word_eqI simp: bit_simps not_bit_byte)
  have t: "crc32tab ! unat (ucast x :: byte) = (step32 ^^ 8) (ucast (ucast x :: byte))"
    using unat_byte_lt [of "ucast x"] by (simp add: crc32tab_step)
  have "(step32 ^^ 8) x = (step32 ^^ 8) (ucast (ucast x :: byte)) XOR (step32 ^^ 8) (push_bit 8 (drop_bit 8 x))"
    by (subst x) (rule xor_linear_apply [OF xor_linear_funpow [OF step32_linear]])
  also have "(step32 ^^ 8) (push_bit 8 (drop_bit 8 x)) = drop_bit 8 x"
    unfolding step32_shift [OF order_refl] by (simp add: push_bit_drop_bit_drop)
  finally show ?thesis unfolding t by (simp add: ac_simps)
qed

lemma and_ff: "x AND 0xff = take_bit 8 x" for x :: "'a::len word"
  by (simp add: take_bit_eq_mask mask_eq_exp_minus_1)

lemma unat_ucast_byte: "unat (ucast c :: 'a::len word) = unat c" if "8 \<le> LENGTH('a)" for c :: byte
proof -
  have "unat c < 2 ^ LENGTH('a)" using unat_byte_lt [of c] that power_increasing [of 8 "LENGTH('a)" "2::nat"] by simp
  then show ?thesis by (simp add: unsigned_ucast_eq take_bit_nat_eq_self)
qed

lemma crc16_byte_ref: "ucast (crc16_byte crc c) = foldl crc16_bit (ucast crc) (bits_msb c)"
proof -
  have "(drop_bit 8 crc XOR scast c) AND 0x00ff = (ucast (ucast (drop_bit 8 (ucast crc XOR push_bit 8 (ucast c) :: 16 word)) :: byte) :: u32)"
    unfolding and_ff by (auto intro!: bit_word_eqI simp: bit_simps not_bit_byte)
  then have i: "unat ((drop_bit 8 crc XOR scast c) AND 0x00ff) = unat (ucast (drop_bit 8 (ucast crc XOR push_bit 8 (ucast c) :: 16 word)) :: byte)"
    by (simp add: unat_ucast_byte)
  have "ucast (crc16_byte crc c) = push_bit 8 (ucast crc) XOR (ucast (crc16tab ! unat (ucast (drop_bit 8 (ucast crc XOR push_bit 8 (ucast c) :: 16 word)) :: byte)) :: 16 word)"
    unfolding crc16_byte_def i by (auto intro!: bit_word_eqI simp: bit_simps not_bit_byte)
  also have "push_bit 8 (ucast crc) = push_bit 8 (ucast crc XOR push_bit 8 (ucast c) :: 16 word)" by (auto intro!: bit_word_eqI simp: bit_simps not_bit_byte)
  finally show ?thesis unfolding crc16_bits step16_byte .
qed

lemma crc32a_byte_ref: "crc32a_byte crc c = foldl crc32_bit crc (bits_lsb c)"
proof -
  have "(crc XOR ucast c) AND 0xFF = (ucast (ucast (crc XOR ucast c :: u32) :: byte) :: u32)"
    unfolding and_ff by (auto intro!: bit_word_eqI simp: bit_simps not_bit_byte)
  then have i: "unat ((crc XOR ucast c) AND 0xFF) = unat (ucast (crc XOR ucast c :: u32) :: byte)" by (simp add: unat_ucast_byte)
  have "drop_bit 8 crc = drop_bit 8 (crc XOR ucast c)" by (auto intro!: bit_word_eqI simp: bit_simps not_bit_byte)
  then show ?thesis unfolding crc32a_byte_def i crc32_bits step32_byte by (simp add: ac_simps)
qed

lemma crc32_byte_a: "crc32_byte crc c = crc32a_byte crc c"
proof -
  have "(ucast crc XOR scast c :: u64) AND 0xff = ucast (ucast (crc XOR ucast c :: u32) :: byte)" "(crc XOR ucast c) AND 0xFF = (ucast (ucast (crc XOR ucast c :: u32) :: byte) :: u32)"
    unfolding and_ff by (auto intro!: bit_word_eqI simp: bit_simps not_bit_byte)
  then have "unat ((ucast crc XOR scast c :: u64) AND 0xff) = unat ((crc XOR ucast c) AND 0xFF)" by (simp add: unat_ucast_byte)
  then show ?thesis by (simp add: crc32_byte_def crc32a_byte_def ac_simps)
qed

lemma foldl_byte_steps:
  assumes "\<And>h c. r (f h c) = foldl g (r h) (bits c)"
  shows "r (foldl f h m) = foldl g (r h) (concat (map bits m))"
  by (induction m arbitrary: h) (simp_all add: assms)

text \<open>C26: \<open>hash_crc16\<close> reads exactly its key and the lower 16 bits of its result are the CRC-16 of the key, of the bitwise definition; the shifted
  out bits stay in the upper half of the 32 bit result. \<open>hash_crc32a\<close> is the bitwise CRC-32, and \<open>hash_crc32\<close> is bits 16 to 30 of the same
  value, for bytes of either sign of \<open>char\<close>.\<close>

theorem hash_crc_correct:
  assumes "n \<le> length key"
  shows "(\<exists>crc. hash_crc16 key n = Some crc \<and> ucast crc = crc16_ref (take n key)) \<and>
    hash_crc32a key n = Some (crc32_ref (take n key)) \<and>
    hash_crc32 key n = Some (drop_bit 16 (crc32_ref (take n key)) AND 0x7fff)"
proof (intro conjI)
  note loop = hash_loop_foldl [of 0 n key, simplified, OF assms]
  show "\<exists>crc. hash_crc16 key n = Some crc \<and> ucast crc = crc16_ref (take n key)"
    using foldl_byte_steps [of ucast crc16_byte crc16_bit bits_msb 0 "take n key", OF crc16_byte_ref]
    by (simp add: hash_crc16_def loop crc16_ref_def)
  have c: "foldl crc32a_byte (- 1) (take n key) = NOT (crc32_ref (take n key))"
    using foldl_byte_steps [of id crc32a_byte crc32_bit bits_lsb "- 1" "take n key"] by (simp add: crc32_ref_def crc32a_byte_ref)
  then show "hash_crc32a key n = Some (crc32_ref (take n key))" by (simp add: hash_crc32a_def loop)
  show "hash_crc32 key n = Some (drop_bit 16 (crc32_ref (take n key)) AND 0x7fff)"
    using c by (simp add: hash_crc32_def loop crc32_byte_a [abs_def])
qed

theorem hash_crc_correct_witness:
  "(\<exists>crc. hash_crc16 [49, 50, 51] 3 = Some crc \<and> ucast crc = crc16_ref [49, 50, 51]) \<and> crc16_ref [49, 50, 51] = 0x9752"
proof -
  have "crc16_ref [49, 50, 51] = 0x9752" by code_simp
  then show ?thesis using hash_crc_correct [of 3 "[49, 50, 51]"] by simp
qed

section \<open>FNV and one-at-a-time\<close>

definition FNV_64_INIT :: u64 where "FNV_64_INIT = 0xcbf29ce484222325"
definition FNV_64_PRIME :: u64 where "FNV_64_PRIME = 0x100000001b3"
definition FNV_32_INIT :: u32 where "FNV_32_INIT = 2166136261"
definition FNV_32_PRIME :: u32 where "FNV_32_PRIME = 16777619"

definition hash_fnv1_64 :: "byte list \<Rightarrow> nat \<Rightarrow> u32 option" where
  "hash_fnv1_64 key key_length = do {
     hash \<leftarrow> hash_loop (\<lambda>hash c. (hash * FNV_64_PRIME) XOR scast c) key 0 key_length FNV_64_INIT;
     Some (ucast hash)
   }"

definition hash_fnv1a_64 :: "byte list \<Rightarrow> nat \<Rightarrow> u32 option" where
  "hash_fnv1a_64 key key_length =
     hash_loop (\<lambda>hash c. let val = scast c in (hash XOR val) * ucast FNV_64_PRIME) key 0 key_length (ucast FNV_64_INIT)"

definition hash_fnv1_32 :: "byte list \<Rightarrow> nat \<Rightarrow> u32 option" where
  "hash_fnv1_32 key key_length =
     hash_loop (\<lambda>hash c. let val = scast c in (hash * FNV_32_PRIME) XOR val) key 0 key_length FNV_32_INIT"

definition hash_fnv1a_32 :: "byte list \<Rightarrow> nat \<Rightarrow> u32 option" where
  "hash_fnv1a_32 key key_length =
     hash_loop (\<lambda>hash c. let val = scast c in (hash XOR val) * FNV_32_PRIME) key 0 key_length FNV_32_INIT"

definition one_at_a_time_byte :: "u32 \<Rightarrow> byte \<Rightarrow> u32" where
  "one_at_a_time_byte value c =
     (let val = scast c;
          value = value + val;
          value = value + push_bit 10 value
      in value XOR drop_bit 6 value)"

definition hash_one_at_a_time :: "byte list \<Rightarrow> nat \<Rightarrow> u32 option" where
  "hash_one_at_a_time key key_length = do {
     value \<leftarrow> hash_loop one_at_a_time_byte key 0 key_length 0;
     let value = value + push_bit 3 value;
     let value = value XOR drop_bit 11 value;
     Some (value + push_bit 15 value)
   }"

section \<open>Hsieh and Murmur\<close>

text \<open>Loads of little endian integers. Outside of 32 bit Intel systems \<open>get16bits\<close> adds two bytes.\<close>

definition get16bits :: "byte list \<Rightarrow> nat \<Rightarrow> u32 option" where
  "get16bits d p = do { b1 \<leftarrow> byte_at d (p + 1); b0 \<leftarrow> byte_at d p; Some (push_bit 8 (ucast b1) + ucast b0) }"

definition load32 :: "byte list \<Rightarrow> nat \<Rightarrow> u32 option" where
  "load32 buf p = do { bs \<leftarrow> mem_read buf p 4; Some (word_of_nat (le_val bs)) }"

definition load16 :: "byte list \<Rightarrow> nat \<Rightarrow> u32 option" where
  "load16 buf p = do { bs \<leftarrow> mem_read buf p 2; Some (word_of_nat (le_val bs)) }"

definition load8 :: "byte list \<Rightarrow> nat \<Rightarrow> u32 option" where
  "load8 buf p = do { b \<leftarrow> byte_at buf p; Some (ucast b) }"

fun hsieh_loop :: "byte list \<Rightarrow> nat \<Rightarrow> nat \<Rightarrow> u32 \<Rightarrow> (nat \<times> u32) option" where
  "hsieh_loop buf key 0 hash = Some (key, hash)"
| "hsieh_loop buf key (Suc n) hash = do {
     w \<leftarrow> get16bits buf key;
     let hash = hash + w;
     w \<leftarrow> get16bits buf (key + 2);
     let tmp = push_bit 11 w XOR hash;
     let hash = push_bit 16 hash XOR tmp;
     hsieh_loop buf (key + 4) n (hash + drop_bit 11 hash)
   }"

definition hsieh_end :: "byte list \<Rightarrow> nat \<Rightarrow> nat \<Rightarrow> u32 \<Rightarrow> u32 option" where
  "hsieh_end buf key rem hash =
     (if rem = 3 then do {
        w \<leftarrow> get16bits buf key;
        let hash = hash + w;
        let hash = hash XOR push_bit 16 hash;
        c \<leftarrow> byte_at buf (key + 2);
        let hash = hash XOR push_bit 18 (scast c);
        Some (hash + drop_bit 11 hash)
      }
      else if rem = 2 then do {
        w \<leftarrow> get16bits buf key;
        let hash = hash + w;
        let hash = hash XOR push_bit 11 hash;
        Some (hash + drop_bit 17 hash)
      }
      else if rem = 1 then do {
        c \<leftarrow> byte_at buf key;
        let hash = hash + ucast c;
        let hash = hash XOR push_bit 10 hash;
        Some (hash + drop_bit 1 hash)
      }
      else Some hash)"

definition hash_hsieh :: "byte list \<Rightarrow> nat \<Rightarrow> u32 option" where
  "hash_hsieh buf key_length =
     (if key_length = 0 then Some 0
      else do {
        let rem = key_length mod 4;
        (key, hash) \<leftarrow> hsieh_loop buf 0 (key_length div 4) 0;
        hash \<leftarrow> hsieh_end buf key rem hash;
        let hash = hash XOR push_bit 3 hash;
        let hash = hash + drop_bit 5 hash;
        let hash = hash XOR push_bit 4 hash;
        let hash = hash + drop_bit 17 hash;
        let hash = hash XOR push_bit 25 hash;
        Some (hash + drop_bit 6 hash)
      })"

definition MURMUR_M :: u32 where "MURMUR_M = 0x5bd1e995"

function murmur_loop :: "byte list \<Rightarrow> nat \<Rightarrow> nat \<Rightarrow> u32 \<Rightarrow> (nat \<times> nat \<times> u32) option" where
  "murmur_loop buf data len h =
     (if len \<ge> 4 then do {
        k \<leftarrow> load32 buf data;
        let k = k * MURMUR_M;
        let k = k XOR drop_bit 24 k;
        let k = k * MURMUR_M;
        let h = h * MURMUR_M;
        murmur_loop buf (data + 4) (len - 4) (h XOR k)
      }
      else Some (data, len, h))"
  by pat_completeness auto

termination
  by (relation "measure (\<lambda>(buf, data, len, h). len)") auto

declare murmur_loop.simps [simp del]

definition murmur_end :: "byte list \<Rightarrow> nat \<Rightarrow> nat \<Rightarrow> u32 \<Rightarrow> u32 option" where
  "murmur_end buf data len h = do {
     h \<leftarrow> (if len = 3 then do { b \<leftarrow> load8 buf (data + 2); Some (h XOR push_bit 16 b) } else Some h);
     h \<leftarrow> (if len = 3 \<or> len = 2 then do { b \<leftarrow> load8 buf (data + 1); Some (h XOR push_bit 8 b) } else Some h);
     (if len = 3 \<or> len = 2 \<or> len = 1 then do { b \<leftarrow> load8 buf data; Some ((h XOR b) * MURMUR_M) } else Some h)
   }"

definition hash_murmur :: "byte list \<Rightarrow> nat \<Rightarrow> u32 option" where
  "hash_murmur buf len = do {
     let seed = 0xdeadbeef * word_of_nat len;
     let h = seed XOR word_of_nat len;
     (data, len, h) \<leftarrow> murmur_loop buf 0 len h;
     h \<leftarrow> murmur_end buf data len h;
     let h = h XOR drop_bit 13 h;
     let h = h * MURMUR_M;
     Some (h XOR drop_bit 15 h)
   }"

section \<open>Jenkins\<close>

definition rot :: "u32 \<Rightarrow> nat \<Rightarrow> u32" where
  "rot x k = push_bit k x OR drop_bit (32 - k) x"

definition jenkins_mix :: "u32 \<times> u32 \<times> u32 \<Rightarrow> u32 \<times> u32 \<times> u32" where
  "jenkins_mix = (\<lambda>(a, b, c).
     let a = a - c; a = a XOR rot c 4; c = c + b;
         b = b - a; b = b XOR rot a 6; a = a + c;
         c = c - b; c = c XOR rot b 8; b = b + a;
         a = a - c; a = a XOR rot c 16; c = c + b;
         b = b - a; b = b XOR rot a 19; a = a + c;
         c = c - b; c = c XOR rot b 4; b = b + a
     in (a, b, c))"

definition jenkins_final :: "u32 \<times> u32 \<times> u32 \<Rightarrow> u32 \<times> u32 \<times> u32" where
  "jenkins_final = (\<lambda>(a, b, c).
     let c = c XOR b; c = c - rot b 14;
         a = a XOR c; a = a - rot c 11;
         b = b XOR a; b = b - rot a 25;
         c = c XOR b; c = c - rot b 16;
         a = a XOR c; a = a - rot c 4;
         b = b XOR a; b = b - rot a 14;
         c = c XOR b; c = c - rot b 24
     in (a, b, c))"

text \<open>The three main loops read their twelve bytes as words, as half words or as bytes. \<open>rd\<close> is the load of four bytes of the loop: it returns
  the values that the code adds one after the other.\<close>

definition jenkins_rd32 :: "byte list \<Rightarrow> nat \<Rightarrow> u32 option" where
  "jenkins_rd32 buf p = load32 buf p"

definition jenkins_rd16 :: "byte list \<Rightarrow> nat \<Rightarrow> u32 option" where
  "jenkins_rd16 buf p = do { lo \<leftarrow> load16 buf p; hi \<leftarrow> load16 buf (p + 2); Some (lo + push_bit 16 hi) }"

definition jenkins_rd8 :: "byte list \<Rightarrow> nat \<Rightarrow> u32 option" where
  "jenkins_rd8 buf p = do {
     k0 \<leftarrow> load8 buf p; k1 \<leftarrow> load8 buf (p + 1); k2 \<leftarrow> load8 buf (p + 2); k3 \<leftarrow> load8 buf (p + 3);
     Some (k0 + push_bit 8 k1 + push_bit 16 k2 + push_bit 24 k3)
   }"

function jenkins_loop :: "(nat \<Rightarrow> u32 option) \<Rightarrow> nat \<Rightarrow> nat \<Rightarrow> u32 \<times> u32 \<times> u32 \<Rightarrow> (nat \<times> nat \<times> u32 \<times> u32 \<times> u32) option" where
  "jenkins_loop rd k len (a, b, c) =
     (if len > 12 then do {
        x \<leftarrow> rd k;
        y \<leftarrow> rd (k + 4);
        z \<leftarrow> rd (k + 8);
        jenkins_loop rd (k + 12) (len - 12) (jenkins_mix (a + x, b + y, c + z))
      }
      else Some (k, len, a, b, c))"
  by pat_completeness auto

termination
  by (relation "measure (\<lambda>(rd, k, len, abc). len)") auto

declare jenkins_loop.simps [simp del]

text \<open>The last one to twelve bytes: what is added to \<open>a\<close>, \<open>b\<close> and \<open>c\<close> from the four bytes at \<open>p\<close>, of which \<open>n\<close> belong to the key. The
  version with words reads beyond the key and masks.\<close>

definition jenkins_part32 :: "byte list \<Rightarrow> nat \<Rightarrow> nat \<Rightarrow> u32 option" where
  "jenkins_part32 buf p n =
     (if n = 0 then Some 0
      else do {
        k \<leftarrow> load32 buf p;
        Some (if n = 1 then k AND 0xff else if n = 2 then k AND 0xffff else if n = 3 then k AND 0xffffff else k)
      })"

definition jenkins_part16 :: "byte list \<Rightarrow> nat \<Rightarrow> nat \<Rightarrow> u32 option" where
  "jenkins_part16 buf p n =
     (if n = 0 then Some 0
      else if n = 1 then load8 buf p
      else if n = 2 then load16 buf p
      else if n = 3 then do { k8 \<leftarrow> load8 buf (p + 2); k \<leftarrow> load16 buf p; Some (push_bit 16 k8 + k) }
      else jenkins_rd16 buf p)"

definition jenkins_part8 :: "byte list \<Rightarrow> nat \<Rightarrow> nat \<Rightarrow> u32 option" where
  "jenkins_part8 buf p n =
     (if n = 0 then Some 0
      else if n = 1 then load8 buf p
      else if n = 2 then do { k1 \<leftarrow> load8 buf (p + 1); k0 \<leftarrow> load8 buf p; Some (push_bit 8 k1 + k0) }
      else if n = 3 then do { k2 \<leftarrow> load8 buf (p + 2); k1 \<leftarrow> load8 buf (p + 1); k0 \<leftarrow> load8 buf p; Some (push_bit 16 k2 + push_bit 8 k1 + k0) }
      else jenkins_rd8 buf p)"

text \<open>\<open>hash_jenkins\<close> for one kind of access: a length of zero returns \<open>c\<close> without the final mixing.\<close>

definition jenkins_path :: "(nat \<Rightarrow> u32 option) \<Rightarrow> (nat \<Rightarrow> nat \<Rightarrow> u32 option) \<Rightarrow> nat \<Rightarrow> u32 option" where
  "jenkins_path rd part len = do {
     let init = 0xdeadbeef + word_of_nat len + 13;
     (k, len, a, b, c) \<leftarrow> jenkins_loop rd 0 len (init, init, init);
     if len = 0 then Some c
     else do {
       z \<leftarrow> part (k + 8) (len - 8);
       y \<leftarrow> part (k + 4) (len - 4);
       x \<leftarrow> part k len;
       Some (snd (snd (jenkins_final (a + x, b + y, c + z))))
     }
   }"

definition hash_jenkins :: "byte list \<Rightarrow> nat \<Rightarrow> nat \<Rightarrow> u32 option" where
  "hash_jenkins buf addr len =
     (if addr mod 4 = 0 then jenkins_path (jenkins_rd32 buf) (jenkins_part32 buf) len
      else if addr mod 2 = 0 then jenkins_path (jenkins_rd16 buf) (jenkins_part16 buf) len
      else jenkins_path (jenkins_rd8 buf) (jenkins_part8 buf) len)"

text \<open>The three accesses agree: all of them give the number that the key bytes at \<open>p\<close> encode.\<close>

definition key_word :: "byte list \<Rightarrow> nat \<Rightarrow> nat \<Rightarrow> u32" where
  "key_word m p n = word_of_nat (le_val (take n (drop p m)))"

lemma key_word_0 [simp]: "key_word m p 0 = 0"
  by (simp add: key_word_def)

lemma key_word_Suc: "p < length m \<Longrightarrow> key_word m p (Suc n) = ucast (m ! p) + push_bit 8 (key_word m (p + 1) n)"
  by (simp add: key_word_def push_bit_eq_mult flip: Cons_nth_drop_Suc)

lemma key_word_numerals:
  "p + 1 \<le> length m \<Longrightarrow> key_word m p 1 = ucast (m ! p)"
  "p + 2 \<le> length m \<Longrightarrow> key_word m p 2 = ucast (m ! p) + push_bit 8 (ucast (m ! (p + 1)))"
  "p + 3 \<le> length m \<Longrightarrow> key_word m p 3 = ucast (m ! p) + push_bit 8 (ucast (m ! (p + 1))) + push_bit 16 (ucast (m ! (p + 2)))"
  "p + 4 \<le> length m \<Longrightarrow> key_word m p 4 = ucast (m ! p) + push_bit 8 (ucast (m ! (p + 1))) + push_bit 16 (ucast (m ! (p + 2))) + push_bit 24 (ucast (m ! (p + 3)))"
  by (simp_all add: key_word_Suc push_bit_add numeral_2_eq_2 numeral_3_eq_3 ac_simps
      key_word_Suc [of _ _ 3, simplified])

lemma loads:
  "p < length buf \<Longrightarrow> load8 buf p = Some (ucast (buf ! p))"
  "p + 2 \<le> length buf \<Longrightarrow> load16 buf p = Some (key_word buf p 2)"
  "p + 4 \<le> length buf \<Longrightarrow> load32 buf p = Some (key_word buf p 4)"
  by (simp_all add: load8_def byte_at_def load16_def load32_def mem_read_def key_word_def)

lemma le_val_mod: "le_val bs mod 256 ^ n = le_val (take n bs)"
proof (induction bs arbitrary: n)
  case (Cons b bs)
  then show ?case
  proof (cases n)
    case (Suc k)
    have "(unat b + 256 * le_val bs) mod (256 * 256 ^ k) = unat b + 256 * (le_val bs mod 256 ^ k)"
      using unat_byte_lt [of b] by (simp add: mod_mult2_eq)
    then show ?thesis using Suc Cons by simp
  qed simp
qed simp

lemma key_word_mask: "n \<le> 4 \<Longrightarrow> take_bit (8 * n) (key_word m p 4) = key_word m p n"
proof -
  assume n: "n \<le> 4"
  have "take_bit (8 * n) (key_word m p 4) = word_of_nat (take_bit (8 * n) (le_val (take 4 (drop p m))))" by (simp add: key_word_def take_bit_of_nat)
  also have "take_bit (8 * n) (le_val (take 4 (drop p m))) = le_val (take n (take 4 (drop p m)))"
    using le_val_mod [of "take 4 (drop p m)" n] by (simp add: take_bit_eq_mod power_mult)
  finally show ?thesis using n by (simp add: key_word_def min_absorb1)
qed

lemma key_word_masks:
  "key_word m p 4 AND 0xff = key_word m p 1" "key_word m p 4 AND 0xffff = key_word m p 2" "key_word m p 4 AND 0xffffff = key_word m p 3"
  using key_word_mask [of 1 m p] key_word_mask [of 2 m p] key_word_mask [of 3 m p]
  by (simp_all add: take_bit_eq_mask mask_eq_exp_minus_1)

lemma jenkins_rd:
  "p + 4 \<le> length buf \<Longrightarrow> jenkins_rd32 buf p = Some (key_word buf p 4)"
  "p + 4 \<le> length buf \<Longrightarrow> jenkins_rd16 buf p = Some (key_word buf p 4)"
  "p + 4 \<le> length buf \<Longrightarrow> jenkins_rd8 buf p = Some (key_word buf p 4)"
  by (simp_all add: jenkins_rd32_def jenkins_rd16_def jenkins_rd8_def loads key_word_numerals push_bit_add ac_simps numeral_3_eq_3)

lemma small_cases: "n = 0 \<or> n = 1 \<or> n = 2 \<or> n = 3 \<or> 4 \<le> n" for n :: nat
  by arith

lemma jenkins_part32: "n = 0 \<or> p + 4 \<le> length buf \<Longrightarrow> jenkins_part32 buf p n = Some (key_word buf p (min n 4))"
  using small_cases [of n] by (auto simp: jenkins_part32_def loads key_word_masks min_absorb2)

lemma jenkins_part16: "n = 0 \<or> p + min n 4 \<le> length buf \<Longrightarrow> jenkins_part16 buf p n = Some (key_word buf p (min n 4))"
  using small_cases [of n] by (auto simp: jenkins_part16_def loads key_word_numerals [simplified] jenkins_rd min_absorb2 ac_simps)

lemma jenkins_part8: "n = 0 \<or> p + min n 4 \<le> length buf \<Longrightarrow> jenkins_part8 buf p n = Some (key_word buf p (min n 4))"
  using small_cases [of n] by (auto simp: jenkins_part8_def loads key_word_numerals [simplified] jenkins_rd min_absorb2 ac_simps)

lemma key_word_take: "p + q \<le> n \<Longrightarrow> key_word (take n m) p q = key_word m p q"
  by (simp add: key_word_def min_absorb1 drop_take)

text \<open>Every access that agrees with the key words gives the same hash.\<close>

definition jenkins_ref :: "byte list \<Rightarrow> u32 option" where
  "jenkins_ref m = jenkins_path (\<lambda>p. Some (key_word m p 4)) (\<lambda>p n. Some (key_word m p (min n 4))) (length m)"

lemma jenkins_loop_end:
  assumes "\<And>p. p mod 4 = 0 \<Longrightarrow> p + 4 \<le> k + len \<Longrightarrow> rd p = Some (f p)" "k mod 4 = 0"
  shows "\<exists>k' len' abc'. jenkins_loop rd k len abc = Some (k', len', abc') \<and> jenkins_loop (\<lambda>p. Some (f p)) k len abc = Some (k', len', abc') \<and>
    k' mod 4 = 0 \<and> k' + len' = k + len \<and> len' \<le> 12"
  using assms
proof (induction len arbitrary: k abc rule: less_induct)
  case (less len)
  obtain a b c where abc: "abc = (a, b, c)" by (cases abc)
  show ?case
  proof (cases "len > 12")
    case True
    have m: "k mod 4 = 0" "(k + 4) mod 4 = 0" "(k + 8) mod 4 = 0" "(k + 12) mod 4 = 0" using less.prems(2) by presburger+
    have r: "rd k = Some (f k)" "rd (k + 4) = Some (f (k + 4))" "rd (k + 8) = Some (f (k + 8))"
      by (rule less.prems(1); use True m in simp)+
    let ?abc = "jenkins_mix (a + f k, b + f (k + 4), c + f (k + 8))"
    have s: "jenkins_loop rd k len abc = jenkins_loop rd (k + 12) (len - 12) ?abc"
      "jenkins_loop (\<lambda>p. Some (f p)) k len abc = jenkins_loop (\<lambda>p. Some (f p)) (k + 12) (len - 12) ?abc"
      using True r unfolding abc by (subst jenkins_loop.simps, simp)+
    have "\<exists>k' len' abc'. jenkins_loop rd (k + 12) (len - 12) ?abc = Some (k', len', abc') \<and>
        jenkins_loop (\<lambda>p. Some (f p)) (k + 12) (len - 12) ?abc = Some (k', len', abc') \<and> k' mod 4 = 0 \<and> k' + len' = k + 12 + (len - 12) \<and> len' \<le> 12"
      by (rule less.IH) (use True m less.prems(1) in auto)
    then show ?thesis using True unfolding s by auto
  next
    case False
    then have "jenkins_loop rd k len abc = Some (k, len, abc)" for rd unfolding abc by (subst jenkins_loop.simps) simp
    then show ?thesis using False less.prems(2) by auto
  qed
qed

lemma jenkins_path_ref:
  assumes "\<And>p. p mod 4 = 0 \<Longrightarrow> p + 4 \<le> length m \<Longrightarrow> rd p = Some (key_word m p 4)"
    "\<And>p n. p mod 4 = 0 \<Longrightarrow> n = 0 \<or> p + n = length m \<Longrightarrow> part p n = Some (key_word m p (min n 4))"
  shows "jenkins_path rd part (length m) = jenkins_ref m" "\<exists>h. jenkins_ref m = Some h"
proof -
  let ?i = "0xdeadbeef + word_of_nat (length m) + 13 :: u32"
  obtain k len a b c where l: "jenkins_loop rd 0 (length m) (?i, ?i, ?i) = Some (k, len, a, b, c)"
      "jenkins_loop (\<lambda>p. Some (key_word m p 4)) 0 (length m) (?i, ?i, ?i) = Some (k, len, a, b, c)" "k mod 4 = 0" "k + len = length m"
    using jenkins_loop_end [of 0 "length m" rd "\<lambda>p. key_word m p 4" "(?i, ?i, ?i)"] assms(1) by (auto split: prod.splits)
  have p: "part k len = Some (key_word m k (min len 4))" "part (k + 4) (len - 4) = Some (key_word m (k + 4) (min (len - 4) 4))"
      "part (k + 8) (len - 8) = Some (key_word m (k + 8) (min (len - 8) 4))"
    by (rule assms(2); use l(3,4) in presburger)+
  show "jenkins_path rd part (length m) = jenkins_ref m" "\<exists>h. jenkins_ref m = Some h"
    using l(1,2) p by (simp_all add: jenkins_path_def jenkins_ref_def)
qed

text \<open>C27: the hash of \<open>hash_jenkins\<close> does not depend on where the key is stored: the versions with word, half word and byte accesses compute the
  same value from the bytes of the key alone. For an aligned key this holds although the code reads up to the end of its last word: whatever
  is stored there does not change the hash.\<close>

theorem hash_jenkins_alignment:
  assumes "n \<le> length buf" "addr mod 4 = 0 \<Longrightarrow> (n + 3) div 4 * 4 \<le> length buf"
  shows "\<exists>h. hash_jenkins buf addr n = Some h \<and> jenkins_ref (take n buf) = Some h"
proof -
  let ?m = "take n buf"
  have n: "length ?m = n" using assms(1) by simp
  have rd: "jenkins_rd32 buf p = Some (key_word ?m p 4)" "jenkins_rd16 buf p = Some (key_word ?m p 4)" "jenkins_rd8 buf p = Some (key_word ?m p 4)"
    if "p + 4 \<le> length ?m" for p using that assms(1) by (simp_all add: jenkins_rd key_word_take)
  have kw: "key_word buf p (min j 4) = key_word ?m p (min j 4)" if "j = 0 \<or> p + j = length ?m" for p j
    using that n by (auto simp: key_word_take)
  have p32: "jenkins_part32 buf p j = Some (key_word ?m p (min j 4))" if "p mod 4 = 0" "j = 0 \<or> p + j = length ?m" "addr mod 4 = 0" for p j
  proof -
    have "j = 0 \<or> p + 4 \<le> (n + 3) div 4 * 4" using that(1,2) n by presburger
    then have "j = 0 \<or> p + 4 \<le> length buf" using assms(2) that(3) by auto
    then show ?thesis using kw [OF that(2)] by (simp only: jenkins_part32)
  qed
  have p8: "jenkins_part16 buf p j = Some (key_word ?m p (min j 4))" "jenkins_part8 buf p j = Some (key_word ?m p (min j 4))"
    if "j = 0 \<or> p + j = length ?m" for p j
  proof -
    have "j = 0 \<or> p + min j 4 \<le> length buf" using that n assms(1) by auto
    then show "jenkins_part16 buf p j = Some (key_word ?m p (min j 4))" "jenkins_part8 buf p j = Some (key_word ?m p (min j 4))"
      using kw [OF that] by (simp_all only: jenkins_part16 jenkins_part8)
  qed
  have h: "\<exists>h. jenkins_ref ?m = Some h" by (rule jenkins_path_ref(2) [OF rd(3) p8(2)])
  consider "addr mod 4 = 0" | "addr mod 4 \<noteq> 0" "addr mod 2 = 0" | "addr mod 4 \<noteq> 0" "addr mod 2 \<noteq> 0" by blast
  then have "hash_jenkins buf addr n = jenkins_ref ?m"
  proof cases
    case 1
    have "jenkins_path (jenkins_rd32 buf) (jenkins_part32 buf) (length ?m) = jenkins_ref ?m" by (rule jenkins_path_ref(1) [OF rd(1) p32]) (use 1 in auto)
    then show ?thesis using 1 n by (simp add: hash_jenkins_def)
  next
    case 2
    have "jenkins_path (jenkins_rd16 buf) (jenkins_part16 buf) (length ?m) = jenkins_ref ?m" by (rule jenkins_path_ref(1) [OF rd(2) p8(1)]) auto
    then show ?thesis using 2 n by (simp add: hash_jenkins_def)
  next
    case 3
    have "jenkins_path (jenkins_rd8 buf) (jenkins_part8 buf) (length ?m) = jenkins_ref ?m" by (rule jenkins_path_ref(1) [OF rd(3) p8(2)]) auto
    then show ?thesis using 3 n by (simp add: hash_jenkins_def)
  qed
  then show ?thesis using h by simp
qed

theorem hash_jenkins_alignment_witness:
  "\<exists>h. hash_jenkins [1, 2, 3, 4, 5, 77, 78, 79] 0 5 = Some h \<and> hash_jenkins [1, 2, 3, 4, 5] 7 5 = Some h"
  using hash_jenkins_alignment [of 5 "[1, 2, 3, 4, 5, 77, 78, 79]" 0] hash_jenkins_alignment [of 5 "[1, 2, 3, 4, 5]" 7] by auto

lemma ucast_mult_low: "(ucast a * ucast b :: u32) = ucast (a * b)" for a b :: u64
proof -
  have "(word_of_nat (n mod 2 ^ 64) :: u32) = word_of_nat n" for n
    by (simp add: word_of_nat_eq_iff take_bit_eq_mod mod_mod_cancel)
  moreover have "(ucast x :: u32) = word_of_nat (unat x)" for x :: u64 by simp
  moreover have "unat (a * b) = unat a * unat b mod 2 ^ 64" by (simp add: unat_word_ariths)
  ultimately show ?thesis by (simp only: of_nat_mult)
qed

text \<open>Both functions with 64 bit constants are the 32 bit computation with the constants cut to 32 bits.\<close>

lemma hash_fnv1_64_low:
  "hash_fnv1_64 key n = hash_loop (\<lambda>hash c. (hash * ucast FNV_64_PRIME) XOR scast c) key 0 n (ucast FNV_64_INIT)"
proof -
  have "hash_loop (\<lambda>hash c. (hash * ucast FNV_64_PRIME) XOR scast c) key p n (ucast h :: u32) =
      map_option ucast (hash_loop (\<lambda>hash c. (hash * FNV_64_PRIME) XOR scast c) key p n h)" for p h
  proof (induction n arbitrary: p h)
    case (Suc n)
    have "(ucast h * ucast FNV_64_PRIME) XOR scast c = (ucast ((h * FNV_64_PRIME) XOR scast c) :: u32)" for c :: byte
    proof -
      have "(ucast h * ucast FNV_64_PRIME :: u32) = ucast (h * FNV_64_PRIME)" by (rule ucast_mult_low)
      moreover have "(scast c :: u32) = ucast (scast c :: u64)" by (auto intro!: bit_word_eqI simp: bit_simps)
      ultimately show ?thesis by (auto intro!: bit_word_eqI simp: bit_simps)
    qed
    then show ?case using Suc.IH by (cases "byte_at key p") simp_all
  qed simp
  from this [of 0 FNV_64_INIT] show ?thesis by (cases "hash_loop (\<lambda>hash c. (hash * FNV_64_PRIME) XOR scast c) key 0 n FNV_64_INIT") (simp_all add: hash_fnv1_64_def)
qed

section \<open>Distribution over a continuum\<close>

record continuum =
  c_index :: u32
  c_value :: u32

function ketama_search :: "continuum list \<Rightarrow> u32 \<Rightarrow> nat \<Rightarrow> nat \<Rightarrow> nat option" where
  "ketama_search continuum hash left right =
     (if left < right then
        let middle = left + (right - left) div 2
        in if middle < length continuum then
             if c_value (continuum ! middle) < hash then ketama_search continuum hash (middle + 1) right
             else ketama_search continuum hash left middle
           else None
      else Some right)"
  by pat_completeness auto

termination
  by (relation "measure (\<lambda>(continuum, hash, left, right). right - left)") auto

declare ketama_search.simps [simp del]

definition ketama_dispatch :: "continuum list \<Rightarrow> nat \<Rightarrow> u32 \<Rightarrow> u32 option" where
  "ketama_dispatch continuum ncontinuum hash =
     (if ncontinuum = 0 then None
      else do {
        right \<leftarrow> ketama_search continuum hash 0 ncontinuum;
        let right = (if right = ncontinuum then 0 else right);
        if right < length continuum then Some (c_index (continuum ! right)) else None
      })"

definition modula_dispatch :: "continuum list \<Rightarrow> nat \<Rightarrow> u32 \<Rightarrow> u32 option" where
  "modula_dispatch continuum ncontinuum hash =
     (if ncontinuum = 0 then None
      else let i = unat hash mod ncontinuum
           in if i < length continuum then Some (c_index (continuum ! i)) else None)"

text \<open>\<open>rnd\<close> is the result of \<open>random()\<close>.\<close>

definition random_dispatch :: "nat \<Rightarrow> continuum list \<Rightarrow> nat \<Rightarrow> u32 \<Rightarrow> u32 option" where
  "random_dispatch rnd continuum ncontinuum hash =
     (if ncontinuum = 0 then None
      else let i = rnd mod ncontinuum
           in if i < length continuum then Some (c_index (continuum ! i)) else None)"

definition ketama_split :: "continuum list \<Rightarrow> u32 \<Rightarrow> nat \<Rightarrow> nat \<Rightarrow> bool" where
  "ketama_split cs hash l r \<longleftrightarrow> l \<le> r \<and> r \<le> length cs \<and> (\<forall>j < l. c_value (cs ! j) < hash) \<and> (\<forall>j. r \<le> j \<and> j < length cs \<longrightarrow> hash \<le> c_value (cs ! j))"

lemma ketama_search_first:
  assumes "sorted (map c_value cs)" "ketama_split cs hash left right"
  shows "\<exists>i. ketama_search cs hash left right = Some i \<and> ketama_split cs hash i i"
  using assms(2)
proof (induction "right - left" arbitrary: left right rule: less_induct)
  case less
  let ?m = "left + (right - left) div 2"
  have mono: "c_value (cs ! i) \<le> c_value (cs ! j)" if "i \<le> j" "j < length cs" for i j
    using sorted_nth_mono [OF assms(1), of i j] that by simp
  show ?case
  proof (cases "left < right")
    case True
    then have m: "left \<le> ?m" "?m < right" "?m < length cs" using less.prems by (auto simp: ketama_split_def)
    show ?thesis
    proof (cases "c_value (cs ! ?m) < hash")
      case lt: True
      have "c_value (cs ! j) < hash" if "j < ?m + 1" for j
        by (rule le_less_trans [OF mono [of j ?m] lt]) (use that m in simp_all)
      then have "ketama_split cs hash (?m + 1) right" using less.prems m(2) by (simp add: ketama_split_def)
      moreover have "ketama_search cs hash left right = ketama_search cs hash (?m + 1) right"
        using True lt m(3) by (subst ketama_search.simps) (simp add: Let_def)
      ultimately show ?thesis using less.hyps [of right "?m + 1"] True m by simp
    next
      case ge: False
      have "hash \<le> c_value (cs ! j)" if "?m \<le> j" "j < length cs" for j
        by (rule order_trans [OF _ mono [OF that]]) (use ge in simp)
      then have "ketama_split cs hash left ?m" using less.prems m by (simp add: ketama_split_def)
      moreover have "ketama_search cs hash left right = ketama_search cs hash left ?m"
        using True ge m(3) by (subst ketama_search.simps) (simp add: Let_def)
      ultimately show ?thesis using less.hyps [of ?m left] True m by simp
    qed
  next
    case False
    then show ?thesis using less.prems by (subst ketama_search.simps) (auto simp: ketama_split_def)
  qed
qed

text \<open>C28: on a continuum sorted by value \<open>ketama_dispatch\<close> returns the server of the first point that is not below the hash, and of the first
  point of all when the hash is above every point.\<close>

theorem ketama_dispatch_next:
  assumes "sorted (map c_value cs)" "cs \<noteq> []"
  shows "\<exists>i < length cs. ketama_dispatch cs (length cs) hash = Some (c_index (cs ! i)) \<and>
    (if \<exists>p \<in> set cs. hash \<le> c_value p then hash \<le> c_value (cs ! i) \<and> (\<forall>j < i. c_value (cs ! j) < hash) else i = 0)"
proof -
  have "ketama_split cs hash 0 (length cs)" by (auto simp: ketama_split_def)
  then obtain i where i: "ketama_search cs hash 0 (length cs) = Some i" "i \<le> length cs" "\<forall>j < i. c_value (cs ! j) < hash" "\<forall>j. i \<le> j \<and> j < length cs \<longrightarrow> hash \<le> c_value (cs ! j)"
    using ketama_search_first [OF assms(1)] unfolding ketama_split_def by blast
  show ?thesis
  proof (cases "i = length cs")
    case True
    have "\<not> (\<exists>p \<in> set cs. hash \<le> c_value p)" using i(3) True by (metis in_set_conv_nth not_less)
    moreover have "ketama_dispatch cs (length cs) hash = Some (c_index (cs ! 0))" using i(1) True assms(2) by (simp add: ketama_dispatch_def)
    ultimately show ?thesis using assms(2) by auto
  next
    case False
    then have l: "i < length cs" using i(2) by simp
    have "ketama_dispatch cs (length cs) hash = Some (c_index (cs ! i))" using i(1) l assms(2) by (auto simp: ketama_dispatch_def)
    moreover have "hash \<le> c_value (cs ! i)" using i(4) l by simp
    moreover have "\<exists>p \<in> set cs. hash \<le> c_value p" using calculation(2) l by (meson nth_mem)
    ultimately show ?thesis using i(3) l by auto
  qed
qed

theorem ketama_dispatch_next_witness:
  "ketama_dispatch [\<lparr>c_index = 7, c_value = 10\<rparr>, \<lparr>c_index = 8, c_value = 20\<rparr>] 2 15 = Some 8"
proof -
  let ?cs = "[\<lparr>c_index = 7, c_value = 10\<rparr>, \<lparr>c_index = 8, c_value = 20\<rparr>]"
  obtain i where i: "i < length ?cs" "ketama_dispatch ?cs (length ?cs) 15 = Some (c_index (?cs ! i))"
      "if \<exists>p \<in> set ?cs. 15 \<le> c_value p then 15 \<le> c_value (?cs ! i) \<and> (\<forall>j < i. c_value (?cs ! j) < 15) else i = 0"
    using ketama_dispatch_next [of ?cs 15] by force
  have "15 \<le> c_value (?cs ! i)" using i(3) by simp
  moreover have "length ?cs = 2" by simp
  ultimately show ?thesis using i(1,2) by (cases i) (auto simp del: list.size)
qed

end
