(* ===== verification/Vire_Digest.thy ===== *)
theory Vire_Digest
  imports Vire_Hashkit
begin

text \<open>The message digests of \<open>dep/dhashkit\<close>: the contexts of MD5 and SHA-1 with their initialisation, incremental update and finalisation, their
  block functions, and the hashes derived from a digest. A locale states what an incremental digest promises, and both contexts
  are interpreted in it.\<close>

unbundle bit_operations_syntax

section \<open>MD5\<close>

definition rnd_F :: "u32 \<Rightarrow> u32 \<Rightarrow> u32 \<Rightarrow> u32" where "rnd_F x y z = z XOR (x AND (y XOR z))"
definition rnd_G :: "u32 \<Rightarrow> u32 \<Rightarrow> u32 \<Rightarrow> u32" where "rnd_G x y z = y XOR (z AND (x XOR y))"
definition rnd_H :: "u32 \<Rightarrow> u32 \<Rightarrow> u32 \<Rightarrow> u32" where "rnd_H x y z = x XOR y XOR z"
definition rnd_I :: "u32 \<Rightarrow> u32 \<Rightarrow> u32 \<Rightarrow> u32" where "rnd_I x y z = y XOR (x OR NOT z)"

text \<open>The macro \<open>STEP\<close>: the new value of its second argument.\<close>

definition md5_STEP :: "(u32 \<Rightarrow> u32 \<Rightarrow> u32 \<Rightarrow> u32) \<Rightarrow> u32 \<Rightarrow> u32 \<Rightarrow> u32 \<Rightarrow> u32 \<Rightarrow> u32 \<Rightarrow> u32 \<Rightarrow> nat \<Rightarrow> u32" where
  "md5_STEP f a b c d x t s =
     (let a = a + (f b c d + x + t);
          a = push_bit s a OR drop_bit (32 - s) (a AND 0xffffffff)
      in a + b)"

text \<open>The 64 invocations of \<open>STEP\<close>, with the function, the index of the message word, the constant and the rotation of each. The invocations go
  through the orders \<open>a b c d\<close>, \<open>d a b c\<close>, \<open>c d a b\<close> and \<open>b c d a\<close> of the registers: the four registers move on by one place in every step.\<close>

definition md5_steps :: "((u32 \<Rightarrow> u32 \<Rightarrow> u32 \<Rightarrow> u32) \<times> nat \<times> u32 \<times> nat) list" where
  "md5_steps =
    [(rnd_F, 0, 0xd76aa478, 7), (rnd_F, 1, 0xe8c7b756, 12), (rnd_F, 2, 0x242070db, 17), (rnd_F, 3, 0xc1bdceee, 22),
     (rnd_F, 4, 0xf57c0faf, 7), (rnd_F, 5, 0x4787c62a, 12), (rnd_F, 6, 0xa8304613, 17), (rnd_F, 7, 0xfd469501, 22),
     (rnd_F, 8, 0x698098d8, 7), (rnd_F, 9, 0x8b44f7af, 12), (rnd_F, 10, 0xffff5bb1, 17), (rnd_F, 11, 0x895cd7be, 22),
     (rnd_F, 12, 0x6b901122, 7), (rnd_F, 13, 0xfd987193, 12), (rnd_F, 14, 0xa679438e, 17), (rnd_F, 15, 0x49b40821, 22),
     (rnd_G, 1, 0xf61e2562, 5), (rnd_G, 6, 0xc040b340, 9), (rnd_G, 11, 0x265e5a51, 14), (rnd_G, 0, 0xe9b6c7aa, 20),
     (rnd_G, 5, 0xd62f105d, 5), (rnd_G, 10, 0x02441453, 9), (rnd_G, 15, 0xd8a1e681, 14), (rnd_G, 4, 0xe7d3fbc8, 20),
     (rnd_G, 9, 0x21e1cde6, 5), (rnd_G, 14, 0xc33707d6, 9), (rnd_G, 3, 0xf4d50d87, 14), (rnd_G, 8, 0x455a14ed, 20),
     (rnd_G, 13, 0xa9e3e905, 5), (rnd_G, 2, 0xfcefa3f8, 9), (rnd_G, 7, 0x676f02d9, 14), (rnd_G, 12, 0x8d2a4c8a, 20),
     (rnd_H, 5, 0xfffa3942, 4), (rnd_H, 8, 0x8771f681, 11), (rnd_H, 11, 0x6d9d6122, 16), (rnd_H, 14, 0xfde5380c, 23),
     (rnd_H, 1, 0xa4beea44, 4), (rnd_H, 4, 0x4bdecfa9, 11), (rnd_H, 7, 0xf6bb4b60, 16), (rnd_H, 10, 0xbebfbc70, 23),
     (rnd_H, 13, 0x289b7ec6, 4), (rnd_H, 0, 0xeaa127fa, 11), (rnd_H, 3, 0xd4ef3085, 16), (rnd_H, 6, 0x04881d05, 23),
     (rnd_H, 9, 0xd9d4d039, 4), (rnd_H, 12, 0xe6db99e5, 11), (rnd_H, 15, 0x1fa27cf8, 16), (rnd_H, 2, 0xc4ac5665, 23),
     (rnd_I, 0, 0xf4292244, 6), (rnd_I, 7, 0x432aff97, 10), (rnd_I, 14, 0xab9423a7, 15), (rnd_I, 5, 0xfc93a039, 21),
     (rnd_I, 12, 0x655b59c3, 6), (rnd_I, 3, 0x8f0ccc92, 10), (rnd_I, 10, 0xffeff47d, 15), (rnd_I, 1, 0x85845dd1, 21),
     (rnd_I, 8, 0x6fa87e4f, 6), (rnd_I, 15, 0xfe2ce6e0, 10), (rnd_I, 6, 0xa3014314, 15), (rnd_I, 13, 0x4e0811a1, 21),
     (rnd_I, 4, 0xf7537e82, 6), (rnd_I, 11, 0xbd3af235, 10), (rnd_I, 2, 0x2ad7d2bb, 15), (rnd_I, 9, 0xeb86d391, 21)]"

type_synonym md5_regs = "u32 \<times> u32 \<times> u32 \<times> u32"

definition md5_step :: "(nat \<Rightarrow> u32) \<Rightarrow> md5_regs \<Rightarrow> (u32 \<Rightarrow> u32 \<Rightarrow> u32 \<Rightarrow> u32) \<times> nat \<times> u32 \<times> nat \<Rightarrow> md5_regs" where
  "md5_step x = (\<lambda>(a, b, c, d) (f, i, t, s). (d, md5_STEP f a b c d (x i) t s, b, c))"

text \<open>The loop of \<open>body\<close> over the blocks of 64 bytes. A sz that is not a multiple of 64 would wrap around and run through the memory.\<close>

definition md5_block :: "md5_regs \<Rightarrow> byte list \<Rightarrow> md5_regs" where
  "md5_block regs blk =
     (let (saved_a, saved_b, saved_c, saved_d) = regs;
          (a, b, c, d) = foldl (md5_step (\<lambda>n. word_of_nat (le_val (take 4 (drop (n * 4) blk))))) regs md5_steps
      in (a + saved_a, b + saved_b, c + saved_c, d + saved_d))"

function md5_body :: "md5_regs \<Rightarrow> byte list \<Rightarrow> nat \<Rightarrow> nat \<Rightarrow> (md5_regs \<times> nat) option" where
  "md5_body regs data ptr sz = do {
     blk \<leftarrow> mem_read data ptr 64;
     let regs = md5_block regs blk;
     if sz = 64 then Some (regs, ptr + 64)
     else if sz < 64 then None
     else md5_body regs data (ptr + 64) (sz - 64)
   }"
  by pat_completeness auto

termination
  by (relation "measure (\<lambda>(regs, data, ptr, sz). sz)") auto

declare md5_body.simps [simp del]

record MD5_CTX =
  md5_lo :: u32
  md5_hi :: u32
  md5_regs :: md5_regs
  md5_buffer :: "byte list"

text \<open>\<open>MD5_Init\<close> leaves the buffer as it is: \<open>junk\<close> is its content.\<close>

definition MD5_Init :: "fill \<Rightarrow> MD5_CTX" where
  "MD5_Init junk = \<lparr>md5_lo = 0, md5_hi = 0, md5_regs = (0x67452301, 0xefcdab89, 0x98badcfe, 0x10325476), md5_buffer = map junk [0..<64]\<rparr>"

text \<open>The end of \<open>MD5_Update\<close>: the whole blocks of the data from \<open>p\<close> on, and the bytes that remain.\<close>

definition MD5_Update_rest :: "MD5_CTX \<Rightarrow> byte list \<Rightarrow> nat \<Rightarrow> nat \<Rightarrow> MD5_CTX option" where
  "MD5_Update_rest ctx data p sz = do {
     (ctx, p, sz) \<leftarrow> (if sz \<ge> 64 then do {
         (regs, p) \<leftarrow> md5_body (md5_regs ctx) data p (sz - sz mod 64);
         Some (ctx\<lparr>md5_regs := regs\<rparr>, p, sz mod 64)
       }
       else Some (ctx, p, sz));
     bs \<leftarrow> mem_read data p sz;
     buf \<leftarrow> mem_write (md5_buffer ctx) 0 bs;
     Some (ctx\<lparr>md5_buffer := buf\<rparr>)
   }"

definition MD5_Update :: "MD5_CTX \<Rightarrow> byte list \<Rightarrow> nat \<Rightarrow> MD5_CTX option" where
  "MD5_Update ctx data sz =
     (let saved_lo = md5_lo ctx;
          lo = ucast ((ucast saved_lo + word_of_nat sz :: u64) AND 0x1fffffff);
          hi = (if lo < saved_lo then md5_hi ctx + 1 else md5_hi ctx) + ucast (drop_bit 29 (word_of_nat sz :: u64));
          ctx = ctx\<lparr>md5_lo := lo, md5_hi := hi\<rparr>;
          used = unat (saved_lo AND 0x3f)
      in if used \<noteq> 0 then
           let fr = 64 - used
           in if sz < fr then do {
                bs \<leftarrow> mem_read data 0 sz;
                buf \<leftarrow> mem_write (md5_buffer ctx) used bs;
                Some (ctx\<lparr>md5_buffer := buf\<rparr>)
              }
              else do {
                bs \<leftarrow> mem_read data 0 fr;
                buf \<leftarrow> mem_write (md5_buffer ctx) used bs;
                (regs, q) \<leftarrow> md5_body (md5_regs ctx) buf 0 64;
                MD5_Update_rest (ctx\<lparr>md5_regs := regs, md5_buffer := buf\<rparr>) data fr (sz - fr)
              }
         else MD5_Update_rest ctx data 0 sz)"

text \<open>The four bytes that \<open>MD5_Final\<close> stores of an integer, lowest first.\<close>

definition md5_bytes :: "u32 \<Rightarrow> byte list" where
  "md5_bytes w = [ucast w, ucast (drop_bit 8 w), ucast (drop_bit 16 w), ucast (drop_bit 24 w)]"

text \<open>The end of \<open>MD5_Final\<close>: the zeros and the length in the last block, and the result.\<close>

definition MD5_Final_end :: "u32 \<Rightarrow> u32 \<Rightarrow> md5_regs \<Rightarrow> byte list \<Rightarrow> nat \<Rightarrow> nat \<Rightarrow> byte list option" where
  "MD5_Final_end lo hi regs buf used fr = do {
     buf \<leftarrow> mem_write buf used (replicate (fr - 8) 0);
     buf \<leftarrow> mem_write buf 56 (md5_bytes (push_bit 3 lo));
     buf \<leftarrow> mem_write buf 60 (md5_bytes hi);
     ((a, b, c, d), p) \<leftarrow> md5_body regs buf 0 64;
     Some (md5_bytes a @ md5_bytes b @ md5_bytes c @ md5_bytes d)
   }"

definition MD5_Final :: "MD5_CTX \<Rightarrow> byte list option" where
  "MD5_Final ctx = do {
     let used = unat (md5_lo ctx AND 0x3f);
     buf \<leftarrow> byte_put (md5_buffer ctx) used 0x80;
     let used = used + 1;
     let fr = 64 - used;
     if fr < 8 then do {
       buf \<leftarrow> mem_write buf used (replicate fr 0);
       (regs, p) \<leftarrow> md5_body (md5_regs ctx) buf 0 64;
       MD5_Final_end (md5_lo ctx) (md5_hi ctx) regs buf 0 64
     }
     else MD5_Final_end (md5_lo ctx) (md5_hi ctx) (md5_regs ctx) buf used fr
   }"

definition md5_signature :: "fill \<Rightarrow> byte list \<Rightarrow> nat \<Rightarrow> byte list option" where
  "md5_signature junk key len = do { ctx \<leftarrow> MD5_Update (MD5_Init junk) key len; MD5_Final ctx }"

text \<open>Both hashes are built from the digest: \<open>hash_md5\<close> from its first and \<open>ketama_hash\<close> from any of its four words.\<close>

definition ketama_hash :: "fill \<Rightarrow> byte list \<Rightarrow> nat \<Rightarrow> nat \<Rightarrow> u32 option" where
  "ketama_hash junk key key_length alignment = do {
     results \<leftarrow> md5_signature junk key key_length;
     r3 \<leftarrow> byte_at results (3 + alignment * 4);
     r2 \<leftarrow> byte_at results (2 + alignment * 4);
     r1 \<leftarrow> byte_at results (1 + alignment * 4);
     r0 \<leftarrow> byte_at results (alignment * 4);
     Some (push_bit 24 (ucast r3 AND 0xFF) OR push_bit 16 (ucast r2 AND 0xFF) OR push_bit 8 (ucast r1 AND 0xFF) OR (ucast r0 AND 0xFF))
   }"

definition hash_md5 :: "fill \<Rightarrow> byte list \<Rightarrow> nat \<Rightarrow> u32 option" where
  "hash_md5 junk key key_length = do {
     results \<leftarrow> md5_signature junk key key_length;
     r3 \<leftarrow> byte_at results 3;
     r2 \<leftarrow> byte_at results 2;
     r1 \<leftarrow> byte_at results 1;
     r0 \<leftarrow> byte_at results 0;
     Some (push_bit 24 (ucast r3 AND 0xFF) OR push_bit 16 (ucast r2 AND 0xFF) OR push_bit 8 (ucast r1 AND 0xFF) OR (ucast r0 AND 0xFF))
   }"

section \<open>Absorbing a message in blocks\<close>

function absorb :: "('h \<Rightarrow> byte list \<Rightarrow> 'h) \<Rightarrow> 'h \<Rightarrow> byte list \<Rightarrow> 'h" where
  "absorb f h m = (if length m \<ge> 64 then absorb f (f h (take 64 m)) (drop 64 m) else h)"
  by pat_completeness auto

termination
  by (relation "measure (\<lambda>(f, h, m). length m)") auto

declare absorb.simps [simp del]

lemma absorb_short: "length m < 64 \<Longrightarrow> absorb f h m = h"
  by (subst absorb.simps) simp

lemma absorb_block: "length b = 64 \<Longrightarrow> absorb f h (b @ m) = absorb f (f h b) m"
  by (subst absorb.simps) simp

lemma absorb_append: "64 dvd length m \<Longrightarrow> absorb f h (m @ d) = absorb f (absorb f h m) d"
proof (induction "length m" arbitrary: m h rule: less_induct)
  case less
  show ?case
  proof (cases "length m < 64")
    case True
    then have "m = []" using less.prems by (auto dest: dvd_imp_le)
    then show ?thesis by (simp add: absorb_short)
  next
    case False
    then have m: "m = take 64 m @ drop 64 m" "length (take 64 m) = 64" "64 dvd length (drop 64 m)" using less.prems by auto
    have "absorb f h (m @ d) = absorb f (f h (take 64 m)) (drop 64 m @ d)" 
      using absorb_block [OF m(2), of f h "drop 64 m @ d"] by (simp flip: append_assoc)
    also have "\<dots> = absorb f (absorb f (f h (take 64 m)) (drop 64 m)) d" by (rule less.hyps) (use False m(3) in auto)
    also have "absorb f (f h (take 64 m)) (drop 64 m) = absorb f h m" using False by (subst absorb.simps [of f h m]) simp
    finally show ?thesis .
  qed
qed

text \<open>A chaining value and a buffer hold the message \<open>m\<close>: the full blocks are absorbed and the rest is at the front of the buffer.\<close>

definition tail_of :: "byte list \<Rightarrow> byte list" where
  "tail_of m = drop (length m div 64 * 64) m"

definition holds :: "('h \<Rightarrow> byte list \<Rightarrow> 'h) \<Rightarrow> 'h \<Rightarrow> byte list \<Rightarrow> 'h \<Rightarrow> byte list \<Rightarrow> bool" where
  "holds f h0 m h buf \<longleftrightarrow> h = absorb f h0 m \<and> length buf = 64 \<and> take (length m mod 64) buf = tail_of m"

lemma length_tail_of: "length (tail_of m) = length m mod 64"
  by (simp add: tail_of_def minus_div_mult_eq_mod)

lemma split_tail: "\<exists>b. m = b @ tail_of m \<and> 64 dvd length b"
  by (rule exI [of _ "take (length m div 64 * 64) m"]) (simp add: tail_of_def min_absorb2)

lemma tail_of_append: "64 dvd length b \<Longrightarrow> tail_of (b @ d) = tail_of d"
  by (auto simp: tail_of_def elim!: dvdE)

lemma tail_of_short: "length d < 64 \<Longrightarrow> tail_of d = d"
  by (simp add: tail_of_def)

lemma absorb_tail: "m = b @ r \<Longrightarrow> 64 dvd length b \<Longrightarrow> length r < 64 \<Longrightarrow> absorb f h m = absorb f h b"
  by (simp add: absorb_append absorb_short)

lemma holds_nil: "length buf = 64 \<Longrightarrow> holds f h [] h buf"
  by (simp add: holds_def absorb_short tail_of_def)

lemma holds_write:
  assumes "holds f h0 m h buf" "length m mod 64 + length d < 64"
  shows "\<exists>buf'. mem_write buf (length m mod 64) d = Some buf' \<and> holds f h0 (m @ d) h buf'"
proof -
  obtain b where b: "m = b @ tail_of m" "64 dvd length b" using split_tail by blast
  let ?r = "length m mod 64"
  have md: "m @ d = b @ (tail_of m @ d)" by (subst b(1)) simp
  have s: "length (tail_of m @ d) < 64" using assms(2) by (simp add: length_tail_of)
  have "length (m @ d) mod 64 = ?r + length d" using assms(2) mod_add_left_eq [of "length m" 64 "length d"] by simp
  moreover have "tail_of (m @ d) = tail_of m @ d" unfolding md tail_of_append [OF b(2)] by (rule tail_of_short [OF s])
  moreover have "absorb f h0 (m @ d) = absorb f h0 m" using absorb_tail [OF md b(2) s, of f h0] absorb_tail [OF b, of f h0] by (simp add: length_tail_of)
  ultimately show ?thesis using assms by (auto simp: holds_def mem_write_def length_tail_of)
qed

lemma holds_complete:
  assumes "holds f h0 m h buf" "length m mod 64 + length d = 64"
  shows "\<exists>buf'. mem_write buf (length m mod 64) d = Some buf' \<and> length buf' = 64 \<and> absorb f h0 (m @ d) = f h buf' \<and> 64 dvd length (m @ d)"
proof -
  obtain b where b: "m = b @ tail_of m" "64 dvd length b" using split_tail by blast
  have l: "length (tail_of m @ d) = 64" using assms(2) by (simp add: length_tail_of)
  have "absorb f h0 (m @ d) = absorb f h0 (b @ (tail_of m @ d) @ [])" by (subst b(1)) simp
  also have "\<dots> = f (absorb f h0 b) (tail_of m @ d)" unfolding absorb_append [OF b(2)] absorb_block [OF l] by (simp add: absorb_short)
  also have "absorb f h0 b = h" using absorb_tail [OF b, of f h0] assms(1) unfolding holds_def by (simp add: length_tail_of)
  finally have "absorb f h0 (m @ d) = f h (tail_of m @ d)" .
  moreover have "mem_write buf (length m mod 64) d = Some (tail_of m @ d)" using assms by (simp add: holds_def mem_write_def)
  moreover have "64 dvd length (m @ d)" using assms(2) by (simp add: mod_eq_0_iff_dvd [symmetric] mod_add_left_eq [symmetric, of "length m"])
  ultimately show ?thesis using l by simp
qed

lemma md5_body_absorb:
  assumes "0 < sz" "64 dvd sz" "p + sz \<le> length data"
  shows "md5_body regs data p sz = Some (absorb md5_block regs (take sz (drop p data)), p + sz)"
  using assms
proof (induction sz arbitrary: regs p rule: less_induct)
  case (less sz)
  have ge: "64 \<le> sz" using less.prems by (auto dest: dvd_imp_le)
  let ?b = "take 64 (drop p data)"
  have t: "take sz (drop p data) = ?b @ take (sz - 64) (drop (p + 64) data)" using ge take_add [of 64 "sz - 64" "drop p data"] by (simp add: add.commute)
  have lb: "length ?b = 64" using less.prems(3) ge by simp
  show ?case
  proof (cases "sz = 64")
    case True
    then show ?thesis using less.prems(3) absorb_block [OF lb, of md5_block regs "[]"]
      by (subst md5_body.simps) (simp add: mem_read_def absorb_short)
  next
    case False
    have d: "0 < sz - 64" "64 dvd sz - 64" using False ge less.prems(2) by auto
    have "md5_body regs data p sz = md5_body (md5_block regs ?b) data (p + 64) (sz - 64)"
      using False ge less.prems(3) by (subst md5_body.simps) (simp add: mem_read_def)
    also have "\<dots> = Some (absorb md5_block (md5_block regs ?b) (take (sz - 64) (drop (p + 64) data)), p + 64 + (sz - 64))"
      by (rule less.IH) (use d ge less.prems(3) in auto)
    finally show ?thesis using ge unfolding t absorb_block [OF lb] by simp
  qed
qed

text \<open>The counters of \<open>MD5_Update\<close>: the length of the message in bytes, split at bit 29.\<close>

lemma div_add_mod: "(n + s) div B = n div B + (n mod B + s) div B" for n s B :: nat
proof (cases "B = 0")
  case False
  have "n + s = n mod B + s + n div B * B" by (simp add: ac_simps)
  then show ?thesis using False by (metis add.commute div_mult_self1)
qed simp

lemma carry_parts: "x < B \<Longrightarrow> r < B \<Longrightarrow> ((x + r) mod B < x \<longleftrightarrow> B \<le> x + r) \<and> (x + r) div B = (if B \<le> x + r then 1 else 0)" for x r B :: nat
  by (auto simp: mod_if [of "x + r"] div_if [of "x + r"])

lemma carry_iff:
  fixes x s B :: nat
  assumes "x < B"
  shows "(x + s) mod B < x \<longleftrightarrow> B \<le> x + s mod B" "(x + s) div B = s div B + (if B \<le> x + s mod B then 1 else 0)"
proof -
  have "s mod B < B" using assms by simp
  note c = carry_parts [OF assms this]
  have "(x + s) mod B = (x + s mod B) mod B" by (simp add: mod_add_right_eq)
  then show "(x + s) mod B < x \<longleftrightarrow> B \<le> x + s mod B" using c by simp
  have "(x + s) div B = s div B + (x + s mod B) div B" using div_add_mod [of s x B] by (simp add: ac_simps)
  then show "(x + s) div B = s div B + (if B \<le> x + s mod B then 1 else 0)" using c by simp
qed

definition counted :: "u32 \<Rightarrow> u32 \<Rightarrow> nat \<Rightarrow> bool" where
  "counted lo hi n \<longleftrightarrow> lo = word_of_nat (n mod 2 ^ 29) \<and> hi = word_of_nat (n div 2 ^ 29)"

lemma counted_unat: "counted lo hi n \<Longrightarrow> unat lo = n mod 2 ^ 29"
  by (auto simp: counted_def unat_of_nat intro!: mod_less order.strict_trans2 [OF mod_less_divisor])

lemma counted_used: "counted lo hi n \<Longrightarrow> unat (lo AND 0x3f) = n mod 64"
proof -
  assume c: "counted lo hi n"
  have "lo AND 0x3f = take_bit 6 lo" by (simp add: take_bit_eq_mask mask_eq_exp_minus_1)
  then have "unat (lo AND 0x3f) = n mod 2 ^ 29 mod 64" using counted_unat [OF c] unsigned_take_bit_eq [of 6 lo, where 'a = nat] by (simp only: take_bit_eq_mod) simp
  then show ?thesis by (simp add: mod_mod_cancel)
qed

lemma ucast_word_of_nat: "(ucast w :: 'b::len word) = word_of_nat (unat w)" for w :: "'a::len word"
  by simp

lemma ucast_word_of_nat_small: "n < 2 ^ 32 \<Longrightarrow> ucast (word_of_nat n :: u64) = (word_of_nat n :: u32)"
  unfolding ucast_word_of_nat by (simp add: unat_of_nat)

lemma unat_word_of_nat_small: "n < 2 ^ 32 \<Longrightarrow> unat (word_of_nat n :: u32) = n"
  by (simp add: unat_of_nat)

lemma counted_add:
  assumes "counted lo hi n" "s < 2 ^ 64" "lo' = ucast ((ucast lo + word_of_nat s :: u64) AND 0x1fffffff)"
    "hi' = (if lo' < lo then hi + 1 else hi) + ucast (drop_bit 29 (word_of_nat s :: u64))"
  shows "counted lo' hi' (n + s)"
proof -
  let ?x = "n mod 2 ^ 29"
  have "ucast lo + word_of_nat s = (word_of_nat (?x + s) :: u64)" using ucast_word_of_nat [of lo] counted_unat [OF assms(1)] by simp
  moreover have "w AND 0x1fffffff = take_bit 29 w" for w :: u64 by (simp add: take_bit_eq_mask mask_eq_exp_minus_1)
  moreover have "take_bit 29 (word_of_nat (?x + s) :: u64) = word_of_nat ((?x + s) mod 2 ^ 29)"
    unfolding take_bit_of_nat by (simp only: take_bit_eq_mod)
  ultimately have "lo' = ucast (word_of_nat ((?x + s) mod 2 ^ 29) :: u64)" using assms(3) by (simp only:)
  moreover have r: "(?x + s) mod 2 ^ 29 < 2 ^ 29" by simp
  ultimately have lo': "lo' = word_of_nat ((?x + s) mod 2 ^ 29)" using ucast_word_of_nat_small [of "(?x + s) mod 2 ^ 29"] by simp
  then have "unat lo' = (?x + s) mod 2 ^ 29" using unat_word_of_nat_small [OF less_le_trans [OF r]] by simp
  then have "lo' < lo \<longleftrightarrow> (?x + s) mod 2 ^ 29 < ?x" using counted_unat [OF assms(1)] by (simp add: word_less_nat_alt)
  moreover have "ucast (drop_bit 29 (word_of_nat s :: u64)) = (word_of_nat (s div 2 ^ 29) :: u32)"
  proof -
    have "unat (drop_bit 29 (word_of_nat s :: u64)) = s div 2 ^ 29" 
    proof -
      have "unat (word_of_nat s :: u64) = s" using assms(2) by (simp add: unat_of_nat)
      then show ?thesis using unsigned_drop_bit_eq [of 29 "word_of_nat s :: u64", where 'a = nat]
        take_bit_nat_eq_self [of s 64] assms(2) by (simp add: drop_bit_eq_div)
    qed
    then show ?thesis by (simp only: ucast_word_of_nat)
  qed
  moreover have "(n + s) div 2 ^ 29 = n div 2 ^ 29 + (?x + s) div 2 ^ 29" by (rule div_add_mod)
  ultimately have "hi' = word_of_nat ((n + s) div 2 ^ 29)" using assms(1,4) carry_iff [of ?x "2 ^ 29" s] by (simp add: counted_def)
  moreover have "lo' = word_of_nat ((n + s) mod 2 ^ 29)" unfolding lo' by (simp add: mod_add_left_eq)
  ultimately show ?thesis by (simp add: counted_def)
qed

definition md5_iv :: md5_regs where
  "md5_iv = (0x67452301, 0xefcdab89, 0x98badcfe, 0x10325476)"

definition md5_repr :: "MD5_CTX \<Rightarrow> byte list \<Rightarrow> bool" where
  "md5_repr ctx m \<longleftrightarrow> counted (md5_lo ctx) (md5_hi ctx) (length m) \<and> holds md5_block md5_iv m (md5_regs ctx) (md5_buffer ctx)"

lemma MD5_Update_rest_holds:
  assumes "64 dvd length m" "md5_regs ctx = absorb md5_block md5_iv m" "length (md5_buffer ctx) = 64" "p + sz = length d"
  shows "\<exists>regs buf. MD5_Update_rest ctx d p sz = Some (ctx\<lparr>md5_regs := regs, md5_buffer := buf\<rparr>) \<and> holds md5_block md5_iv (m @ drop p d) regs buf"
proof -
  define k where "k = sz - sz mod 64"
  have k: "k \<le> sz" "64 dvd k" "sz - k = sz mod 64" 
    unfolding k_def by (simp, simp add: minus_mod_eq_mult_div, simp)
  define d1 where "d1 = take k (drop p d)"
  define d2 where "d2 = drop (p + k) d"
  have d: "drop p d = d1 @ d2" unfolding d1_def d2_def by (metis append_take_drop_id drop_drop add.commute)
  have l1: "length d1 = k" and l2: "length d2 = sz mod 64" using k assms(4) by (auto simp: d1_def d2_def)
  have m1: "64 dvd length (m @ d1)" using assms(1) k(2) l1 by simp
  have "holds md5_block md5_iv (m @ d1) (absorb md5_block md5_iv (m @ d1)) (md5_buffer ctx)"
    using m1 assms(3) tail_of_append [OF m1, of "[]"] by (simp add: holds_def tail_of_def dvd_imp_mod_0)
  from holds_write [OF this, of d2] obtain buf where buf: "mem_write (md5_buffer ctx) 0 d2 = Some buf"
      "holds md5_block md5_iv (m @ drop p d) (absorb md5_block md5_iv (m @ d1)) buf"
    using m1 l2 by (auto simp: d dvd_imp_mod_0)
  have ab: "absorb md5_block md5_iv (m @ d1) = absorb md5_block (md5_regs ctx) d1" using absorb_append [OF assms(1)] assms(2) by simp
  have rd: "mem_read d (p + k) (sz mod 64) = Some d2" using k assms(4) by (simp add: mem_read_def d2_def)
  show ?thesis
  proof (cases "64 \<le> sz")
    case True
    have "0 < k" using True k(3) by (cases "k = 0") (auto simp: not_less [symmetric])
    then have "md5_body (md5_regs ctx) d p k = Some (absorb md5_block (md5_regs ctx) d1, p + k)"
      using md5_body_absorb [of k p d] k assms(4) by (simp add: d1_def)
    then have "MD5_Update_rest ctx d p sz = Some (ctx\<lparr>md5_regs := absorb md5_block (md5_regs ctx) d1, md5_buffer := buf\<rparr>)"
      using True buf(1) rd by (simp add: MD5_Update_rest_def k_def [symmetric])
    then show ?thesis using buf(2) unfolding ab by blast
  next
    case False
    then have "k = 0" by (simp add: k_def)
    then have "MD5_Update_rest ctx d p sz = Some (ctx\<lparr>md5_regs := md5_regs ctx, md5_buffer := buf\<rparr>)"
      using False buf(1) rd by (simp add: MD5_Update_rest_def)
    moreover have "absorb md5_block (md5_regs ctx) d1 = md5_regs ctx" using \<open>k = 0\<close> l1 by (simp add: absorb_short)
    ultimately have "MD5_Update_rest ctx d p sz = Some (ctx\<lparr>md5_regs := md5_regs ctx, md5_buffer := buf\<rparr>) \<and> holds md5_block md5_iv (m @ drop p d) (md5_regs ctx) buf"
      using buf(2) ab by simp
    then show ?thesis by blast
  qed
qed

lemma MD5_Update_repr:
  assumes "md5_repr ctx m" "length d < 2 ^ 64"
  shows "\<exists>ctx'. MD5_Update ctx d (length d) = Some ctx' \<and> md5_repr ctx' (m @ d)"
proof -
  define lo where "lo = (ucast ((ucast (md5_lo ctx) + word_of_nat (length d) :: u64) AND 0x1fffffff) :: u32)"
  define hi where "hi = (if lo < md5_lo ctx then md5_hi ctx + 1 else md5_hi ctx) + ucast (drop_bit 29 (word_of_nat (length d) :: u64))"
  let ?ctx = "ctx\<lparr>md5_lo := lo, md5_hi := hi\<rparr>"
  let ?u = "length m mod 64"
  have c: "counted (md5_lo ctx) (md5_hi ctx) (length m)" and h: "holds md5_block md5_iv m (md5_regs ctx) (md5_buffer ctx)"
    using assms(1) by (simp_all add: md5_repr_def)
  have c': "counted lo hi (length (m @ d))" using counted_add [OF c assms(2) lo_def hi_def] by simp
  have used: "unat (md5_lo ctx AND 0x3f) = ?u" by (rule counted_used [OF c])
  have upd: "MD5_Update ctx d (length d) =
      (if ?u \<noteq> 0 then
         if length d < 64 - ?u then do { bs \<leftarrow> mem_read d 0 (length d); buf \<leftarrow> mem_write (md5_buffer ctx) ?u bs; Some (?ctx\<lparr>md5_buffer := buf\<rparr>) }
         else do {
           bs \<leftarrow> mem_read d 0 (64 - ?u);
           buf \<leftarrow> mem_write (md5_buffer ctx) ?u bs;
           (regs, q) \<leftarrow> md5_body (md5_regs ctx) buf 0 64;
           MD5_Update_rest (?ctx\<lparr>md5_regs := regs, md5_buffer := buf\<rparr>) d (64 - ?u) (length d - (64 - ?u))
         }
       else MD5_Update_rest ?ctx d 0 (length d))"
    unfolding MD5_Update_def Let_def used lo_def [symmetric] hi_def [symmetric] by simp
  consider "?u = 0" | "?u \<noteq> 0" "length d < 64 - ?u" | "?u \<noteq> 0" "64 - ?u \<le> length d" by linarith
  then show ?thesis
  proof cases
    case 1
    then have "64 dvd length m" by auto
    then show ?thesis using MD5_Update_rest_holds [of m ?ctx 0 "length d" d] h c' 1 unfolding upd by (auto simp: holds_def md5_repr_def)
  next
    case 2
    have "?u + length d < 64" using 2(2) by simp
    from holds_write [OF h this] show ?thesis using 2 c' unfolding upd by (auto simp: mem_read_def md5_repr_def)
  next
    case 3
    let ?d1 = "take (64 - ?u) d"
    have "?u + length ?d1 = 64" using 3 by simp
    from holds_complete [OF h this] obtain buf where buf: "mem_write (md5_buffer ctx) ?u ?d1 = Some buf" "length buf = 64"
        "absorb md5_block md5_iv (m @ ?d1) = md5_block (md5_regs ctx) buf" "64 dvd length (m @ ?d1)" by blast
    have "md5_body (md5_regs ctx) buf 0 64 = Some (md5_block (md5_regs ctx) buf, 64)"
      using buf(2) by (subst md5_body.simps) (simp add: mem_read_def)
    then have "MD5_Update ctx d (length d) = MD5_Update_rest (?ctx\<lparr>md5_regs := md5_block (md5_regs ctx) buf, md5_buffer := buf\<rparr>) d (64 - ?u) (length d - (64 - ?u))"
      using 3 buf(1) unfolding upd by (simp add: mem_read_def)
    moreover have "m @ d = (m @ ?d1) @ drop (64 - ?u) d" by simp
    ultimately show ?thesis
      using MD5_Update_rest_holds [of "m @ ?d1" "?ctx\<lparr>md5_regs := md5_block (md5_regs ctx) buf, md5_buffer := buf\<rparr>" "64 - ?u" "length d - (64 - ?u)" d] buf c' 3
      by (auto simp: md5_repr_def)
  qed
qed

lemma md5_bytes_le: "md5_bytes w = le_bytes 4 (unat w)"
proof -
  have m: "(word_of_nat (n mod 256) :: byte) = word_of_nat n" for n by (simp add: word_of_nat_eq_iff take_bit_eq_mod)
  have d: "ucast (drop_bit k w) = (word_of_nat (unat w div 2 ^ k) :: byte)" for k
    unfolding ucast_word_of_nat [of "drop_bit k w"] unat_drop_bit_eq by (simp only: drop_bit_eq_div)
  have "le_bytes 4 (unat w) = [word_of_nat (unat w), word_of_nat (unat w div 256), word_of_nat (unat w div 256 div 256), word_of_nat (unat w div 256 div 256 div 256)]"
    unfolding le_bytes_numeral by (simp add: m le_bytes_numeral)
  then show ?thesis using d [of 0] d [of 8] d [of 16] d [of 24] by (simp add: md5_bytes_def div_mult2_eq [symmetric])
qed

lemma le_bytes_mod: "le_bytes w (n mod 256 ^ w) = le_bytes w n"
proof -
  have "le_val (le_bytes w (n mod 256 ^ w)) = le_val (le_bytes w n)" by (simp add: le_val_le_bytes)
  then show ?thesis using le_val_inj [of "le_bytes w (n mod 256 ^ w)" "le_bytes w n"] by simp
qed

lemma le_bytes_add: "le_bytes (v + w) n = le_bytes v n @ le_bytes w (n div 256 ^ v)"
  by (induction v arbitrary: n) (simp_all add: div_mult2_eq)

lemma counted_bits: "counted lo hi n \<Longrightarrow> unat (push_bit 3 lo) = 8 * (n mod 2 ^ 29)"
proof -
  assume c: "counted lo hi n"
  have "unat (push_bit 3 lo) = take_bit LENGTH(32) (push_bit 3 (unat lo))" by (rule unsigned_push_bit_eq)
  also have "push_bit 3 (unat lo) = 8 * (n mod 2 ^ 29)" unfolding counted_unat [OF c] push_bit_eq_mult by (simp only: mult.commute) simp
  also have "take_bit LENGTH(32) (8 * (n mod 2 ^ 29)) = 8 * (n mod 2 ^ 29)"
    by (rule take_bit_nat_eq_self) (rule less_le_trans [of _ "8 * 2 ^ 29"], simp_all)
  finally show ?thesis .
qed

lemma counted_bytes:
  assumes "counted lo hi n"
  shows "md5_bytes (push_bit 3 lo) @ md5_bytes hi = le_bytes 8 (8 * n)"
proof -
  have "unat (push_bit 3 lo) = 8 * n mod 256 ^ 4"
  proof -
    have "unat (push_bit 3 lo) = 8 * n mod (8 * 2 ^ 29)" unfolding counted_bits [OF assms] by (simp only: mult_mod_right)
    then show ?thesis by simp
  qed
  moreover have "unat hi = 8 * n div 256 ^ 4 mod 256 ^ 4"
  proof -
    have "unat hi = n div 2 ^ 29 mod 2 ^ 32" using assms by (simp add: counted_def unat_of_nat)
    also have "n div 2 ^ 29 = 8 * n div (8 * 2 ^ 29)" by (rule div_mult_mult1 [symmetric]) simp
    finally show ?thesis by simp
  qed
  ultimately show ?thesis using le_bytes_add [of 4 4 "8 * n"] le_bytes_mod [of 4 "8 * n"] le_bytes_mod [of 4 "8 * n div 256 ^ 4"]
    by (simp add: md5_bytes_le)
qed

text \<open>MD5 as RFC 1321 describes it: the message is padded with a one bit, zeros and its length in bits, and each block goes through 64 operations
  whose message index and rotation are given by formulas. The constants are those of the code.\<close>

definition md5_pad :: "byte list \<Rightarrow> byte list" where
  "md5_pad m = m @ [0x80] @ replicate ((119 - length m mod 64) mod 64) 0 @ le_bytes 8 (8 * length m)"

definition rfc_fun :: "nat \<Rightarrow> u32 \<Rightarrow> u32 \<Rightarrow> u32 \<Rightarrow> u32" where
  "rfc_fun i x y z =
     (if i < 16 then (x AND y) OR (NOT x AND z)
      else if i < 32 then (x AND z) OR (y AND NOT z)
      else if i < 48 then x XOR y XOR z
      else y XOR (x OR NOT z))"

definition rfc_index :: "nat \<Rightarrow> nat" where
  "rfc_index i =
     (if i < 16 then i
      else if i < 32 then (5 * i + 1) mod 16
      else if i < 48 then (3 * i + 5) mod 16
      else 7 * i mod 16)"

definition rfc_shift :: "nat \<Rightarrow> nat" where
  "rfc_shift i =
     (if i < 16 then [7, 12, 17, 22] ! (i mod 4)
      else if i < 32 then [5, 9, 14, 20] ! (i mod 4)
      else if i < 48 then [4, 11, 16, 23] ! (i mod 4)
      else [6, 10, 15, 21] ! (i mod 4))"

definition rfc_step :: "(nat \<Rightarrow> u32) \<Rightarrow> md5_regs \<Rightarrow> nat \<Rightarrow> md5_regs" where
  "rfc_step x = (\<lambda>(a, b, c, d) i.
     (d, b + word_rotl (rfc_shift i) (a + rfc_fun i b c d + x (rfc_index i) + (fst \<circ> snd \<circ> snd) (md5_steps ! i)), b, c))"

definition rfc_block :: "md5_regs \<Rightarrow> byte list \<Rightarrow> md5_regs" where
  "rfc_block = (\<lambda>(a, b, c, d) blk.
     let x = (\<lambda>n. word_of_nat (le_val (take 4 (drop (n * 4) blk))));
         (a', b', c', d') = foldl (rfc_step x) (a, b, c, d) [0..<64]
     in (a' + a, b' + b, c' + c, d' + d))"

definition md5_rfc :: "byte list \<Rightarrow> byte list" where
  "md5_rfc m = (let (a, b, c, d) = absorb rfc_block md5_iv (md5_pad m) in concat (map (\<lambda>w. le_bytes 4 (unat w)) [a, b, c, d]))"

lemma rfc_functions:
  "(x AND y) OR (NOT x AND z) = rnd_F x y z" "(x AND z) OR (y AND NOT z) = rnd_G x y z" "x XOR y XOR z = rnd_H x y z" "y XOR (x OR NOT z) = rnd_I x y z"
  by (auto simp: rnd_F_def rnd_G_def rnd_H_def rnd_I_def bit_simps intro!: bit_word_eqI)

lemma rotl_shift: "0 < s \<Longrightarrow> s < 32 \<Longrightarrow> word_rotl s a = push_bit s a OR drop_bit (32 - s) (a AND 0xffffffff)" for a :: u32
proof (rule bit_word_eqI)
  fix n assume s: "0 < s" "s < 32" and n: "n < LENGTH(32)"
  have "(0xffffffff :: u32) = - 1" by simp
  then have m: "a AND 0xffffffff = a" by (metis and.right_neutral)
  show "bit (word_rotl s a) n = bit (push_bit s a OR drop_bit (32 - s) (a AND 0xffffffff)) n"
  proof (cases "n < s")
    case True
    then have "(n + (32 - s)) mod 32 = 32 - s + n" using s by simp
    then show ?thesis using True s n unfolding m by (simp add: bit_simps)
  next
    case False
    then have "(n + (32 - s)) mod 32 = n - s" using s n by (simp add: mod_if)
    moreover have "\<not> bit a (32 - s + n)" using False s bit_imp_le_length [of a "32 - s + n"] by auto
    ultimately show ?thesis using False s n unfolding m by (simp add: bit_simps)
  qed
qed

lemma rfc_fun_rounds:
  "i < 16 \<Longrightarrow> rfc_fun i = rnd_F" "16 \<le> i \<Longrightarrow> i < 32 \<Longrightarrow> rfc_fun i = rnd_G"
  "32 \<le> i \<Longrightarrow> i < 48 \<Longrightarrow> rfc_fun i = rnd_H" "48 \<le> i \<Longrightarrow> rfc_fun i = rnd_I"
  by (simp_all add: fun_eq_iff rfc_fun_def rfc_functions)

lemma upt_64: "[0..<64] =
  [0, 1, 2, 3, 4, 5, 6, 7, 8, 9, 10, 11, 12, 13, 14, 15, 16, 17, 18, 19, 20, 21, 22, 23, 24, 25, 26, 27, 28, 29, 30, 31,
   32, 33, 34, 35, 36, 37, 38, 39, 40, 41, 42, 43, 44, 45, 46, 47, 48, 49, 50, 51, 52, 53, 54, 55, 56, 57, 58, 59, 60, 61, 62, 63]"
  by code_simp

lemma md5_schedule: "map (\<lambda>(f, i, t, s). (f, i, s)) md5_steps = map (\<lambda>i. (rfc_fun i, rfc_index i, rfc_shift i)) [0..<64]"
  by (simp add: md5_steps_def upt_64 rfc_fun_rounds rfc_index_def rfc_shift_def)

lemma length_md5_steps: "length md5_steps = 64"
  by (simp add: md5_steps_def)

lemma rfc_shift_bounds: "0 < rfc_shift i \<and> rfc_shift i < 32"
proof -
  have "i mod 4 = 0 \<or> i mod 4 = 1 \<or> i mod 4 = 2 \<or> i mod 4 = 3" by presburger
  then show ?thesis by (auto simp: rfc_shift_def)
qed

lemma md5_step_rfc: "i < 64 \<Longrightarrow> md5_step x r (md5_steps ! i) = rfc_step x r i"
proof -
  assume i: "i < 64"
  obtain f j t s where e: "md5_steps ! i = (f, j, t, s)" by (cases "md5_steps ! i")
  have "map (\<lambda>(f, i, t, s). (f, i, s)) md5_steps ! i = (f, j, s)" using i e by (simp add: length_md5_steps)
  then have "f = rfc_fun i" "j = rfc_index i" "s = rfc_shift i" using i unfolding md5_schedule by auto
  then show ?thesis using rotl_shift [of s] rfc_shift_bounds [of i] e
    by (cases r) (simp add: md5_step_def rfc_step_def md5_STEP_def Let_def ac_simps)
qed

lemma md5_block_rfc: "md5_block = rfc_block"
proof (intro ext)
  fix regs blk
  let ?x = "\<lambda>n. word_of_nat (le_val (take 4 (drop (n * 4) blk)))"
  have "foldl (md5_step ?x) regs md5_steps = foldl (\<lambda>r i. md5_step ?x r (md5_steps ! i)) regs [0..<64]"
    using foldl_map [of "md5_step ?x" regs "(!) md5_steps" "[0..<64]"] map_nth [of md5_steps] by (simp only: length_md5_steps)
  also have "\<dots> = foldl (rfc_step ?x) regs [0..<64]" by (rule foldl_cong) (simp_all add: md5_step_rfc)
  finally show "md5_block regs blk = rfc_block regs blk" by (cases regs) (simp add: md5_block_def rfc_block_def Let_def)
qed

lemma MD5_Init_repr: "md5_repr (MD5_Init junk) []"
  using holds_nil [of "map junk [0..<64]" md5_block md5_iv] by (simp add: md5_repr_def MD5_Init_def counted_def md5_iv_def)

lemma md5_body_one: "length buf = 64 \<Longrightarrow> md5_body regs buf 0 64 = Some (md5_block regs buf, 64)"
  by (subst md5_body.simps) (simp add: mem_read_def)

lemma absorb_fill:
  assumes "holds f h0 m h buf" "length m mod 64 + length d = 64"
  shows "absorb f h0 (m @ d) = f h (tail_of m @ d)" "64 dvd length (m @ d)"
  using holds_complete [OF assms] assms by (auto simp: holds_def mem_write_def length_tail_of)

definition md5_out :: "md5_regs \<Rightarrow> byte list" where
  "md5_out = (\<lambda>(a, b, c, d). md5_bytes a @ md5_bytes b @ md5_bytes c @ md5_bytes d)"

lemma MD5_Final_end_block:
  assumes "length buf = 64" "used \<le> 56"
  shows "MD5_Final_end lo hi regs buf used (64 - used) =
    Some (md5_out (md5_block regs (take used buf @ replicate (56 - used) 0 @ md5_bytes (push_bit 3 lo) @ md5_bytes hi)))"
  using assms by (simp add: MD5_Final_end_def mem_write_def md5_bytes_def md5_body_one md5_out_def split: prod.splits)

lemma md5_zeros: "u < 56 \<Longrightarrow> (119 - u) mod 64 = 55 - u" "56 \<le> u \<Longrightarrow> u < 64 \<Longrightarrow> (119 - u) mod 64 = 119 - u" for u :: nat
  by (auto simp: mod_if)

lemma MD5_Final_rfc:
  assumes "md5_repr ctx m"
  shows "MD5_Final ctx = Some (md5_rfc m)"
proof -
  let ?u = "length m mod 64"
  let ?a = "md5_bytes (push_bit 3 (md5_lo ctx))" and ?b = "md5_bytes (md5_hi ctx)"
  let ?buf = "(md5_buffer ctx)[?u := 0x80]"
  have c: "counted (md5_lo ctx) (md5_hi ctx) (length m)" and h: "holds md5_block md5_iv m (md5_regs ctx) (md5_buffer ctx)"
    using assms by (simp_all add: md5_repr_def)
  have lb: "length ?buf = 64" and u: "?u < 64" using h by (simp_all add: holds_def)
  have l: "?a @ ?b = le_bytes 8 (8 * length m)" by (rule counted_bytes [OF c])
  have l4: "length (md5_bytes w) = 4" for w by (simp add: md5_bytes_def)
  have tk: "take (?u + 1) ?buf = tail_of m @ [0x80]" using h u by (simp add: take_Suc_conv_app_nth holds_def)
  have put: "byte_put (md5_buffer ctx) ?u 0x80 = Some ?buf" using lb u by (simp add: byte_put_def)
  have rfc: "md5_rfc m = md5_out (absorb md5_block md5_iv (md5_pad m))"
    by (simp add: md5_rfc_def md5_block_rfc md5_bytes_le md5_out_def split: prod.splits)
  have final: "MD5_Final ctx = (if 64 - (?u + 1) < 8 then do {
       buf \<leftarrow> mem_write ?buf (?u + 1) (replicate (64 - (?u + 1)) 0);
       (regs, p) \<leftarrow> md5_body (md5_regs ctx) buf 0 64;
       MD5_Final_end (md5_lo ctx) (md5_hi ctx) regs buf 0 64
     }
     else MD5_Final_end (md5_lo ctx) (md5_hi ctx) (md5_regs ctx) ?buf (?u + 1) (64 - (?u + 1)))"
    by (simp only: MD5_Final_def counted_used [OF c] Let_def put Option.bind.bind_lunit)
  show ?thesis
  proof (cases "?u < 56")
    case True
    let ?d = "[0x80] @ replicate (55 - ?u) 0 @ ?a @ ?b"
    have ld: "?u + length ?d = 64" using True l4 by simp
    have pad: "md5_pad m = m @ ?d" using l by (simp add: md5_pad_def md5_zeros(1) [OF True])
    have "\<not> 64 - (?u + 1) < 8" using True by simp
    then have "MD5_Final ctx = Some (md5_out (md5_block (md5_regs ctx) (take (?u + 1) ?buf @ replicate (56 - (?u + 1)) 0 @ ?a @ ?b)))"
      using MD5_Final_end_block [OF lb, of "?u + 1"] True unfolding final by simp
    also have "take (?u + 1) ?buf @ replicate (56 - (?u + 1)) 0 @ ?a @ ?b = tail_of m @ ?d" unfolding tk by simp
    finally show ?thesis unfolding rfc pad absorb_fill(1) [OF h ld] .
  next
    case False
    let ?z = "replicate (63 - ?u) 0"
    let ?d = "[0x80] @ ?z" and ?e = "replicate 56 0 @ ?a @ ?b"
    have ld: "?u + length ?d = 64" using u by simp
    have le: "length ?e = 64" using l4 by simp
    have r: "replicate (119 - ?u) (0::byte) = ?z @ replicate 56 0" using u by (simp flip: replicate_add)
    have pad: "md5_pad m = (m @ ?d) @ ?e" using l u False by (simp add: md5_pad_def md5_zeros(2) r)
    have w: "mem_write ?buf (?u + 1) (replicate (64 - (?u + 1)) 0) = Some (tail_of m @ ?d)"
      using tk lb u by (simp add: mem_write_def)
    have lt: "length (tail_of m @ ?d) = 64" using ld by (simp add: length_tail_of)
    have "absorb md5_block md5_iv (md5_pad m) = md5_block (md5_block (md5_regs ctx) (tail_of m @ ?d)) ?e"
      using absorb_append [OF absorb_fill(2) [OF h ld], of md5_block md5_iv ?e] absorb_fill(1) [OF h ld] absorb_block [OF le, of md5_block _ "[]"]
      by (simp add: pad absorb_short)
    moreover have "64 - (?u + 1) < 8" using False by simp
    ultimately show ?thesis using MD5_Final_end_block [OF lt, of 0] md5_body_one [OF lt] w unfolding final rfc by simp
  qed
qed

section \<open>SHA-1\<close>

type_synonym sha1_regs = "u32 \<times> u32 \<times> u32 \<times> u32 \<times> u32"

definition sha1_rol :: "u32 \<Rightarrow> nat \<Rightarrow> u32" where
  "sha1_rol value n = push_bit n value OR drop_bit (32 - n) value"

text \<open>\<open>blk0\<close> and \<open>blk\<close> on the sixteen words of a block. \<open>VR_LITTLE_ENDIAN\<close> is defined in \<open>vr_core.h\<close>, which \<open>dsha1.c\<close> does not include: \<open>blk0\<close> is the
  version that takes the words as they are stored.\<close>

definition sha1_blk0 :: "u32 list \<Rightarrow> nat \<Rightarrow> u32" where
  "sha1_blk0 l i = l ! i"

definition sha1_blk :: "u32 list \<Rightarrow> nat \<Rightarrow> u32" where
  "sha1_blk l i = sha1_rol (l ! ((i + 13) mod 16) XOR l ! ((i + 8) mod 16) XOR l ! ((i + 2) mod 16) XOR l ! (i mod 16)) 1"

text \<open>The macros \<open>R0\<close> to \<open>R4\<close>. The invocations go through the orders \<open>a b c d e\<close>, \<open>e a b c d\<close>, \<open>d e a b c\<close>, \<open>c d e a b\<close> and \<open>b c d e a\<close> of the
  variables, so the five values move on by one place in every step.\<close>

type_synonym sha1_op = "sha1_regs \<times> u32 list \<Rightarrow> nat \<Rightarrow> sha1_regs \<times> u32 list"

definition sha1_R0 :: sha1_op where
  "sha1_R0 = (\<lambda>((v, w, x, y, z), l) i.
     ((z + (((w AND (x XOR y)) XOR y) + sha1_blk0 l i + 0x5A827999 + sha1_rol v 5), v, sha1_rol w 30, x, y), l))"

definition sha1_R1 :: sha1_op where
  "sha1_R1 = (\<lambda>((v, w, x, y, z), l) i.
     ((z + (((w AND (x XOR y)) XOR y) + sha1_blk l i + 0x5A827999 + sha1_rol v 5), v, sha1_rol w 30, x, y), l[i mod 16 := sha1_blk l i]))"

definition sha1_R2 :: sha1_op where
  "sha1_R2 = (\<lambda>((v, w, x, y, z), l) i.
     ((z + ((w XOR x XOR y) + sha1_blk l i + 0x6ED9EBA1 + sha1_rol v 5), v, sha1_rol w 30, x, y), l[i mod 16 := sha1_blk l i]))"

definition sha1_R3 :: sha1_op where
  "sha1_R3 = (\<lambda>((v, w, x, y, z), l) i.
     ((z + ((((w OR x) AND y) OR (w AND x)) + sha1_blk l i + 0x8F1BBCDC + sha1_rol v 5), v, sha1_rol w 30, x, y), l[i mod 16 := sha1_blk l i]))"

definition sha1_R4 :: sha1_op where
  "sha1_R4 = (\<lambda>((v, w, x, y, z), l) i.
     ((z + ((w XOR x XOR y) + sha1_blk l i + 0xCA62C1D6 + sha1_rol v 5), v, sha1_rol w 30, x, y), l[i mod 16 := sha1_blk l i]))"

definition sha1_ops :: "sha1_op list" where
  "sha1_ops = replicate 16 sha1_R0 @ replicate 4 sha1_R1 @ replicate 20 sha1_R2 @ replicate 20 sha1_R3 @ replicate 20 sha1_R4"

definition SHA1Transform :: "sha1_regs \<Rightarrow> byte list \<Rightarrow> sha1_regs" where
  "SHA1Transform state buffer =
     (let block = map (\<lambda>n. word_of_nat (le_val (take 4 (drop (n * 4) buffer)))) [0..<16];
          ((a, b, c, d, e), block) = foldl (\<lambda>s (f, i). f s i) (state, block) (zip sha1_ops [0..<80]);
          (s0, s1, s2, s3, s4) = state
      in (s0 + a, s1 + b, s2 + c, s3 + d, s4 + e))"

record SHA1_CTX =
  sha_state :: sha1_regs
  sha_count0 :: u32
  sha_count1 :: u32
  sha_buffer :: "byte list"

definition SHA1Init :: "fill \<Rightarrow> SHA1_CTX" where
  "SHA1Init junk = \<lparr>sha_state = (0x67452301, 0xEFCDAB89, 0x98BADCFE, 0x10325476, 0xC3D2E1F0), sha_count0 = 0, sha_count1 = 0,
     sha_buffer = map junk [0..<64]\<rparr>"

text \<open>The loop over the whole blocks of the data: \<open>i\<close> and \<open>len\<close> are of type \<open>uint32_t\<close>.\<close>

partial_function (option) sha1_blocks :: "sha1_regs \<Rightarrow> byte list \<Rightarrow> nat \<Rightarrow> nat \<Rightarrow> (sha1_regs \<times> nat) option" where
  "sha1_blocks state data i len =
     (if cast_u 32 (int i + 63) < len then do {
        blk \<leftarrow> mem_read data i 64;
        sha1_blocks (SHA1Transform state blk) data (cast_u 32 (int i + 64)) len
      }
      else Some (state, i))"

definition SHA1Update :: "SHA1_CTX \<Rightarrow> byte list \<Rightarrow> nat \<Rightarrow> SHA1_CTX option" where
  "SHA1Update ctx data len =
     (let j = sha_count0 ctx;
          count0 = j + push_bit 3 (word_of_nat len);
          count1 = (if count0 < j then sha_count1 ctx + 1 else sha_count1 ctx) + drop_bit 29 (word_of_nat len);
          ctx = ctx\<lparr>sha_count0 := count0, sha_count1 := count1\<rparr>;
          j = unat (drop_bit 3 j AND 63)
      in if cast_u 32 (int j + int len) > 63 then do {
           bs \<leftarrow> mem_read data 0 (64 - j);
           buf \<leftarrow> mem_write (sha_buffer ctx) j bs;
           (state, i) \<leftarrow> sha1_blocks (SHA1Transform (sha_state ctx) buf) data (64 - j) len;
           bs \<leftarrow> mem_read data i (cast_u 32 (int len - int i));
           buf \<leftarrow> mem_write buf 0 bs;
           Some (ctx\<lparr>sha_state := state, sha_buffer := buf\<rparr>)
         }
         else do {
           bs \<leftarrow> mem_read data 0 len;
           buf \<leftarrow> mem_write (sha_buffer ctx) j bs;
           Some (ctx\<lparr>sha_buffer := buf\<rparr>)
         })"

definition sha1_be_bytes :: "u32 \<Rightarrow> byte list" where
  "sha1_be_bytes w = map (\<lambda>i. ucast (drop_bit ((3 - i) * 8) w AND 255)) [0, 1, 2, 3]"

partial_function (option) sha1_pad :: "SHA1_CTX \<Rightarrow> SHA1_CTX option" where
  "sha1_pad ctx =
     (if sha_count0 ctx AND 504 \<noteq> 448 then do { ctx \<leftarrow> SHA1Update ctx [0] 1; sha1_pad ctx }
      else Some ctx)"

definition SHA1Final :: "SHA1_CTX \<Rightarrow> byte list option" where
  "SHA1Final ctx = do {
     let finalcount = sha1_be_bytes (sha_count1 ctx) @ sha1_be_bytes (sha_count0 ctx);
     ctx \<leftarrow> SHA1Update ctx [0x80] 1;
     ctx \<leftarrow> sha1_pad ctx;
     ctx \<leftarrow> SHA1Update ctx finalcount 8;
     let (s0, s1, s2, s3, s4) = sha_state ctx;
     Some (sha1_be_bytes s0 @ sha1_be_bytes s1 @ sha1_be_bytes s2 @ sha1_be_bytes s3 @ sha1_be_bytes s4)
   }"

section \<open>SHA-1 against its standard\<close>

text \<open>The block function as in FIPS 180: the message schedule of 80 words and the four functions, on the sixteen words \<open>M\<close> of a block.\<close>

function fips_W :: "u32 list \<Rightarrow> nat \<Rightarrow> u32" where
  "fips_W M t = (if t < 16 then M ! t else word_rotl 1 (fips_W M (t - 3) XOR fips_W M (t - 8) XOR fips_W M (t - 14) XOR fips_W M (t - 16)))"
  by pat_completeness auto

termination
  by (relation "measure snd") auto

declare fips_W.simps [simp del]

definition fips_f :: "nat \<Rightarrow> u32 \<Rightarrow> u32 \<Rightarrow> u32 \<Rightarrow> u32" where
  "fips_f t x y z =
     (if t < 20 then (x AND y) XOR (NOT x AND z)
      else if t < 40 then x XOR y XOR z
      else if t < 60 then (x AND y) XOR (x AND z) XOR (y AND z)
      else x XOR y XOR z)"

definition fips_K :: "nat \<Rightarrow> u32" where
  "fips_K t = (if t < 20 then 0x5A827999 else if t < 40 then 0x6ED9EBA1 else if t < 60 then 0x8F1BBCDC else 0xCA62C1D6)"

definition fips_step :: "u32 list \<Rightarrow> sha1_regs \<Rightarrow> nat \<Rightarrow> sha1_regs" where
  "fips_step M = (\<lambda>(a, b, c, d, e) t. (word_rotl 5 a + fips_f t b c d + e + fips_K t + fips_W M t, a, word_rotl 30 b, c, d))"

text \<open>The standard reads the words of a block with the most significant byte first; \<open>rd\<close> is the reading that an implementation uses.\<close>

definition fips_block :: "(byte list \<Rightarrow> nat) \<Rightarrow> sha1_regs \<Rightarrow> byte list \<Rightarrow> sha1_regs" where
  "fips_block rd = (\<lambda>(h0, h1, h2, h3, h4) blk.
     let M = map (\<lambda>n. word_of_nat (rd (take 4 (drop (n * 4) blk)))) [0..<16];
         (a, b, c, d, e) = foldl (fips_step M) (h0, h1, h2, h3, h4) [0..<80]
     in (h0 + a, h1 + b, h2 + c, h3 + d, h4 + e))"

definition be_val :: "byte list \<Rightarrow> nat" where
  "be_val bs = le_val (rev bs)"

definition sha1_pad_msg :: "byte list \<Rightarrow> byte list" where
  "sha1_pad_msg m = m @ [0x80] @ replicate ((119 - length m mod 64) mod 64) 0 @ rev (le_bytes 8 (8 * length m))"

definition fips_sha1 :: "(byte list \<Rightarrow> nat) \<Rightarrow> byte list \<Rightarrow> byte list" where
  "fips_sha1 rd m =
     (let (a, b, c, d, e) = absorb (fips_block rd) (0x67452301, 0xEFCDAB89, 0x98BADCFE, 0x10325476, 0xC3D2E1F0) (sha1_pad_msg m)
      in concat (map (\<lambda>w. rev (le_bytes 4 (unat w))) [a, b, c, d, e]))"

lemma sha1_rol_rotl: "0 < n \<Longrightarrow> n < 32 \<Longrightarrow> sha1_rol v n = word_rotl n v"
proof -
  assume n: "0 < n" "n < 32"
  have "(0xffffffff :: u32) = - 1" by simp
  then have "v AND 0xffffffff = v" by (metis and.right_neutral)
  then show ?thesis using rotl_shift [OF n, of v] by (simp only: sha1_rol_def)
qed

lemma fips_functions:
  "(w AND (x XOR y)) XOR y = (w AND x) XOR (NOT w AND y)" "((w OR x) AND y) OR (w AND x) = (w AND x) XOR (w AND y) XOR (x AND y)" for w x y :: u32
  by (auto simp: bit_simps intro!: bit_word_eqI)

text \<open>The sixteen words of the code are the last sixteen words of the schedule.\<close>

definition schedule_at :: "u32 list \<Rightarrow> nat \<Rightarrow> u32 list \<Rightarrow> bool" where
  "schedule_at M t l \<longleftrightarrow> length l = 16 \<and> (\<forall>s. t \<le> s + 16 \<and> s < max t 16 \<longrightarrow> l ! (s mod 16) = fips_W M s)"

lemma schedule_start: "length M = 16 \<Longrightarrow> schedule_at M 0 M"
  by (auto simp: schedule_at_def fips_W.simps)

lemma sha1_blk_W: "schedule_at M t l \<Longrightarrow> 16 \<le> t \<Longrightarrow> sha1_blk l t = fips_W M t"
proof -
  assume s: "schedule_at M t l" and t: "16 \<le> t"
  have l: "l ! (s mod 16) = fips_W M s" if "t \<le> s + 16" "s < t" for s using s t that by (simp add: schedule_at_def)
  have "(t + 13) mod 16 = (t - 3) mod 16 \<and> (t + 8) mod 16 = (t - 8) mod 16 \<and> (t + 2) mod 16 = (t - 14) mod 16 \<and> t mod 16 = (t - 16) mod 16"
  proof -
    obtain k where k: "t = k + 16" using t by (metis le_add_diff_inverse2)
    have "k + 16 + 13 = (k + 13) + 16" "k + 16 + 8 = (k + 8) + 16" "k + 16 + 2 = (k + 2) + 16" "k + 16 - 3 = k + 13" "k + 16 - 8 = k + 8" "k + 16 - 14 = k + 2"
      by simp_all
    then show ?thesis unfolding k by (simp only: mod_add_self2 diff_add_inverse2 simp_thms)
  qed
  then show ?thesis using l [of "t - 3"] l [of "t - 8"] l [of "t - 14"] l [of "t - 16"] t
    by (subst fips_W.simps) (simp add: sha1_blk_def sha1_rol_rotl)
qed

lemma schedule_early: "schedule_at M t l \<Longrightarrow> t < 16 \<Longrightarrow> schedule_at M (Suc t) l \<and> sha1_blk0 l t = fips_W M t"
  by (auto simp: schedule_at_def sha1_blk0_def)

lemma schedule_late:
  assumes "schedule_at M t l" "16 \<le> t"
  shows "schedule_at M (Suc t) (l[t mod 16 := fips_W M t])"
proof -
  have l: "length l = 16" using assms(1) by (simp add: schedule_at_def)
  have "l[t mod 16 := fips_W M t] ! (s mod 16) = fips_W M s" if s: "Suc t \<le> s + 16" "s < Suc t" for s
  proof (cases "s = t")
    case False
    have "s mod 16 \<noteq> t mod 16"
    proof
      assume "s mod 16 = t mod 16"
      then have "16 dvd t - s" using s mod_eq_dvd_iff_nat [of s t 16] by (simp add: less_Suc_eq_le)
      then show False using s False by (auto dest: dvd_imp_le)
    qed
    then show ?thesis using assms s False l by (simp add: schedule_at_def)
  qed (use l in simp)
  then show ?thesis using assms(2) l by (simp add: schedule_at_def)
qed

lemma sha1_step:
  assumes "schedule_at M t l" "t < 80"
  shows "\<exists>l'. (sha1_ops ! t) (r, l) t = (fips_step M r t, l') \<and> schedule_at M (Suc t) l'"
proof -
  obtain v w x y z where r: "r = (v, w, x, y, z)" by (cases r)
  consider "t < 16" | "16 \<le> t" "t < 20" | "20 \<le> t" "t < 40" | "40 \<le> t" "t < 60" | "60 \<le> t" by linarith
  then show ?thesis
  proof cases
    case 1
    then have "sha1_ops ! t = sha1_R0" by (simp add: sha1_ops_def nth_append)
    then show ?thesis using schedule_early [OF assms(1) 1] 1
      by (simp add: r sha1_R0_def fips_step_def fips_f_def fips_K_def fips_functions sha1_rol_rotl add_ac)
  next
    case 2
    then have "sha1_ops ! t = sha1_R1" by (auto simp: sha1_ops_def nth_append)
    then show ?thesis using schedule_late [OF assms(1)] sha1_blk_W [OF assms(1)] 2
      by (simp add: r sha1_R1_def fips_step_def fips_f_def fips_K_def fips_functions sha1_rol_rotl add_ac)
  next
    case 3
    then have "sha1_ops ! t = sha1_R2" by (auto simp: sha1_ops_def nth_append)
    then show ?thesis using schedule_late [OF assms(1)] sha1_blk_W [OF assms(1)] 3
      by (simp add: r sha1_R2_def fips_step_def fips_f_def fips_K_def sha1_rol_rotl add_ac)
  next
    case 4
    then have "sha1_ops ! t = sha1_R3" by (auto simp: sha1_ops_def nth_append)
    then show ?thesis using schedule_late [OF assms(1)] sha1_blk_W [OF assms(1)] 4
      by (simp add: r sha1_R3_def fips_step_def fips_f_def fips_K_def fips_functions sha1_rol_rotl add_ac)
  next
    case 5
    then have "sha1_ops ! t = sha1_R4" using assms(2) by (auto simp: sha1_ops_def nth_append)
    then show ?thesis using schedule_late [OF assms(1)] sha1_blk_W [OF assms(1)] 5
      by (simp add: r sha1_R4_def fips_step_def fips_f_def fips_K_def sha1_rol_rotl add_ac)
  qed
qed

lemma length_sha1_ops: "length sha1_ops = 80"
  by (simp add: sha1_ops_def)

lemma sha1_rounds:
  assumes "length M = 16" "n \<le> 80"
  shows "\<exists>l. foldl (\<lambda>s (f, i). f s i) (r, M) (zip (take n sha1_ops) [0..<n]) = (foldl (fips_step M) r [0..<n], l) \<and> schedule_at M n l"
  using assms(2)
proof (induction n)
  case 0
  then show ?case using schedule_start [OF assms(1)] by simp
next
  case (Suc n)
  then obtain l where l: "foldl (\<lambda>s (f, i). f s i) (r, M) (zip (take n sha1_ops) [0..<n]) = (foldl (fips_step M) r [0..<n], l)" "schedule_at M n l" by auto
  obtain l' where l': "(sha1_ops ! n) (foldl (fips_step M) r [0..<n], l) n = (fips_step M (foldl (fips_step M) r [0..<n]) n, l')" "schedule_at M (Suc n) l'"
    using sha1_step [OF l(2), of "foldl (fips_step M) r [0..<n]"] Suc.prems by auto
  have "zip (take (Suc n) sha1_ops) [0..<Suc n] = zip (take n sha1_ops) [0..<n] @ [(sha1_ops ! n, n)]"
    using Suc.prems by (simp add: take_Suc_conv_app_nth length_sha1_ops zip_append)
  then show ?case using l l' by simp
qed

lemma SHA1Transform_fips: "SHA1Transform = fips_block le_val"
proof (intro ext)
  fix state buf
  let ?M = "map (\<lambda>n. word_of_nat (le_val (take 4 (drop (n * 4) buf)))) [0..<16] :: u32 list"
  have "\<exists>l. foldl (\<lambda>s (f, i). f s i) (state, ?M) (zip sha1_ops [0..<80]) = (foldl (fips_step ?M) state [0..<80], l)"
    using sha1_rounds [of ?M 80 state] by (auto simp: length_sha1_ops)
  then show "SHA1Transform state buf = fips_block le_val state buf"
    by (cases state) (auto simp: SHA1Transform_def fips_block_def Let_def split: prod.splits simp del: upt_Suc)
qed

text \<open>The counters of \<open>SHA1Update\<close>: the length of the message in bits.\<close>

definition sha1_iv :: sha1_regs where
  "sha1_iv = (0x67452301, 0xEFCDAB89, 0x98BADCFE, 0x10325476, 0xC3D2E1F0)"

definition sha1_counted :: "u32 \<Rightarrow> u32 \<Rightarrow> nat \<Rightarrow> bool" where
  "sha1_counted c0 c1 n \<longleftrightarrow> (\<exists>lo. counted lo c1 n \<and> c0 = push_bit 3 lo)"

definition sha1_repr :: "SHA1_CTX \<Rightarrow> byte list \<Rightarrow> bool" where
  "sha1_repr ctx m \<longleftrightarrow> sha1_counted (sha_count0 ctx) (sha_count1 ctx) (length m) \<and> holds SHA1Transform sha1_iv m (sha_state ctx) (sha_buffer ctx)"

lemma unat_inverse: "word_of_nat (unat w) = w" for w :: u32
  by simp

lemma len_32: "LENGTH(32) = 32"
  by simp

lemma push_bit_word_of_nat: "push_bit 3 (word_of_nat k) = (word_of_nat (8 * (k mod 2 ^ 29)) :: u32)"
proof -
  have "8 * k mod 2 ^ 32 = 8 * (k mod 2 ^ 29)" using mult_mod_right [of 8 k "2 ^ 29"] by simp
  then have "take_bit LENGTH(32) (8 * k) = take_bit LENGTH(32) (8 * (k mod 2 ^ 29))" unfolding take_bit_eq_mod by (simp only: len_32) (metis mod_mod_trivial)
  then have "(word_of_nat (8 * k) :: u32) = word_of_nat (8 * (k mod 2 ^ 29))" by (simp only: word_of_nat_eq_iff)
  then show ?thesis by (simp add: push_bit_eq_mult mult.commute)
qed

lemma sha1_counted_unat: "sha1_counted c0 c1 n \<Longrightarrow> unat c0 = 8 * (n mod 2 ^ 29)"
  using counted_bits by (auto simp: sha1_counted_def)

lemma sha1_counted_add:
  assumes "sha1_counted c0 c1 n" "s < 2 ^ 32" "c0' = c0 + push_bit 3 (word_of_nat s)"
    "c1' = (if c0' < c0 then c1 + 1 else c1) + drop_bit 29 (word_of_nat s)"
  shows "sha1_counted c0' c1' (n + s)"
proof -
  let ?x = "n mod 2 ^ 29"
  obtain lo where lo: "counted lo c1 n" "c0 = push_bit 3 lo" using assms(1) by (auto simp: sha1_counted_def)
  have l: "lo = word_of_nat ?x" using lo(1) by (simp add: counted_def)
  have "c0' = push_bit 3 (word_of_nat (?x + s))" unfolding assms(3) lo(2) l by (simp only: push_bit_add of_nat_add)
  then have c0': "c0' = word_of_nat (8 * ((?x + s) mod 2 ^ 29))" by (simp only: push_bit_word_of_nat)
  have "8 * ((?x + s) mod 2 ^ 29) < 2 ^ 32" by (rule less_le_trans [of _ "8 * 2 ^ 29"]) simp_all
  then have "unat c0' = 8 * ((?x + s) mod 2 ^ 29)" unfolding c0' by (rule unat_word_of_nat_small)
  then have "c0' < c0 \<longleftrightarrow> (?x + s) mod 2 ^ 29 < ?x" unfolding word_less_nat_alt sha1_counted_unat [OF assms(1)] by simp
  moreover have "drop_bit 29 (word_of_nat s) = (word_of_nat (s div 2 ^ 29) :: u32)"
  proof -
    have "unat (drop_bit 29 (word_of_nat s :: u32)) = s div 2 ^ 29" unfolding unat_drop_bit_eq unat_word_of_nat_small [OF assms(2)] by (simp only: drop_bit_eq_div)
    then show ?thesis using unat_inverse [of "drop_bit 29 (word_of_nat s :: u32)"] by (simp only:)
  qed
  moreover have "(n + s) div 2 ^ 29 = n div 2 ^ 29 + (?x + s) div 2 ^ 29" by (rule div_add_mod)
  moreover have "c1 = word_of_nat (n div 2 ^ 29)" using lo(1) by (simp add: counted_def)
  ultimately have "c1' = word_of_nat ((n + s) div 2 ^ 29)" using assms(4) carry_iff [of ?x "2 ^ 29" s] by simp
  then have "counted (word_of_nat ((n + s) mod 2 ^ 29)) c1' (n + s)" by (simp add: counted_def)
  moreover have "c0' = push_bit 3 (word_of_nat ((n + s) mod 2 ^ 29))" unfolding push_bit_word_of_nat c0' by (simp add: mod_add_left_eq)
  ultimately show ?thesis by (auto simp: sha1_counted_def)
qed

lemma sha1_counted_used: "sha1_counted c0 c1 n \<Longrightarrow> unat (drop_bit 3 c0 AND 63) = n mod 64"
proof -
  assume c: "sha1_counted c0 c1 n"
  have "drop_bit 3 c0 AND 63 = take_bit 6 (drop_bit 3 c0)" by (simp add: take_bit_eq_mask mask_eq_exp_minus_1)
  then have "unat (drop_bit 3 c0 AND 63) = take_bit 6 (drop_bit 3 (unat c0))"
    using unsigned_take_bit_eq [of 6 "drop_bit 3 c0", where 'a = nat] by (simp only: unat_drop_bit_eq)
  also have "\<dots> = n mod 2 ^ 29 mod 64" unfolding sha1_counted_unat [OF c] by (simp only: drop_bit_eq_div take_bit_eq_mod) simp
  also have "\<dots> = n mod 64" by (simp add: mod_mod_cancel)
  finally show ?thesis .
qed

lemma sha1_counted_pad: "sha1_counted c0 c1 n \<Longrightarrow> c0 AND 504 = 448 \<longleftrightarrow> n mod 64 = 56"
proof -
  assume c: "sha1_counted c0 c1 n"
  then obtain lo where lo: "counted lo c1 n" "c0 = push_bit 3 lo" by (auto simp: sha1_counted_def)
  have "c0 AND 504 = push_bit 3 (lo AND 63)" unfolding lo(2) push_bit_and by (simp add: push_bit_eq_mult)
  moreover have "lo AND 63 = word_of_nat (n mod 64)" using counted_used [OF lo(1)] unat_inverse [of "lo AND 63"] by (simp only:)
  moreover have "n mod 64 mod 2 ^ 29 = n mod 64" by (rule mod_less) (rule less_le_trans [of _ 64], simp_all)
  ultimately have "c0 AND 504 = word_of_nat (8 * (n mod 64))" by (simp only: push_bit_word_of_nat)
  moreover have "8 * (n mod 64) < 2 ^ 32" by (rule less_le_trans [of _ "8 * 64"]) simp_all
  ultimately have "unat (c0 AND 504) = 8 * (n mod 64)" by (simp only: unat_word_of_nat_small)
  moreover have "c0 AND 504 = 448 \<longleftrightarrow> unat (c0 AND 504) = unat (448 :: u32)" by (rule word_unat_eq_iff)
  ultimately show ?thesis by auto
qed

lemma sha1_be_bytes_rev: "sha1_be_bytes w = rev (md5_bytes w)"
proof -
  have "ucast (x AND 255) = (ucast x :: byte)" for x :: u32 by (auto intro!: bit_word_eqI simp: and_ff bit_simps)
  then show ?thesis by (simp add: sha1_be_bytes_def md5_bytes_def)
qed

lemma sha1_counted_bytes: "sha1_counted c0 c1 n \<Longrightarrow> sha1_be_bytes c1 @ sha1_be_bytes c0 = rev (le_bytes 8 (8 * n))"
  using counted_bytes by (auto simp: sha1_counted_def sha1_be_bytes_rev simp flip: rev_append)

lemma cast_u_32_add: "i + k < 2 ^ 32 \<Longrightarrow> cast_u 32 (int i + int k) = i + k"
  using cast_u_int [of "i + k" 32] by simp

lemma sha1_blocks_absorb:
  assumes "i \<le> len" "len \<le> length data" "len + 128 \<le> 2 ^ 32"
  shows "\<exists>n. sha1_blocks state data i len = Some (absorb SHA1Transform state (take n (drop i data)), i + n) \<and> 64 dvd n \<and> i + n \<le> len \<and> len < i + n + 64"
  using assms(1)
proof (induction "len - i" arbitrary: i state rule: less_induct)
  case less
  have c: "cast_u 32 (int i + 63) = i + 63" "cast_u 32 (int i + 64) = i + 64"
    using cast_u_32_add [of i 63] cast_u_32_add [of i 64] less.prems assms(3) by simp_all
  show ?case
  proof (cases "i + 63 < len")
    case True
    let ?b = "take 64 (drop i data)"
    have lb: "length ?b = 64" using True assms(2) by simp
    have "sha1_blocks state data i len = sha1_blocks (SHA1Transform state ?b) data (i + 64) len"
      using True c assms(2) by (subst sha1_blocks.simps) (simp add: mem_read_def)
    moreover have "len - (i + 64) < len - i" "i + 64 \<le> len" using True by auto
    from less.hyps [OF this, of "SHA1Transform state ?b"] obtain n where n:
        "sha1_blocks (SHA1Transform state ?b) data (i + 64) len = Some (absorb SHA1Transform (SHA1Transform state ?b) (take n (drop (i + 64) data)), i + 64 + n)"
        "64 dvd n" "i + 64 + n \<le> len" "len < i + 64 + n + 64" by blast
    moreover have "take (64 + n) (drop i data) = ?b @ take n (drop (i + 64) data)" using take_add [of 64 n "drop i data"] by (simp add: add.commute)
    ultimately show ?thesis using absorb_block [OF lb, of SHA1Transform state "take n (drop (i + 64) data)"] n
      by (intro exI [of _ "64 + n"]) simp
  next
    case False
    then have "sha1_blocks state data i len = Some (state, i)" using c by (subst sha1_blocks.simps) simp
    then show ?thesis using False less.prems by (intro exI [of _ 0]) (simp add: absorb_short)
  qed
qed

lemma mem_read_rest: "i \<le> length d \<Longrightarrow> length d < 2 ^ 32 \<Longrightarrow> mem_read d i (cast_u 32 (int (length d) - int i)) = Some (drop i d)"
  using cast_u_int [of "length d - i" 32] by (simp add: mem_read_def of_nat_diff)

lemma SHA1Update_repr:
  assumes "sha1_repr ctx m" "length d < 2 ^ 31"
  shows "\<exists>ctx'. SHA1Update ctx d (length d) = Some ctx' \<and> sha1_repr ctx' (m @ d)"
proof -
  define c0 where "c0 = sha_count0 ctx + push_bit 3 (word_of_nat (length d))"
  define c1 where "c1 = (if c0 < sha_count0 ctx then sha_count1 ctx + 1 else sha_count1 ctx) + drop_bit 29 (word_of_nat (length d))"
  let ?ctx = "ctx\<lparr>sha_count0 := c0, sha_count1 := c1\<rparr>"
  let ?u = "length m mod 64"
  have c: "sha1_counted (sha_count0 ctx) (sha_count1 ctx) (length m)" and h: "holds SHA1Transform sha1_iv m (sha_state ctx) (sha_buffer ctx)"
    using assms(1) by (simp_all add: sha1_repr_def)
  have c': "sha1_counted c0 c1 (length (m @ d))" using sha1_counted_add [OF c _ c0_def c1_def] assms(2) by simp
  have sum: "cast_u 32 (int ?u + int (length d)) = ?u + length d" 
  proof (rule cast_u_32_add)
    have "?u < 64" by simp
    then show "?u + length d < 2 ^ 32" using assms(2) by simp
  qed
  have upd: "SHA1Update ctx d (length d) =
      (if ?u + length d > 63 then do {
           bs \<leftarrow> mem_read d 0 (64 - ?u);
           buf \<leftarrow> mem_write (sha_buffer ctx) ?u bs;
           (state, i) \<leftarrow> sha1_blocks (SHA1Transform (sha_state ctx) buf) d (64 - ?u) (length d);
           bs \<leftarrow> mem_read d i (cast_u 32 (int (length d) - int i));
           buf \<leftarrow> mem_write buf 0 bs;
           Some (?ctx\<lparr>sha_state := state, sha_buffer := buf\<rparr>)
         }
       else do { bs \<leftarrow> mem_read d 0 (length d); buf \<leftarrow> mem_write (sha_buffer ctx) ?u bs; Some (?ctx\<lparr>sha_buffer := buf\<rparr>) })"
    unfolding SHA1Update_def Let_def sha1_counted_used [OF c] sum c0_def [symmetric] c1_def [symmetric] by simp
  show ?thesis
  proof (cases "?u + length d > 63")
    case False
    then have "?u + length d < 64" by simp
    from holds_write [OF h this] show ?thesis using False c' unfolding upd by (auto simp: mem_read_def sha1_repr_def)
  next
    case True
    let ?d1 = "take (64 - ?u) d"
    have "?u + length ?d1 = 64" using True by simp
    from holds_complete [OF h this] obtain buf where buf: "mem_write (sha_buffer ctx) ?u ?d1 = Some buf" "length buf = 64"
        "absorb SHA1Transform sha1_iv (m @ ?d1) = SHA1Transform (sha_state ctx) buf" "64 dvd length (m @ ?d1)" by blast
    have "64 - ?u \<le> length d" "length d + 128 \<le> 2 ^ 32" using True assms(2) by simp_all
    from sha1_blocks_absorb [OF this(1) order_refl this(2)] obtain n where n:
        "sha1_blocks (SHA1Transform (sha_state ctx) buf) d (64 - ?u) (length d) = Some (absorb SHA1Transform (SHA1Transform (sha_state ctx) buf) (take n (drop (64 - ?u) d)), 64 - ?u + n)"
        "64 dvd n" "64 - ?u + n \<le> length d" "length d < 64 - ?u + n + 64" by blast
    let ?i = "64 - ?u + n"
    let ?d2 = "take n (drop (64 - ?u) d)" and ?d3 = "drop ?i d"
    have "drop n (drop (64 - ?u) d) = ?d3" by (simp add: add.commute)
    then have "?d2 @ ?d3 = drop (64 - ?u) d" using append_take_drop_id [of n "drop (64 - ?u) d"] by (simp only:)
    then have d: "m @ d = ((m @ ?d1) @ ?d2) @ ?d3" by (simp only: append_assoc append_take_drop_id)
    have "length ((m @ ?d1) @ ?d2) = length (m @ ?d1) + n" using n(3) by simp
    then have dv: "64 dvd length ((m @ ?d1) @ ?d2)" using dvd_add [OF buf(4) n(2)] by (simp only:)
    have "holds SHA1Transform sha1_iv ((m @ ?d1) @ ?d2) (absorb SHA1Transform sha1_iv ((m @ ?d1) @ ?d2)) buf"
      using dv buf(2) tail_of_append [OF dv, of "[]"] by (simp add: holds_def tail_of_def dvd_imp_mod_0)
    moreover have "length ((m @ ?d1) @ ?d2) mod 64 + length ?d3 < 64"
    proof -
      have "length ?d3 = length d - ?i" by simp
      then show ?thesis using n(3,4) dv by (simp only: dvd_imp_mod_0) linarith
    qed
    ultimately obtain buf' where buf': "mem_write buf 0 ?d3 = Some buf'"
        "holds SHA1Transform sha1_iv (m @ d) (absorb SHA1Transform sha1_iv ((m @ ?d1) @ ?d2)) buf'"
      using holds_write [of SHA1Transform sha1_iv "(m @ ?d1) @ ?d2" _ buf ?d3] dvd_imp_mod_0 [OF dv] unfolding d by metis
    have "absorb SHA1Transform sha1_iv ((m @ ?d1) @ ?d2) = absorb SHA1Transform (SHA1Transform (sha_state ctx) buf) ?d2"
      unfolding absorb_append [OF buf(4)] buf(3) ..
    moreover have "mem_read d ?i (cast_u 32 (int (length d) - int ?i)) = Some ?d3"
      using mem_read_rest [OF n(3)] assms(2) by simp
    moreover have "mem_read d 0 (64 - ?u) = Some ?d1" using True by (simp add: mem_read_def)
    ultimately have "SHA1Update ctx d (length d) = Some (?ctx\<lparr>sha_state := absorb SHA1Transform sha1_iv ((m @ ?d1) @ ?d2), sha_buffer := buf'\<rparr>)"
      using True buf(1) n(1) buf'(1) unfolding upd by simp
    then show ?thesis using buf'(2) c' by (simp add: sha1_repr_def)
  qed
qed

text \<open>The padding loop of \<open>SHA1Final\<close> ends at the next length with 56 bytes in the last block.\<close>

lemma pad_count: "u < 64 \<Longrightarrow> (120 - u) mod 64 = (if u \<le> 56 then 56 - u else 120 - u)" for u :: nat
  by (auto simp: mod_if)

lemma pad_count_next:
  assumes "u < 64"
  shows "(120 - (u + 1) mod 64) mod 64 = (119 - u) mod 64" "u \<noteq> 56 \<Longrightarrow> Suc k = (120 - u) mod 64 \<Longrightarrow> k = (120 - (u + 1) mod 64) mod 64"
proof -
  have m: "(u + 1) mod 64 = (if u = 63 then 0 else u + 1)" using assms by auto
  have z: "(119 - u) mod 64 = (if u \<le> 55 then 55 - u else 119 - u)" using assms by (auto simp: mod_if)
  show "(120 - (u + 1) mod 64) mod 64 = (119 - u) mod 64" unfolding m z using pad_count [of "u + 1"] assms by auto
  show "u \<noteq> 56 \<Longrightarrow> Suc k = (120 - u) mod 64 \<Longrightarrow> k = (120 - (u + 1) mod 64) mod 64"
    unfolding m pad_count [OF assms] using pad_count [of "u + 1"] assms by (auto split: if_splits)
qed

lemma sha1_pad_repr:
  assumes "sha1_repr ctx m"
  shows "\<exists>ctx'. sha1_pad ctx = Some ctx' \<and> sha1_repr ctx' (m @ replicate ((120 - length m mod 64) mod 64) 0)"
  using assms
proof (induction "(120 - length m mod 64) mod 64" arbitrary: ctx m)
  case 0
  have "length m mod 64 < 64" by simp
  moreover have "u < 64 \<Longrightarrow> 0 = (120 - u) mod 64 \<Longrightarrow> u = 56" for u :: nat using pad_count [of u] by (auto split: if_splits)
  ultimately have "length m mod 64 = 56" using 0(1) by blast
  then have "sha_count0 ctx AND 504 = 448" using 0(2) sha1_counted_pad by (auto simp: sha1_repr_def)
  then show ?case using 0 by (subst sha1_pad.simps) simp
next
  case (Suc k)
  let ?u = "length m mod 64"
  have u: "?u < 64" by simp
  have n56: "?u \<noteq> 56" using Suc.hyps(2) by auto
  have k: "k = (120 - length (m @ [0::byte]) mod 64) mod 64" using pad_count_next(2) [OF u n56 Suc.hyps(2)] mod_add_left_eq [of "length m" 64 1] by simp
  obtain ctx1 where c1: "SHA1Update ctx [0] 1 = Some ctx1" "sha1_repr ctx1 (m @ [0])" using SHA1Update_repr [OF Suc.prems, of "[0]"] by auto
  have "sha_count0 ctx AND 504 \<noteq> 448" using n56 Suc.prems sha1_counted_pad by (auto simp: sha1_repr_def)
  then have "sha1_pad ctx = sha1_pad ctx1" using c1(1) by (subst sha1_pad.simps) simp
  moreover have "(m @ [0]) @ replicate k 0 = m @ replicate ((120 - ?u) mod 64) (0::byte)" unfolding Suc.hyps(2) [symmetric] by simp
  ultimately show ?case using Suc.hyps(1) [OF k c1(2)] unfolding k [symmetric] by simp
qed

lemma SHA1Init_repr: "sha1_repr (SHA1Init junk) []"
  using holds_nil [of "map junk [0..<64]" SHA1Transform sha1_iv]
  by (simp add: sha1_repr_def SHA1Init_def sha1_iv_def sha1_counted_def counted_def exI [of _ 0])

lemma SHA1Final_fips:
  assumes "sha1_repr ctx m"
  shows "SHA1Final ctx = Some (fips_sha1 le_val m)"
proof -
  let ?f = "sha1_be_bytes (sha_count1 ctx) @ sha1_be_bytes (sha_count0 ctx)"
  have f: "?f = rev (le_bytes 8 (8 * length m))" using assms sha1_counted_bytes by (auto simp: sha1_repr_def)
  obtain c1 where c1: "SHA1Update ctx [0x80] 1 = Some c1" "sha1_repr c1 (m @ [0x80])" using SHA1Update_repr [OF assms, of "[0x80]"] by auto
  let ?z = "replicate ((120 - length (m @ [0x80::byte]) mod 64) mod 64) (0::byte)"
  obtain c2 where c2: "sha1_pad c1 = Some c2" "sha1_repr c2 ((m @ [0x80]) @ ?z)" using sha1_pad_repr [OF c1(2)] by auto
  have "length ?f = 8" unfolding f by simp
  then obtain c3 where c3: "SHA1Update c2 ?f 8 = Some c3" "sha1_repr c3 (((m @ [0x80]) @ ?z) @ ?f)"
    using SHA1Update_repr [OF c2(2), of ?f] by auto
  have "?z = replicate ((119 - length m mod 64) mod 64) 0" using pad_count_next(1) [of "length m mod 64"] mod_add_left_eq [of "length m" 64 1] by simp
  then have "((m @ [0x80]) @ ?z) @ ?f = sha1_pad_msg m" using f by (simp add: sha1_pad_msg_def)
  then have "sha_state c3 = absorb (fips_block le_val) sha1_iv (sha1_pad_msg m)" using c3(2) by (simp add: sha1_repr_def holds_def SHA1Transform_fips)
  then show ?thesis using c1(1) c2(1) c3(1)
    by (simp add: SHA1Final_def fips_sha1_def sha1_iv_def sha1_be_bytes_rev md5_bytes_le split: prod.splits)
qed

section \<open>Incremental digests\<close>

text \<open>What an incremental digest promises: a context holds the bytes it was fed with, and its result is the digest of them.\<close>

fun feed :: "('c \<Rightarrow> byte list \<Rightarrow> 'c option) \<Rightarrow> 'c \<Rightarrow> byte list list \<Rightarrow> 'c option" where
  "feed upd c [] = Some c"
| "feed upd c (d # ds) = do { c \<leftarrow> upd c d; feed upd c ds }"

locale incremental_digest =
  fixes start :: 'c
    and upd :: "'c \<Rightarrow> byte list \<Rightarrow> 'c option"
    and fin :: "'c \<Rightarrow> byte list option"
    and holding :: "'c \<Rightarrow> byte list \<Rightarrow> bool"
    and digest :: "byte list \<Rightarrow> byte list"
    and limit :: nat
  assumes start_holds: "holding start []"
    and upd_holds: "holding c m \<Longrightarrow> length d < limit \<Longrightarrow> \<exists>c'. upd c d = Some c' \<and> holding c' (m @ d)"
    and fin_digest: "holding c m \<Longrightarrow> fin c = Some (digest m)"
begin

lemma feed_holds: "holding c m \<Longrightarrow> \<forall>d \<in> set ds. length d < limit \<Longrightarrow> \<exists>c'. feed upd c ds = Some c' \<and> holding c' (m @ concat ds)"
proof (induction ds arbitrary: c m)
  case (Cons d ds)
  then obtain c1 where "upd c d = Some c1" "holding c1 (m @ d)" using upd_holds [of c m d] by auto
  then show ?case using Cons.IH [of c1 "m @ d"] Cons.prems by auto
qed simp

lemma feed_digest:
  assumes "\<forall>d \<in> set ds. length d < limit"
  shows "\<exists>c. feed upd start ds = Some c \<and> fin c = Some (digest (concat ds))"
  using feed_holds [OF start_holds assms] fin_digest by auto

end

interpretation md5s: incremental_digest "MD5_Init junk" "\<lambda>ctx d. MD5_Update ctx d (length d)" MD5_Final md5_repr md5_rfc "2 ^ 64" for junk
  by unfold_locales (auto simp: MD5_Init_repr MD5_Final_rfc intro: MD5_Update_repr)

interpretation sha1s: incremental_digest "SHA1Init junk" "\<lambda>ctx d. SHA1Update ctx d (length d)" SHA1Final sha1_repr "fips_sha1 le_val" "2 ^ 31" for junk
  by unfold_locales (auto simp: SHA1Init_repr SHA1Final_fips intro: SHA1Update_repr)



text \<open>C30: SHA-1: however a message is cut into pieces of less than two gigabytes, \<open>SHA1Update\<close> and \<open>SHA1Final\<close> give the digest of the whole message;
  it is the one of FIPS 180 with the sixteen words of each block read with their least significant byte first. The padding loop ends.\<close>

theorem sha1_streaming:
  assumes "\<forall>d \<in> set ds. length d < 2 ^ 31"
  shows "\<exists>ctx. feed (\<lambda>ctx d. SHA1Update ctx d (length d)) (SHA1Init junk) ds = Some ctx \<and> SHA1Final ctx = Some (fips_sha1 le_val (concat ds))"
  by (rule sha1s.feed_digest [OF assms])

theorem sha1_streaming_witness:
  "\<exists>ctx. feed (\<lambda>ctx d. SHA1Update ctx d (length d)) (SHA1Init (\<lambda>_. 7)) [[97], [98, 99]] = Some ctx \<and> SHA1Final ctx = Some (fips_sha1 le_val [97, 98, 99])"
  using sha1_streaming [of "[[97], [98, 99]]" "\<lambda>_. 7"] by (simp del: feed.simps)

end
