(* ===== verification/Vire_Sds.thy ===== *)
theory Vire_Sds
  imports Vire_Util
begin

text \<open>
  The dynamic strings of \<open>dep/sds/sds.c\<close> and \<open>dep/sds/sds.h\<close>, on the bytes of their blocks: the header
  (one of five types, with fields of one to eight bytes before the flags byte), the content, the
  terminator and the free space. The allocator is a parameter that may refuse, and leaves any content in
  its blocks. The theory shows that every operation stays inside its block and has its meaning on the
  content, through all changes of the header type, and that quoting and splitting, and splitting and
  joining, are inverse to each other.
\<close>

section \<open>Memory of a string\<close>

text \<open>An allocator is asked for a size and either refuses or returns a block with any content.\<close>

type_synonym allocator = "nat \<Rightarrow> fill option"

definition s_malloc :: "allocator \<Rightarrow> nat \<Rightarrow> byte list option" where
  "s_malloc al n = map_option (\<lambda>f. map f [0..<n]) (al n)"

definition s_realloc :: "allocator \<Rightarrow> byte list \<Rightarrow> nat \<Rightarrow> byte list option" where
  "s_realloc al m n = map_option (\<lambda>f. drealloc f m n) (al n)"

definition size_t :: "nat \<Rightarrow> nat" where
  "size_t n = cast_u 64 (int n)"

text \<open>An \<open>sds\<close> is a pointer into the block that \<open>sdsnewlen\<close> allocated, to the byte after the
  header.\<close>

record sds =
  sds_mem :: "byte list"
  sds_ptr :: nat

definition sds_flags :: "sds \<Rightarrow> byte option" where
  "sds_flags s = (if sds_ptr s = 0 then None else byte_at (sds_mem s) (sds_ptr s - 1))"

definition sds_set_flags :: "sds \<Rightarrow> byte \<Rightarrow> sds option" where
  "sds_set_flags s f = (if sds_ptr s = 0 then None
     else map_option (\<lambda>m. s\<lparr>sds_mem := m\<rparr>) (byte_put (sds_mem s) (sds_ptr s - 1) f))"

definition sds_at :: "sds \<Rightarrow> nat \<Rightarrow> byte option" where
  "sds_at s i = byte_at (sds_mem s) (sds_ptr s + i)"

definition sds_put :: "sds \<Rightarrow> nat \<Rightarrow> byte \<Rightarrow> sds option" where
  "sds_put s i b = map_option (\<lambda>m. s\<lparr>sds_mem := m\<rparr>) (byte_put (sds_mem s) (sds_ptr s + i) b)"

definition sds_read :: "sds \<Rightarrow> nat \<Rightarrow> nat \<Rightarrow> byte list option" where
  "sds_read s i n = mem_read (sds_mem s) (sds_ptr s + i) n"

definition sds_write :: "sds \<Rightarrow> nat \<Rightarrow> byte list \<Rightarrow> sds option" where
  "sds_write s i bs = map_option (\<lambda>m. s\<lparr>sds_mem := m\<rparr>) (mem_write (sds_mem s) (sds_ptr s + i) bs)"

section \<open>Headers\<close>

definition SDS_TYPE_5 :: byte where "SDS_TYPE_5 = 0"
definition SDS_TYPE_8 :: byte where "SDS_TYPE_8 = 1"
definition SDS_TYPE_16 :: byte where "SDS_TYPE_16 = 2"
definition SDS_TYPE_32 :: byte where "SDS_TYPE_32 = 3"
definition SDS_TYPE_64 :: byte where "SDS_TYPE_64 = 4"
definition SDS_TYPE_MASK :: byte where "SDS_TYPE_MASK = 7"
definition SDS_MAX_PREALLOC :: nat where "SDS_MAX_PREALLOC = 1024 * 1024"

lemmas sds_types = SDS_TYPE_5_def SDS_TYPE_8_def SDS_TYPE_16_def SDS_TYPE_32_def SDS_TYPE_64_def

text \<open>The type in the flags of a string. The fields \<open>len\<close> and \<open>alloc\<close> of a header, which precede the
  flags, are \<open>hdr_w\<close> bytes wide; the branches of the switches for the types 8, 16, 32 and 64 differ in
  this width only.\<close>

definition sds_type :: "byte \<Rightarrow> byte" where
  "sds_type f = f AND SDS_TYPE_MASK"

definition SDS_TYPE_5_LEN :: "byte \<Rightarrow> nat" where
  "SDS_TYPE_5_LEN f = unat (drop_bit 3 f)"

definition hdr_w :: "byte \<Rightarrow> nat" where
  "hdr_w t = (if t = SDS_TYPE_8 then 1 else if t = SDS_TYPE_16 then 2
     else if t = SDS_TYPE_32 then 4 else if t = SDS_TYPE_64 then 8 else 0)"

definition sdsHdrSize :: "byte \<Rightarrow> nat" where
  "sdsHdrSize f = (let t = sds_type f in
     if t = SDS_TYPE_5 then 1 else if hdr_w t \<noteq> 0 then 2 * hdr_w t + 1 else 0)"

definition sdsReqType :: "nat \<Rightarrow> byte" where
  "sdsReqType string_size =
     (if string_size < 32 then SDS_TYPE_5
      else if string_size < 0xff then SDS_TYPE_8
      else if string_size < 0xffff then SDS_TYPE_16
      else if string_size < 0xffffffff then SDS_TYPE_32
      else SDS_TYPE_64)"

definition hdr_read :: "nat \<Rightarrow> nat \<Rightarrow> sds \<Rightarrow> nat option" where
  "hdr_read w off s = (if 2 * w + 1 \<le> sds_ptr s
     then map_option le_val (mem_read (sds_mem s) (sds_ptr s - (2 * w + 1) + off) w) else None)"

definition hdr_write :: "nat \<Rightarrow> nat \<Rightarrow> sds \<Rightarrow> nat \<Rightarrow> sds option" where
  "hdr_write w off s n = (if 2 * w + 1 \<le> sds_ptr s
     then map_option (\<lambda>m. s\<lparr>sds_mem := m\<rparr>) (mem_write (sds_mem s) (sds_ptr s - (2 * w + 1) + off) (le_bytes w n))
     else None)"

abbreviation "hdr_len w \<equiv> hdr_read w 0"
abbreviation "hdr_alloc w \<equiv> hdr_read w w"
abbreviation "hdr_set_len w \<equiv> hdr_write w 0"
abbreviation "hdr_set_alloc w \<equiv> hdr_write w w"

definition sdslen :: "sds \<Rightarrow> nat option" where
  "sdslen s = do {
     flags \<leftarrow> sds_flags s;
     let t = sds_type flags;
     if t = SDS_TYPE_5 then Some (SDS_TYPE_5_LEN flags)
     else if hdr_w t \<noteq> 0 then hdr_len (hdr_w t) s
     else Some 0
   }"

text \<open>The difference is computed in \<open>int\<close> for the short fields, in \<open>uint32_t\<close> and \<open>uint64_t\<close> for the
  others, and converted to \<open>size_t\<close>.\<close>

definition sdsavail :: "sds \<Rightarrow> nat option" where
  "sdsavail s = do {
     flags \<leftarrow> sds_flags s;
     let t = sds_type flags;
     if t = SDS_TYPE_5 then Some 0
     else if hdr_w t \<noteq> 0 then do {
       alloc \<leftarrow> hdr_alloc (hdr_w t) s;
       len \<leftarrow> hdr_len (hdr_w t) s;
       Some (cast_u (if t = SDS_TYPE_32 then 32 else 64) (int alloc - int len))
     }
     else Some 0
   }"

definition sdssetlen :: "sds \<Rightarrow> nat \<Rightarrow> sds option" where
  "sdssetlen s newlen = do {
     flags \<leftarrow> sds_flags s;
     let t = sds_type flags;
     if t = SDS_TYPE_5 then sds_set_flags s (SDS_TYPE_5 OR word_of_nat (newlen * 8))
     else if hdr_w t \<noteq> 0 then hdr_set_len (hdr_w t) s newlen
     else Some s
   }"

definition sdsinclen :: "sds \<Rightarrow> nat \<Rightarrow> sds option" where
  "sdsinclen s inc = do {
     flags \<leftarrow> sds_flags s;
     let t = sds_type flags;
     if t = SDS_TYPE_5
     then let newlen = (word_of_nat (SDS_TYPE_5_LEN flags + inc) :: byte)
          in sds_set_flags s (SDS_TYPE_5 OR push_bit 3 newlen)
     else if hdr_w t \<noteq> 0 then do {
       len \<leftarrow> hdr_len (hdr_w t) s;
       hdr_set_len (hdr_w t) s (len + inc)
     }
     else Some s
   }"

definition sdsalloc :: "sds \<Rightarrow> nat option" where
  "sdsalloc s = do {
     flags \<leftarrow> sds_flags s;
     let t = sds_type flags;
     if t = SDS_TYPE_5 then Some (SDS_TYPE_5_LEN flags)
     else if hdr_w t \<noteq> 0 then hdr_alloc (hdr_w t) s
     else Some 0
   }"

definition sdssetalloc :: "sds \<Rightarrow> nat \<Rightarrow> sds option" where
  "sdssetalloc s newlen = do {
     flags \<leftarrow> sds_flags s;
     let t = sds_type flags;
     if t = SDS_TYPE_5 then Some s
     else if hdr_w t \<noteq> 0 then hdr_set_alloc (hdr_w t) s newlen
     else Some s
   }"

section \<open>Creation\<close>

text \<open>\<open>init\<close> is \<^const>\<open>None\<close> for the null pointer; the outer option is an invalid access, the inner one
  the null pointer that is returned when the allocator refuses.\<close>

definition sdsnewlen :: "allocator \<Rightarrow> byte list option \<Rightarrow> nat \<Rightarrow> sds option option" where
  "sdsnewlen al init initlen =
     (let t = sdsReqType initlen;
          t = (if t = SDS_TYPE_5 \<and> initlen = 0 then SDS_TYPE_8 else t);
          hdrlen = sdsHdrSize t;
          total = size_t (hdrlen + initlen + 1)
      in case s_malloc al total of
           None \<Rightarrow> if init = None then None else Some None
         | Some sh \<Rightarrow> do {
             let sh = (if init = None then replicate total 0 else sh);
             let s = \<lparr>sds_mem = sh, sds_ptr = hdrlen\<rparr>;
             s \<leftarrow> (if t = SDS_TYPE_5 then sds_set_flags s (t OR word_of_nat (initlen * 8))
                   else do {
                     s \<leftarrow> hdr_set_len (hdr_w t) s initlen;
                     s \<leftarrow> hdr_set_alloc (hdr_w t) s initlen;
                     sds_set_flags s t
                   });
             s \<leftarrow> (case init of
                    Some src \<Rightarrow> if initlen \<noteq> 0 then do { bs \<leftarrow> mem_read src 0 initlen; sds_write s 0 bs } else Some s
                  | None \<Rightarrow> Some s);
             s \<leftarrow> sds_put s initlen 0;
             Some (Some s)
           })"

definition sdsempty :: "allocator \<Rightarrow> sds option option" where
  "sdsempty al = sdsnewlen al (Some [0]) 0"

text \<open>The length of the C string that starts at an address: the loop of \<open>strlen\<close> leaves the memory
  when there is no terminator.\<close>

fun strlen :: "byte list \<Rightarrow> nat option" where
  "strlen [] = None"
| "strlen (c # cs) = (if c = 0 then Some 0 else map_option Suc (strlen cs))"

definition sdsnew :: "allocator \<Rightarrow> byte list option \<Rightarrow> sds option option" where
  "sdsnew al init = do {
     initlen \<leftarrow> (case init of None \<Rightarrow> Some 0 | Some cs \<Rightarrow> strlen cs);
     sdsnewlen al init initlen
   }"

definition sds_bytes :: "sds \<Rightarrow> byte list" where
  "sds_bytes s = drop (sds_ptr s) (sds_mem s)"

definition sdsdup :: "allocator \<Rightarrow> sds \<Rightarrow> sds option option" where
  "sdsdup al s = do { len \<leftarrow> sdslen s; sdsnewlen al (Some (sds_bytes s)) len }"

definition sdsupdatelen :: "sds \<Rightarrow> sds option" where
  "sdsupdatelen s = do {
     l \<leftarrow> strlen (sds_bytes s);
     let reallen = cast_s 32 (int l);
     sdssetlen s (cast_u 64 reallen)
   }"

definition sdsclear :: "sds \<Rightarrow> sds option" where
  "sdsclear s = do { s \<leftarrow> sdssetlen s 0; sds_put s 0 0 }"

section \<open>Space\<close>

text \<open>Releasing or reallocating the block of a string is valid for the address of its header.\<close>

definition sds_block :: "sds \<Rightarrow> byte \<Rightarrow> byte list option" where
  "sds_block s t = (if sds_ptr s = sdsHdrSize t then Some (sds_mem s) else None)"

definition sdsMakeRoomFor :: "allocator \<Rightarrow> sds \<Rightarrow> nat \<Rightarrow> sds option option" where
  "sdsMakeRoomFor al s addlen = do {
     avail \<leftarrow> sdsavail s;
     flags \<leftarrow> sds_flags s;
     let oldtype = sds_type flags;
     if avail \<ge> addlen then Some (Some s)
     else do {
       len \<leftarrow> sdslen s;
       sh \<leftarrow> sds_block s oldtype;
       let newlen = size_t (len + addlen);
       let newlen = (if newlen < SDS_MAX_PREALLOC then size_t (newlen * 2) else size_t (newlen + SDS_MAX_PREALLOC));
       let t = sdsReqType newlen;
       let t = (if t = SDS_TYPE_5 then SDS_TYPE_8 else t);
       let hdrlen = sdsHdrSize t;
       if oldtype = t
       then case s_realloc al sh (size_t (hdrlen + newlen + 1)) of
              None \<Rightarrow> Some None
            | Some newsh \<Rightarrow> do {
                s \<leftarrow> sdssetalloc \<lparr>sds_mem = newsh, sds_ptr = hdrlen\<rparr> newlen;
                Some (Some s)
              }
       else case s_malloc al (size_t (hdrlen + newlen + 1)) of
              None \<Rightarrow> Some None
            | Some newsh \<Rightarrow> do {
                bs \<leftarrow> sds_read s 0 (len + 1);
                s \<leftarrow> sds_write \<lparr>sds_mem = newsh, sds_ptr = hdrlen\<rparr> 0 bs;
                s \<leftarrow> sds_set_flags s t;
                s \<leftarrow> sdssetlen s len;
                s \<leftarrow> sdssetalloc s newlen;
                Some (Some s)
              }
     }
   }"

definition sdsRemoveFreeSpace :: "allocator \<Rightarrow> sds \<Rightarrow> sds option option" where
  "sdsRemoveFreeSpace al s = do {
     flags \<leftarrow> sds_flags s;
     let oldtype = sds_type flags;
     len \<leftarrow> sdslen s;
     sh \<leftarrow> sds_block s oldtype;
     let t = sdsReqType len;
     let hdrlen = sdsHdrSize t;
     if oldtype = t
     then case s_realloc al sh (size_t (hdrlen + len + 1)) of
            None \<Rightarrow> Some None
          | Some newsh \<Rightarrow> do {
              s \<leftarrow> sdssetalloc \<lparr>sds_mem = newsh, sds_ptr = hdrlen\<rparr> len;
              Some (Some s)
            }
     else case s_malloc al (size_t (hdrlen + len + 1)) of
            None \<Rightarrow> Some None
          | Some newsh \<Rightarrow> do {
              bs \<leftarrow> sds_read s 0 (len + 1);
              s \<leftarrow> sds_write \<lparr>sds_mem = newsh, sds_ptr = hdrlen\<rparr> 0 bs;
              s \<leftarrow> sds_set_flags s t;
              s \<leftarrow> sdssetlen s len;
              s \<leftarrow> sdssetalloc s len;
              Some (Some s)
            }
   }"

definition sdsAllocSize :: "sds \<Rightarrow> nat option" where
  "sdsAllocSize s = do {
     alloc \<leftarrow> sdsalloc s;
     flags \<leftarrow> sds_flags s;
     Some (size_t (sdsHdrSize flags + alloc + 1))
   }"

text \<open>The assertions of the branches of \<open>sdsIncrLen\<close>; the one of the type 5 has \<open>incr > 0\<close> where the
  others have \<open>incr >= 0\<close>.\<close>

definition sdsIncrLen :: "sds \<Rightarrow> int \<Rightarrow> sds option" where
  "sdsIncrLen s incr = do {
     flags \<leftarrow> sds_flags s;
     let t = sds_type flags;
     (s, len) \<leftarrow>
       (if t = SDS_TYPE_5
        then let oldlen = SDS_TYPE_5_LEN flags
             in if (incr > 0 \<and> int oldlen + incr < 32) \<or> (incr < 0 \<and> int oldlen \<ge> - incr)
                then do {
                  s \<leftarrow> sds_set_flags s (SDS_TYPE_5 OR word_of_int ((int oldlen + incr) * 8));
                  Some (s, cast_u 64 (int oldlen + incr))
                }
                else None
        else if hdr_w t \<noteq> 0 then do {
          alloc \<leftarrow> hdr_alloc (hdr_w t) s;
          len \<leftarrow> hdr_len (hdr_w t) s;
          let room = (if t = SDS_TYPE_8 \<or> t = SDS_TYPE_16 then int alloc - int len
                      else int (cast_u (8 * hdr_w t) (int alloc - int len)));
          if (incr \<ge> 0 \<and> room \<ge> incr) \<or> (incr < 0 \<and> int len \<ge> - incr)
          then do {
            let newlen = cast_u (8 * hdr_w t) (int len + incr);
            s \<leftarrow> hdr_set_len (hdr_w t) s newlen;
            Some (s, newlen)
          }
          else None
        }
        else Some (s, 0));
     sds_put s len 0
   }"

section \<open>Editing\<close>

definition sdsgrowzero :: "allocator \<Rightarrow> sds \<Rightarrow> nat \<Rightarrow> sds option option" where
  "sdsgrowzero al s len = do {
     curlen \<leftarrow> sdslen s;
     if len \<le> curlen then Some (Some s)
     else do {
       r \<leftarrow> sdsMakeRoomFor al s (len - curlen);
       case r of
         None \<Rightarrow> Some None
       | Some s \<Rightarrow> do {
           s \<leftarrow> sds_write s curlen (replicate (len - curlen + 1) 0);
           s \<leftarrow> sdssetlen s len;
           Some (Some s)
         }
     }
   }"

definition sdscatlen :: "allocator \<Rightarrow> sds \<Rightarrow> byte list \<Rightarrow> nat \<Rightarrow> sds option option" where
  "sdscatlen al s t len = do {
     curlen \<leftarrow> sdslen s;
     r \<leftarrow> sdsMakeRoomFor al s len;
     case r of
       None \<Rightarrow> Some None
     | Some s \<Rightarrow> do {
         bs \<leftarrow> mem_read t 0 len;
         s \<leftarrow> sds_write s curlen bs;
         s \<leftarrow> sdssetlen s (size_t (curlen + len));
         s \<leftarrow> sds_put s (curlen + len) 0;
         Some (Some s)
       }
   }"

definition sdscat :: "allocator \<Rightarrow> sds \<Rightarrow> byte list \<Rightarrow> sds option option" where
  "sdscat al s t = do { l \<leftarrow> strlen t; sdscatlen al s t l }"

definition sdscatsds :: "allocator \<Rightarrow> sds \<Rightarrow> sds \<Rightarrow> sds option option" where
  "sdscatsds al s t = do { l \<leftarrow> sdslen t; sdscatlen al s (sds_bytes t) l }"

definition sdscpylen :: "allocator \<Rightarrow> sds \<Rightarrow> byte list \<Rightarrow> nat \<Rightarrow> sds option option" where
  "sdscpylen al s t len = do {
     alloc \<leftarrow> sdsalloc s;
     r \<leftarrow> (if alloc < len then do {
            curlen \<leftarrow> sdslen s;
            sdsMakeRoomFor al s (cast_u 64 (int len - int curlen))
          } else Some (Some s));
     case r of
       None \<Rightarrow> Some None
     | Some s \<Rightarrow> do {
         bs \<leftarrow> mem_read t 0 len;
         s \<leftarrow> sds_write s 0 bs;
         s \<leftarrow> sds_put s len 0;
         s \<leftarrow> sdssetlen s len;
         Some (Some s)
       }
   }"

definition sdscpy :: "allocator \<Rightarrow> sds \<Rightarrow> byte list \<Rightarrow> sds option option" where
  "sdscpy al s t = do { l \<leftarrow> strlen t; sdscpylen al s t l }"

text \<open>The loops of \<open>sdstrim\<close>. \<open>strchr(cset, c)\<close> also finds the terminator of \<open>cset\<close>.\<close>

definition in_cset :: "byte list \<Rightarrow> byte \<Rightarrow> bool" where
  "in_cset cset c \<longleftrightarrow> c = 0 \<or> c \<in> set cset"

fun sdstrim_left :: "byte list \<Rightarrow> byte list \<Rightarrow> nat \<Rightarrow> nat" where
  "sdstrim_left cset [] sp = sp"
| "sdstrim_left cset (c # cs) sp = (if in_cset cset c then sdstrim_left cset cs (sp + 1) else sp)"

fun sdstrim_right :: "byte list \<Rightarrow> byte list \<Rightarrow> nat \<Rightarrow> nat \<Rightarrow> nat" where
  "sdstrim_right cset bs sp 0 = 0"
| "sdstrim_right cset bs sp (Suc ep) = (if Suc ep > sp \<and> in_cset cset (bs ! Suc ep) then sdstrim_right cset bs sp ep else Suc ep)"

definition sdstrim :: "sds \<Rightarrow> byte list \<Rightarrow> sds option" where
  "sdstrim s cset = do {
     n \<leftarrow> sdslen s;
     bs \<leftarrow> sds_read s 0 n;
     let sp = sdstrim_left cset bs 0;
     let ep = (if n = 0 then - 1 else int (sdstrim_right cset bs sp (n - 1)));
     let len = (if int sp > ep then 0 else nat (ep - int sp + 1));
     s \<leftarrow> (if sp \<noteq> 0 then map_option (\<lambda>m. s\<lparr>sds_mem := m\<rparr>) (memmove (sds_mem s) (sds_ptr s) (sds_ptr s + sp) len)
           else Some s);
     s \<leftarrow> sds_put s len 0;
     sdssetlen s len
   }"

text \<open>\<open>start = len+start\<close> is a sum of \<open>size_t\<close> converted back to \<open>int\<close>. An overflow of
  \<open>(end-start)+1\<close> is undefined.\<close>

definition sdsrange :: "sds \<Rightarrow> int \<Rightarrow> int \<Rightarrow> sds option" where
  "sdsrange s start0 end0 = do {
     len \<leftarrow> sdslen s;
     if len = 0 then Some s
     else do {
       let start = (if start0 < 0 then (let v = cast_s 32 (int len + start0) in if v < 0 then 0 else v) else start0);
       let end = (if end0 < 0 then (let v = cast_s 32 (int len + end0) in if v < 0 then 0 else v) else end0);
       newlen \<leftarrow> (if start > end then Some 0
                  else if end - start + 1 > INT32_MAX then None
                  else Some (nat (end - start + 1)));
       let (start, newlen) =
         (if newlen \<noteq> 0
          then if start \<ge> cast_s 32 (int len) then (start, 0)
               else if end \<ge> cast_s 32 (int len)
               then (let end = cast_s 32 (int len - 1) in (start, if start > end then 0 else nat (end - start + 1)))
               else (start, newlen)
          else (0, newlen));
       s \<leftarrow> (if start \<noteq> 0 \<and> newlen \<noteq> 0
             then map_option (\<lambda>m. s\<lparr>sds_mem := m\<rparr>) (memmove (sds_mem s) (sds_ptr s) (sds_ptr s + nat start) newlen)
             else Some s);
       s \<leftarrow> sds_put s newlen 0;
       sdssetlen s newlen
     }
   }"

section \<open>The shape of a string in memory\<close>

text \<open>The header for a type with given \<open>len\<close> and \<open>alloc\<close>, and the string whose bytes after the header
  are \<open>body\<close>. A string of type 5 has no field \<open>alloc\<close>, its capacity is its length.\<close>

definition sds_hdr :: "byte \<Rightarrow> nat \<Rightarrow> nat \<Rightarrow> byte list" where
  "sds_hdr t len alloc = (if t = SDS_TYPE_5 then [word_of_nat (len * 8)]
     else le_bytes (hdr_w t) len @ le_bytes (hdr_w t) alloc @ [t])"

definition mk_sds :: "byte \<Rightarrow> nat \<Rightarrow> nat \<Rightarrow> byte list \<Rightarrow> sds" where
  "mk_sds t len alloc body = \<lparr>sds_mem = sds_hdr t len alloc @ body, sds_ptr = sdsHdrSize t\<rparr>"

definition sds_fits :: "byte \<Rightarrow> nat \<Rightarrow> nat \<Rightarrow> bool" where
  "sds_fits t len alloc \<longleftrightarrow>
     (if t = SDS_TYPE_5 then len < 32 \<and> alloc = len
      else t \<in> {SDS_TYPE_8, SDS_TYPE_16, SDS_TYPE_32, SDS_TYPE_64} \<and> len \<le> alloc \<and> alloc < 256 ^ hdr_w t)"

definition sds_repr :: "sds \<Rightarrow> byte list \<Rightarrow> bool" where
  "sds_repr s str \<longleftrightarrow> (\<exists>t alloc tail. s = mk_sds t (length str) alloc (str @ 0 # tail) \<and>
     sds_fits t (length str) alloc \<and> alloc \<le> length str + length tail)"

named_theorems sds_simps \<open>evaluation of the accesses to a string in its shape\<close>

lemma hdr_w_simps [simp]:
  "hdr_w SDS_TYPE_8 = 1" "hdr_w SDS_TYPE_16 = 2" "hdr_w SDS_TYPE_32 = 4" "hdr_w SDS_TYPE_64 = 8" "hdr_w SDS_TYPE_5 = 0"
  by (simp_all add: hdr_w_def sds_types)

lemma sds_type_simps [simp]:
  "sds_type SDS_TYPE_5 = SDS_TYPE_5" "sds_type SDS_TYPE_8 = SDS_TYPE_8" "sds_type SDS_TYPE_16 = SDS_TYPE_16"
  "sds_type SDS_TYPE_32 = SDS_TYPE_32" "sds_type SDS_TYPE_64 = SDS_TYPE_64"
  by (simp_all add: sds_type_def SDS_TYPE_MASK_def sds_types)

lemma sds_type_distinct [simp]:
  "SDS_TYPE_8 \<noteq> SDS_TYPE_5" "SDS_TYPE_16 \<noteq> SDS_TYPE_5" "SDS_TYPE_32 \<noteq> SDS_TYPE_5" "SDS_TYPE_64 \<noteq> SDS_TYPE_5"
  by (simp_all add: sds_types)

lemma sds_fits_type:
  assumes "sds_fits t len alloc" "t \<noteq> SDS_TYPE_5"
  shows "sds_type t = t" "0 < hdr_w t" "len < 256 ^ hdr_w t" "alloc < 256 ^ hdr_w t" "len \<le> alloc" "sdsHdrSize t = 2 * hdr_w t + 1"
  using assms by (auto simp: sds_fits_def sdsHdrSize_def)

lemma sdsHdrSize_5 [simp]: "sdsHdrSize SDS_TYPE_5 = 1"
  by (simp add: sdsHdrSize_def)

lemma length_sds_hdr: "sds_fits t len alloc \<Longrightarrow> length (sds_hdr t len' alloc') = sdsHdrSize t"
  by (cases "t = SDS_TYPE_5") (auto simp: sds_hdr_def dest: sds_fits_type)

lemma sds_hdr_split:
  assumes "sds_fits t len alloc"
  shows "\<exists>h. sds_hdr t len' alloc' = h @ [if t = SDS_TYPE_5 then word_of_nat (len' * 8) else t] \<and> length h = sdsHdrSize t - 1 \<and> 0 < sdsHdrSize t"
  using sds_fits_type [OF assms] by (cases "t = SDS_TYPE_5") (auto simp: sds_hdr_def)

lemma sds_flags_mk [sds_simps]:
  assumes "sds_fits t len alloc"
  shows "sds_flags (mk_sds t len' alloc' body) = Some (if t = SDS_TYPE_5 then word_of_nat (len' * 8) else t)"
proof -
  obtain h f where h: "sds_hdr t len' alloc' = h @ [f]" "length h = sdsHdrSize t - 1" "0 < sdsHdrSize t"
    "f = (if t = SDS_TYPE_5 then word_of_nat (len' * 8) else t)"
    using sds_hdr_split [OF assms] by blast
  then show ?thesis by (simp add: sds_flags_def mk_sds_def byte_at_def nth_append)
qed

lemma flags_5:
  assumes "len < 32"
  shows "sds_type (word_of_nat (len * 8)) = SDS_TYPE_5" "SDS_TYPE_5_LEN (word_of_nat (len * 8)) = len"
proof -
  have "len \<in> set [0..<32]" using assms by simp
  moreover have "\<forall>n \<in> set [0..<32]. sds_type (word_of_nat (n * 8)) = SDS_TYPE_5 \<and> SDS_TYPE_5_LEN (word_of_nat (n * 8)) = n"
    by code_simp
  ultimately show "sds_type (word_of_nat (len * 8)) = SDS_TYPE_5" "SDS_TYPE_5_LEN (word_of_nat (len * 8)) = len" by blast+
qed

lemma sds_type_flags:
  "sds_fits t len alloc \<Longrightarrow> sds_type (if t = SDS_TYPE_5 then word_of_nat (len * 8) else t) = t"
  using flags_5 by (auto simp: sds_fits_def)

lemma hdr_read_mk:
  assumes "sds_fits t len alloc" "t \<noteq> SDS_TYPE_5"
  shows "hdr_len (hdr_w t) (mk_sds t len' alloc' body) = Some (len' mod 256 ^ hdr_w t)"
    "hdr_alloc (hdr_w t) (mk_sds t len' alloc' body) = Some (alloc' mod 256 ^ hdr_w t)"
proof -
  note f = sds_fits_type [OF assms]
  have "mem_read ([] @ le_bytes (hdr_w t) len' @ le_bytes (hdr_w t) alloc' @ t # body) 0 (hdr_w t) = Some (le_bytes (hdr_w t) len')"
    by (rule mem_read_mid) simp_all
  then show "hdr_len (hdr_w t) (mk_sds t len' alloc' body) = Some (len' mod 256 ^ hdr_w t)"
    using assms(2) f(6) by (simp add: hdr_read_def mk_sds_def sds_hdr_def le_val_le_bytes)
  have "mem_read (le_bytes (hdr_w t) len' @ le_bytes (hdr_w t) alloc' @ t # body) (hdr_w t) (hdr_w t) = Some (le_bytes (hdr_w t) alloc')"
    by (rule mem_read_mid) simp_all
  then show "hdr_alloc (hdr_w t) (mk_sds t len' alloc' body) = Some (alloc' mod 256 ^ hdr_w t)"
    using assms(2) f(6) by (simp add: hdr_read_def mk_sds_def sds_hdr_def le_val_le_bytes)
qed

lemma hdr_write_mk:
  assumes "sds_fits t len alloc" "t \<noteq> SDS_TYPE_5"
  shows "hdr_set_len (hdr_w t) (mk_sds t len' alloc' body) n = Some (mk_sds t n alloc' body)"
    "hdr_set_alloc (hdr_w t) (mk_sds t len' alloc' body) n = Some (mk_sds t len' n body)"
proof -
  note f = sds_fits_type [OF assms]
  have "mem_write ([] @ le_bytes (hdr_w t) len' @ le_bytes (hdr_w t) alloc' @ t # body) 0 (le_bytes (hdr_w t) n) =
     Some ([] @ le_bytes (hdr_w t) n @ le_bytes (hdr_w t) alloc' @ t # body)"
    by (rule mem_write_mid) simp_all
  then show "hdr_set_len (hdr_w t) (mk_sds t len' alloc' body) n = Some (mk_sds t n alloc' body)"
    using assms(2) f(6) by (simp add: hdr_write_def mk_sds_def sds_hdr_def)
  have "mem_write (le_bytes (hdr_w t) len' @ le_bytes (hdr_w t) alloc' @ t # body) (hdr_w t) (le_bytes (hdr_w t) n) =
     Some (le_bytes (hdr_w t) len' @ le_bytes (hdr_w t) n @ t # body)"
    by (rule mem_write_mid) simp_all
  then show "hdr_set_alloc (hdr_w t) (mk_sds t len' alloc' body) n = Some (mk_sds t len' n body)"
    using assms(2) f(6) by (simp add: hdr_write_def mk_sds_def sds_hdr_def)
qed

lemma sdslen_mk [sds_simps]:
  assumes "sds_fits t len alloc"
  shows "sdslen (mk_sds t len alloc body) = Some len"
  using assms sds_type_flags [OF assms] sds_fits_type [OF assms] hdr_read_mk [OF assms] flags_5(2) [of len]
  by (auto simp: sdslen_def sds_flags_mk [OF assms] sds_fits_def)

lemma sdsalloc_mk [sds_simps]:
  assumes "sds_fits t len alloc"
  shows "sdsalloc (mk_sds t len alloc body) = Some alloc"
  using assms sds_type_flags [OF assms] sds_fits_type [OF assms] hdr_read_mk [OF assms] flags_5(2) [of len]
  by (auto simp: sdsalloc_def sds_flags_mk [OF assms] sds_fits_def)

lemma sdsavail_mk [sds_simps]:
  assumes "sds_fits t len alloc"
  shows "sdsavail (mk_sds t len alloc body) = Some (alloc - len)"
proof (cases "t = SDS_TYPE_5")
  case True
  with assms have "len < 32" "alloc = len" by (auto simp: sds_fits_def)
  then show ?thesis
    unfolding sdsavail_def sds_flags_mk [OF assms] using True flags_5 [of len] by simp
next
  case False
  note f = sds_fits_type [OF assms False]
  have w: "(256::nat) ^ hdr_w t \<le> 2 ^ (if t = SDS_TYPE_32 then 32 else 64)"
    using assms False by (auto simp: sds_fits_def power_mult [symmetric])
  have "alloc - len < 2 ^ (if t = SDS_TYPE_32 then 32 else 64)" using f(4) w by linarith
  then have "cast_u (if t = SDS_TYPE_32 then 32 else 64) (int alloc - int len) = alloc - len"
    using cast_u_int [of "alloc - len"] f(5) by (simp add: of_nat_diff)
  then show ?thesis
    using False f by (simp add: sdsavail_def sds_flags_mk [OF assms] hdr_read_mk [OF assms False])
qed

lemma sds_set_flags_mk:
  assumes "sds_fits t len alloc"
  shows "sds_set_flags (mk_sds t len' alloc' body) (if t = SDS_TYPE_5 then word_of_nat (n * 8) else t) =
     Some (mk_sds t (if t = SDS_TYPE_5 then n else len') alloc' body)"
proof (cases "t = SDS_TYPE_5")
  case True
  then show ?thesis by (simp add: sds_set_flags_def mk_sds_def sds_hdr_def byte_put_def)
next
  case False
  note f = sds_fits_type [OF assms False]
  have "byte_put ((le_bytes (hdr_w t) len' @ le_bytes (hdr_w t) alloc') @ t # body) (2 * hdr_w t) t =
      Some ((le_bytes (hdr_w t) len' @ le_bytes (hdr_w t) alloc') @ t # body)"
    by (rule byte_put_mid) simp
  with False f(6) show ?thesis by (simp add: sds_set_flags_def mk_sds_def sds_hdr_def)
qed

lemma sdssetlen_mk [sds_simps]:
  assumes "sds_fits t len alloc"
  shows "sdssetlen (mk_sds t len alloc body) n = Some (mk_sds t n alloc body)"
proof (cases "t = SDS_TYPE_5")
  case True
  have "(SDS_TYPE_5 OR word_of_nat (n * 8)) = (word_of_nat (n * 8) :: byte)" by (simp add: SDS_TYPE_5_def)
  then show ?thesis
    unfolding sdssetlen_def sds_flags_mk [OF assms]
    using True sds_type_flags [OF assms] sds_set_flags_mk [OF assms, of len alloc body n] by simp
next
  case False
  then show ?thesis
    using sds_fits_type [OF assms False] by (simp add: sdssetlen_def sds_flags_mk [OF assms] hdr_write_mk [OF assms])
qed

lemma sdssetalloc_mk [sds_simps]:
  assumes "sds_fits t len alloc"
  shows "sdssetalloc (mk_sds t len alloc' body) n = Some (mk_sds t len (if t = SDS_TYPE_5 then alloc' else n) body)"
proof (cases "t = SDS_TYPE_5")
  case True
  then show ?thesis
    unfolding sdssetalloc_def sds_flags_mk [OF assms] using sds_type_flags [OF assms] by simp
next
  case False
  then show ?thesis
    using sds_fits_type [OF assms False] by (simp add: sdssetalloc_def sds_flags_mk [OF assms] hdr_write_mk [OF assms])
qed

text \<open>Accesses behind the header.\<close>

lemma sds_put_mk [sds_simps]:
  assumes "sds_fits t len0 alloc0" "i < length body"
  shows "sds_put (mk_sds t len alloc body) i b = Some (mk_sds t len alloc (body[i := b]))"
  using assms length_sds_hdr [OF assms(1), of len alloc]
  by (simp add: sds_put_def mk_sds_def byte_put_def list_update_append)

lemma sds_at_mk [sds_simps]:
  assumes "sds_fits t len0 alloc0" "i < length body"
  shows "sds_at (mk_sds t len alloc body) i = Some (body ! i)"
  using assms length_sds_hdr [OF assms(1), of len alloc]
  by (simp add: sds_at_def mk_sds_def byte_at_def nth_append)

lemma sds_read_mk [sds_simps]:
  assumes "sds_fits t len0 alloc0" "i + n \<le> length body"
  shows "sds_read (mk_sds t len alloc body) i n = Some (take n (drop i body))"
  using assms length_sds_hdr [OF assms(1), of len alloc]
  by (simp add: sds_read_def mk_sds_def mem_read_def)

lemma sds_write_mk [sds_simps]:
  assumes "sds_fits t len0 alloc0" "i + length bs \<le> length body"
  shows "sds_write (mk_sds t len alloc body) i bs = Some (mk_sds t len alloc (take i body @ bs @ drop (i + length bs) body))"
  using assms length_sds_hdr [OF assms(1), of len alloc]
  by (simp add: sds_write_def mk_sds_def mem_write_def)

lemma sds_bytes_mk [sds_simps]:
  assumes "sds_fits t len0 alloc0"
  shows "sds_bytes (mk_sds t len alloc body) = body"
  using length_sds_hdr [OF assms, of len alloc] by (simp add: sds_bytes_def mk_sds_def)

lemma sds_block_mk [sds_simps]: "sds_block (mk_sds t len alloc body) t = Some (sds_hdr t len alloc @ body)"
  by (simp add: sds_block_def mk_sds_def)

section \<open>Creation and space\<close>

definition al_grants :: "allocator \<Rightarrow> bool" where
  "al_grants al \<longleftrightarrow> (\<forall>n. al n \<noteq> None)"

text \<open>What an operation that may allocate returns: the null pointer, when the allocator has refused, or a
  string with the given content.\<close>

definition sds_result :: "allocator \<Rightarrow> sds option \<Rightarrow> byte list \<Rightarrow> bool" where
  "sds_result al r str \<longleftrightarrow> (case r of None \<Rightarrow> \<not> al_grants al | Some s \<Rightarrow> sds_repr s str)"

definition SDS_LIMIT :: nat where [vire_limits]: "SDS_LIMIT = 2 ^ 62"

lemma size_t_id: "n < 2 ^ 64 \<Longrightarrow> size_t n = n"
  by (simp add: size_t_def cast_u_int)

definition sds_valid :: "byte \<Rightarrow> bool" where
  "sds_valid t \<longleftrightarrow> t \<in> {SDS_TYPE_5, SDS_TYPE_8, SDS_TYPE_16, SDS_TYPE_32, SDS_TYPE_64}"

lemma sds_fits_valid: "sds_fits t len alloc \<Longrightarrow> sds_valid t"
  by (auto simp: sds_fits_def sds_valid_def split: if_splits)

lemma sds_valid_type:
  assumes "sds_valid t"
  shows "sds_type t = t" "t \<noteq> SDS_TYPE_5 \<Longrightarrow> 0 < hdr_w t" "t \<noteq> SDS_TYPE_5 \<Longrightarrow> sdsHdrSize t = 2 * hdr_w t + 1" "0 < sdsHdrSize t" "sdsHdrSize t \<le> 17"
  using assms by (auto simp: sds_valid_def sdsHdrSize_def)

text \<open>Filling the header of a new block, in the two orders of the code.\<close>

lemma block_split:
  assumes "length m = 2 * w + 1 + k"
  obtains h1 h2 f body where "m = h1 @ h2 @ f # body" "length h1 = w" "length h2 = w" "length body = k"
proof -
  have "drop (2 * w) m = m ! (2 * w) # drop (Suc (2 * w)) m"
    using assms by (intro Cons_nth_drop_Suc [symmetric]) simp
  moreover have "drop w m = take w (drop w m) @ drop (2 * w) m"
    using append_take_drop_id [of w "drop w m"] by (simp add: mult_2)
  ultimately have "m = take w m @ take w (drop w m) @ m ! (2 * w) # drop (Suc (2 * w)) m"
    using append_take_drop_id [of w m] by simp
  then show ?thesis using assms by (intro that) auto
qed

lemma hdr_write_block:
  assumes "length h1 = w" "length h2 = w"
  shows "hdr_set_len w \<lparr>sds_mem = h1 @ h2 @ f # body, sds_ptr = 2 * w + 1\<rparr> n = Some \<lparr>sds_mem = le_bytes w n @ h2 @ f # body, sds_ptr = 2 * w + 1\<rparr>"
    "hdr_set_alloc w \<lparr>sds_mem = h1 @ h2 @ f # body, sds_ptr = 2 * w + 1\<rparr> n = Some \<lparr>sds_mem = h1 @ le_bytes w n @ f # body, sds_ptr = 2 * w + 1\<rparr>"
    "sds_set_flags \<lparr>sds_mem = h1 @ h2 @ f # body, sds_ptr = 2 * w + 1\<rparr> g = Some \<lparr>sds_mem = h1 @ h2 @ g # body, sds_ptr = 2 * w + 1\<rparr>"
    "sds_flags \<lparr>sds_mem = h1 @ h2 @ f # body, sds_ptr = 2 * w + 1\<rparr> = Some f"
proof -
  have "mem_write ([] @ h1 @ h2 @ f # body) 0 (le_bytes w n) = Some ([] @ le_bytes w n @ h2 @ f # body)"
    using assms by (intro mem_write_mid) simp_all
  then show "hdr_set_len w \<lparr>sds_mem = h1 @ h2 @ f # body, sds_ptr = 2 * w + 1\<rparr> n = Some \<lparr>sds_mem = le_bytes w n @ h2 @ f # body, sds_ptr = 2 * w + 1\<rparr>"
    by (simp add: hdr_write_def)
  have "mem_write (h1 @ h2 @ f # body) w (le_bytes w n) = Some (h1 @ le_bytes w n @ f # body)"
    using assms by (intro mem_write_mid) simp_all
  then show "hdr_set_alloc w \<lparr>sds_mem = h1 @ h2 @ f # body, sds_ptr = 2 * w + 1\<rparr> n = Some \<lparr>sds_mem = h1 @ le_bytes w n @ f # body, sds_ptr = 2 * w + 1\<rparr>"
    by (simp add: hdr_write_def)
  have "byte_put ((h1 @ h2) @ f # body) (2 * w) g = Some ((h1 @ h2) @ g # body)"
    using assms by (intro byte_put_mid) simp
  then show "sds_set_flags \<lparr>sds_mem = h1 @ h2 @ f # body, sds_ptr = 2 * w + 1\<rparr> g = Some \<lparr>sds_mem = h1 @ h2 @ g # body, sds_ptr = 2 * w + 1\<rparr>"
    by (simp add: sds_set_flags_def)
  have "byte_at ((h1 @ h2) @ f # body) (2 * w) = Some f"
    using assms by (intro byte_at_mid) simp
  then show "sds_flags \<lparr>sds_mem = h1 @ h2 @ f # body, sds_ptr = 2 * w + 1\<rparr> = Some f"
    by (simp add: sds_flags_def)
qed

lemma fill_header_new:
  assumes "sds_valid t" "t \<noteq> SDS_TYPE_5" "length m = sdsHdrSize t + k"
  shows "do { s \<leftarrow> hdr_set_len (hdr_w t) \<lparr>sds_mem = m, sds_ptr = sdsHdrSize t\<rparr> len; s \<leftarrow> hdr_set_alloc (hdr_w t) s alloc; sds_set_flags s t }
    = Some (mk_sds t len alloc (drop (sdsHdrSize t) m))"
proof -
  note v = sds_valid_type(3) [OF assms(1,2)]
  obtain h1 h2 f body where m: "m = h1 @ h2 @ f # body" "length h1 = hdr_w t" "length h2 = hdr_w t" "length body = k"
    using block_split [of m "hdr_w t" k] assms(3) v by metis
  show ?thesis
    unfolding m(1) v hdr_write_block(1) [OF m(2,3)] Option.bind.simps
      hdr_write_block(2) [OF length_le_bytes m(3)] hdr_write_block(3) [OF length_le_bytes length_le_bytes]
    using m(2,3) assms(2) v by (simp add: mk_sds_def sds_hdr_def)
qed

lemma fill_header_move:
  assumes "sds_valid t" "length m = sdsHdrSize t + k" "t = SDS_TYPE_5 \<Longrightarrow> len < 32"
  shows "do { s \<leftarrow> sds_set_flags \<lparr>sds_mem = m, sds_ptr = sdsHdrSize t\<rparr> t; s \<leftarrow> sdssetlen s len; sdssetalloc s alloc }
    = Some (mk_sds t len alloc (drop (sdsHdrSize t) m))"
proof (cases "t = SDS_TYPE_5")
  case True
  then obtain f body where m: "m = f # body" using assms(2) by (cases m) auto
  have "sds_set_flags \<lparr>sds_mem = m, sds_ptr = 1\<rparr> SDS_TYPE_5 = Some (mk_sds SDS_TYPE_5 0 0 body)"
    by (simp add: m sds_set_flags_def byte_put_def mk_sds_def sds_hdr_def SDS_TYPE_5_def sdsHdrSize_def sds_type_def)
  moreover have "sds_fits SDS_TYPE_5 0 0" "sds_fits SDS_TYPE_5 len len" using assms(3) True by (auto simp: sds_fits_def)
  note sdssetlen_mk [OF this(1)] sdssetalloc_mk [OF this(2)]
  ultimately have "do { s \<leftarrow> sds_set_flags \<lparr>sds_mem = m, sds_ptr = 1\<rparr> SDS_TYPE_5; s \<leftarrow> sdssetlen s len; sdssetalloc s alloc } =
      Some (mk_sds SDS_TYPE_5 len 0 body)"
    by simp
  then show ?thesis using True m by (simp add: mk_sds_def sds_hdr_def)
next
  case False
  note v = sds_valid_type [OF assms(1)]
  obtain h1 h2 f body where m: "m = h1 @ h2 @ f # body" "length h1 = hdr_w t" "length h2 = hdr_w t" "length body = k"
    using block_split [of m "hdr_w t" k] assms(2) v(3) False by metis
  have "sdssetlen \<lparr>sds_mem = h1 @ h2 @ t # body, sds_ptr = 2 * hdr_w t + 1\<rparr> len = Some \<lparr>sds_mem = le_bytes (hdr_w t) len @ h2 @ t # body, sds_ptr = 2 * hdr_w t + 1\<rparr>"
    unfolding sdssetlen_def hdr_write_block(4) [OF m(2,3)] using hdr_write_block(1) [OF m(2,3)] v False by simp
  moreover have "sdssetalloc \<lparr>sds_mem = le_bytes (hdr_w t) len @ h2 @ t # body, sds_ptr = 2 * hdr_w t + 1\<rparr> alloc =
     Some \<lparr>sds_mem = le_bytes (hdr_w t) len @ le_bytes (hdr_w t) alloc @ t # body, sds_ptr = 2 * hdr_w t + 1\<rparr>"
    unfolding sdssetalloc_def hdr_write_block(4) [OF length_le_bytes m(3)] using hdr_write_block(2) [OF length_le_bytes m(3)] v False by simp
  ultimately show ?thesis
    unfolding m(1) v(3) [OF False] hdr_write_block(3) [OF m(2,3)] Option.bind.simps
    using m(2,3) False v(3) by (simp add: mk_sds_def sds_hdr_def)
qed

lemma sdsReqType_fits:
  assumes "n < SDS_LIMIT" "t = sdsReqType n" "len \<le> n"
  shows "sds_valid t" "t \<noteq> SDS_TYPE_5 \<Longrightarrow> sds_fits t len n" "t = SDS_TYPE_5 \<Longrightarrow> n < 32"
  using assms by (auto simp: sdsReqType_def sds_fits_def sds_valid_def vire_limits split: if_splits)

lemma sds_fits_8: "n < 32 \<Longrightarrow> len \<le> n \<Longrightarrow> sds_fits SDS_TYPE_8 len n"
  by (simp add: sds_fits_def)

lemma sds_repr_mk:
  "sds_fits t (length str) alloc \<Longrightarrow> alloc \<le> length str + length tail \<Longrightarrow> sds_repr (mk_sds t (length str) alloc (str @ 0 # tail)) str"
  by (auto simp: sds_repr_def)

text \<open>The body of a string after the content has been written.\<close>

lemma sds_result_mk:
  assumes "body = str @ 0 # tail" "n = length str" "sds_fits t n alloc" "alloc < length body"
  shows "sds_result al (Some (mk_sds t n alloc body)) str"
  using assms by (auto simp: sds_result_def intro!: sds_repr_mk)

lemma length_s_malloc: "s_malloc al n = Some m \<Longrightarrow> length m = n"
  by (auto simp: s_malloc_def)

lemma s_malloc_None: "s_malloc al n = None \<Longrightarrow> \<not> al_grants al"
  by (auto simp: s_malloc_def al_grants_def)

lemma s_realloc_None: "s_realloc al m n = None \<Longrightarrow> \<not> al_grants al"
  by (auto simp: s_realloc_def al_grants_def)

lemma newlen_type:
  assumes "n < SDS_LIMIT"
  defines "t \<equiv> (if sdsReqType n = SDS_TYPE_5 \<and> n = 0 then SDS_TYPE_8 else sdsReqType n)"
  shows "sds_fits t n n" "sds_valid t" "sdsHdrSize t + n + 1 < 2 ^ 64"
proof -
  show f: "sds_fits t n n"
    using sdsReqType_fits [OF assms(1) refl le_refl] sds_fits_8 [of 0 0]
    by (cases "sdsReqType n = SDS_TYPE_5") (auto simp: t_def sds_fits_def)
  show "sds_valid t" using sds_fits_valid [OF f] .
  with assms(1) show "sdsHdrSize t + n + 1 < 2 ^ 64"
    using sds_valid_type(5) [of t] by (simp add: vire_limits)
qed

text \<open>The block after its header has been filled, for both orders and for type 5.\<close>

lemma sdsnewlen_header:
  assumes "sds_fits t n n" "length m = sdsHdrSize t + n + 1"
  shows "(if t = SDS_TYPE_5 then sds_set_flags \<lparr>sds_mem = m, sds_ptr = sdsHdrSize t\<rparr> (t OR word_of_nat (n * 8))
     else do { s \<leftarrow> hdr_set_len (hdr_w t) \<lparr>sds_mem = m, sds_ptr = sdsHdrSize t\<rparr> n; s \<leftarrow> hdr_set_alloc (hdr_w t) s n; sds_set_flags s t })
    = Some (mk_sds t n n (drop (sdsHdrSize t) m))"
proof (cases "t = SDS_TYPE_5")
  case True
  then obtain f body where m: "m = f # body" using assms(2) by (cases m) auto
  have "(SDS_TYPE_5 OR word_of_nat (n * 8)) = (word_of_nat (n * 8) :: byte)" by (simp add: SDS_TYPE_5_def)
  then show ?thesis using True m by (simp add: sds_set_flags_def byte_put_def mk_sds_def sds_hdr_def)
next
  case False
  then show ?thesis using fill_header_new [of t m "n + 1" n n] sds_fits_valid [OF assms(1)] assms(2) by simp
qed

lemma sdsnewlen_ok:
  assumes "n < SDS_LIMIT" "n \<le> length src"
  shows "\<exists>r. sdsnewlen al (Some src) n = Some r \<and> sds_result al r (take n src)"
proof -
  define t where "t = (if sdsReqType n = SDS_TYPE_5 \<and> n = 0 then SDS_TYPE_8 else sdsReqType n)"
  note t = newlen_type [OF assms(1), folded t_def]
  have total: "size_t (sdsHdrSize t + n + 1) = sdsHdrSize t + n + 1" using size_t_id t(3) .
  show ?thesis
  proof (cases "s_malloc al (sdsHdrSize t + n + 1)")
    case None
    then show ?thesis unfolding sdsnewlen_def Let_def t_def [symmetric] total
      by (auto simp: sds_result_def dest: s_malloc_None)
  next
    case (Some m)
    note lm = length_s_malloc [OF Some]
    let ?b = "drop (sdsHdrSize t) m"
    have lb: "length ?b = n + 1" using lm by simp
    let ?b' = "if n \<noteq> 0 then take n src @ drop n ?b else ?b"
    have w: "(if n \<noteq> 0 then do { bs \<leftarrow> mem_read src 0 n; sds_write (mk_sds t n n ?b) 0 bs } else Some (mk_sds t n n ?b))
        = Some (mk_sds t n n ?b')"
      using assms(2) lb by (simp add: mem_read_def sds_write_mk [OF t(1)])
    have lb': "length ?b' = n + 1" using lb assms(2) by auto
    have "?b'[n := 0] = take n src @ 0 # []"
    proof (cases n)
      case 0
      then show ?thesis using lb by (cases ?b) auto
    next
      case (Suc k)
      have "length (drop n ?b) = 1" using lb by simp
      then obtain x where "drop n ?b = [x]" by (metis One_nat_def length_0_conv length_Suc_conv)
      moreover have "length (take n src) = n" using assms(2) by simp
      ultimately show ?thesis using Suc by (simp add: list_update_append)
    qed
    then have "sds_result al (Some (mk_sds t n n (?b'[n := 0]))) (take n src)"
      using t(1) assms(2) lb' by (intro sds_result_mk) auto
    moreover have "sdsnewlen al (Some src) n = Some (Some (mk_sds t n n (?b'[n := 0])))"
      using lb' by (simp only: sdsnewlen_def Let_def t_def [symmetric] total Some option.case option.distinct if_False
        sdsnewlen_header [OF t(1) lm] Option.bind.simps w sds_put_mk [OF t(1)] less_add_one)
    ultimately show ?thesis by blast
  qed
qed

lemma sdsnewlen_zero:
  assumes "n < SDS_LIMIT" "al_grants al"
  shows "\<exists>s. sdsnewlen al None n = Some (Some s) \<and> sds_repr s (replicate n 0)"
proof -
  define t where "t = (if sdsReqType n = SDS_TYPE_5 \<and> n = 0 then SDS_TYPE_8 else sdsReqType n)"
  note t = newlen_type [OF assms(1), folded t_def]
  have total: "size_t (sdsHdrSize t + n + 1) = sdsHdrSize t + n + 1" using size_t_id t(3) .
  obtain m where m: "s_malloc al (sdsHdrSize t + n + 1) = Some m" using s_malloc_None assms(2) by fastforce
  have "drop (sdsHdrSize t) (replicate (sdsHdrSize t + n + 1) (0::byte)) = replicate (n + 1) 0"
    by (metis add.assoc add_diff_cancel_left' drop_replicate)
  then have "sdsnewlen al None n = Some (Some (mk_sds t n n ((replicate (n + 1) 0)[n := 0])))"
    unfolding sdsnewlen_def Let_def t_def [symmetric] total m option.case simp_thms if_True
      sdsnewlen_header [OF t(1) length_replicate] Option.bind.simps
    using sds_put_mk [OF t(1), of n "replicate (n + 1) 0"] by simp
  moreover have "(replicate (n + 1) (0::byte))[n := 0] = replicate n 0 @ [0]"
    by (metis list_update_id replicate_append_same Suc_eq_plus1 nth_replicate lessI replicate_Suc)
  ultimately show ?thesis
    using sds_repr_mk [of t "replicate n 0" n "[]"] t(1) by simp
qed

lemma drealloc_hdr:
  "length h = k \<Longrightarrow> drealloc f (h @ b) (k + n) = h @ drealloc (\<lambda>i. f (i + k)) b n"
proof -
  assume k: "length h = k"
  have "map f [k + length b..<k + n] = map (\<lambda>i. f (i + k)) [length b..<n]"
    by (rule nth_equalityI) (auto simp: ac_simps)
  with k show ?thesis by (simp add: drealloc_def)
qed

lemma drealloc_prefix:
  assumes "length str + 1 \<le> n"
  obtains tail' where "drealloc f (str @ z # tail) n = str @ z # tail'" "length str + 1 + length tail' = n"
proof -
  have "take n (str @ z # tail) = str @ z # take (n - length str - 1) tail"
    using assms by (simp add: take_Cons' )
  then have "drealloc f (str @ z # tail) n = str @ z # (take (n - length str - 1) tail @ map f [length str + 1 + length tail..<n])"
    by (simp add: drealloc_def)
  moreover have "length (drealloc f (str @ z # tail) n) = n" by simp
  ultimately show ?thesis by (intro that) auto
qed

text \<open>A string whose content is followed by any byte \<open>z\<close> instead of the terminator, as it is within an
  operation, and such a string with room for \<open>n\<close> more bytes.\<close>

definition sds_open :: "byte \<Rightarrow> sds \<Rightarrow> byte list \<Rightarrow> bool" where
  "sds_open z s str \<longleftrightarrow> (\<exists>t alloc tail. s = mk_sds t (length str) alloc (str @ z # tail) \<and>
     sds_fits t (length str) alloc \<and> alloc \<le> length str + length tail)"

definition sds_room :: "byte \<Rightarrow> sds \<Rightarrow> byte list \<Rightarrow> nat \<Rightarrow> bool" where
  "sds_room z s str n \<longleftrightarrow> (\<exists>t alloc tail. s = mk_sds t (length str) alloc (str @ z # tail) \<and>
     sds_fits t (length str) alloc \<and> alloc \<le> length str + length tail \<and> length str + n \<le> alloc)"

lemma sds_roomI:
  "sds_fits t (length str) alloc \<Longrightarrow> alloc \<le> length str + length tail \<Longrightarrow> length str + n \<le> alloc \<Longrightarrow>
   sds_room z (mk_sds t (length str) alloc (str @ z # tail)) str n"
  unfolding sds_room_def by blast

lemma sds_open_repr: "sds_open 0 s str \<longleftrightarrow> sds_repr s str"
  by (simp add: sds_open_def sds_repr_def)

lemma realloc_step:
  assumes "sds_fits t (length str) alloc" "sds_fits t (length str) newlen" "length str \<le> newlen"
    "s_realloc al (sds_hdr t (length str) alloc @ str @ z # tail) (sdsHdrSize t + newlen + 1) = Some m"
  shows "\<exists>tail'. sdssetalloc \<lparr>sds_mem = m, sds_ptr = sdsHdrSize t\<rparr> newlen =
      Some (mk_sds t (length str) newlen (str @ z # tail')) \<and> newlen = length str + length tail'"
proof -
  obtain f where "m = drealloc f (sds_hdr t (length str) alloc @ str @ z # tail) (sdsHdrSize t + (newlen + 1))"
    using assms(4) by (auto simp: s_realloc_def)
  then have m: "m = sds_hdr t (length str) alloc @ drealloc (\<lambda>i. f (i + sdsHdrSize t)) (str @ z # tail) (newlen + 1)"
    by (simp only: drealloc_hdr [OF length_sds_hdr [OF assms(1)]])
  obtain tail' where tail': "drealloc (\<lambda>i. f (i + sdsHdrSize t)) (str @ z # tail) (newlen + 1) = str @ z # tail'"
    "length str + 1 + length tail' = newlen + 1"
    using drealloc_prefix [of str "newlen + 1"] assms(3) by (metis add_le_mono1)
  have "\<lparr>sds_mem = m, sds_ptr = sdsHdrSize t\<rparr> = mk_sds t (length str) alloc (str @ z # tail')"
    using m tail' by (simp add: mk_sds_def)
  moreover have "mk_sds t (length str) (if t = SDS_TYPE_5 then alloc else newlen) (str @ z # tail') = mk_sds t (length str) newlen (str @ z # tail')"
    by (simp add: mk_sds_def sds_hdr_def)
  ultimately show ?thesis
    using sdssetalloc_mk [OF assms(1), of alloc "str @ z # tail'" newlen] tail'(2) by auto
qed

lemma malloc_step:
  assumes "sds_valid t" "length str \<le> newlen" "t = SDS_TYPE_5 \<Longrightarrow> length str < 32"
    "s_malloc al (sdsHdrSize t + newlen + 1) = Some m"
  shows "\<exists>tail'. do {
       s \<leftarrow> sds_write \<lparr>sds_mem = m, sds_ptr = sdsHdrSize t\<rparr> 0 (str @ [z]);
       s \<leftarrow> sds_set_flags s t;
       s \<leftarrow> sdssetlen s (length str);
       sdssetalloc s newlen
     } = Some (mk_sds t (length str) newlen (str @ z # tail')) \<and> newlen = length str + length tail'"
proof -
  have lm: "length m = sdsHdrSize t + newlen + 1" using length_s_malloc [OF assms(4)] .
  let ?m = "take (sdsHdrSize t) m @ (str @ [z]) @ drop (sdsHdrSize t + length (str @ [z])) m"
  let ?tail = "drop (sdsHdrSize t + length (str @ [z])) m"
  have "sds_write \<lparr>sds_mem = m, sds_ptr = sdsHdrSize t\<rparr> 0 (str @ [z]) = Some \<lparr>sds_mem = ?m, sds_ptr = sdsHdrSize t\<rparr>"
    using lm assms(2) by (simp add: sds_write_def mem_write_def)
  moreover have "length ?m = sdsHdrSize t + (newlen + 1)" "drop (sdsHdrSize t) ?m = str @ z # ?tail" using lm assms(2) by auto
  moreover have "newlen = length str + length ?tail" using lm assms(2) by simp
  ultimately show ?thesis
    using fill_header_move [OF assms(1), of ?m "newlen + 1" "length str" newlen] assms(3) by auto
qed

lemma sdsMakeRoomFor_open:
  assumes "sds_open z s str" "length str + n < SDS_LIMIT div 4"
  shows "\<exists>r. sdsMakeRoomFor al s n = Some r \<and> (case r of None \<Rightarrow> \<not> al_grants al | Some s' \<Rightarrow> sds_room z s' str n)"
proof -
  obtain t alloc tail where s: "s = mk_sds t (length str) alloc (str @ z # tail)" "sds_fits t (length str) alloc"
    "alloc \<le> length str + length tail" using assms(1) by (auto simp: sds_open_def)
  show ?thesis
  proof (cases "n \<le> alloc - length str")
    case True
    have "length str \<le> alloc" using s(2) by (auto simp: sds_fits_def split: if_splits)
    with True s have "sds_room z s str n" by (simp add: sds_roomI)
    with True s show ?thesis
      by (intro exI [of _ "Some s"]) (simp add: sdsMakeRoomFor_def sdsavail_mk sds_flags_mk)
  next
    case False
    define newlen where "newlen = (if length str + n < SDS_MAX_PREALLOC then (length str + n) * 2 else length str + n + SDS_MAX_PREALLOC)"
    have nl: "length str + n \<le> newlen" "newlen < SDS_LIMIT" "newlen < 2 ^ 63"
      using assms(2) by (auto simp: newlen_def vire_limits SDS_MAX_PREALLOC_def)
    have sz: "size_t (length str + n) = length str + n"
      "(if length str + n < SDS_MAX_PREALLOC then size_t ((length str + n) * 2) else size_t (length str + n + SDS_MAX_PREALLOC)) = newlen"
      using assms(2) by (auto simp: newlen_def vire_limits SDS_MAX_PREALLOC_def intro!: size_t_id)
    define t' where "t' = (if sdsReqType newlen = SDS_TYPE_5 then SDS_TYPE_8 else sdsReqType newlen)"
    have fit: "sds_fits t' (length str) newlen"
      using sdsReqType_fits [OF nl(2) refl, of "length str"] nl(1) sds_fits_8 [of newlen "length str"] by (auto simp: t'_def)
    have v: "sds_valid t'" "t' \<noteq> SDS_TYPE_5" using sds_fits_valid [OF fit] by (auto simp: t'_def)
    have tot: "size_t (sdsHdrSize t' + newlen + 1) = sdsHdrSize t' + newlen + 1"
      using sds_valid_type(5) [OF v(1)] nl(3) by (intro size_t_id) simp
    have room: "sds_room z (mk_sds t' (length str) newlen (str @ z # tail')) str n" if "newlen = length str + length tail'" for tail'
      using fit that nl(1) by (intro sds_roomI) auto
    have rd: "sds_read (mk_sds t (length str) alloc (str @ z # tail)) 0 (length str + 1) = Some (str @ [z])"
      using s(2) by (subst sds_read_mk [OF s(2)]) auto
    note unf = s(1) sdsMakeRoomFor_def sdsavail_mk [OF s(2)] sds_flags_mk [OF s(2)] sds_type_flags [OF s(2)]
      Option.bind.simps Let_def sdslen_mk [OF s(2)] sz t'_def [symmetric] tot sds_block_mk rd
    show ?thesis
    proof (cases "t = t'")
      case True
      show ?thesis
      proof (cases "s_realloc al (sds_hdr t' (length str) alloc @ str @ z # tail) (sdsHdrSize t' + newlen + 1)")
        case None
        with False True s_realloc_None show ?thesis unfolding unf by auto
      next
        case (Some m)
        obtain tail' where "sdssetalloc \<lparr>sds_mem = m, sds_ptr = sdsHdrSize t'\<rparr> newlen = Some (mk_sds t' (length str) newlen (str @ z # tail'))"
          "newlen = length str + length tail'"
          using realloc_step [OF _ fit _ Some] s(2) True nl(1) by auto
        with False True Some room show ?thesis unfolding unf by auto
      qed
    next
      case dif: False
      show ?thesis
      proof (cases "s_malloc al (sdsHdrSize t' + newlen + 1)")
        case None
        with False dif s_malloc_None show ?thesis unfolding unf by auto
      next
        case (Some m)
        obtain tail' where m: "do {
            s \<leftarrow> sds_write \<lparr>sds_mem = m, sds_ptr = sdsHdrSize t'\<rparr> 0 (str @ [z]);
            s \<leftarrow> sds_set_flags s t'; s \<leftarrow> sdssetlen s (length str); sdssetalloc s newlen
          } = Some (mk_sds t' (length str) newlen (str @ z # tail'))"
          "newlen = length str + length tail'"
          using malloc_step [OF v(1) _ _ Some, of str] v(2) nl(1) by auto
        have "do {
            s \<leftarrow> sds_write \<lparr>sds_mem = m, sds_ptr = sdsHdrSize t'\<rparr> 0 (str @ [z]);
            s \<leftarrow> sds_set_flags s t'; s \<leftarrow> sdssetlen s (length str); s \<leftarrow> sdssetalloc s newlen; Some (Some s)
          } = Some (Some (mk_sds t' (length str) newlen (str @ z # tail')))"
          using arg_cong [OF m(1), of "\<lambda>x. x \<bind> (\<lambda>s. Some (Some s))"] by simp
        with False dif Some room [OF m(2)] show ?thesis unfolding unf by auto
      qed
    qed
  qed
qed

lemmas sdsMakeRoomFor_ok = sdsMakeRoomFor_open [of 0, unfolded sds_open_repr]

lemma sdsRemoveFreeSpace_ok:
  assumes "sds_repr s str" "length str < SDS_LIMIT"
  shows "\<exists>r. sdsRemoveFreeSpace al s = Some r \<and> sds_result al r str \<and> (\<forall>s'. r = Some s' \<longrightarrow> sdsavail s' = Some 0)"
proof -
  obtain t alloc tail where s: "s = mk_sds t (length str) alloc (str @ 0 # tail)" "sds_fits t (length str) alloc"
    using assms(1) by (auto simp: sds_repr_def)
  define t' where "t' = sdsReqType (length str)"
  have fit: "sds_fits t' (length str) (length str)"
    using sdsReqType_fits [OF assms(2) t'_def le_refl] by (cases "t' = SDS_TYPE_5") (auto simp: sds_fits_def)
  have v: "sds_valid t'" using sds_fits_valid [OF fit] .
  have tot: "size_t (sdsHdrSize t' + length str + 1) = sdsHdrSize t' + length str + 1"
    using sds_valid_type(5) [OF v] assms(2) by (intro size_t_id) (simp add: vire_limits)
  have rd: "sds_read (mk_sds t (length str) alloc (str @ 0 # tail)) 0 (length str + 1) = Some (str @ [0])"
    by (subst sds_read_mk [OF s(2)]) auto
  have fin: "sds_result al (Some (mk_sds t' (length str) (length str) (str @ 0 # tail'))) str \<and>
      sdsavail (mk_sds t' (length str) (length str) (str @ 0 # tail')) = Some 0" for tail'
    using fit sdsavail_mk [OF fit] by (auto simp: sds_result_def intro: sds_repr_mk)
  note unf = s(1) sdsRemoveFreeSpace_def sds_flags_mk [OF s(2)] sds_type_flags [OF s(2)]
    Option.bind.simps Let_def sdslen_mk [OF s(2)] t'_def [symmetric] tot sds_block_mk rd
  show ?thesis
  proof (cases "t = t'")
    case True
    show ?thesis
    proof (cases "s_realloc al (sds_hdr t' (length str) alloc @ str @ 0 # tail) (sdsHdrSize t' + length str + 1)")
      case None
      with True s_realloc_None show ?thesis unfolding unf by (auto simp: sds_result_def)
    next
      case (Some m)
      obtain tail' where "sdssetalloc \<lparr>sds_mem = m, sds_ptr = sdsHdrSize t'\<rparr> (length str) = Some (mk_sds t' (length str) (length str) (str @ 0 # tail'))"
        using realloc_step [OF _ fit le_refl Some] s(2) True by blast
      with True Some fin show ?thesis unfolding unf by simp
    qed
  next
    case dif: False
    show ?thesis
    proof (cases "s_malloc al (sdsHdrSize t' + length str + 1)")
      case None
      with dif s_malloc_None show ?thesis unfolding unf by (auto simp: sds_result_def)
    next
      case (Some m)
      obtain tail' where m: "do {
          s \<leftarrow> sds_write \<lparr>sds_mem = m, sds_ptr = sdsHdrSize t'\<rparr> 0 (str @ [0]);
          s \<leftarrow> sds_set_flags s t'; s \<leftarrow> sdssetlen s (length str); sdssetalloc s (length str)
        } = Some (mk_sds t' (length str) (length str) (str @ 0 # tail'))"
        using malloc_step [OF v le_refl _ Some] sdsReqType_fits(3) [OF assms(2) t'_def le_refl] by blast
      have "do {
          s \<leftarrow> sds_write \<lparr>sds_mem = m, sds_ptr = sdsHdrSize t'\<rparr> 0 (str @ [0]);
          s \<leftarrow> sds_set_flags s t'; s \<leftarrow> sdssetlen s (length str); s \<leftarrow> sdssetalloc s (length str); Some (Some s)
        } = Some (Some (mk_sds t' (length str) (length str) (str @ 0 # tail')))"
        using arg_cong [OF m, of "\<lambda>x. x \<bind> (\<lambda>s. Some (Some s))"] by simp
      with dif Some fin show ?thesis unfolding unf by simp
    qed
  qed
qed

section \<open>Editing\<close>

text \<open>Writing behind the content of a string that has room, and setting the new length.\<close>

lemma room_fits:
  "sds_fits t len alloc \<Longrightarrow> len \<le> n \<Longrightarrow> n \<le> alloc \<Longrightarrow> sds_fits t n alloc"
  by (auto simp: sds_fits_def split: if_splits)

lemma sds_reprE:
  assumes "sds_repr s str"
  obtains t alloc tail where "s = mk_sds t (length str) alloc (str @ 0 # tail)" "sds_fits t (length str) alloc"
    "alloc \<le> length str + length tail" "length str \<le> alloc"
  using assms by (auto simp: sds_repr_def sds_fits_def split: if_splits)

lemma sds_len_repr: "sds_repr s str \<Longrightarrow> sdslen s = Some (length str)"
  by (auto elim!: sds_reprE simp: sdslen_mk)

lemma sds_bytes_repr: "sds_repr s str \<Longrightarrow> \<exists>tail. sds_bytes s = str @ 0 # tail"
  by (auto elim!: sds_reprE simp: sds_bytes_mk)

lemma write_end:
  assumes "length bs = n" "n \<le> length tail"
  shows "take (length str) (str @ 0 # tail) @ bs @ drop (length str + length bs) (str @ 0 # tail) = str @ bs @ drop n (0 # tail)"
  using assms by simp

lemma put_end: "n < length xs \<Longrightarrow> i = length ys \<Longrightarrow> (ys @ drop n xs)[i := 0] = ys @ 0 # drop (Suc n) xs"
  by (simp add: list_update_append Cons_nth_drop_Suc [symmetric])

lemma sds_repr_setlen:
  assumes "sds_fits t len alloc" "n = length str" "n \<le> alloc" "alloc \<le> length str + length tail"
  shows "sds_repr (mk_sds t n alloc (str @ 0 # tail)) str"
proof -
  let ?alloc = "if t = SDS_TYPE_5 then n else alloc"
  have "sds_fits t n ?alloc" using assms(1,3) by (auto simp: sds_fits_def split: if_splits)
  moreover have "mk_sds t n alloc (str @ 0 # tail) = mk_sds t n ?alloc (str @ 0 # tail)" by (simp add: mk_sds_def sds_hdr_def)
  ultimately show ?thesis using assms(2,4) sds_repr_mk [of t str ?alloc tail] by auto
qed

lemma sdscatlen_ok:
  assumes "sds_repr s str" "n \<le> length t" "length str + n < SDS_LIMIT div 4"
  shows "\<exists>r. sdscatlen al s t n = Some r \<and> sds_result al r (str @ take n t)"
proof -
  obtain r where r: "sdsMakeRoomFor al s n = Some r" "case r of None \<Rightarrow> \<not> al_grants al | Some s' \<Rightarrow> sds_room 0 s' str n"
    using sdsMakeRoomFor_ok [OF assms(1,3)] by blast
  show ?thesis
  proof (cases r)
    case None
    with r show ?thesis by (simp add: sdscatlen_def sds_len_repr [OF assms(1)] sds_result_def)
  next
    case (Some s')
    then obtain ty alloc tail where s': "s' = mk_sds ty (length str) alloc (str @ 0 # tail)" "sds_fits ty (length str) alloc"
      "alloc \<le> length str + length tail" "length str + n \<le> alloc" using r(2) by (auto simp: sds_room_def)
    have sz: "size_t (length str + n) = length str + n" using assms(3) by (intro size_t_id) (simp add: vire_limits)
    have n: "length (take n t) = n" "n \<le> length tail" using assms(2) s'(3,4) by auto
    let ?b = "str @ take n t @ drop n (0 # tail)"
    have w: "sds_write s' (length str) (take n t) = Some (mk_sds ty (length str) alloc ?b)"
      using sds_write_mk [OF s'(2), of "length str" "take n t" "str @ 0 # tail"] write_end [OF n] n by (simp add: s'(1))
    have f: "sds_fits ty (length str + n) alloc" using room_fits [OF s'(2)] s'(4) by simp
    have b: "?b[length str + n := 0] = (str @ take n t) @ 0 # drop (Suc n) (0 # tail)"
      using put_end [of n "0 # tail" "length str + n" "str @ take n t"] n by simp
    have "sdscatlen al s t n = Some (Some (mk_sds ty (length str + n) alloc (?b[length str + n := 0])))"
      using r(1) Some assms(2) n w sz sdssetlen_mk [OF s'(2)] sds_put_mk [OF f, of "length str + n" ?b]
      by (simp add: sdscatlen_def sds_len_repr [OF assms(1)] mem_read_def)
    moreover have "sds_result al (Some (mk_sds ty (length str + n) alloc (?b[length str + n := 0]))) (str @ take n t)"
      by (rule sds_result_mk [OF b _ f]) (use n s'(3) in auto)
    ultimately show ?thesis by blast
  qed
qed

lemma strlen_Some: "0 \<notin> set cs \<Longrightarrow> strlen (cs @ 0 # rest) = Some (length cs)"
  by (induction cs) auto

lemma sdscat_ok:
  assumes "sds_repr s str" "0 \<notin> set cs" "length str + length cs < SDS_LIMIT div 4"
  shows "\<exists>r. sdscat al s (cs @ 0 # rest) = Some r \<and> sds_result al r (str @ cs)"
  using sdscatlen_ok [OF assms(1), of "length cs" "cs @ 0 # rest" al] assms(3)
  by (simp add: sdscat_def strlen_Some [OF assms(2)])

lemma sdscatsds_ok:
  assumes "sds_repr s str" "sds_repr t cs" "length str + length cs < SDS_LIMIT div 4"
  shows "\<exists>r. sdscatsds al s t = Some r \<and> sds_result al r (str @ cs)"
proof -
  obtain tail where "sds_bytes t = cs @ 0 # tail" using sds_bytes_repr [OF assms(2)] by blast
  then show ?thesis
    using sdscatlen_ok [OF assms(1), of "length cs" "sds_bytes t" al] assms(3)
    by (simp add: sdscatsds_def sds_len_repr [OF assms(2)])
qed

lemma sdsdup_ok:
  assumes "sds_repr s str" "length str < SDS_LIMIT"
  shows "\<exists>r. sdsdup al s = Some r \<and> sds_result al r str"
proof -
  obtain tail where "sds_bytes s = str @ 0 # tail" using sds_bytes_repr [OF assms(1)] by blast
  then show ?thesis
    using sdsnewlen_ok [OF assms(2), of "sds_bytes s" al] by (simp add: sdsdup_def sds_len_repr [OF assms(1)])
qed

lemma sdsgrowzero_ok:
  assumes "sds_repr s str" "n < SDS_LIMIT div 4"
  shows "\<exists>r. sdsgrowzero al s n = Some r \<and> sds_result al r (str @ replicate (n - length str) 0)"
proof (cases "n \<le> length str")
  case True
  with assms show ?thesis by (simp add: sdsgrowzero_def sds_len_repr sds_result_def)
next
  case False
  define k where "k = n - length str"
  have k: "n = length str + k" "k \<noteq> 0" using False by (auto simp: k_def)
  obtain r where r: "sdsMakeRoomFor al s k = Some r" "case r of None \<Rightarrow> \<not> al_grants al | Some s' \<Rightarrow> sds_room 0 s' str k"
    using sdsMakeRoomFor_ok [OF assms(1)] assms(2) k by blast
  show ?thesis
  proof (cases r)
    case None
    with r False k show ?thesis by (simp add: sdsgrowzero_def sds_len_repr [OF assms(1)] sds_result_def)
  next
    case (Some s')
    then obtain ty alloc tail where s': "s' = mk_sds ty (length str) alloc (str @ 0 # tail)" "sds_fits ty (length str) alloc"
      "alloc \<le> length str + length tail" "length str + k \<le> alloc" using r(2) by (auto simp: sds_room_def)
    have lt: "k \<le> length tail" using s'(3,4) by simp
    let ?z = "replicate (k + 1) (0 :: byte)"
    have b: "take (length str) (str @ 0 # tail) @ ?z @ drop (length str + length ?z) (str @ 0 # tail) =
        (str @ replicate k 0) @ 0 # drop k tail"
      using lt by (simp add: replicate_app_Cons_same)
    have w: "sds_write s' (length str) ?z = Some (mk_sds ty (length str) alloc ((str @ replicate k 0) @ 0 # drop k tail))"
      using sds_write_mk [OF s'(2), of "length str" ?z "str @ 0 # tail"] lt unfolding b s'(1) by simp
    have f: "sds_fits ty (length str + k) alloc" using room_fits [OF s'(2)] s'(4) by simp
    have "sdsgrowzero al s n = Some (Some (mk_sds ty (length str + k) alloc ((str @ replicate k 0) @ 0 # drop k tail)))"
      using r(1) Some k w sdssetlen_mk [OF s'(2)] by (simp add: sdsgrowzero_def sds_len_repr [OF assms(1)])
    moreover have "sds_result al (Some (mk_sds ty (length str + k) alloc ((str @ replicate k 0) @ 0 # drop k tail))) (str @ replicate k 0)"
      by (rule sds_result_mk [OF refl _ f]) (use lt s'(3) in auto)
    ultimately show ?thesis using k by simp
  qed
qed

lemma sdscpylen_room:
  assumes "sds_repr s str" "n < SDS_LIMIT div 4" "sdsalloc s = Some alloc"
  shows "\<exists>r. (if alloc < n then sdsMakeRoomFor al s (cast_u 64 (int n - int (length str))) else Some (Some s)) = Some r \<and>
    (case r of None \<Rightarrow> \<not> al_grants al | Some s' \<Rightarrow> sds_room 0 s' str (n - length str))"
proof -
  obtain ty tail where s: "s = mk_sds ty (length str) alloc (str @ 0 # tail)" "sds_fits ty (length str) alloc"
    "alloc \<le> length str + length tail" "length str \<le> alloc"
    using assms(1,3) by (elim sds_reprE) (simp add: sdsalloc_mk)
  show ?thesis
  proof (cases "alloc < n")
    case True
    with s(4) assms(2) have "cast_u 64 (int n - int (length str)) = n - length str"
      by (intro cast_u_sub) (auto simp: vire_limits)
    then show ?thesis
      using sdsMakeRoomFor_ok [OF assms(1), of "n - length str" al] True s(4) assms(2) by simp
  next
    case False
    then have "sds_room 0 s str (n - length str)" unfolding s(1) using s(2-4) by (intro sds_roomI) auto
    with False show ?thesis by simp
  qed
qed

lemma sdscpylen_ok:
  assumes "sds_repr s str" "n \<le> length t" "n < SDS_LIMIT div 4"
  shows "\<exists>r. sdscpylen al s t n = Some r \<and> sds_result al r (take n t)"
proof -
  obtain alloc where a: "sdsalloc s = Some alloc" using assms(1) by (elim sds_reprE) (simp add: sdsalloc_mk)
  obtain r where r: "(if alloc < n then sdsMakeRoomFor al s (cast_u 64 (int n - int (length str))) else Some (Some s)) = Some r"
    "case r of None \<Rightarrow> \<not> al_grants al | Some s' \<Rightarrow> sds_room 0 s' str (n - length str)"
    using sdscpylen_room [OF assms(1,3) a] by blast
  have unf: "sdscpylen al s t n = (case r of None \<Rightarrow> Some None | Some s \<Rightarrow> do {
         bs \<leftarrow> mem_read t 0 n; s \<leftarrow> sds_write s 0 bs; s \<leftarrow> sds_put s n 0; s \<leftarrow> sdssetlen s n; Some (Some s) })"
    unfolding sdscpylen_def a sds_len_repr [OF assms(1)] Option.bind.simps r(1) ..
  show ?thesis
  proof (cases r)
    case None
    with r show ?thesis by (simp add: unf sds_result_def)
  next
    case (Some s')
    then obtain ty alloc tail where s': "s' = mk_sds ty (length str) alloc (str @ 0 # tail)" "sds_fits ty (length str) alloc"
      "alloc \<le> length str + length tail" "n \<le> alloc" using r(2) by (auto simp: sds_room_def)
    have n: "length (take n t) = n" using assms(2) by simp
    let ?body = "str @ 0 # tail" 
    have nb: "n < length ?body" using s'(3,4) by simp
    have w: "sds_write s' 0 (take n t) = Some (mk_sds ty (length str) alloc (take n t @ drop n ?body))"
      using sds_write_mk [OF s'(2), of 0 "take n t" ?body] n nb by (simp add: s'(1))
    have b: "(take n t @ drop n ?body)[n := 0] = take n t @ 0 # drop (Suc n) ?body"
      by (rule put_end [OF nb n [symmetric]])
    have p: "sds_put (mk_sds ty (length str) alloc (take n t @ drop n ?body)) n 0 = Some (mk_sds ty (length str) alloc (take n t @ 0 # drop (Suc n) ?body))"
      using sds_put_mk [OF s'(2), of n "take n t @ drop n ?body" _ _ 0] b nb n by simp
    have "sdscpylen al s t n = Some (Some (mk_sds ty n alloc (take n t @ 0 # drop (Suc n) ?body)))"
      using Some assms(2) w p sdssetlen_mk [OF s'(2)] by (simp add: unf mem_read_def)
    moreover have "sds_repr (mk_sds ty n alloc (take n t @ 0 # drop (Suc n) ?body)) (take n t)"
      by (rule sds_repr_setlen [OF s'(2)]) (use nb s' assms(2) in auto)
    ultimately show ?thesis by (auto simp: sds_result_def)
  qed
qed

lemma sdsclear_ok: "sds_repr s str \<Longrightarrow> \<exists>s'. sdsclear s = Some s' \<and> sds_repr s' []"
proof (elim sds_reprE)
  fix t alloc tail assume s: "s = mk_sds t (length str) alloc (str @ 0 # tail)" "sds_fits t (length str) alloc"
    "alloc \<le> length str + length tail" "length str \<le> alloc"
  let ?b = "(str @ 0 # tail)[0 := 0]"
  have "sdsclear s = Some (mk_sds t 0 alloc ?b)"
    using sdssetlen_mk [OF s(2)] sds_put_mk [OF s(2), of 0 "str @ 0 # tail"] by (simp add: sdsclear_def s(1))
  moreover have "?b = [] @ 0 # tl (str @ 0 # tail)" by (cases str) auto
  then have "sds_repr (mk_sds t 0 alloc ?b) []"
    by (rule ssubst) (rule sds_repr_setlen [OF s(2)], use s(3) in auto)
  ultimately show "\<exists>s'. sdsclear s = Some s' \<and> sds_repr s' []" by blast
qed

lemma sdsupdatelen_ok:
  assumes "sds_repr s (cs @ 0 # rest)" "0 \<notin> set cs" "length cs < 2 ^ 31"
  shows "\<exists>s'. sdsupdatelen s = Some s' \<and> sds_repr s' cs"
proof -
  obtain t alloc tail where s: "s = mk_sds t (length (cs @ 0 # rest)) alloc ((cs @ 0 # rest) @ 0 # tail)"
    "sds_fits t (length (cs @ 0 # rest)) alloc" "alloc \<le> length (cs @ 0 # rest) + length tail" "length (cs @ 0 # rest) \<le> alloc"
    using assms(1) by (rule sds_reprE)
  have "cast_u 64 (cast_s 32 (int (length cs))) = length cs"
    using assms(3) cast_u_int [of "length cs" 64] by (simp add: cast_s_32_id)
  then have "sdsupdatelen s = Some (mk_sds t (length cs) alloc (cs @ 0 # rest @ 0 # tail))"
    using s(2) strlen_Some [OF assms(2)] sdssetlen_mk [OF s(2)] sds_bytes_mk [OF s(2)] by (simp add: sdsupdatelen_def s(1))
  moreover have "sds_repr (mk_sds t (length cs) alloc (cs @ 0 # rest @ 0 # tail)) cs"
    by (rule sds_repr_setlen [OF s(2)]) (use s(3,4) in auto)
  ultimately show ?thesis by blast
qed

text \<open>Cutting a string: moving a part of the content to the front.\<close>

lemma sds_move:
  assumes "sds_fits t len alloc" "i + n \<le> length body"
  shows "map_option (\<lambda>m. (mk_sds t len alloc body)\<lparr>sds_mem := m\<rparr>)
      (memmove (sds_mem (mk_sds t len alloc body)) (sds_ptr (mk_sds t len alloc body)) (sds_ptr (mk_sds t len alloc body) + i) n) =
    Some (mk_sds t len alloc (take n (drop i body) @ drop n body))"
  using assms length_sds_hdr [OF assms(1), of len alloc]
  by (simp add: memmove_def mk_sds_def mem_read_def mem_write_def)

lemma sds_cut:
  assumes "sds_repr s str" "i + n \<le> length str"
  shows "\<exists>s'. do {
      s \<leftarrow> (if i \<noteq> 0 \<and> n \<noteq> 0 then map_option (\<lambda>m. s\<lparr>sds_mem := m\<rparr>) (memmove (sds_mem s) (sds_ptr s) (sds_ptr s + i) n) else Some s);
      s \<leftarrow> sds_put s n 0;
      sdssetlen s n } = Some s' \<and> sds_repr s' (take n (drop i str))"
proof -
  obtain t alloc tail where s: "s = mk_sds t (length str) alloc (str @ 0 # tail)" "sds_fits t (length str) alloc"
    "alloc \<le> length str + length tail" "length str \<le> alloc" using assms(1) by (rule sds_reprE)
  let ?body = "str @ 0 # tail"
  have part: "take n (drop i ?body) = take n (drop i str)" "length (take n (drop i str)) = n" using assms(2) by auto
  have "(if i \<noteq> 0 \<and> n \<noteq> 0 then map_option (\<lambda>m. s\<lparr>sds_mem := m\<rparr>) (memmove (sds_mem s) (sds_ptr s) (sds_ptr s + i) n) else Some s)
      = Some (mk_sds t (length str) alloc (take n (drop i str) @ drop n ?body))"
  proof (cases "i \<noteq> 0 \<and> n \<noteq> 0")
    case True
    then show ?thesis using sds_move [OF s(2), of i n ?body] assms(2) unfolding s(1) part by simp
  next
    case False
    then have "take n (drop i str) @ drop n ?body = ?body"
      using assms(2) by (cases "n = 0") (auto simp flip: append_assoc)
    with False show ?thesis by (auto simp: s(1))
  qed
  moreover have nb: "n < length ?body" using assms(2) by simp
  have "(take n (drop i str) @ drop n ?body)[n := 0] = take n (drop i str) @ 0 # drop (Suc n) ?body"
    using put_end [OF nb, of n "take n (drop i str)"] part(2) by simp
  then have "sds_put (mk_sds t (length str) alloc (take n (drop i str) @ drop n ?body)) n 0 =
      Some (mk_sds t (length str) alloc (take n (drop i str) @ 0 # drop (Suc n) ?body))"
    using sds_put_mk [OF s(2), of n "take n (drop i str) @ drop n ?body" "length str" alloc 0] part(2) nb by simp
  moreover have "sds_repr (mk_sds t n alloc (take n (drop i str) @ 0 # drop (Suc n) ?body)) (take n (drop i str))"
    by (rule sds_repr_setlen [OF s(2)]) (use part(2) nb s(3,4) assms(2) in auto)
  ultimately show ?thesis using sdssetlen_mk [OF s(2)] by simp
qed

lemma sds_read_repr: "sds_repr s str \<Longrightarrow> sds_read s 0 (length str) = Some str"
  by (elim sds_reprE) (simp add: sds_read_mk)

definition trim_spec :: "byte list \<Rightarrow> byte list \<Rightarrow> byte list" where
  "trim_spec cset str = rev (dropWhile (in_cset cset) (rev (dropWhile (in_cset cset) str)))"

lemma sdstrim_left_eq: "sdstrim_left cset bs sp = sp + length (takeWhile (in_cset cset) bs)"
  by (induction bs arbitrary: sp) auto

lemma dropWhile_rev_snoc:
  "rev (dropWhile P (rev (xs @ [x]))) = (if P x then rev (dropWhile P (rev xs)) else xs @ [x])"
  by simp

lemma sdstrim_right_eq:
  assumes "sp \<le> ep" "ep < length bs" "\<not> in_cset cset (bs ! sp)"
  shows "sp \<le> sdstrim_right cset bs sp ep \<and> sdstrim_right cset bs sp ep \<le> ep \<and>
    take (Suc (sdstrim_right cset bs sp ep) - sp) (drop sp bs) =
     rev (dropWhile (in_cset cset) (rev (take (Suc ep - sp) (drop sp bs))))"
  using assms(1,2)
proof (induction ep)
  case 0
  with assms(3) show ?case by (cases bs) auto
next
  case (Suc ep)
  have t: "take (Suc (Suc ep) - sp) (drop sp bs) = take (Suc ep - sp) (drop sp bs) @ [bs ! Suc ep]"
    using Suc.prems by (simp add: Suc_diff_le take_Suc_conv_app_nth)
  show ?case
  proof (cases "sp = Suc ep")
    case True
    with Suc.prems assms(3) show ?thesis by (simp add: Cons_nth_drop_Suc [symmetric])
  next
    case False
    then have "sp \<le> ep" using Suc.prems by simp
    with Suc have ih: "sp \<le> sdstrim_right cset bs sp ep" "sdstrim_right cset bs sp ep \<le> ep"
      "take (Suc (sdstrim_right cset bs sp ep) - sp) (drop sp bs) = rev (dropWhile (in_cset cset) (rev (take (Suc ep - sp) (drop sp bs))))"
      by auto
    show ?thesis
    proof (cases "in_cset cset (bs ! Suc ep)")
      case True
      with ih \<open>sp \<le> ep\<close> show ?thesis unfolding t dropWhile_rev_snoc by simp
    next
      case no: False
      then have "sdstrim_right cset bs sp (Suc ep) = Suc ep" by simp
      with no Suc.prems t show ?thesis by simp
    qed
  qed
qed

lemma sdstrim_ok:
  assumes "sds_repr s str"
  shows "\<exists>s'. sdstrim s cset = Some s' \<and> sds_repr s' (trim_spec cset str)"
proof -
  define sp where "sp = sdstrim_left cset str 0"
  have sp: "sp = length (takeWhile (in_cset cset) str)" by (simp add: sp_def sdstrim_left_eq)
  define ep where "ep = (if length str = 0 then - 1 else int (sdstrim_right cset str sp (length str - 1)))"
  define n where "n = (if int sp > ep then 0 else nat (ep - int sp + 1))"
  have unf: "sdstrim s cset = do {
     s \<leftarrow> (if sp \<noteq> 0 then map_option (\<lambda>m. s\<lparr>sds_mem := m\<rparr>) (memmove (sds_mem s) (sds_ptr s) (sds_ptr s + sp) n) else Some s);
     s \<leftarrow> sds_put s n 0;
     sdssetlen s n }"
    by (simp add: sdstrim_def sds_len_repr [OF assms] sds_read_repr [OF assms] Let_def sp_def ep_def n_def)
  have n: "sp + n \<le> length str \<and> take n (drop sp str) = trim_spec cset str"
  proof (cases "sp = length str")
    case True
    then have all: "dropWhile (in_cset cset) str = []"
      using sp takeWhile_dropWhile_id [of "in_cset cset" str] by (metis append_Nil2 append_eq_conv_conj take_all_iff order_refl same_append_eq)
    have "n = 0"
    proof (cases "str = []")
      case False
      then obtain k where k: "length str = Suc k" by (cases str) auto
      have "sdstrim_right cset str (Suc k) k = k" by (cases k) auto
      with True k show ?thesis by (simp add: n_def ep_def)
    qed (simp add: n_def ep_def sp)
    with True show ?thesis unfolding trim_spec_def all by simp
  next
    case False
    then have lt: "sp < length str" using sp length_takeWhile_le [of "in_cset cset" str] by simp
    then have no: "\<not> in_cset cset (str ! sp)" using nth_length_takeWhile [of "in_cset cset" str] sp by simp
    have dw: "drop sp str = dropWhile (in_cset cset) str" by (simp add: sp dropWhile_eq_drop)
    note r = sdstrim_right_eq [of sp "length str - 1" str cset, OF _ _ no]
    let ?e = "sdstrim_right cset str sp (length str - 1)"
    have e: "sp \<le> ?e" "?e \<le> length str - 1"
      "take (Suc ?e - sp) (drop sp str) = rev (dropWhile (in_cset cset) (rev (take (Suc (length str - 1) - sp) (drop sp str))))"
      using r lt by auto
    have "n = Suc ?e - sp" using e(1) lt by (auto simp: n_def ep_def)
    moreover have "take (Suc (length str - 1) - sp) (drop sp str) = drop sp str" using lt by simp
    ultimately show ?thesis using e lt by (simp add: trim_spec_def dw)
  qed
  have nz: "(if sp \<noteq> 0 then map_option (\<lambda>m. s\<lparr>sds_mem := m\<rparr>) (memmove (sds_mem s) (sds_ptr s) (sds_ptr s + sp) n) else Some s) =
      (if sp \<noteq> 0 \<and> n \<noteq> 0 then map_option (\<lambda>m. s\<lparr>sds_mem := m\<rparr>) (memmove (sds_mem s) (sds_ptr s) (sds_ptr s + sp) n) else Some s)"
  proof -
    obtain t alloc tail where s: "s = mk_sds t (length str) alloc (str @ 0 # tail)" "sds_fits t (length str) alloc"
      using assms by (rule sds_reprE)
    have "map_option (\<lambda>m. s\<lparr>sds_mem := m\<rparr>) (memmove (sds_mem s) (sds_ptr s) (sds_ptr s + sp) 0) = Some s"
      using sds_move [OF s(2), of sp 0 "str @ 0 # tail"] n unfolding s(1) by simp
    then show ?thesis by auto
  qed
  show ?thesis unfolding unf nz using sds_cut [OF assms, of sp n] n by simp
qed

text \<open>The meaning of the indexes of \<open>sdsrange\<close>: both ends belong to the part, negative ones count from
  the end.\<close>

definition range_idx :: "nat \<Rightarrow> int \<Rightarrow> int" where
  "range_idx len i = (if i < 0 then max 0 (int len + i) else i)"

definition range_spec :: "byte list \<Rightarrow> int \<Rightarrow> int \<Rightarrow> byte list" where
  "range_spec str start end =
     (let a = range_idx (length str) start; b = min (range_idx (length str) end) (int (length str) - 1)
      in take (nat (b - a + 1)) (drop (nat a) str))"

lemma sdsrange_ok:
  assumes "sds_repr s str" "int (length str) \<le> INT32_MAX" "INT32_MIN \<le> a" "a \<le> INT32_MAX" "INT32_MIN \<le> b" "b \<le> INT32_MAX"
    "range_idx (length str) b - range_idx (length str) a < INT32_MAX"
  shows "\<exists>s'. sdsrange s a b = Some s' \<and> sds_repr s' (range_spec str a b)"
proof (cases "str = []")
  case True
  then show ?thesis using assms(1) by (simp add: sdsrange_def sds_len_repr [OF assms(1)] range_spec_def)
next
  case False
  define st where "st = range_idx (length str) a"
  define en where "en = range_idx (length str) b"
  let ?l = "int (length str)"
  have l: "0 < ?l" "?l \<le> INT32_MAX" using False assms(2) by auto
  have c: "cast_s 32 ?l = ?l" "cast_s 32 (?l - 1) = ?l - 1" using l by (auto simp: vire_limits cast_s_32_id)
  have ca: "(if i < 0 then let v = cast_s 32 (?l + i) in if v < 0 then 0 else v else i) = range_idx (length str) i"
    if "INT32_MIN \<le> i" "i \<le> INT32_MAX" for i
  proof (cases "i < 0")
    case True
    then have "cast_s 32 (?l + i) = ?l + i" using l that by (intro cast_s_32_id) (auto simp: vire_limits)
    with True show ?thesis by (auto simp: range_idx_def Let_def)
  qed (simp add: range_idx_def)
  have nn: "0 \<le> st" "0 \<le> en" by (auto simp: st_def en_def range_idx_def)
  define n where "n = (if st > en \<or> st \<ge> ?l then 0 else nat (min en (?l - 1) - st + 1))"
  have spec: "range_spec str a b = take n (drop (nat st) str)" "nat st + n \<le> length str \<or> n = 0"
    using nn l by (auto simp: range_spec_def st_def [symmetric] en_def [symmetric] n_def Let_def)
  have unf: "sdsrange s a b = do {
      s \<leftarrow> (if nat st \<noteq> 0 \<and> n \<noteq> 0 then map_option (\<lambda>m. s\<lparr>sds_mem := m\<rparr>) (memmove (sds_mem s) (sds_ptr s) (sds_ptr s + nat st) n) else Some s);
      s \<leftarrow> sds_put s n 0;
      sdssetlen s n }"
  proof -
    have new: "(if st > en then Some 0 else if en - st + 1 > INT32_MAX then None else Some (nat (en - st + 1))) =
        Some (if st > en then 0 else nat (en - st + 1))"
      using assms(7) by (simp add: st_def en_def)
    show ?thesis
      unfolding sdsrange_def sds_len_repr [OF assms(1)] Option.bind.simps ca [OF assms(3,4)] ca [OF assms(5,6)]
        st_def [symmetric] en_def [symmetric] c
      using False nn l by (auto simp: new n_def Let_def min_def)
  qed
  show ?thesis
  proof (cases "n = 0")
    case True
    then show ?thesis unfolding unf using sds_cut [OF assms(1), of 0 0] spec(1) by simp
  next
    case False
    then show ?thesis unfolding unf using sds_cut [OF assms(1), of "nat st" n] spec by simp
  qed
qed

section \<open>Numbers and formats\<close>

text \<open>\<open>sdsll2str\<close> writes the digits backwards and reverses them in place. The negation of the smallest
  number is undefined.\<close>

fun ll2str_digits :: "byte list \<Rightarrow> nat \<Rightarrow> nat \<Rightarrow> (byte list \<times> nat) option" where
  "ll2str_digits s p v = do {
     s' \<leftarrow> byte_put s p (48 + word_of_nat (v mod 10));
     if v div 10 = 0 then Some (s', p + 1) else ll2str_digits s' (p + 1) (v div 10)
   }"

declare ll2str_digits.simps [simp del]

function ll2str_reverse :: "byte list \<Rightarrow> nat \<Rightarrow> nat \<Rightarrow> byte list option" where
  "ll2str_reverse s i j =
     (if i < j then do {
        a \<leftarrow> byte_at s i;
        b \<leftarrow> byte_at s j;
        s' \<leftarrow> byte_put s i b;
        s'' \<leftarrow> byte_put s' j a;
        ll2str_reverse s'' (i + 1) (j - 1)
      } else Some s)"
  by pat_completeness auto
termination by (relation "measure (\<lambda>(_, i, j). j - i)") auto

declare ll2str_reverse.simps [simp del]

definition sdsull2str :: "byte list \<Rightarrow> nat \<Rightarrow> (byte list \<times> nat) option" where
  "sdsull2str s v = do {
     (s, l) \<leftarrow> ll2str_digits s 0 v;
     s \<leftarrow> byte_put s l 0;
     s \<leftarrow> ll2str_reverse s 0 (l - 1);
     Some (s, l)
   }"

definition sdsll2str :: "byte list \<Rightarrow> int \<Rightarrow> (byte list \<times> nat) option" where
  "sdsll2str s value =
     (if value = LLONG_MIN then None
      else do {
        (s, p) \<leftarrow> ll2str_digits s 0 (nat (if value < 0 then - value else value));
        (s, l) \<leftarrow> (if value < 0 then do { s \<leftarrow> byte_put s p 45; Some (s, p + 1) } else Some (s, p));
        s \<leftarrow> byte_put s l 0;
        s \<leftarrow> ll2str_reverse s 0 (l - 1);
        Some (s, l)
      })"

definition SDS_LLSTR_SIZE :: nat where "SDS_LLSTR_SIZE = 21"

text \<open>The local buffer of a function is uninitialised: \<open>junk\<close>.\<close>

definition sdsfromlonglong :: "allocator \<Rightarrow> fill \<Rightarrow> int \<Rightarrow> sds option option" where
  "sdsfromlonglong al junk value = do {
     (buf, len) \<leftarrow> sdsll2str (map junk [0..<SDS_LLSTR_SIZE]) value;
     sdsnewlen al (Some buf) len
   }"

text \<open>\<open>sdscatvprintf\<close> for a format of length \<open>fmtlen\<close> for which \<open>vsnprintf\<close> prints \<open>out\<close>: the buffer is
  doubled as long as its last byte but one has been written with something else than a terminator.\<close>

function vprintf_buf :: "allocator \<Rightarrow> byte list \<Rightarrow> nat \<Rightarrow> byte list option" where
  "vprintf_buf al out buflen =
     (if 2 \<le> buflen \<and> buflen - 2 < length out \<and> out ! (buflen - 2) \<noteq> 0
      then (case s_malloc al (buflen * 2) of None \<Rightarrow> None | Some _ \<Rightarrow> vprintf_buf al out (buflen * 2))
      else Some (take (buflen - 1) out @ [0]))"
  by pat_completeness auto
termination by (relation "measure (\<lambda>(_, out, buflen). length out + 2 - buflen)") auto

declare vprintf_buf.simps [simp del]

definition sdscatvprintf :: "allocator \<Rightarrow> sds \<Rightarrow> nat \<Rightarrow> byte list \<Rightarrow> sds option option" where
  "sdscatvprintf al s fmtlen out =
     (if fmtlen * 2 > 1024 \<and> s_malloc al (fmtlen * 2) = None then Some None
      else case vprintf_buf al out (if fmtlen * 2 > 1024 then fmtlen * 2 else 1024) of
             None \<Rightarrow> Some None
           | Some buf \<Rightarrow> sdscat al s buf)"

text \<open>The arguments of \<open>sdscatfmt\<close>; taking one of another type is undefined.\<close>

datatype fmt_arg = Cstr_arg "byte list" | Sds_arg sds | Int_arg int | Uint_arg nat

text \<open>Copy \<open>l\<close> bytes to position \<open>i\<close>, after making room for them when there is none.\<close>

definition fmt_put :: "allocator \<Rightarrow> sds \<Rightarrow> int \<Rightarrow> byte list \<Rightarrow> nat \<Rightarrow> (sds \<times> int) option" where
  "fmt_put al s i str l = do {
     avail \<leftarrow> sdsavail s;
     s \<leftarrow> (if avail < l then do { r \<leftarrow> sdsMakeRoomFor al s l; r } else Some s);
     bs \<leftarrow> mem_read str 0 l;
     s \<leftarrow> (if i < 0 then None else sds_write s (nat i) bs);
     s \<leftarrow> sdsinclen s l;
     Some (s, cast_s 32 (i + int l))
   }"

definition fmt_char :: "sds \<Rightarrow> int \<Rightarrow> byte \<Rightarrow> (sds \<times> int) option" where
  "fmt_char s i c = do {
     s \<leftarrow> (if i < 0 then None else sds_put s (nat i) c);
     s \<leftarrow> sdsinclen s 1;
     Some (s, cast_s 32 (i + 1))
   }"

definition fmt_num :: "allocator \<Rightarrow> fill \<Rightarrow> sds \<Rightarrow> int \<Rightarrow> byte \<Rightarrow> fmt_arg \<Rightarrow> (sds \<times> int) option" where
  "fmt_num al junk s i next arg =
     (case arg of
        Int_arg num \<Rightarrow>
          if next = 105 \<or> next = 73 then do {
            (buf, l) \<leftarrow> sdsll2str (map junk [0..<SDS_LLSTR_SIZE]) num;
            fmt_put al s i buf l
          } else None
      | Uint_arg unum \<Rightarrow>
          if next = 117 \<or> next = 85 then do {
            (buf, l) \<leftarrow> sdsull2str (map junk [0..<SDS_LLSTR_SIZE]) unum;
            fmt_put al s i buf l
          } else None
      | _ \<Rightarrow> None)"

definition fmt_str :: "allocator \<Rightarrow> sds \<Rightarrow> int \<Rightarrow> byte \<Rightarrow> fmt_arg \<Rightarrow> (sds \<times> int) option" where
  "fmt_str al s i next arg =
     (case arg of
        Cstr_arg str \<Rightarrow> if next = 115 then do { l \<leftarrow> strlen str; fmt_put al s i str l } else None
      | Sds_arg str \<Rightarrow> if next = 83 then do { l \<leftarrow> sdslen str; fmt_put al s i (sds_bytes str) l } else None
      | _ \<Rightarrow> None)"

text \<open>The loop: \<open>f\<close> is the memory from the next character of the format on.\<close>

partial_function (option) sdscatfmt_loop :: "allocator \<Rightarrow> fill \<Rightarrow> sds \<Rightarrow> int \<Rightarrow> byte list \<Rightarrow> fmt_arg list \<Rightarrow> (sds \<times> int) option" where
  "sdscatfmt_loop al junk s i f args = do {
     c \<leftarrow> byte_at f 0;
     if c = 0 then Some (s, i)
     else do {
       avail \<leftarrow> sdsavail s;
       s \<leftarrow> (if avail = 0 then do { r \<leftarrow> sdsMakeRoomFor al s 1; r } else Some s);
       if c = 37 then do {
         next \<leftarrow> byte_at f 1;
         if next \<in> {115, 83, 105, 73, 117, 85} then do {
           arg \<leftarrow> (if args = [] then None else Some (hd args));
           (s, i) \<leftarrow> (if next = 115 \<or> next = 83 then fmt_str al s i next arg else fmt_num al junk s i next arg);
           sdscatfmt_loop al junk s i (drop 2 f) (tl args)
         }
         else do {
           (s, i) \<leftarrow> fmt_char s i next;
           sdscatfmt_loop al junk s i (drop 2 f) args
         }
       }
       else do {
         (s, i) \<leftarrow> fmt_char s i c;
         sdscatfmt_loop al junk s i (drop 1 f) args
       }
     }
   }"

definition sdscatfmt :: "allocator \<Rightarrow> fill \<Rightarrow> sds \<Rightarrow> byte list \<Rightarrow> fmt_arg list \<Rightarrow> sds option" where
  "sdscatfmt al junk s fmt args = do {
     initlen \<leftarrow> sdslen s;
     (s, i) \<leftarrow> sdscatfmt_loop al junk s (cast_s 32 (int initlen)) fmt args;
     if i < 0 then None else sds_put s (nat i) 0
   }"

section \<open>Characters and comparison\<close>

definition toupper :: "byte \<Rightarrow> byte" where
  "toupper c = (if 97 \<le> c \<and> c \<le> 122 then c - 32 else c)"

fun sds_map_loop :: "(byte \<Rightarrow> byte) \<Rightarrow> sds \<Rightarrow> nat \<Rightarrow> nat \<Rightarrow> sds option" where
  "sds_map_loop g s j 0 = Some s"
| "sds_map_loop g s j (Suc n) = do { c \<leftarrow> sds_at s j; s \<leftarrow> sds_put s j (g c); sds_map_loop g s (j + 1) n }"

definition sdstolower :: "sds \<Rightarrow> sds option" where
  "sdstolower s = do { l \<leftarrow> sdslen s; sds_map_loop tolower s 0 (nat (cast_s 32 (int l))) }"

definition sdstoupper :: "sds \<Rightarrow> sds option" where
  "sdstoupper s = do { l \<leftarrow> sdslen s; sds_map_loop toupper s 0 (nat (cast_s 32 (int l))) }"

fun map_char :: "byte list \<Rightarrow> byte list \<Rightarrow> byte \<Rightarrow> byte" where
  "map_char (x # from) (y # to) c = (if c = x then y else map_char from to c)"
| "map_char _ _ c = c"

definition sdsmapchars :: "sds \<Rightarrow> byte list \<Rightarrow> byte list \<Rightarrow> nat \<Rightarrow> sds option" where
  "sdsmapchars s from to setlen = do {
     fs \<leftarrow> mem_read from 0 setlen;
     ts \<leftarrow> mem_read to 0 setlen;
     l \<leftarrow> sdslen s;
     sds_map_loop (map_char fs ts) s 0 l
   }"

text \<open>\<open>memcmp\<close> returns a number with the sign of the first difference.\<close>

fun memcmp :: "byte list \<Rightarrow> byte list \<Rightarrow> int" where
  "memcmp (x # xs) (y # ys) = (if x = y then memcmp xs ys else uint x - uint y)"
| "memcmp _ _ = 0"

definition sdscmp :: "sds \<Rightarrow> sds \<Rightarrow> int option" where
  "sdscmp s1 s2 = do {
     l1 \<leftarrow> sdslen s1;
     l2 \<leftarrow> sdslen s2;
     let minlen = (if l1 < l2 then l1 else l2);
     b1 \<leftarrow> sds_read s1 0 minlen;
     b2 \<leftarrow> sds_read s2 0 minlen;
     let cmp = memcmp b1 b2;
     Some (if cmp = 0 then cast_s 32 (int l1 - int l2) else cmp)
   }"

fun isnum_loop :: "sds \<Rightarrow> nat \<Rightarrow> nat \<Rightarrow> bool option" where
  "isnum_loop s i 0 = Some True"
| "isnum_loop s i (Suc n) = do {
     c \<leftarrow> sds_at s i;
     if sint c < 48 \<or> sint c > 57 then Some False else isnum_loop s (i + 1) n
   }"

definition sdsIsNum :: "sds option \<Rightarrow> bool option" where
  "sdsIsNum s = (case s of None \<Rightarrow> Some False
     | Some s \<Rightarrow> do { l \<leftarrow> sdslen s; if l = 0 then Some False else isnum_loop s 0 l })"

section \<open>Splitting, joining, quoting\<close>

text \<open>The tokens found so far are the elements of an array with \<open>slots\<close> places.\<close>

definition store_token :: "sds list \<Rightarrow> nat \<Rightarrow> sds \<Rightarrow> sds list option" where
  "store_token tokens slots t = (if length tokens < slots then Some (tokens @ [t]) else None)"

text \<open>The test for a separator at position \<open>j\<close>.\<close>

definition sep_found :: "byte list \<Rightarrow> nat \<Rightarrow> byte list \<Rightarrow> nat \<Rightarrow> bool option" where
  "sep_found s j sep seplen = do {
     first \<leftarrow> (if seplen = 1 then do { c \<leftarrow> byte_at s j; c' \<leftarrow> byte_at sep 0; Some (c = c') } else Some False);
     if first then Some True
     else do { a \<leftarrow> mem_read s j seplen; b \<leftarrow> mem_read sep 0 seplen; Some (memcmp a b = 0) }
   }"

function split_loop :: "allocator \<Rightarrow> byte list \<Rightarrow> nat \<Rightarrow> byte list \<Rightarrow> nat \<Rightarrow> nat \<Rightarrow> nat \<Rightarrow> nat \<Rightarrow> sds list \<Rightarrow>
    (nat \<times> nat \<times> sds list) option option" where
  "split_loop al s len sep seplen j start slots tokens =
     (if j + (seplen - 1) < len
      then let slots' = (if slots < length tokens + 2 then slots * 2 else slots)
           in if slots < length tokens + 2 \<and> al (8 * slots') = None then Some None
              else do {
                found \<leftarrow> sep_found s j sep seplen;
                if found then do {
                  r \<leftarrow> sdsnewlen al (Some (drop start s)) (j - start);
                  case r of
                    None \<Rightarrow> Some None
                  | Some t \<Rightarrow> do {
                      tokens \<leftarrow> store_token tokens slots' t;
                      if seplen = 0 then None else split_loop al s len sep seplen (j + seplen) (j + seplen) slots' tokens
                    }
                }
                else split_loop al s len sep seplen (j + 1) start slots' tokens
              }
      else Some (Some (start, slots, tokens)))"
  by pat_completeness auto
termination by (relation "measure (\<lambda>(_, _, len, _, _, j, _). len - j)") auto

declare split_loop.simps [simp del]

definition sdssplitlen :: "allocator \<Rightarrow> byte list \<Rightarrow> int \<Rightarrow> byte list \<Rightarrow> int \<Rightarrow> sds list option option" where
  "sdssplitlen al s len sep seplen =
     (if seplen < 1 \<or> len < 0 then Some None
      else if al (8 * 5) = None then Some None
      else if len = 0 then Some (Some [])
      else do {
        r \<leftarrow> split_loop al s (nat len) sep (nat seplen) 0 0 5 [];
        case r of
          None \<Rightarrow> Some None
        | Some (start, slots, tokens) \<Rightarrow> do {
            r \<leftarrow> sdsnewlen al (Some (drop start s)) (nat len - start);
            case r of
              None \<Rightarrow> Some None
            | Some t \<Rightarrow> do { tokens \<leftarrow> store_token tokens slots t; Some (Some tokens) }
          }
      })"

text \<open>The results of the calls in the following loops are used without a test for the null pointer.\<close>

fun join_loop :: "allocator \<Rightarrow> sds \<Rightarrow> byte list list \<Rightarrow> byte list \<Rightarrow> sds option" where
  "join_loop al join [] sep = Some join"
| "join_loop al join (a # argv) sep = do {
     r \<leftarrow> sdscat al join a;
     join \<leftarrow> r;
     join \<leftarrow> (if argv \<noteq> [] then do { r \<leftarrow> sdscat al join sep; r } else Some join);
     join_loop al join argv sep
   }"

definition sdsjoin :: "allocator \<Rightarrow> byte list list \<Rightarrow> byte list \<Rightarrow> sds option" where
  "sdsjoin al argv sep = do { r \<leftarrow> sdsempty al; join \<leftarrow> r; join_loop al join argv sep }"

fun joinsds_loop :: "allocator \<Rightarrow> sds \<Rightarrow> sds list \<Rightarrow> byte list \<Rightarrow> nat \<Rightarrow> sds option" where
  "joinsds_loop al join [] sep seplen = Some join"
| "joinsds_loop al join (a # argv) sep seplen = do {
     r \<leftarrow> sdscatsds al join a;
     join \<leftarrow> r;
     join \<leftarrow> (if argv \<noteq> [] then do { r \<leftarrow> sdscatlen al join sep seplen; r } else Some join);
     joinsds_loop al join argv sep seplen
   }"

definition sdsjoinsds :: "allocator \<Rightarrow> sds list \<Rightarrow> byte list \<Rightarrow> nat \<Rightarrow> sds option" where
  "sdsjoinsds al argv sep seplen = do { r \<leftarrow> sdsempty al; join \<leftarrow> r; joinsds_loop al join argv sep seplen }"

text \<open>\<open>isprint\<close> and \<open>isspace\<close> in the C locale, and the digits that \<open>%02x\<close> prints.\<close>

definition isprint :: "byte \<Rightarrow> bool" where
  "isprint c \<longleftrightarrow> 32 \<le> c \<and> c \<le> 126"

definition isspace :: "byte \<Rightarrow> bool" where
  "isspace c \<longleftrightarrow> c = 32 \<or> 9 \<le> c \<and> c \<le> 13"

definition hex_digit :: "nat \<Rightarrow> byte" where
  "hex_digit n = (if n < 10 then 48 + word_of_nat n else 87 + word_of_nat n)"

text \<open>One character of \<open>sdscatrepr\<close>, by \<open>sdscatlen\<close> or \<open>sdscatprintf\<close> as in the code.\<close>

definition catrepr_char :: "allocator \<Rightarrow> sds \<Rightarrow> byte \<Rightarrow> sds option option" where
  "catrepr_char al s c =
     (if c = 92 \<or> c = 34 then sdscatvprintf al s 3 [92, c]
      else if c = 10 then sdscatlen al s [92, 110, 0] 2
      else if c = 13 then sdscatlen al s [92, 114, 0] 2
      else if c = 9 then sdscatlen al s [92, 116, 0] 2
      else if c = 7 then sdscatlen al s [92, 97, 0] 2
      else if c = 8 then sdscatlen al s [92, 98, 0] 2
      else if isprint c then sdscatvprintf al s 2 [c]
      else sdscatvprintf al s 6 [92, 120, hex_digit (unat c div 16), hex_digit (unat c mod 16)])"

fun catrepr_loop :: "allocator \<Rightarrow> sds \<Rightarrow> byte list \<Rightarrow> sds option" where
  "catrepr_loop al s [] = Some s"
| "catrepr_loop al s (c # p) = do { r \<leftarrow> catrepr_char al s c; s \<leftarrow> r; catrepr_loop al s p }"

definition sdscatrepr :: "allocator \<Rightarrow> sds \<Rightarrow> byte list \<Rightarrow> nat \<Rightarrow> sds option option" where
  "sdscatrepr al s p len = do {
     bs \<leftarrow> mem_read p 0 len;
     r \<leftarrow> sdscatlen al s [34, 0] 1;
     s \<leftarrow> r;
     s \<leftarrow> catrepr_loop al s bs;
     sdscatlen al s [34, 0] 1
   }"

definition is_hex_digit :: "byte \<Rightarrow> bool" where
  "is_hex_digit c \<longleftrightarrow> (48 \<le> c \<and> c \<le> 57) \<or> (97 \<le> c \<and> c \<le> 102) \<or> (65 \<le> c \<and> c \<le> 70)"

definition hex_digit_to_int :: "byte \<Rightarrow> nat" where
  "hex_digit_to_int c =
     (if 48 \<le> c \<and> c \<le> 57 then unat c - 48
      else if 97 \<le> c \<and> c \<le> 102 then unat c - 87
      else if 65 \<le> c \<and> c \<le> 70 then unat c - 55
      else 0)"

text \<open>The tests on the characters from \<open>p\<close> on read them one after the other, and stop at the first
  that fails.\<close>

definition is_hex_escape :: "byte list \<Rightarrow> bool option" where
  "is_hex_escape p = do {
     c \<leftarrow> byte_at p 0;
     if c \<noteq> 92 then Some False else do {
       c \<leftarrow> byte_at p 1;
       if c \<noteq> 120 then Some False else do {
         c \<leftarrow> byte_at p 2;
         if \<not> is_hex_digit c then Some False else do {
           c \<leftarrow> byte_at p 3;
           Some (is_hex_digit c)
         }
       }
     }
   }"

definition is_escape :: "byte list \<Rightarrow> (byte \<Rightarrow> bool) \<Rightarrow> bool option" where
  "is_escape p ok = do {
     c \<leftarrow> byte_at p 0;
     if c \<noteq> 92 then Some False else map_option ok (byte_at p 1)
   }"

definition unescape :: "byte \<Rightarrow> byte" where
  "unescape c = (if c = 110 then 10 else if c = 114 then 13 else if c = 116 then 9
     else if c = 98 then 8 else if c = 97 then 7 else c)"

definition cat1 :: "allocator \<Rightarrow> sds \<Rightarrow> byte \<Rightarrow> sds option" where
  "cat1 al current c = do { r \<leftarrow> sdscatlen al current [c] 1; r }"

text \<open>A closing quote: it must be followed by a space or the end of the line.\<close>

definition close_quote :: "byte list \<Rightarrow> sds \<Rightarrow> (byte list \<times> sds) option option" where
  "close_quote p current = do {
     c \<leftarrow> byte_at p 1;
     Some (if c \<noteq> 0 \<and> \<not> isspace c then None else Some (drop 1 p, current))
   }"

text \<open>The loop over the characters of a token. The inner option is \<^const>\<open>None\<close> for \<open>goto err\<close>.\<close>

partial_function (option) splitargs_token ::
  "allocator \<Rightarrow> byte list \<Rightarrow> sds \<Rightarrow> bool \<Rightarrow> bool \<Rightarrow> (byte list \<times> sds) option option" where
  "splitargs_token al p current inq insq = do {
     c \<leftarrow> byte_at p 0;
     if inq then do {
       hex \<leftarrow> is_hex_escape p;
       esc \<leftarrow> is_escape p (\<lambda>c. c \<noteq> 0);
       if hex then do {
         h \<leftarrow> byte_at p 2;
         l \<leftarrow> byte_at p 3;
         current \<leftarrow> cat1 al current (word_of_nat (hex_digit_to_int h * 16 + hex_digit_to_int l));
         splitargs_token al (drop 4 p) current inq insq
       }
       else if esc then do {
         c \<leftarrow> byte_at p 1;
         current \<leftarrow> cat1 al current (unescape c);
         splitargs_token al (drop 2 p) current inq insq
       }
       else if c = 34 then close_quote p current
       else if c = 0 then Some None
       else do {
         current \<leftarrow> cat1 al current c;
         splitargs_token al (drop 1 p) current inq insq
       }
     }
     else if insq then do {
       esc \<leftarrow> is_escape p (\<lambda>c. c = 39);
       if esc then do {
         current \<leftarrow> cat1 al current 39;
         splitargs_token al (drop 2 p) current inq insq
       }
       else if c = 39 then close_quote p current
       else if c = 0 then Some None
       else do {
         current \<leftarrow> cat1 al current c;
         splitargs_token al (drop 1 p) current inq insq
       }
     }
     else if c \<in> {32, 10, 13, 9, 0} then Some (Some (if c \<noteq> 0 then drop 1 p else p, current))
     else if c = 34 then splitargs_token al (drop 1 p) current True insq
     else if c = 39 then splitargs_token al (drop 1 p) current inq True
     else do {
       current \<leftarrow> cat1 al current c;
       splitargs_token al (drop 1 p) current inq insq
     }
   }"

partial_function (option) splitargs_loop :: "allocator \<Rightarrow> byte list \<Rightarrow> sds list \<Rightarrow> sds list option option" where
  "splitargs_loop al p vector = do {
     c \<leftarrow> byte_at p 0;
     if c \<noteq> 0 \<and> isspace c then splitargs_loop al (drop 1 p) vector
     else if c \<noteq> 0 then do {
       r \<leftarrow> sdsempty al;
       current \<leftarrow> r;
       r \<leftarrow> splitargs_token al p current False False;
       case r of
         None \<Rightarrow> Some None
       | Some (p, current) \<Rightarrow> splitargs_loop al p (vector @ [current])
     }
     else Some (Some vector)
   }"

definition sdssplitargs :: "allocator \<Rightarrow> byte list \<Rightarrow> sds list option option" where
  "sdssplitargs al line = splitargs_loop al line []"

subsection \<open>Numbers\<close>

lemma byte_put_app: "i = length xs \<Longrightarrow> ys \<noteq> [] \<Longrightarrow> byte_put (xs @ ys) i b = Some (xs @ b # tl ys)"
  by (cases ys) simp_all

lemma ll2str_digits_ok:
  "length (dec_text v) \<le> length ys \<Longrightarrow> p = length xs \<Longrightarrow>
   ll2str_digits (xs @ ys) p v = Some (xs @ rev (dec_text v) @ drop (length (dec_text v)) ys, p + length (dec_text v))"
proof (induction v arbitrary: xs ys p rule: less_induct)
  case (less v)
  obtain y ys' where ys: "ys = y # ys'" using less.prems(1) by (cases ys) auto
  show ?case
  proof (cases "v < 10")
    case True
    then have "dec_text v = [48 + word_of_nat v]" by (simp add: dec_text.simps)
    with True show ?thesis using less.prems(2) ys by (subst ll2str_digits.simps) simp
  next
    case False
    let ?c = "48 + word_of_nat (v mod 10) :: byte"
    have d: "dec_text v = dec_text (v div 10) @ [?c]" using False by (subst dec_text.simps) simp
    have "ll2str_digits ((xs @ [?c]) @ ys') (p + 1) (v div 10) = Some ((xs @ [?c]) @ rev (dec_text (v div 10)) @
        drop (length (dec_text (v div 10))) ys', p + 1 + length (dec_text (v div 10)))"
      using less.prems d ys False by (intro less.IH) auto
    with False show ?thesis using less.prems(2) ys d by (subst ll2str_digits.simps) simp
  qed
qed

lemma ll2str_reverse_ok:
  "length seg = Suc j - i \<Longrightarrow> i = length xs \<Longrightarrow> ll2str_reverse (xs @ seg @ ys) i j = Some (xs @ rev seg @ ys)"
proof (induction seg arbitrary: xs ys i j rule: length_induct)
  case (1 seg)
  show ?case
  proof (cases "i < j")
    case False
    then have "length seg \<le> 1" using "1.prems" by simp
    then have "rev seg = seg" by (cases seg) auto
    then show ?thesis using False by (subst ll2str_reverse.simps) (simp only: if_False)
  next
    case True
    then obtain a seg' where s1: "seg = a # seg'" using "1.prems" by (cases seg) auto
    then obtain mid b where s2: "seg = a # mid @ [b]" using True "1.prems" by (cases seg' rule: rev_cases) auto
    have j: "j = length xs + 1 + length mid" using s2 "1.prems" True by simp
    have at1: "byte_at (xs @ seg @ ys) i = Some a"
      using byte_at_mid [of i xs a "mid @ b # ys"] "1.prems"(2) s2 by simp
    have at2: "byte_at (xs @ seg @ ys) j = Some b"
      using byte_at_mid [of j "xs @ a # mid" b ys] j s2 by simp
    have put1: "byte_put (xs @ seg @ ys) i b = Some (xs @ b # mid @ b # ys)"
      using byte_put_mid [of i xs a "mid @ b # ys" b] "1.prems"(2) s2 by simp
    have put2: "byte_put (xs @ b # mid @ b # ys) j a = Some ((xs @ [b]) @ mid @ a # ys)"
      using byte_put_mid [of j "xs @ b # mid" b ys a] j by simp
    have "length mid < length seg" using s2 by simp
    then have ih: "length mid = Suc j' - i' \<Longrightarrow> i' = length xs' \<Longrightarrow> ll2str_reverse (xs' @ mid @ ys') i' j' = Some (xs' @ rev mid @ ys')" for xs' ys' i' j'
      using "1.IH" by blast
    have "ll2str_reverse ((xs @ [b]) @ mid @ a # ys) (i + 1) (j - 1) = Some ((xs @ [b]) @ rev mid @ a # ys)"
      by (rule ih) (use "1.prems"(2) j in simp_all)
    then have "ll2str_reverse (xs @ seg @ ys) i j = Some ((xs @ [b]) @ rev mid @ a # ys)"
      unfolding ll2str_reverse.simps [of "xs @ seg @ ys" i j] at1 at2 put1 Option.bind.simps put2 using True by simp
    moreover have "(xs @ [b]) @ rev mid @ a # ys = xs @ rev seg @ ys" unfolding s2 by simp
    ultimately show ?thesis by (rule trans [OF _ arg_cong])
  qed
qed

text \<open>The buffer of 21 bytes is large enough for every number but the smallest.\<close>

lemma sdsull2str_ok:
  assumes "length (dec_text v) < length buf"
  shows "sdsull2str buf v = Some (dec_text v @ 0 # drop (Suc (length (dec_text v))) buf, length (dec_text v))"
proof -
  let ?d = "dec_text v" and ?n = "length (dec_text v)"
  have "drop ?n buf \<noteq> []" using assms by simp
  then have "byte_put (rev ?d @ drop ?n buf) ?n 0 = Some (rev ?d @ 0 # drop (Suc ?n) buf)"
    by (simp add: byte_put_app drop_Suc tl_drop)
  moreover have "ll2str_reverse ([] @ rev ?d @ 0 # drop (Suc ?n) buf) 0 (?n - 1) = Some ([] @ rev (rev ?d) @ 0 # drop (Suc ?n) buf)"
    by (rule ll2str_reverse_ok) (simp_all add: length_dec_text_pos(2))
  ultimately show ?thesis
    using ll2str_digits_ok [of v buf 0 "[]"] assms by (simp add: sdsull2str_def)
qed

lemma sdsll2str_ok:
  assumes "LLONG_MIN < num" "length (int_text num) < length buf"
  shows "sdsll2str buf num = Some (int_text num @ 0 # drop (Suc (length (int_text num))) buf, length (int_text num))"
proof (cases "num < 0")
  case False
  then show ?thesis
    using sdsull2str_ok [of "nat num" buf] assms by (simp add: sdsll2str_def sdsull2str_def int_text_def case_prod_unfold)
next
  case True
  let ?d = "dec_text (nat (- num))" let ?n = "length ?d"
  have t: "int_text num = 45 # ?d" using True by (simp add: int_text_def)
  have n: "?n + 1 < length buf" using assms(2) t by simp
  have "byte_put (rev ?d @ drop ?n buf) ?n 45 = Some (rev ?d @ 45 # drop (Suc ?n) buf)"
    using n by (simp add: byte_put_app drop_Suc tl_drop)
  moreover have "byte_put ((rev ?d @ [45]) @ drop (Suc ?n) buf) (?n + 1) 0 = Some ((rev ?d @ [45]) @ 0 # drop (Suc (Suc ?n)) buf)"
    using n by (subst byte_put_app) (simp_all add: drop_Suc tl_drop)
  moreover have "ll2str_reverse ([] @ (rev ?d @ [45]) @ 0 # drop (Suc (Suc ?n)) buf) 0 (?n + 1 - 1) =
      Some ([] @ rev (rev ?d @ [45]) @ 0 # drop (Suc (Suc ?n)) buf)"
    by (rule ll2str_reverse_ok) (simp_all add: length_dec_text_pos(2))
  ultimately show ?thesis
    using ll2str_digits_ok [of "nat (- num)" buf 0 "[]"] assms(1) n True t by (simp add: sdsll2str_def)
qed

lemma llstr_size:
  assumes "LLONG_MIN < num" "num \<le> LLONG_MAX"
  shows "length (int_text num) < SDS_LLSTR_SIZE"
  using length_int_text_le [of num] assms by (simp add: SDS_LLSTR_SIZE_def)

lemma sdsfromlonglong_ok:
  assumes "LLONG_MIN < num" "num \<le> LLONG_MAX"
  shows "\<exists>r. sdsfromlonglong al junk num = Some r \<and> sds_result al r (int_text num)"
proof -
  let ?buf = "int_text num @ 0 # drop (Suc (length (int_text num))) (map junk [0..<SDS_LLSTR_SIZE])"
  have "sdsll2str (map junk [0..<SDS_LLSTR_SIZE]) num = Some (?buf, length (int_text num))"
    using llstr_size [OF assms] assms(1) by (intro sdsll2str_ok) auto
  moreover have "length (int_text num) < SDS_LIMIT" using llstr_size [OF assms] by (simp add: SDS_LLSTR_SIZE_def vire_limits)
  note sdsnewlen_ok [OF this, of ?buf al]
  ultimately show ?thesis by (simp add: sdsfromlonglong_def)
qed

lemma ullstr_size: "v \<le> ULLONG_MAX \<Longrightarrow> length (dec_text v) < SDS_LLSTR_SIZE"
  using length_dec_text_le [of v 19] by (simp add: SDS_LLSTR_SIZE_def vire_limits)

subsection \<open>Formats\<close>

lemma vprintf_buf_ok:
  "al_grants al \<Longrightarrow> 0 \<notin> set out \<Longrightarrow> 2 \<le> buflen \<Longrightarrow> vprintf_buf al out buflen = Some (out @ [0])"
proof (induction al out buflen rule: vprintf_buf.induct)
  case (1 al out buflen)
  show ?case
  proof (cases "buflen - 2 < length out")
    case True
    then have "out ! (buflen - 2) \<noteq> 0" using "1.prems"(2) by (metis nth_mem)
    moreover obtain m where "s_malloc al (buflen * 2) = Some m" using s_malloc_None "1.prems"(1) by fastforce
    ultimately show ?thesis using "1.IH" "1.prems" True by (subst vprintf_buf.simps) simp
  next
    case False
    with "1.prems"(3) show ?thesis by (subst vprintf_buf.simps) simp
  qed
qed

lemma sdscatvprintf_ok:
  assumes "al_grants al" "sds_repr s str" "0 \<notin> set out" "length str + length out < SDS_LIMIT div 4"
  shows "\<exists>s'. sdscatvprintf al s fmtlen out = Some (Some s') \<and> sds_repr s' (str @ out)"
proof -
  have m: "s_malloc al n \<noteq> None" for n using s_malloc_None assms(1) by blast
  have "vprintf_buf al out (if fmtlen * 2 > 1024 then fmtlen * 2 else 1024) = Some (out @ [0])"
    using assms by (intro vprintf_buf_ok) auto
  moreover obtain r where "sdscat al s (out @ [0]) = Some r" "sds_result al r (str @ out)"
    using sdscat_ok [OF assms(2-4), of al "[]"] by blast
  ultimately show ?thesis using m assms(1) by (auto simp: sdscatvprintf_def sds_result_def split: option.splits)
qed

lemma sdsinclen_mk:
  assumes "sds_fits t len alloc" "len + inc \<le> alloc"
  shows "sdsinclen (mk_sds t len alloc body) inc = Some (mk_sds t (len + inc) alloc body)"
proof (cases "t = SDS_TYPE_5")
  case True
  then have len: "len < 32" "inc = 0" using assms by (auto simp: sds_fits_def)
  have "(SDS_TYPE_5 OR push_bit 3 (word_of_nat len :: byte)) = word_of_nat (len * 8)"
    by (simp add: SDS_TYPE_5_def push_bit_eq_mult)
  then show ?thesis
    unfolding sdsinclen_def sds_flags_mk [OF assms(1)]
    using True len flags_5 [of len] sds_set_flags_mk [OF assms(1), of len alloc body len] by simp
next
  case False
  note f = sds_fits_type [OF assms(1) False]
  then show ?thesis
    using False hdr_write_mk(1) [OF assms(1) False]
    by (simp add: sdsinclen_def sds_flags_mk [OF assms(1)] hdr_read_mk [OF assms(1) False])
qed

lemma append_room:
  assumes "sds_room z s str l" "length bs = l"
  shows "\<exists>s' z'. sds_write s (length str) bs \<bind> (\<lambda>s. sdsinclen s l) = Some s' \<and> sds_open z' s' (str @ bs)"
proof -
  obtain t alloc tail where s: "s = mk_sds t (length str) alloc (str @ z # tail)" "sds_fits t (length str) alloc"
    "alloc \<le> length str + length tail" "length str + l \<le> alloc" using assms(1) by (auto simp: sds_room_def)
  obtain z' tail' where rest: "drop l (z # tail) = z' # tail'" using s(3,4) by (cases "drop l (z # tail)") auto
  then have len: "Suc (length tail') = Suc (length tail) - l" by (metis length_Cons length_drop)
  have "take (length str) (str @ z # tail) @ bs @ drop (length str + length bs) (str @ z # tail) = str @ bs @ z' # tail'"
    using rest assms(2) by simp
  then have "sds_write s (length str) bs = Some (mk_sds t (length str) alloc (str @ bs @ z' # tail'))"
    using sds_write_mk [OF s(2), of "length str" bs "str @ z # tail"] assms(2) s(3,4) by (simp add: s(1))
  moreover have "sds_fits t (length str + l) alloc" using room_fits [OF s(2)] s(4) by simp
  moreover have "alloc \<le> length (str @ bs) + length tail'" using s(3,4) assms(2) len by simp
  ultimately show ?thesis
    using sdsinclen_mk [OF s(2,4)] assms(2)
    by (intro exI [of _ "mk_sds t (length str + l) alloc ((str @ bs) @ z' # tail')"] exI [of _ z'])
      (auto simp: sds_open_def)
qed

lemma room_or_make:
  assumes "al_grants al" "sds_open z s str" "length str + n < SDS_LIMIT div 4" "sdsavail s = Some avail"
  shows "\<exists>s'. (if avail < n then do { r \<leftarrow> sdsMakeRoomFor al s n; r } else Some s) = Some s' \<and> sds_room z s' str n"
proof (cases "avail < n")
  case True
  obtain r where r: "sdsMakeRoomFor al s n = Some r" "case r of None \<Rightarrow> \<not> al_grants al | Some s' \<Rightarrow> sds_room z s' str n"
    using sdsMakeRoomFor_open [OF assms(2,3)] by blast
  with True assms(1) show ?thesis by (cases r) auto
next
  case False
  obtain t alloc tail where s: "s = mk_sds t (length str) alloc (str @ z # tail)" "sds_fits t (length str) alloc"
    "alloc \<le> length str + length tail" using assms(2) by (auto simp: sds_open_def)
  then have "length str \<le> alloc" "avail = alloc - length str"
    using assms(4) sdsavail_mk [OF s(2)] by (auto simp: sds_fits_def split: if_splits)
  with False s have "sds_room z s str n" by (simp add: sds_roomI)
  with False show ?thesis by simp
qed

lemma sdsavail_open: "sds_open z s str \<Longrightarrow> \<exists>avail. sdsavail s = Some avail"
  by (auto simp: sds_open_def sdsavail_mk)

lemma sds_write_1: "sds_write s i [c] = sds_put s i c"
  by (auto simp: sds_write_def sds_put_def mem_write_def byte_put_def upd_conv_take_nth_drop Suc_le_eq)

lemma fmt_put_ok:
  assumes "al_grants al" "sds_open z s str" "l \<le> length t" "int (length str + l) \<le> INT32_MAX"
  shows "\<exists>s' z'. fmt_put al s (int (length str)) t l = Some (s', int (length str + l)) \<and> sds_open z' s' (str @ take l t)"
proof -
  have lim: "length str + l < SDS_LIMIT div 4" using assms(4) by (simp add: vire_limits)
  obtain avail where av: "sdsavail s = Some avail" using sdsavail_open [OF assms(2)] by blast
  obtain s1 where s1: "(if avail < l then do { r \<leftarrow> sdsMakeRoomFor al s l; r } else Some s) = Some s1" "sds_room z s1 str l"
    using room_or_make [OF assms(1,2) lim av] by blast
  obtain s' z' where s': "sds_write s1 (length str) (take l t) \<bind> (\<lambda>s. sdsinclen s l) = Some s'" "sds_open z' s' (str @ take l t)"
    using append_room [OF s1(2), of "take l t"] assms(3) by auto
  have "cast_s 32 (int (length str) + int l) = int (length str + l)"
    using assms(4) by (subst cast_s_32_id) (auto simp: vire_limits)
  then have "fmt_put al s (int (length str)) t l = Some (s', int (length str + l))"
    using s'(1) assms(3) unfolding fmt_put_def av Option.bind.simps s1(1)
    by (auto simp: mem_read_def bind_eq_Some_conv)
  with s'(2) show ?thesis by blast
qed

lemma fmt_char_ok:
  assumes "sds_room z s str 1" "int (length str + 1) \<le> INT32_MAX"
  shows "\<exists>s' z'. fmt_char s (int (length str)) c = Some (s', int (length str + 1)) \<and> sds_open z' s' (str @ [c])"
proof -
  obtain s' z' where s': "sds_write s (length str) [c] \<bind> (\<lambda>s. sdsinclen s 1) = Some s'" "sds_open z' s' (str @ [c])"
    using append_room [OF assms(1), of "[c]"] by auto
  have "cast_s 32 (int (length str) + 1) = int (length str + 1)"
    using assms(2) by (subst cast_s_32_id) (auto simp: vire_limits)
  then have "fmt_char s (int (length str)) c = Some (s', int (length str + 1))"
    using s'(1) unfolding fmt_char_def sds_write_1 by (auto simp: bind_eq_Some_conv)
  with s'(2) show ?thesis by blast
qed

text \<open>A format as the list of its parts: a character that stands for itself, a percent sign with a
  character that is no conversion, and a conversion with its argument and the text it stands for.\<close>

datatype fmt_part = Lit byte | Pct byte | Conv byte fmt_arg "byte list"

fun part_text :: "fmt_part \<Rightarrow> byte list" where
  "part_text (Lit c) = [c]"
| "part_text (Pct c) = [37, c]"
| "part_text (Conv c a t) = [37, c]"

fun part_args :: "fmt_part \<Rightarrow> fmt_arg list" where
  "part_args (Conv c a t) = [a]"
| "part_args _ = []"

fun part_out :: "fmt_part \<Rightarrow> byte list" where
  "part_out (Lit c) = [c]"
| "part_out (Pct c) = [c]"
| "part_out (Conv c a t) = t"

definition conv_text :: "byte \<Rightarrow> fmt_arg \<Rightarrow> byte list \<Rightarrow> bool" where
  "conv_text c a t \<longleftrightarrow> (case a of
       Cstr_arg cs \<Rightarrow> c = 115 \<and> 0 \<notin> set t \<and> (\<exists>rest. cs = t @ 0 # rest)
     | Sds_arg s \<Rightarrow> c = 83 \<and> sds_repr s t
     | Int_arg n \<Rightarrow> (c = 105 \<or> c = 73) \<and> LLONG_MIN < n \<and> n \<le> LLONG_MAX \<and> t = int_text n
     | Uint_arg n \<Rightarrow> (c = 117 \<or> c = 85) \<and> n \<le> ULLONG_MAX \<and> t = dec_text n)"

fun part_wf :: "fmt_part \<Rightarrow> bool" where
  "part_wf (Lit c) \<longleftrightarrow> c \<noteq> 0 \<and> c \<noteq> 37"
| "part_wf (Pct c) \<longleftrightarrow> c \<notin> {115, 83, 105, 73, 117, 85}"
| "part_wf (Conv c a t) \<longleftrightarrow> conv_text c a t"

lemma fmt_conv_ok:
  assumes "al_grants al" "sds_open z s str" "conv_text c a t" "int (length str + length t) \<le> INT32_MAX"
  shows "\<exists>s' z'. (if c = 115 \<or> c = 83 then fmt_str al s (int (length str)) c a else fmt_num al junk s (int (length str)) c a)
      = Some (s', int (length str + length t)) \<and> sds_open z' s' (str @ t)"
proof -
  note put = fmt_put_ok [OF assms(1,2) _ assms(4)]
  have pre: "\<exists>s' z'. fmt_put al s (int (length str)) (t @ r) (length t) = Some (s', int (length str + length t)) \<and> sds_open z' s' (str @ t)" for r
    using put [of "t @ r"] by simp
  show ?thesis
  proof (cases a)
    case (Cstr_arg cs)
    then obtain rest where "c = 115" "0 \<notin> set t" "cs = t @ 0 # rest" using assms(3) by (auto simp: conv_text_def)
    with Cstr_arg show ?thesis using pre [of "0 # rest"] by (simp add: fmt_str_def strlen_Some)
  next
    case (Sds_arg x)
    then have x: "c = 83" "sds_repr x t" using assms(3) by (auto simp: conv_text_def)
    obtain tail where "sds_bytes x = t @ 0 # tail" using sds_bytes_repr [OF x(2)] by blast
    with Sds_arg x show ?thesis using pre [of "0 # tail"] by (simp add: fmt_str_def sds_len_repr)
  next
    case (Int_arg n)
    then have n: "c = 105 \<or> c = 73" "LLONG_MIN < n" "n \<le> LLONG_MAX" "t = int_text n" using assms(3) by (auto simp: conv_text_def)
    have "sdsll2str (map junk [0..<SDS_LLSTR_SIZE]) n = Some (t @ 0 # drop (Suc (length t)) (map junk [0..<SDS_LLSTR_SIZE]), length t)"
      using llstr_size [OF n(2,3)] sdsll2str_ok [OF n(2), of "map junk [0..<SDS_LLSTR_SIZE]"] n(4) by simp
    then show ?thesis
      using Int_arg n(1) pre [of "0 # drop (Suc (length t)) (map junk [0..<SDS_LLSTR_SIZE])"] by (auto simp: fmt_num_def)
  next
    case (Uint_arg n)
    then have n: "c = 117 \<or> c = 85" "n \<le> ULLONG_MAX" "t = dec_text n" using assms(3) by (auto simp: conv_text_def)
    have "sdsull2str (map junk [0..<SDS_LLSTR_SIZE]) n = Some (t @ 0 # drop (Suc (length t)) (map junk [0..<SDS_LLSTR_SIZE]), length t)"
      using ullstr_size [OF n(2)] sdsull2str_ok [of n "map junk [0..<SDS_LLSTR_SIZE]"] n(3) by simp
    then show ?thesis
      using Uint_arg n(1) pre [of "0 # drop (Suc (length t)) (map junk [0..<SDS_LLSTR_SIZE])"] by (auto simp: fmt_num_def)
  qed
qed

lemma sdscatfmt_loop_ok:
  assumes "al_grants al" "list_all part_wf ps" "sds_open z s str"
    "int (length str + length (concat (map part_out ps))) \<le> INT32_MAX"
  shows "\<exists>s' z'. sdscatfmt_loop al junk s (int (length str)) (concat (map part_text ps) @ 0 # rest) (concat (map part_args ps)) =
      Some (s', int (length str + length (concat (map part_out ps)))) \<and> sds_open z' s' (str @ concat (map part_out ps))"
  using assms(2-4)
proof (induction ps arbitrary: z s str)
  case Nil
  then show ?case by (subst sdscatfmt_loop.simps) (auto simp: byte_at_def)
next
  case (Cons p ps)
  let ?rest = "concat (map part_text ps) @ 0 # rest" and ?args = "concat (map part_args ps)"
  obtain avail where av: "sdsavail s = Some avail" using sdsavail_open [OF Cons.prems(2)] by blast
  have lim: "length str + 1 < SDS_LIMIT div 4" using Cons.prems(3) by (simp add: vire_limits)
  obtain s1 where "(if avail < 1 then do { r \<leftarrow> sdsMakeRoomFor al s 1; r } else Some s) = Some s1" "sds_room z s1 str 1"
    using room_or_make [OF assms(1) Cons.prems(2) lim av] by blast
  then have s1: "(if avail = 0 then do { r \<leftarrow> sdsMakeRoomFor al s 1; r } else Some s) = Some s1" "sds_room z s1 str 1" "sds_open z s1 str"
    by (auto simp: sds_room_def sds_open_def)
  have step: "\<exists>s' z'. sdscatfmt_loop al junk s2 (int (length (str @ part_out p))) ?rest ?args =
      Some (s', int (length str + length (concat (map part_out (p # ps))))) \<and> sds_open z' s' (str @ concat (map part_out (p # ps)))"
    if "sds_open z2 s2 (str @ part_out p)" for s2 z2
    using Cons.IH [OF _ that] Cons.prems by (auto simp: ac_simps)
  have one: "\<exists>s' z'. fmt_char s1 (int (length str)) c = Some (s', int (length (str @ part_out p))) \<and> sds_open z' s' (str @ part_out p)"
    if "part_out p = [c]" for c
    using fmt_char_ok [OF s1(2), of c] Cons.prems(3) that by auto
  show ?case
  proof (cases p)
    case (Lit c)
    obtain s2 z2 where s2: "fmt_char s1 (int (length str)) c = Some (s2, int (length (str @ part_out p)))" "sds_open z2 s2 (str @ part_out p)"
      using one [of c] Lit by auto
    show ?thesis using step [OF s2(2)] Cons.prems(1) Lit s2(1) av s1(1)
      by (subst sdscatfmt_loop.simps) (simp add: byte_at_def)
  next
    case (Pct c)
    obtain s2 z2 where s2: "fmt_char s1 (int (length str)) c = Some (s2, int (length (str @ part_out p)))" "sds_open z2 s2 (str @ part_out p)"
      using one [of c] Pct by auto
    show ?thesis using step [OF s2(2)] Cons.prems(1) Pct s2(1) av s1(1)
      by (subst sdscatfmt_loop.simps) (simp add: byte_at_def)
  next
    case (Conv c a t)
    obtain s2 z2 where s2: "(if c = 115 \<or> c = 83 then fmt_str al s1 (int (length str)) c a else fmt_num al junk s1 (int (length str)) c a)
        = Some (s2, int (length (str @ part_out p)))" "sds_open z2 s2 (str @ part_out p)"
      using fmt_conv_ok [OF assms(1) s1(3), of c a t junk] Cons.prems(1,3) Conv by auto
    have "c \<in> {115, 83, 105, 73, 117, 85}"
      using Cons.prems(1) Conv by (auto simp: conv_text_def split: fmt_arg.splits)
    then show ?thesis using step [OF s2(2)] Conv s2(1) av s1(1)
      by (subst sdscatfmt_loop.simps) (simp add: byte_at_def)
  qed
qed

lemma sdscatfmt_ok:
  assumes "al_grants al" "sds_repr s str" "list_all part_wf ps" "int (length str + length (concat (map part_out ps))) \<le> INT32_MAX"
  shows "\<exists>s'. sdscatfmt al junk s (concat (map part_text ps) @ 0 # rest) (concat (map part_args ps)) = Some s' \<and>
    sds_repr s' (str @ concat (map part_out ps))"
proof -
  let ?out = "concat (map part_out ps)"
  obtain s1 z where s1: "sdscatfmt_loop al junk s (int (length str)) (concat (map part_text ps) @ 0 # rest) (concat (map part_args ps)) =
      Some (s1, int (length str + length ?out))" "sds_open z s1 (str @ ?out)"
    using sdscatfmt_loop_ok [OF assms(1,3) _ assms(4)] assms(2) sds_open_repr by metis
  obtain t alloc tail where m: "s1 = mk_sds t (length (str @ ?out)) alloc ((str @ ?out) @ z # tail)"
    "sds_fits t (length (str @ ?out)) alloc" "alloc \<le> length (str @ ?out) + length tail"
    using s1(2) by (auto simp: sds_open_def)
  have "((str @ ?out) @ z # tail)[length (str @ ?out) := 0] = (str @ ?out) @ 0 # tail" by (simp only: list_update_length)
  then have "sds_put s1 (length (str @ ?out)) 0 = Some (mk_sds t (length (str @ ?out)) alloc ((str @ ?out) @ 0 # tail))"
    using sds_put_mk [OF m(2), of "length (str @ ?out)" "(str @ ?out) @ z # tail"] m(1) by simp
  moreover have "cast_s 32 (int (length str)) = int (length str)"
    using assms(4) by (intro cast_s_32_id) (auto simp: vire_limits)
  ultimately show ?thesis
    using s1(1) sds_repr_mk [OF m(2,3)] by (simp add: sdscatfmt_def sds_len_repr [OF assms(2)] nat_int_add)
qed

subsection \<open>Characters and comparison\<close>

lemma sds_map_loop_ok:
  "sds_fits t len alloc \<Longrightarrow> j = length xs \<Longrightarrow> n = length ys \<Longrightarrow>
   sds_map_loop g (mk_sds t len alloc (xs @ ys @ zs)) j n = Some (mk_sds t len alloc (xs @ map g ys @ zs))"
proof (induction ys arbitrary: xs j n)
  case (Cons y ys)
  have "sds_map_loop g (mk_sds t len alloc ((xs @ [g y]) @ ys @ zs)) (j + 1) (length ys) =
     Some (mk_sds t len alloc ((xs @ [g y]) @ map g ys @ zs))"
    using Cons.prems by (intro Cons.IH) auto
  then show ?case using Cons.prems
    by (simp add: sds_at_mk [OF Cons.prems(1)] sds_put_mk [OF Cons.prems(1)] nth_append list_update_append)
qed simp

lemma sds_map_repr:
  assumes "sds_repr s str"
  shows "\<exists>s'. sds_map_loop g s 0 (length str) = Some s' \<and> sds_repr s' (map g str)"
proof -
  obtain t alloc tail where s: "s = mk_sds t (length str) alloc (str @ 0 # tail)" "sds_fits t (length str) alloc"
    "alloc \<le> length str + length tail" using assms by (rule sds_reprE)
  have "sds_map_loop g s 0 (length str) = Some (mk_sds t (length str) alloc (map g str @ 0 # tail))"
    using sds_map_loop_ok [OF s(2), of 0 "[]" "length str" str g "0 # tail"] s(1) by simp
  moreover have "sds_repr (mk_sds t (length str) alloc (map g str @ 0 # tail)) (map g str)"
    using sds_repr_mk [of t "map g str" alloc tail] s(2,3) by simp
  ultimately show ?thesis by blast
qed

lemma sdstolower_ok:
  assumes "sds_repr s str" "int (length str) \<le> INT32_MAX"
  shows "\<exists>s'. sdstolower s = Some s' \<and> sds_repr s' (map tolower str)" "\<exists>s'. sdstoupper s = Some s' \<and> sds_repr s' (map toupper str)"
proof -
  have "cast_s 32 (int (length str)) = int (length str)"
    using assms(2) by (intro cast_s_32_id) (auto simp: vire_limits)
  then show "\<exists>s'. sdstolower s = Some s' \<and> sds_repr s' (map tolower str)" "\<exists>s'. sdstoupper s = Some s' \<and> sds_repr s' (map toupper str)"
    using sds_map_repr [OF assms(1)] by (simp_all add: sdstolower_def sdstoupper_def sds_len_repr [OF assms(1)])
qed

lemma sdsmapchars_ok:
  assumes "sds_repr s str" "n \<le> length from" "n \<le> length to"
  shows "\<exists>s'. sdsmapchars s from to n = Some s' \<and> sds_repr s' (map (map_char (take n from) (take n to)) str)"
  using sds_map_repr [OF assms(1)] assms(2,3) by (simp add: sdsmapchars_def sds_len_repr [OF assms(1)] mem_read_def)

text \<open>The comparison is the lexicographic order on the bytes, in which a proper prefix is smaller.\<close>

fun bytes_less :: "byte list \<Rightarrow> byte list \<Rightarrow> bool" where
  "bytes_less [] ys \<longleftrightarrow> ys \<noteq> []"
| "bytes_less (x # xs) [] \<longleftrightarrow> False"
| "bytes_less (x # xs) (y # ys) \<longleftrightarrow> x < y \<or> x = y \<and> bytes_less xs ys"

definition mem_order :: "byte list \<Rightarrow> byte list \<Rightarrow> int" where
  "mem_order xs ys = (let c = memcmp (take (min (length xs) (length ys)) xs) (take (min (length xs) (length ys)) ys)
     in if c = 0 then int (length xs) - int (length ys) else c)"

lemma uint_inj: "uint x = uint y \<longleftrightarrow> x = y"
  by (simp add: word_uint_eq_iff)

lemma mem_order_Cons: "mem_order (x # xs) (y # ys) = (if x = y then mem_order xs ys else uint x - uint y)"
  by (simp add: mem_order_def Let_def uint_inj)

lemma mem_order_less: "mem_order xs ys < 0 \<longleftrightarrow> bytes_less xs ys"
proof (induction xs ys rule: bytes_less.induct)
  case (3 x xs y ys)
  then show ?case by (auto simp: mem_order_Cons word_less_def)
qed (auto simp: mem_order_def)

lemma mem_order_eq: "mem_order xs ys = 0 \<longleftrightarrow> xs = ys"
proof (induction xs ys rule: bytes_less.induct)
  case (3 x xs y ys)
  then show ?case by (auto simp: mem_order_Cons uint_inj)
qed (auto simp: mem_order_def)

lemma memcmp_eq: "length xs = length ys \<Longrightarrow> memcmp xs ys = 0 \<longleftrightarrow> xs = ys"
  by (induction xs ys rule: list_induct2) (auto simp: uint_inj)

lemma sdscmp_ok:
  assumes "sds_repr s str" "sds_repr s' str'" "int (length str) \<le> INT32_MAX" "int (length str') \<le> INT32_MAX"
  shows "\<exists>c. sdscmp s s' = Some c \<and> (c < 0 \<longleftrightarrow> bytes_less str str') \<and> (c = 0 \<longleftrightarrow> str = str')"
proof -
  let ?n = "min (length str) (length str')"
  have rd: "sds_read s 0 ?n = Some (take ?n str)" "sds_read s' 0 ?n = Some (take ?n str')"
    using assms(1,2) by (auto elim!: sds_reprE simp: sds_read_mk)
  have minlen: "(if length str < length str' then length str else length str') = ?n" by simp
  have "cast_s 32 (int (length str) - int (length str')) = int (length str) - int (length str')"
    using assms(3,4) by (intro cast_s_32_id) (auto simp: vire_limits)
  then have "sdscmp s s' = Some (mem_order str str')"
    unfolding sdscmp_def sds_len_repr [OF assms(1)] sds_len_repr [OF assms(2)] Option.bind.simps Let_def minlen rd
    by (simp add: mem_order_def Let_def)
  then show ?thesis using mem_order_less mem_order_eq by auto
qed

lemma isnum_loop_ok:
  assumes "sds_repr s str"
  shows "i + n = length str \<Longrightarrow> isnum_loop s i n = Some (digits_only (drop i str))"
proof (induction n arbitrary: i)
  case (Suc n)
  have at: "sds_at s i = Some (str ! i)"
    using assms Suc.prems by (auto elim!: sds_reprE simp: sds_at_mk nth_append)
  have d: "drop i str = str ! i # drop (Suc i) str" using Suc.prems by (simp add: Cons_nth_drop_Suc)
  have "\<not> (sint (str ! i) < 48 \<or> sint (str ! i) > 57) \<longleftrightarrow> 48 \<le> str ! i \<and> str ! i \<le> 57"
    by (simp only: digit_sint(1) [symmetric] not_less de_Morgan_disj)
  with Suc at show ?case unfolding d by auto
qed simp

lemma sdsIsNum_ok:
  assumes "sds_repr s str"
  shows "sdsIsNum (Some s) = Some (str \<noteq> [] \<and> digits_only str)"
  using isnum_loop_ok [OF assms, of 0 "length str"] by (auto simp: sdsIsNum_def sds_len_repr [OF assms])

subsection \<open>Splitting and joining\<close>

fun join_text :: "byte list \<Rightarrow> byte list list \<Rightarrow> byte list" where
  "join_text sep [] = []"
| "join_text sep [t] = t"
| "join_text sep (t # ts) = t @ sep @ join_text sep ts"

definition occurs :: "byte list \<Rightarrow> byte list \<Rightarrow> bool" where
  "occurs sep t \<longleftrightarrow> (\<exists>k. k + length sep \<le> length t \<and> take (length sep) (drop k t) = sep)"

lemma join_text_snoc: "join_text sep (ts @ [t]) = concat (map (\<lambda>t. t @ sep) ts) @ t"
proof (induction ts)
  case (Cons a ts)
  then show ?case by (cases "ts @ [t]") auto
qed simp

lemma sds_result_grants: "al_grants al \<Longrightarrow> sds_result al r str \<Longrightarrow> \<exists>s. r = Some s \<and> sds_repr s str"
  by (cases r) (auto simp: sds_result_def)

lemma occurs_part:
  assumes "\<And>k. start \<le> k \<Longrightarrow> k + length sep \<le> e \<Longrightarrow> take (length sep) (drop k str) \<noteq> sep" "sep \<noteq> []"
  shows "\<not> occurs sep (take (e - start) (drop start str))"
proof
  assume "occurs sep (take (e - start) (drop start str))"
  then obtain k where k: "k + length sep \<le> length (take (e - start) (drop start str))"
    "take (length sep) (drop k (take (e - start) (drop start str))) = sep" by (auto simp: occurs_def)
  have len: "0 < length sep" using assms(2) by simp
  have ke: "k + length sep \<le> e - start" using k(1) by simp
  then have "length sep \<le> e - (start + k)" by linarith
  then have "take (length sep) (drop k (take (e - start) (drop start str))) = take (length sep) (drop (start + k) str)"
    by (simp add: drop_take ac_simps min_absorb1)
  moreover have "start + k + length sep \<le> e" using ke len by linarith
  ultimately show False using assms(1) [of "start + k"] k(2) by simp
qed

lemma sep_found_ok:
  assumes "0 < seplen" "seplen \<le> length sep" "j + seplen \<le> length str"
  shows "sep_found (str @ rest) j sep seplen = Some (take seplen (drop j str) = take seplen sep)"
proof -
  have tk: "take seplen (drop j (str @ rest)) = take seplen (drop j str)" using assms(3) by simp
  have eq: "memcmp (take seplen (drop j str)) (take seplen sep) = 0 \<longleftrightarrow> take seplen (drop j str) = take seplen sep"
    using assms by (intro memcmp_eq) auto
  have one: "take seplen (drop j str) = [str ! j]" "take seplen sep = [sep ! 0]" if "seplen = 1"
    using assms that by (cases "drop j str", auto simp: nth_via_drop, cases sep, auto)
  then show ?thesis using assms eq tk by (auto simp: sep_found_def byte_at_def mem_read_def nth_append)
qed

text \<open>The state of the loop: the string up to \<open>start\<close> is the tokens found so far, each with a separator
  after it.\<close>

definition split_state :: "byte list \<Rightarrow> byte list \<Rightarrow> nat \<Rightarrow> nat \<Rightarrow> sds list \<Rightarrow> byte list list \<Rightarrow> bool" where
  "split_state str sep start slots tokens toks \<longleftrightarrow>
     start \<le> length str \<and> length tokens < slots \<and> list_all2 sds_repr tokens toks \<and>
     take start str = concat (map (\<lambda>t. t @ sep) toks) \<and> (\<forall>t \<in> set toks. \<not> occurs sep t)"

lemma split_token:
  assumes "al_grants al" "start \<le> j" "j \<le> length str" "length str < SDS_LIMIT"
  shows "\<exists>t. sdsnewlen al (Some (drop start (str @ rest))) (j - start) = Some (Some t) \<and> sds_repr t (take (j - start) (drop start str))"
proof -
  have "j - start < SDS_LIMIT" "j - start \<le> length (drop start (str @ rest))" using assms by auto
  from sdsnewlen_ok [OF this, of al] obtain r where
    "sdsnewlen al (Some (drop start (str @ rest))) (j - start) = Some r"
    "sds_result al r (take (j - start) (drop start (str @ rest)))" by blast
  moreover have "take (j - start) (drop start (str @ rest)) = take (j - start) (drop start str)" using assms by simp
  ultimately show ?thesis using sds_result_grants [OF assms(1)] by auto
qed

lemma split_state_push:
  assumes "split_state str sep start slots tokens toks" "start \<le> j" "j + length sep \<le> length str" "length tokens + 1 < slots'"
    "take (length sep) (drop j str) = sep" "sds_repr t (take (j - start) (drop start str))" "\<not> occurs sep (take (j - start) (drop start str))"
  shows "split_state str sep (j + length sep) slots' (tokens @ [t]) (toks @ [take (j - start) (drop start str)])"
proof -
  have "take (j + length sep) str = take j str @ take (length sep) (drop j str)" by (simp only: take_add)
  also have "take j str = take start str @ take (j - start) (drop start str)"
    using take_add [of start "j - start" str] assms(2) by simp
  finally show ?thesis using assms by (simp add: split_state_def list_all2_appendI)
qed

lemma split_loop_ok:
  assumes "al_grants al" "0 < seplen" "seplen \<le> length sep" "length str < SDS_LIMIT"
  shows "split_state str (take seplen sep) start slots tokens toks \<Longrightarrow> start \<le> j \<Longrightarrow>
    (\<And>k. start \<le> k \<Longrightarrow> k < j \<Longrightarrow> take seplen (drop k str) \<noteq> take seplen sep) \<Longrightarrow>
    \<exists>start' slots' tokens' toks'. split_loop al (str @ rest) (length str) sep seplen j start slots tokens = Some (Some (start', slots', tokens')) \<and>
      split_state str (take seplen sep) start' slots' tokens' toks' \<and> \<not> occurs (take seplen sep) (drop start' str)"
proof (induction "length str - j" arbitrary: j start slots tokens toks rule: less_induct)
  case less
  have ls: "length (take seplen sep) = seplen" "take seplen sep \<noteq> []" using assms(2,3) by auto
  show ?case
  proof (cases "j + (seplen - 1) < length str")
    case False
    have "\<not> occurs (take seplen sep) (take (length str - start) (drop start str))"
      by (rule occurs_part) (use less.prems(3) ls False in auto)
    with less.prems(1) False show ?thesis by (subst split_loop.simps) auto
  next
    case True
    then have fit: "j + seplen \<le> length str" using assms(2) by simp
    define slots' where "slots' = (if slots < length tokens + 2 then slots * 2 else slots)"
    have sl: "length tokens + 1 < slots'" using less.prems(1) by (auto simp: slots'_def split_state_def)
    have al: "al n \<noteq> None" for n using assms(1) by (simp add: al_grants_def)
    note found = sep_found_ok [OF assms(2,3) fit, of rest]
    note unf = split_loop.simps [of al "str @ rest" "length str" sep seplen j start slots tokens] slots'_def [symmetric] Let_def found Option.bind.simps
    show ?thesis
    proof (cases "take seplen (drop j str) = take seplen sep")
      case match: True
      let ?t = "take (j - start) (drop start str)"
      obtain t where t: "sdsnewlen al (Some (drop start (str @ rest))) (j - start) = Some (Some t)" "sds_repr t ?t"
        using split_token [OF assms(1) less.prems(2) _ assms(4), of rest] fit by auto
      have no: "\<not> occurs (take seplen sep) ?t"
        by (rule occurs_part) (use less.prems(3) ls assms(2) in auto)
      have "split_state str (take seplen sep) (j + seplen) slots' (tokens @ [t]) (toks @ [?t])"
        using split_state_push [OF less.prems(1,2) _ sl _ t(2) no] fit match ls(1) by simp
      moreover have "length str - (j + seplen) < length str - j" using fit assms(2) by linarith
      moreover have "take seplen (drop k str) \<noteq> take seplen sep" if "j + seplen \<le> k" "k < j + seplen" for k using that by simp
      ultimately obtain start' slots'' tokens' toks' where r: "split_loop al (str @ rest) (length str) sep seplen (j + seplen) (j + seplen) slots' (tokens @ [t]) = Some (Some (start', slots'', tokens'))"
        "split_state str (take seplen sep) start' slots'' tokens' toks'" "\<not> occurs (take seplen sep) (drop start' str)"
        using less.hyps [of "j + seplen" "j + seplen" slots' "tokens @ [t]" "toks @ [?t]"] by blast
      have "split_loop al (str @ rest) (length str) sep seplen j start slots tokens =
          split_loop al (str @ rest) (length str) sep seplen (j + seplen) (j + seplen) slots' (tokens @ [t])"
        unfolding unf using True match t(1) sl assms(2) by (simp add: al store_token_def del: not_None_eq)
      with r show ?thesis by auto
    next
      case no: False
      have "split_loop al (str @ rest) (length str) sep seplen j start slots tokens =
          split_loop al (str @ rest) (length str) sep seplen (j + 1) start slots' tokens"
        unfolding unf using True no by (simp add: al del: not_None_eq)
      moreover have "take seplen (drop k str) \<noteq> take seplen sep" if "start \<le> k" "k < j + 1" for k
        using less.prems(3) no that by (cases "k = j") auto
      moreover have "split_state str (take seplen sep) start slots' tokens toks"
        using less.prems(1) sl by (simp add: split_state_def)
      ultimately show ?thesis
        using less.hyps [of "j + 1" start slots' tokens toks] True less.prems(2) by auto
    qed
  qed
qed

lemma sdssplitlen_ok:
  assumes "al_grants al" "0 < seplen" "nat seplen \<le> length sep" "length str < SDS_LIMIT" "str \<noteq> []"
  shows "\<exists>tokens toks. sdssplitlen al (str @ rest) (int (length str)) sep seplen = Some (Some tokens) \<and> list_all2 sds_repr tokens toks \<and>
    toks \<noteq> [] \<and> join_text (take (nat seplen) sep) toks = str \<and> (\<forall>t \<in> set toks. \<not> occurs (take (nat seplen) sep) t)"
proof -
  let ?sep = "take (nat seplen) sep"
  have "split_state str ?sep 0 5 [] []" by (simp add: split_state_def)
  then obtain start slots tokens toks where l: "split_loop al (str @ rest) (length str) sep (nat seplen) 0 0 5 [] = Some (Some (start, slots, tokens))"
    "split_state str ?sep start slots tokens toks" "\<not> occurs ?sep (drop start str)"
    using split_loop_ok [OF assms(1) _ assms(3,4) _ order_refl, where rest = rest] assms(2)
    by (metis not_less_zero zero_less_nat_eq)
  have st: "start \<le> length str" "length tokens < slots" "list_all2 sds_repr tokens toks" "take start str = concat (map (\<lambda>t. t @ ?sep) toks)"
    "\<forall>t \<in> set toks. \<not> occurs ?sep t" using l(2) by (auto simp: split_state_def)
  obtain t where t: "sdsnewlen al (Some (drop start (str @ rest))) (length str - start) = Some (Some t)" "sds_repr t (drop start str)"
    using split_token [OF assms(1) st(1) order_refl assms(4), of rest] by auto
  have "al n \<noteq> None" for n using assms(1) by (simp add: al_grants_def)
  then have "sdssplitlen al (str @ rest) (int (length str)) sep seplen = Some (Some (tokens @ [t]))"
    using assms(2,5) l(1) t(1) st(2) by (simp add: sdssplitlen_def store_token_def)
  moreover have "join_text ?sep (toks @ [drop start str]) = str"
    using append_take_drop_id [of start str] st(4) by (simp add: join_text_snoc)
  moreover have "list_all2 sds_repr (tokens @ [t]) (toks @ [drop start str])" using st(3) t(2) by (simp add: list_all2_appendI)
  ultimately show ?thesis using st(5) l(3)
    by (intro exI [of _ "tokens @ [t]"] exI [of _ "toks @ [drop start str]"]) auto
qed

lemma sdsempty_ok: "al_grants al \<Longrightarrow> \<exists>s. sdsempty al = Some (Some s) \<and> sds_repr s []"
  using sdsnewlen_ok [of 0 "[0]" al] sds_result_grants [of al] by (auto simp: sdsempty_def vire_limits)

lemma joinsds_loop_ok:
  "al_grants al \<Longrightarrow> list_all2 sds_repr argv toks \<Longrightarrow> sds_repr join pre \<Longrightarrow> seplen \<le> length sep \<Longrightarrow>
   length pre + length (join_text (take seplen sep) toks) < SDS_LIMIT div 4 \<Longrightarrow>
   \<exists>s. joinsds_loop al join argv sep seplen = Some s \<and> sds_repr s (pre @ join_text (take seplen sep) toks)"
proof (induction argv arbitrary: join pre toks)
  case (Cons a argv)
  obtain t ts where toks: "toks = t # ts" "sds_repr a t" "list_all2 sds_repr argv ts" using Cons.prems(2) by (auto simp: list_all2_Cons1)
  have len: "length pre + length t < SDS_LIMIT div 4" using Cons.prems(5) toks(1) by (cases ts) auto
  obtain s1 where s1: "sdscatsds al join a = Some (Some s1)" "sds_repr s1 (pre @ t)"
    using sdscatsds_ok [OF Cons.prems(3) toks(2) len, of al] sds_result_grants [OF Cons.prems(1)] by blast
  show ?case
  proof (cases ts)
    case Nil
    with toks(3) s1 toks(1) show ?thesis by simp
  next
    case (Cons t' ts')
    then have ne: "argv \<noteq> []" and j: "join_text (take seplen sep) toks = t @ take seplen sep @ join_text (take seplen sep) ts"
      using toks by auto
    have len2: "length (pre @ t) + seplen < SDS_LIMIT div 4"
      using Cons.prems(5) Cons.prems(4) j by simp
    obtain s2 where s2: "sdscatlen al s1 sep seplen = Some (Some s2)" "sds_repr s2 ((pre @ t) @ take seplen sep)"
      using sdscatlen_ok [OF s1(2) Cons.prems(4) len2, of al] sds_result_grants [OF Cons.prems(1)] by blast
    show ?thesis
      using Cons.IH [OF Cons.prems(1) toks(3) s2(2) Cons.prems(4)] Cons.prems(5) j s1(1) s2(1) ne by simp
  qed
qed auto

lemma sdsjoinsds_ok:
  assumes "al_grants al" "list_all2 sds_repr argv toks" "seplen \<le> length sep" "length (join_text (take seplen sep) toks) < SDS_LIMIT div 4"
  shows "\<exists>s. sdsjoinsds al argv sep seplen = Some s \<and> sds_repr s (join_text (take seplen sep) toks)"
proof -
  obtain e where "sdsempty al = Some (Some e)" "sds_repr e []" using sdsempty_ok [OF assms(1)] by blast
  with joinsds_loop_ok [OF assms(1,2) _ assms(3), of e "[]"] assms(4) show ?thesis by (simp add: sdsjoinsds_def)
qed

subsection \<open>Quoting\<close>

definition repr_char :: "byte \<Rightarrow> byte list" where
  "repr_char c =
     (if c = 92 \<or> c = 34 then [92, c]
      else if c = 10 then [92, 110] else if c = 13 then [92, 114] else if c = 9 then [92, 116]
      else if c = 7 then [92, 97] else if c = 8 then [92, 98]
      else if isprint c then [c]
      else [92, 120, hex_digit (unat c div 16), hex_digit (unat c mod 16)])"

definition repr_text :: "byte list \<Rightarrow> byte list" where
  "repr_text str = 34 # concat (map repr_char str) @ [34]"

lemma hex_digit_all:
  "\<forall>n \<in> set [0..<16]. hex_digit n \<noteq> 0 \<and> is_hex_digit (hex_digit n) \<and> hex_digit_to_int (hex_digit n) = n"
  by code_simp

lemma hex_digit_ok: "n < 16 \<Longrightarrow> hex_digit n \<noteq> 0" "n < 16 \<Longrightarrow> is_hex_digit (hex_digit n)" "n < 16 \<Longrightarrow> hex_digit_to_int (hex_digit n) = n"
  using hex_digit_all by auto

lemma unat_16: "unat (c :: byte) div 16 < 16" "unat (c :: byte) mod 16 < 16"
  using unat_byte_lt [of c] by auto

lemma repr_char_nz: "0 \<notin> set (repr_char c)"
  using hex_digit_ok(1) [OF unat_16(1) [of c]] hex_digit_ok(1) [OF unat_16(2) [of c]]
  by (auto simp: repr_char_def isprint_def)

lemma length_repr_char: "length (repr_char c) \<le> 4"
  by (simp add: repr_char_def)

lemma length_repr_chars: "length (concat (map repr_char str)) \<le> 4 * length str"
proof (induction str)
  case (Cons c str)
  then show ?case using length_repr_char [of c] by simp
qed simp

lemma catrepr_char_ok:
  assumes "al_grants al" "sds_repr s str" "length str + 4 < SDS_LIMIT div 4"
  shows "\<exists>s'. catrepr_char al s c = Some (Some s') \<and> sds_repr s' (str @ repr_char c)"
proof -
  have p: "\<exists>s'. sdscatvprintf al s n out = Some (Some s') \<and> sds_repr s' (str @ out)" if "0 \<notin> set out" "length out \<le> 4" for n out
    using sdscatvprintf_ok [OF assms(1,2) that(1)] that(2) assms(3) by simp
  have l: "\<exists>s'. sdscatlen al s [a, b, 0] 2 = Some (Some s') \<and> sds_repr s' (str @ [a, b])" for a b
    using sdscatlen_ok [OF assms(2), of 2 "[a, b, 0]" al] sds_result_grants [OF assms(1)] assms(3) by (auto simp: numeral_2_eq_2)
  have "(\<exists>n. catrepr_char al s c = sdscatvprintf al s n (repr_char c)) \<or>
      (\<exists>a b. catrepr_char al s c = sdscatlen al s [a, b, 0] 2 \<and> repr_char c = [a, b])"
    by (auto simp: catrepr_char_def repr_char_def)
  then show ?thesis
    using p [OF repr_char_nz [of c] length_repr_char [of c]] l by (elim disjE exE conjE) simp_all
qed

lemma catrepr_loop_ok:
  "al_grants al \<Longrightarrow> sds_repr s str \<Longrightarrow> length str + 4 * length bs < SDS_LIMIT div 4 \<Longrightarrow>
   \<exists>s'. catrepr_loop al s bs = Some s' \<and> sds_repr s' (str @ concat (map repr_char bs))"
proof (induction bs arbitrary: s str)
  case (Cons c bs)
  obtain s1 where s1: "catrepr_char al s c = Some (Some s1)" "sds_repr s1 (str @ repr_char c)"
    using catrepr_char_ok [OF Cons.prems(1,2), of c] Cons.prems(3) by auto
  have "length (str @ repr_char c) + 4 * length bs < SDS_LIMIT div 4" using Cons.prems(3) length_repr_char [of c] by simp
  with Cons.IH [OF Cons.prems(1) s1(2)] s1(1) show ?case by simp
qed auto

lemma sdscatrepr_ok:
  assumes "al_grants al" "sds_repr s str" "length str + 4 * length bs + 2 < SDS_LIMIT div 4"
  shows "\<exists>s'. sdscatrepr al s (bs @ rest) (length bs) = Some (Some s') \<and> sds_repr s' (str @ repr_text bs)"
proof -
  have cat: "\<exists>s'. sdscatlen al s [34, 0] 1 = Some (Some s') \<and> sds_repr s' (str @ [34])" if "sds_repr s str" "length str + 1 < SDS_LIMIT div 4" for s str
    using sdscatlen_ok [OF that(1), of 1 "[34, 0]" al] sds_result_grants [OF assms(1)] that(2) by auto
  obtain s1 where s1: "sdscatlen al s [34, 0] 1 = Some (Some s1)" "sds_repr s1 (str @ [34])" using cat [OF assms(2)] assms(3) by auto
  obtain s2 where s2: "catrepr_loop al s1 bs = Some s2" "sds_repr s2 ((str @ [34]) @ concat (map repr_char bs))"
    using catrepr_loop_ok [OF assms(1) s1(2), of bs] assms(3) by auto
  obtain s3 where "sdscatlen al s2 [34, 0] 1 = Some (Some s3)" "sds_repr s3 (((str @ [34]) @ concat (map repr_char bs)) @ [34])"
    using cat [OF s2(2)] assms(3) length_repr_chars [of bs] by auto
  with s1(1) s2(1) show ?thesis by (simp add: sdscatrepr_def mem_read_def repr_text_def)
qed

subsection \<open>Splitting a line into arguments\<close>

lemma cat1_ok:
  assumes "al_grants al" "sds_repr s str" "length str + 1 < SDS_LIMIT div 4"
  shows "\<exists>s'. cat1 al s c = Some s' \<and> sds_repr s' (str @ [c])"
proof -
  obtain r where r: "sdscatlen al s [c] 1 = Some r" "sds_result al r (str @ take 1 [c])"
    using sdscatlen_ok [OF assms(2), of 1 "[c]" al] assms(3) by auto
  obtain s' where "r = Some s'" "sds_repr s' (str @ [c])" using sds_result_grants [OF assms(1) r(2)] by auto
  with r(1) show ?thesis by (simp add: cat1_def)
qed

text \<open>A quoted character, read within double quotes, is the character.\<close>

lemma token_char:
  assumes "al_grants al" "sds_repr s str" "length str + 1 < SDS_LIMIT div 4"
  shows "\<exists>s'. splitargs_token al (repr_char c @ rest) s True insq = splitargs_token al rest s' True insq \<and> sds_repr s' (str @ [c])"
proof -
  obtain s' where s': "cat1 al s c = Some s'" "sds_repr s' (str @ [c])" using cat1_ok [OF assms] by blast
  have esc: "splitargs_token al ([92, e] @ rest) s True insq = splitargs_token al rest s' True insq"
    if "unescape e = c" "e \<noteq> 0" "e \<noteq> 120" for e
    using that s'(1) by (subst splitargs_token.simps) (simp add: is_hex_escape_def is_escape_def byte_at_def)
  have plain: "splitargs_token al ([c] @ rest) s True insq = splitargs_token al rest s' True insq" if "c \<noteq> 92" "c \<noteq> 34" "isprint c"
  proof -
    have "c \<noteq> 0" using that(3) by (auto simp: isprint_def)
    then show ?thesis using that s'(1) by (subst splitargs_token.simps) (simp add: is_hex_escape_def is_escape_def byte_at_def)
  qed
  have hex: "splitargs_token al ([92, 120, hex_digit (unat c div 16), hex_digit (unat c mod 16)] @ rest) s True insq = splitargs_token al rest s' True insq"
  proof -
    have "word_of_nat (unat c div 16 * 16 + unat c mod 16) = (word_of_nat (unat c) :: byte)" by (simp only: div_mult_mod_eq)
    also have "\<dots> = c" by simp
    finally have "word_of_nat (unat c div 16 * 16 + unat c mod 16) = c" .
    then show ?thesis
      using s'(1) hex_digit_ok(2,3) [OF unat_16(1) [of c]] hex_digit_ok(2,3) [OF unat_16(2) [of c]]
      by (subst splitargs_token.simps) (simp add: is_hex_escape_def is_escape_def byte_at_def del: of_nat_add of_nat_mult)
  qed
  have "splitargs_token al (repr_char c @ rest) s True insq = splitargs_token al rest s' True insq"
    unfolding repr_char_def using esc plain hex by (auto simp: unescape_def)
  with s'(2) show ?thesis by blast
qed

lemma token_chars:
  "al_grants al \<Longrightarrow> sds_repr s str \<Longrightarrow> length str + length bs < SDS_LIMIT div 4 \<Longrightarrow>
   \<exists>s'. splitargs_token al (concat (map repr_char bs) @ rest) s True insq = splitargs_token al rest s' True insq \<and> sds_repr s' (str @ bs)"
proof (induction bs arbitrary: s str)
  case (Cons c bs)
  obtain s1 where s1: "splitargs_token al (repr_char c @ concat (map repr_char bs) @ rest) s True insq =
      splitargs_token al (concat (map repr_char bs) @ rest) s1 True insq" "sds_repr s1 (str @ [c])"
    using token_char [OF Cons.prems(1,2), of c "concat (map repr_char bs) @ rest"] Cons.prems(3) by auto
  then show ?case using Cons.IH [OF Cons.prems(1) s1(2)] Cons.prems(3) by simp
qed auto

lemma token_quoted:
  assumes "al_grants al" "length bs < SDS_LIMIT div 4" "sds_repr e []" "n = 0 \<or> isspace n"
  shows "\<exists>s. splitargs_token al (repr_text bs @ n # rest) e False False = Some (Some (n # rest, s)) \<and> sds_repr s bs"
proof -
  have "splitargs_token al (repr_text bs @ n # rest) e False False = splitargs_token al (concat (map repr_char bs) @ 34 # n # rest) e True False"
    by (subst splitargs_token.simps) (simp add: repr_text_def byte_at_def)
  moreover obtain s where "splitargs_token al (concat (map repr_char bs) @ 34 # n # rest) e True False = splitargs_token al (34 # n # rest) s True False"
    "sds_repr s bs" using token_chars [OF assms(1,3), of bs] assms(2) by auto
  moreover have "splitargs_token al (34 # n # rest) s True False = Some (Some (n # rest, s))"
    using assms(4) by (subst splitargs_token.simps) (auto simp: is_hex_escape_def is_escape_def byte_at_def close_quote_def)
  ultimately show ?thesis by auto
qed

lemma splitargs_loop_quoted:
  assumes "al_grants al" "\<forall>bs \<in> set strs. length bs < SDS_LIMIT div 4"
  shows "\<exists>ss. splitargs_loop al (join_text [32] (map repr_text strs) @ 0 # tail) vector = Some (Some (vector @ ss)) \<and> list_all2 sds_repr ss strs"
  using assms(2)
proof (induction strs arbitrary: vector)
  case Nil
  then show ?case by (subst splitargs_loop.simps) (simp add: byte_at_def)
next
  case (Cons bs strs)
  obtain e where e: "sdsempty al = Some (Some e)" "sds_repr e []" using sdsempty_ok [OF assms(1)] by blast
  let ?tl = "if strs = [] then 0 # tail else 32 # join_text [32] (map repr_text strs) @ 0 # tail"
  have line: "join_text [32] (map repr_text (bs # strs)) @ 0 # tail = repr_text bs @ ?tl" by (cases strs) auto
  obtain n rest where tl: "?tl = n # rest" "n = 0 \<or> isspace n" by (cases "strs = []") (auto simp: isspace_def)
  obtain s where s: "splitargs_token al (repr_text bs @ n # rest) e False False = Some (Some (n # rest, s))" "sds_repr s bs"
    using token_quoted [OF assms(1) _ e(2) tl(2), of bs rest] Cons.prems by auto
  have "splitargs_loop al (repr_text bs @ n # rest) vector = splitargs_loop al (n # rest) (vector @ [s])"
    using e(1) s(1) by (subst splitargs_loop.simps) (simp add: byte_at_def repr_text_def isspace_def)
  moreover have "splitargs_loop al (n # rest) (vector @ [s]) = splitargs_loop al (join_text [32] (map repr_text strs) @ 0 # tail) (vector @ [s])"
  proof (cases "strs = []")
    case False
    then have "n = 32" "rest = join_text [32] (map repr_text strs) @ 0 # tail" using tl(1) by auto
    then show ?thesis by (subst splitargs_loop.simps) (simp add: byte_at_def isspace_def)
  qed (use tl(1) in auto)
  ultimately show ?case
    using Cons.IH [of "vector @ [s]"] Cons.prems s(2) unfolding line tl(1) by auto
qed

text \<open>On every line, quoted or not, the loops stop at its terminator.\<close>

lemma byte_at_line: "0 \<notin> set cs \<Longrightarrow> n \<le> length cs \<Longrightarrow> byte_at (cs @ 0 # rest) n = Some (if n < length cs then cs ! n else 0)"
  by (simp add: byte_at_def nth_append)

lemma is_hex_escape_line:
  assumes "0 \<notin> set cs"
  shows "\<exists>b. is_hex_escape (cs @ 0 # rest) = Some b \<and> (b \<longrightarrow> 4 \<le> length cs)"
proof -
  have nz: "\<not> is_hex_digit 0" by (simp add: is_hex_digit_def)
  show ?thesis
  proof (cases "4 \<le> length cs")
    case True
    then show ?thesis using assms by (auto simp: is_hex_escape_def byte_at_line)
  next
    case False
    then have "length cs = 0 \<or> length cs = 1 \<or> length cs = 2 \<or> length cs = 3" by linarith
    then show ?thesis using assms nz by (auto simp: is_hex_escape_def byte_at_line)
  qed
qed

lemma is_escape_line:
  assumes "0 \<notin> set cs" "\<not> ok 0"
  shows "\<exists>b. is_escape (cs @ 0 # rest) ok = Some b \<and> (b \<longrightarrow> 2 \<le> length cs)"
proof (cases "2 \<le> length cs")
  case True
  then show ?thesis using assms(1) by (auto simp: is_escape_def byte_at_line)
next
  case False
  then have "length cs = 0 \<or> length cs = 1" by linarith
  then show ?thesis using assms by (auto simp: is_escape_def byte_at_line)
qed

lemma close_quote_line:
  assumes "0 \<notin> set cs" "cs \<noteq> []"
  shows "\<exists>r. close_quote (cs @ 0 # rest) s = Some r \<and> (\<forall>p' s'. r = Some (p', s') \<longrightarrow> p' = drop 1 cs @ 0 # rest)"
proof -
  have "1 \<le> length cs" using assms(2) by (cases cs) auto
  then show ?thesis using assms(1) by (auto simp: close_quote_def byte_at_line)
qed

definition line_result :: "byte list \<Rightarrow> byte list \<Rightarrow> (byte list \<times> sds) option option \<Rightarrow> bool" where
  "line_result cs rest x \<longleftrightarrow> (\<exists>r. x = Some r \<and>
     (\<forall>p s. r = Some (p, s) \<longrightarrow> (\<exists>cs'. p = cs' @ 0 # rest \<and> 0 \<notin> set cs' \<and> (length cs' < length cs \<or> cs = [] \<and> cs' = []))))"

lemma line_result_drop:
  "0 \<notin> set cs \<Longrightarrow> line_result (drop k cs) rest x \<Longrightarrow> 0 < k \<Longrightarrow> k \<le> length cs \<Longrightarrow> line_result cs rest x"
  unfolding line_result_def by fastforce

lemma line_result_if:
  "(b \<Longrightarrow> line_result cs rest x) \<Longrightarrow> (\<not> b \<Longrightarrow> line_result cs rest y) \<Longrightarrow> line_result cs rest (if b then x else y)"
  by simp

lemma token_line:
  assumes "al_grants al"
  shows "0 \<notin> set cs \<Longrightarrow> sds_repr s str \<Longrightarrow> length str + length cs < SDS_LIMIT div 4 \<Longrightarrow>
    line_result cs rest (splitargs_token al (cs @ 0 # rest) s inq insq)"
proof (induction "length cs" arbitrary: cs s str inq insq rule: less_induct)
  case less
  let ?p = "cs @ 0 # rest"
  have rec0: "line_result cs rest (splitargs_token al (drop k ?p) s inq' insq')" if "0 < k" "k \<le> length cs" for k inq' insq'
  proof -
    have "0 \<notin> set (drop k cs)" using less.prems(1) by (meson in_set_dropD)
    then have "line_result (drop k cs) rest (splitargs_token al (drop k cs @ 0 # rest) s inq' insq')"
      using that less.prems by (intro less.hyps) auto
    then show ?thesis using line_result_drop [OF less.prems(1)] that by simp
  qed
  have rec: "line_result cs rest (cat1 al s c \<bind> (\<lambda>s. splitargs_token al (drop k ?p) s inq' insq'))" if k: "0 < k" "k \<le> length cs" for k c inq' insq'
  proof -
    obtain s' where s': "cat1 al s c = Some s'" "sds_repr s' (str @ [c])"
      using cat1_ok [OF assms less.prems(2), of c] k less.prems(3) by auto
    have "0 \<notin> set (drop k cs)" using less.prems(1) by (meson in_set_dropD)
    then have "line_result (drop k cs) rest (splitargs_token al (drop k cs @ 0 # rest) s' inq' insq')"
      using that less.prems s'(2) by (intro less.hyps [OF _ _ s'(2)]) auto
    then show ?thesis using line_result_drop [OF less.prems(1)] that s'(1) by simp
  qed
  have close: "line_result cs rest (close_quote ?p s)" if ne: "cs \<noteq> []"
  proof -
    obtain r where r: "close_quote ?p s = Some r" "\<And>p' s'. r = Some (p', s') \<Longrightarrow> p' = drop 1 cs @ 0 # rest"
      using close_quote_line [OF less.prems(1) ne, of rest s] by blast
    have "0 \<notin> set (drop 1 cs)" "length (drop 1 cs) < length cs" using less.prems(1) that by (auto dest: in_set_dropD)
    with r show ?thesis unfolding line_result_def by blast
  qed
  have err: "line_result cs rest (Some None)" by (simp add: line_result_def)
  obtain hex where fl1: "is_hex_escape ?p = Some hex" "hex \<longrightarrow> 4 \<le> length cs"
    using is_hex_escape_line [OF less.prems(1)] by blast
  obtain esc where fl2: "is_escape ?p (\<lambda>c. c \<noteq> 0) = Some esc" "esc \<longrightarrow> 2 \<le> length cs"
    using is_escape_line [OF less.prems(1), of "\<lambda>c. c \<noteq> 0" rest] by auto
  obtain esc' where fl3: "is_escape ?p (\<lambda>c. c = 39) = Some esc'" "esc' \<longrightarrow> 2 \<le> length cs"
    using is_escape_line [OF less.prems(1), of "\<lambda>c. c = 39" rest] by auto
  have at: "byte_at ?p n = Some (if n < length cs then cs ! n else 0)" if "n \<le> length cs" for n
    using byte_at_line [OF less.prems(1) that] .
  define c where "c = (if 0 < length cs then cs ! 0 else 0)"
  have c0: "byte_at ?p 0 = Some c" using at [of 0] by (simp add: c_def)
  have cz: "c = 0 \<longleftrightarrow> cs = []" using less.prems(1) by (cases cs) (auto simp: c_def)
  have "0 \<notin> set (drop 1 cs)" using less.prems(1) by (meson in_set_dropD)
  then have fin: "line_result cs rest (Some (Some (if c \<noteq> 0 then drop 1 ?p else ?p, s)))"
    using cz less.prems(1) unfolding line_result_def by (cases cs) auto
  have one: "0 < length cs" if "c \<noteq> 0" using that cz by simp
  show ?case
  proof (cases "inq \<or> insq")
    case False
    then show ?thesis
      unfolding splitargs_token.simps [of al ?p s inq insq] c0 Option.bind.simps
      by (intro line_result_if fin rec0 rec) (use one in \<open>auto simp: Suc_le_eq\<close>)
  next
    case True
    have hexr: "line_result cs rest (do { h \<leftarrow> byte_at ?p 2; l \<leftarrow> byte_at ?p 3; s \<leftarrow> cat1 al s (f h l); splitargs_token al (drop 4 ?p) s inq insq })" if hex for f
      using that fl1(2) rec [of 4] by (simp add: at del: drop_append)
    have escr: "line_result cs rest (do { c \<leftarrow> byte_at ?p 1; s \<leftarrow> cat1 al s (f c); splitargs_token al (drop 2 ?p) s inq insq })" if esc for f
      using that fl2(2) rec [of 2] by (simp add: at del: drop_append)
    have esc'r: "line_result cs rest (do { s \<leftarrow> cat1 al s d; splitargs_token al (drop 2 ?p) s inq insq })" if esc' for d
      using that fl3(2) rec [of 2] by (simp del: drop_append)
    have plain: "line_result cs rest (do { s \<leftarrow> cat1 al s c; splitargs_token al (drop 1 ?p) s inq insq })" if "c \<noteq> 0"
      using rec [of 1 c] one [OF that] by (simp add: Suc_leI del: drop_append)
    show ?thesis
      unfolding splitargs_token.simps [of al ?p s inq insq] c0 fl1(1) fl2(1) fl3(1) Option.bind.simps
      by (intro line_result_if hexr escr esc'r plain close err) (use True cz in auto)
  qed
qed

lemma splitargs_loop_line:
  assumes "al_grants al"
  shows "0 \<notin> set cs \<Longrightarrow> length cs < SDS_LIMIT div 4 \<Longrightarrow> \<exists>r. splitargs_loop al (cs @ 0 # rest) vector = Some r"
proof (induction "length cs" arbitrary: cs vector rule: less_induct)
  case less
  show ?case
  proof (cases cs)
    case Nil
    then show ?thesis by (subst splitargs_loop.simps) (simp add: byte_at_def)
  next
    case (Cons c cs')
    show ?thesis
    proof (cases "isspace c")
      case True
      with Cons less.hyps [of cs' vector] less.prems show ?thesis by (subst splitargs_loop.simps) (simp add: byte_at_def)
    next
      case False
      obtain e where e: "sdsempty al = Some (Some e)" "sds_repr e []" using sdsempty_ok [OF assms] by blast
      obtain r where r: "splitargs_token al (cs @ 0 # rest) e False False = Some r"
        "\<And>p s. r = Some (p, s) \<Longrightarrow> \<exists>cs'. p = cs' @ 0 # rest \<and> 0 \<notin> set cs' \<and> length cs' < length cs"
        using token_line [OF assms less.prems(1) e(2), of rest False False] less.prems(2) Cons by (auto simp: line_result_def)
      show ?thesis
      proof (cases r)
        case None
        then show ?thesis using Cons False less.prems(1) e(1) r(1) by (subst splitargs_loop.simps) (simp add: byte_at_def)
      next
        case (Some ps)
        obtain p s where ps: "ps = (p, s)" by (cases ps)
        obtain cs2 where cs2: "p = cs2 @ 0 # rest" "0 \<notin> set cs2" "length cs2 < length cs" using r(2) Some ps by blast
        obtain r' where "splitargs_loop al (cs2 @ 0 # rest) (vector @ [s]) = Some r'"
          using less.hyps [OF cs2(3,2)] cs2(3) less.prems(2) by fastforce
        then show ?thesis using Cons False less.prems(1) e(1) r(1) Some ps cs2(1) by (subst splitargs_loop.simps) (simp add: byte_at_def)
      qed
    qed
  qed
qed

section \<open>Properties\<close>

text \<open>Sequences of operations on a string, and their meaning on the content.\<close>

datatype sds_op = Cat_op "byte list" | Cpy_op "byte list" | Grow_op nat | Room_op nat | Trim_op "byte list" | Range_op int int
  | Clear_op | Pack_op | Lower_op | Upper_op

fun sds_step :: "allocator \<Rightarrow> sds \<Rightarrow> sds_op \<Rightarrow> sds option option" where
  "sds_step al s (Cat_op bs) = sdscatlen al s bs (length bs)"
| "sds_step al s (Cpy_op bs) = sdscpylen al s bs (length bs)"
| "sds_step al s (Grow_op n) = sdsgrowzero al s n"
| "sds_step al s (Room_op n) = sdsMakeRoomFor al s n"
| "sds_step al s (Trim_op cset) = map_option Some (sdstrim s cset)"
| "sds_step al s (Range_op a b) = map_option Some (sdsrange s a b)"
| "sds_step al s Clear_op = map_option Some (sdsclear s)"
| "sds_step al s Pack_op = sdsRemoveFreeSpace al s"
| "sds_step al s Lower_op = map_option Some (sdstolower s)"
| "sds_step al s Upper_op = map_option Some (sdstoupper s)"

fun sds_spec :: "sds_op \<Rightarrow> byte list \<Rightarrow> byte list" where
  "sds_spec (Cat_op bs) str = str @ bs"
| "sds_spec (Cpy_op bs) str = bs"
| "sds_spec (Grow_op n) str = str @ replicate (n - length str) 0"
| "sds_spec (Room_op n) str = str"
| "sds_spec (Trim_op cset) str = trim_spec cset str"
| "sds_spec (Range_op a b) str = range_spec str a b"
| "sds_spec Clear_op str = []"
| "sds_spec Pack_op str = str"
| "sds_spec Lower_op str = map tolower str"
| "sds_spec Upper_op str = map toupper str"

fun sds_op_grow :: "sds_op \<Rightarrow> nat" where
  "sds_op_grow (Cat_op bs) = length bs"
| "sds_op_grow (Cpy_op bs) = length bs"
| "sds_op_grow (Grow_op n) = n"
| "sds_op_grow (Room_op n) = n"
| "sds_op_grow _ = 0"

fun sds_op_ok :: "sds_op \<Rightarrow> bool" where
  "sds_op_ok (Range_op a b) \<longleftrightarrow> INT32_MIN \<le> a \<and> a \<le> INT32_MAX \<and> INT32_MIN \<le> b \<and> b < INT32_MAX"
| "sds_op_ok _ \<longleftrightarrow> True"

fun sds_run :: "allocator \<Rightarrow> sds \<Rightarrow> sds_op list \<Rightarrow> sds option option" where
  "sds_run al s [] = Some (Some s)"
| "sds_run al s (op # ops) = do {
     r \<leftarrow> sds_step al s op;
     case r of None \<Rightarrow> Some None | Some s \<Rightarrow> sds_run al s ops
   }"

lemma length_trim_spec: "length (trim_spec cset str) \<le> length str"
  unfolding trim_spec_def by (metis length_dropWhile_le length_rev le_trans)

lemma length_sds_spec: "length (sds_spec op str) \<le> length str + sds_op_grow op"
  using length_trim_spec by (cases op) (auto simp: range_spec_def Let_def)

lemma sds_step_ok:
  assumes "sds_repr s str" "sds_op_ok op" "int (length str + sds_op_grow op) < INT32_MAX"
  shows "\<exists>r. sds_step al s op = Some r \<and> sds_result al r (sds_spec op str)"
proof -
  have lim: "length str + sds_op_grow op < SDS_LIMIT div 4" "int (length str) < INT32_MAX" using assms(3) by (auto simp: vire_limits)
  have res: "\<exists>r. map_option Some x = Some r \<and> sds_result al r str'" if "\<exists>s'. x = Some s' \<and> sds_repr s' str'" for x str'
    using that by (auto simp: sds_result_def)
  show ?thesis
  proof (cases op)
    case (Cat_op bs)
    then show ?thesis using sdscatlen_ok [OF assms(1), of "length bs" bs al] lim by simp
  next
    case (Cpy_op bs)
    then show ?thesis using sdscpylen_ok [OF assms(1), of "length bs" bs al] lim by simp
  next
    case (Grow_op n)
    then show ?thesis using sdsgrowzero_ok [OF assms(1), of n al] lim by simp
  next
    case (Room_op n)
    then obtain r where "sdsMakeRoomFor al s n = Some r" "case r of None \<Rightarrow> \<not> al_grants al | Some s' \<Rightarrow> sds_room 0 s' str n"
      using sdsMakeRoomFor_ok [OF assms(1), of n al] lim by auto
    with Room_op show ?thesis by (cases r) (auto simp: sds_result_def sds_room_def sds_repr_def)
  next
    case (Trim_op cset)
    then show ?thesis using res [OF sdstrim_ok [OF assms(1)]] by simp
  next
    case (Range_op a b)
    then have "range_idx (length str) b - range_idx (length str) a < INT32_MAX"
      using assms(2) lim(2) by (auto simp: range_idx_def vire_limits)
    then show ?thesis using res [OF sdsrange_ok [OF assms(1), of a b]] Range_op assms(2) lim(2) by simp
  next
    case Pack_op
    then show ?thesis using sdsRemoveFreeSpace_ok [OF assms(1), of al] lim by (auto simp: vire_limits)
  qed (use res [OF sdsclear_ok [OF assms(1)]] res [OF sdstolower_ok(1) [OF assms(1)]] res [OF sdstolower_ok(2) [OF assms(1)]] lim(2) in auto)
qed

lemma sds_run_ok:
  "sds_repr s str \<Longrightarrow> \<forall>op \<in> set ops. sds_op_ok op \<Longrightarrow> int (length str + sum_list (map sds_op_grow ops)) < INT32_MAX \<Longrightarrow>
   \<exists>r. sds_run al s ops = Some r \<and> sds_result al r (fold sds_spec ops str)"
proof (induction ops arbitrary: s str)
  case Nil
  then show ?case by (simp add: sds_result_def)
next
  case (Cons op ops)
  obtain r where r: "sds_step al s op = Some r" "sds_result al r (sds_spec op str)"
    using sds_step_ok [OF Cons.prems(1), of op al] Cons.prems(2,3) by auto
  show ?case
  proof (cases r)
    case None
    with r show ?thesis by (simp add: sds_result_def)
  next
    case (Some s')
    then have "sds_repr s' (sds_spec op str)" using r(2) by (simp add: sds_result_def)
    with Cons.IH [of s' "sds_spec op str"] Cons.prems length_sds_spec [of op str] r(1) Some show ?thesis by simp
  qed
qed

text \<open>C31: a string created by \<open>sdsnewlen\<close> and edited by any sequence of \<open>sdscatlen\<close>, \<open>sdscpylen\<close>,
  \<open>sdsgrowzero\<close>, \<open>sdsMakeRoomFor\<close>, \<open>sdstrim\<close>, \<open>sdsrange\<close>, \<open>sdsclear\<close>, \<open>sdsRemoveFreeSpace\<close>, \<open>sdstolower\<close>
  and \<open>sdstoupper\<close> never accesses memory outside of its block, whatever header types it goes through and
  whatever the allocator leaves in its blocks, and then holds what the same sequence makes of the
  content, with an exact length and a terminator; the null pointer is returned only when the allocator
  refuses.\<close>

theorem sds_history:
  assumes "\<forall>op \<in> set ops. sds_op_ok op" "int (length init + sum_list (map sds_op_grow ops)) < INT32_MAX"
  shows "\<exists>r. do { r \<leftarrow> sdsnewlen al (Some init) (length init);
               case r of None \<Rightarrow> Some None | Some s \<Rightarrow> sds_run al s ops } = Some r \<and>
    (case r of None \<Rightarrow> \<not> al_grants al | Some s \<Rightarrow> sds_repr s (fold sds_spec ops init) \<and> sdslen s = Some (length (fold sds_spec ops init)))"
proof -
  have "length init < SDS_LIMIT" using assms(2) by (simp add: vire_limits)
  then obtain r where r: "sdsnewlen al (Some init) (length init) = Some r" "sds_result al r init"
    using sdsnewlen_ok [of "length init" init al] by auto
  show ?thesis
  proof (cases r)
    case None
    with r show ?thesis by (simp add: sds_result_def)
  next
    case (Some s)
    then have "sds_repr s init" using r(2) by (simp add: sds_result_def)
    from sds_run_ok [OF this assms, of al] obtain r' where "sds_run al s ops = Some r'" "sds_result al r' (fold sds_spec ops init)" by blast
    with r(1) Some show ?thesis by (auto simp: sds_result_def sds_len_repr split: option.splits)
  qed
qed

theorem sds_history_witness:
  "\<exists>s. do { r \<leftarrow> sdsnewlen (\<lambda>_. Some (\<lambda>_. 7)) (Some [97, 98]) 2;
          case r of None \<Rightarrow> Some None | Some s \<Rightarrow> sds_run (\<lambda>_. Some (\<lambda>_. 7)) s [Cat_op [99, 32], Trim_op [32], Range_op 1 (- 1), Upper_op] } = Some (Some s) \<and>
     sds_repr s [66, 67] \<and> sdslen s = Some 2"
proof -
  have "al_grants (\<lambda>_. Some (\<lambda>_. 7))" by (simp add: al_grants_def)
  moreover have "fold sds_spec [Cat_op [99, 32], Trim_op [32], Range_op 1 (- 1), Upper_op] [97, 98] = [66, 67]" by code_simp
  ultimately show ?thesis
    using sds_history [of "[Cat_op [99, 32], Trim_op [32], Range_op 1 (- 1), Upper_op]" "[97, 98]" "\<lambda>_. Some (\<lambda>_. 7)"]
    by (auto simp: vire_limits numeral_2_eq_2 split: option.splits)
qed

text \<open>C32: a line made of strings quoted by \<open>sdscatrepr\<close> with a space between them is split by
  \<open>sdssplitargs\<close> into exactly these strings, whatever bytes they contain; what \<open>sdscatrepr\<close> appends is the
  quoted string.\<close>

theorem sdssplitargs_roundtrip:
  assumes "al_grants al" "\<forall>bs \<in> set strs. length bs < 2 ^ 50" "sds_repr s str" "length str < 2 ^ 50"
  shows "(\<forall>bs \<in> set strs. \<exists>s'. sdscatrepr al s (bs @ rest) (length bs) = Some (Some s') \<and> sds_repr s' (str @ repr_text bs)) \<and>
    (\<exists>ss. sdssplitargs al (join_text [32] (map repr_text strs) @ 0 # tail) = Some (Some ss) \<and> list_all2 sds_repr ss strs)"
proof
  show "\<forall>bs \<in> set strs. \<exists>s'. sdscatrepr al s (bs @ rest) (length bs) = Some (Some s') \<and> sds_repr s' (str @ repr_text bs)"
    using assms sdscatrepr_ok [OF assms(1,3)] by (force simp: vire_limits)
  have "\<forall>bs \<in> set strs. length bs < SDS_LIMIT div 4" using assms(2) by (force simp: vire_limits)
  then show "\<exists>ss. sdssplitargs al (join_text [32] (map repr_text strs) @ 0 # tail) = Some (Some ss) \<and> list_all2 sds_repr ss strs"
    using splitargs_loop_quoted [OF assms(1), of strs tail "[]"] by (simp add: sdssplitargs_def)
qed

lemma sds_ex: "\<exists>s. sds_repr s []"
  using sdsempty_ok [of "\<lambda>_. Some (\<lambda>_. 7)"] by (auto simp: al_grants_def)

theorem sdssplitargs_roundtrip_witness:
  "\<exists>ss. sdssplitargs (\<lambda>_. Some (\<lambda>_. 7)) ([34, 97, 92, 34, 34, 32, 34, 92, 120, 48, 48, 34] @ 0 # []) = Some (Some ss) \<and> list_all2 sds_repr ss [[97, 34], [0]]"
proof -
  obtain s where "sds_repr s []" using sds_ex by blast
  moreover have "join_text [32] (map repr_text [[97, 34], [0]]) = [34, 97, 92, 34, 34, 32, 34, 92, 120, 48, 48, 34]" by code_simp
  ultimately show ?thesis
    using sdssplitargs_roundtrip [of "\<lambda>_. Some (\<lambda>_. 7)" "[[97, 34], [0]]" s "[]" "[]" "[]"] by (auto simp: al_grants_def)
qed

text \<open>C33: on every terminated line, whatever quotes and escapes it contains, \<open>sdssplitargs\<close> returns (a list of
  arguments or the null pointer for a line with a quoting error) and does not read behind the
  terminator.\<close>

theorem sdssplitargs_safe:
  assumes "al_grants al" "0 \<notin> set line" "length line < 2 ^ 60"
  shows "\<exists>r. sdssplitargs al (line @ [0]) = Some r"
proof -
  have "length line < SDS_LIMIT div 4" using assms(3) by (simp add: vire_limits)
  from splitargs_loop_line [OF assms(1,2) this, of "[]" "[]"] show ?thesis by (simp add: sdssplitargs_def)
qed

theorem sdssplitargs_safe_witness:
  "\<exists>r. sdssplitargs (\<lambda>_. Some (\<lambda>_. 7)) ([34, 92] @ [0]) = Some r"
  using sdssplitargs_safe [of "\<lambda>_. Some (\<lambda>_. 7)" "[34, 92]"] by (simp add: al_grants_def)

text \<open>C34: \<open>sdssplitlen\<close> cuts a string at the occurrences of the separator (no part contains it, and the
  parts with the separator between them are the string), and \<open>sdsjoinsds\<close> of the parts gives the string
  back.\<close>

theorem sdssplit_join:
  assumes "al_grants al" "0 < seplen" "seplen \<le> length sep" "str \<noteq> []" "length str < 2 ^ 60"
  shows "\<exists>tokens toks s. sdssplitlen al (str @ rest) (int (length str)) sep (int seplen) = Some (Some tokens) \<and>
    list_all2 sds_repr tokens toks \<and> join_text (take seplen sep) toks = str \<and> (\<forall>t \<in> set toks. \<not> occurs (take seplen sep) t) \<and>
    sdsjoinsds al tokens sep seplen = Some s \<and> sds_repr s str"
proof -
  obtain tokens toks where t: "sdssplitlen al (str @ rest) (int (length str)) sep (int seplen) = Some (Some tokens)" "list_all2 sds_repr tokens toks"
    "join_text (take seplen sep) toks = str" "\<forall>t \<in> set toks. \<not> occurs (take seplen sep) t"
    using sdssplitlen_ok [OF assms(1), of "int seplen" sep str rest] assms by (auto simp: vire_limits)
  obtain s where "sdsjoinsds al tokens sep seplen = Some s" "sds_repr s str"
    using sdsjoinsds_ok [OF assms(1) t(2) assms(3)] t(3) assms(5) by (auto simp: vire_limits)
  with t show ?thesis by blast
qed

theorem sdssplit_join_witness:
  "\<exists>tokens toks s. sdssplitlen (\<lambda>_. Some (\<lambda>_. 7)) ([97, 44, 98] @ []) 3 [44] 1 = Some (Some tokens) \<and> list_all2 sds_repr tokens toks \<and>
    join_text [44] toks = [97, 44, 98] \<and> sdsjoinsds (\<lambda>_. Some (\<lambda>_. 7)) tokens [44] 1 = Some s \<and> sds_repr s [97, 44, 98]"
  using sdssplit_join [of "\<lambda>_. Some (\<lambda>_. 7)" 1 "[44]" "[97, 44, 98]" "[]"] by (auto simp: al_grants_def)



text \<open>A format that ends in a single percent sign: its terminator is taken as the character after the
  percent sign, and the loop goes on behind it.\<close>

lemma sdscatfmt_lone_percent:
  assumes "al_grants al" "sds_repr s str" "length str < 100"
  shows "sdscatfmt al junk s [37, 0] [] = None"
proof -
  obtain avail where av: "sdsavail s = Some avail" using sdsavail_open [of 0 s str] assms(2) by (auto simp: sds_open_repr)
  have lim: "length str + 1 < SDS_LIMIT div 4" using assms(3) by (simp add: vire_limits)
  obtain s1 where "(if avail < 1 then do { r \<leftarrow> sdsMakeRoomFor al s 1; r } else Some s) = Some s1" "sds_room 0 s1 str 1"
    using room_or_make [OF assms(1) _ lim av, of 0] assms(2) by (auto simp: sds_open_repr)
  then have s1: "(if avail = 0 then do { r \<leftarrow> sdsMakeRoomFor al s 1; r } else Some s) = Some s1" "sds_room 0 s1 str 1" by auto
  obtain s2 z where "fmt_char s1 (int (length str)) 0 = Some (s2, int (length str + 1))"
    using fmt_char_ok [OF s1(2), of 0] assms(3) by (auto simp: vire_limits)
  moreover have "sdscatfmt_loop al junk s2 i [] [] = None" for i by (subst sdscatfmt_loop.simps) (simp add: byte_at_def)
  ultimately have "sdscatfmt_loop al junk s (int (length str)) [37, 0] [] = None"
    using av s1(1) by (subst sdscatfmt_loop.simps) (simp add: byte_at_def)
  moreover have "cast_s 32 (int (length str)) = int (length str)" using assms(3) by (intro cast_s_32_id) auto
  ultimately show ?thesis by (simp add: sdscatfmt_def sds_len_repr [OF assms(2)])
qed

text \<open>The smallest number, and a zero increment of a string of type 5, are refused.\<close>

lemma sdsll2str_min: "sdsll2str buf LLONG_MIN = None"
  by (simp add: sdsll2str_def)

lemma sdsIncrLen_zero: "sds_fits SDS_TYPE_5 len len \<Longrightarrow> sdsIncrLen (mk_sds SDS_TYPE_5 len len body) 0 = None"
  using sds_flags_mk [of SDS_TYPE_5 len len len len body] flags_5 [of len] by (simp add: sdsIncrLen_def sds_fits_def)

lemma sdsIncrLen_ok:
  assumes "sds_fits t len alloc" "t \<noteq> SDS_TYPE_5" "0 \<le> int len + incr" "int len + incr \<le> int alloc" "alloc < length body"
  shows "sdsIncrLen (mk_sds t len alloc body) incr = Some (mk_sds t (nat (int len + incr)) alloc (body[nat (int len + incr) := 0]))"
proof -
  note f = sds_fits_type [OF assms(1,2)]
  have w: "(256::nat) ^ hdr_w t = 2 ^ (8 * hdr_w t)" by (simp add: power_mult)
  have c: "cast_u (8 * hdr_w t) (int len + incr) = nat (int len + incr)"
  proof (rule cast_u_id [OF assms(3)])
    have "int len + incr \<le> int alloc" "int alloc < 2 ^ (8 * hdr_w t)" using assms(4) f(4) w by (simp, metis of_nat_less_iff of_nat_numeral of_nat_power)
    then show "int len + incr < 2 ^ (8 * hdr_w t)" by linarith
  qed
  have room: "int (cast_u (8 * hdr_w t) (int alloc - int len)) = int alloc - int len"
    using cast_u_int [of "alloc - len" "8 * hdr_w t"] f(4,5) w by (simp add: of_nat_diff)
  have put: "sds_put (mk_sds t (nat (int len + incr)) alloc body) (nat (int len + incr)) 0 = Some (mk_sds t (nat (int len + incr)) alloc (body[nat (int len + incr) := 0]))"
    using assms by (intro sds_put_mk [OF assms(1)]) linarith
  show ?thesis
    using assms(2-4) f c room put hdr_write_mk(1) [OF assms(1,2)]
    by (auto simp: sdsIncrLen_def sds_flags_mk [OF assms(1)] hdr_read_mk [OF assms(1,2)] Let_def)
qed

end
