(* ===== verification/Vire_Object.thy ===== *)
theory Vire_Object
  imports Vire_Sds
begin

text \<open>Objects (\<open>vr_object.c\<close>, \<open>vr_object.h\<close>): the values of the keyspace, their constructors, the
  encodings of string objects and the operations that read them. A dynamic string is given by its content,
  which is what \<open>Vire_Sds\<close> shows its operations preserve; the containers of the other types are values of
  the type parameter. Allocation succeeds. \<^const>\<open>None\<close> is a failed assertion, \<open>serverPanic\<close>, or a pointer
  read as what it is not. \<open>long\<close> has 64 bits.\<close>

section \<open>Data\<close>

definition OBJ_SHARED_INTEGERS :: int where "OBJ_SHARED_INTEGERS = 10000"

definition OBJ_STRING :: nat where "OBJ_STRING = 0"
definition OBJ_LIST :: nat where "OBJ_LIST = 1"
definition OBJ_SET :: nat where "OBJ_SET = 2"
definition OBJ_ZSET :: nat where "OBJ_ZSET = 3"
definition OBJ_HASH :: nat where "OBJ_HASH = 4"

definition OBJ_ENCODING_RAW :: nat where "OBJ_ENCODING_RAW = 0"
definition OBJ_ENCODING_INT :: nat where "OBJ_ENCODING_INT = 1"
definition OBJ_ENCODING_HT :: nat where "OBJ_ENCODING_HT = 2"
definition OBJ_ENCODING_ZIPLIST :: nat where "OBJ_ENCODING_ZIPLIST = 5"
definition OBJ_ENCODING_INTSET :: nat where "OBJ_ENCODING_INTSET = 6"
definition OBJ_ENCODING_SKIPLIST :: nat where "OBJ_ENCODING_SKIPLIST = 7"
definition OBJ_ENCODING_EMBSTR :: nat where "OBJ_ENCODING_EMBSTR = 8"
definition OBJ_ENCODING_QUICKLIST :: nat where "OBJ_ENCODING_QUICKLIST = 9"

lemmas obj_types = OBJ_STRING_def OBJ_LIST_def OBJ_SET_def OBJ_ZSET_def OBJ_HASH_def
lemmas obj_encodings = OBJ_ENCODING_RAW_def OBJ_ENCODING_INT_def OBJ_ENCODING_HT_def OBJ_ENCODING_ZIPLIST_def
  OBJ_ENCODING_INTSET_def OBJ_ENCODING_SKIPLIST_def OBJ_ENCODING_EMBSTR_def OBJ_ENCODING_QUICKLIST_def

text \<open>What \<open>ptr\<close> points to: a dynamic string (given by its content), a number stored in the pointer
  itself, or a container of the other types, of which nothing is assumed.\<close>

datatype 'x obj_ptr = Sds_ptr "byte list" | Long_ptr int | Val_ptr 'x | Null_ptr

record 'x robj =
  obj_type :: nat
  obj_encoding :: nat
  obj_lru :: nat
  obj_constant :: bool
  obj_refcount :: int
  obj_ptr :: "'x obj_ptr"

definition sdsEncodedObject :: "'x robj \<Rightarrow> bool" where
  "sdsEncodedObject o' \<longleftrightarrow> obj_encoding o' = OBJ_ENCODING_RAW \<or> obj_encoding o' = OBJ_ENCODING_EMBSTR"

text \<open>The casts of \<open>ptr\<close>: reading a pointer as something it is not is undefined.\<close>

definition ptr_sds :: "'x robj \<Rightarrow> byte list option" where
  "ptr_sds ob = (case obj_ptr ob of Sds_ptr bs \<Rightarrow> Some bs | _ \<Rightarrow> None)"

definition ptr_long :: "'x robj \<Rightarrow> int option" where
  "ptr_long ob = (case obj_ptr ob of Long_ptr n \<Rightarrow> Some n | _ \<Rightarrow> None)"

section \<open>Creation\<close>

definition createObject :: "nat \<Rightarrow> 'x obj_ptr \<Rightarrow> 'x robj" where
  "createObject t p = \<lparr>obj_type = t, obj_encoding = OBJ_ENCODING_RAW, obj_lru = 0, obj_constant = False, obj_refcount = - 1, obj_ptr = p\<rparr>"

text \<open>The content a string is created with: \<open>len\<close> bytes from \<open>ptr\<close> on, or zeros when \<open>ptr\<close> is null.\<close>

definition init_bytes :: "byte list option \<Rightarrow> nat \<Rightarrow> byte list option" where
  "init_bytes ptr len = (case ptr of None \<Rightarrow> Some (replicate len 0) | Some bs \<Rightarrow> mem_read bs 0 len)"

definition createRawStringObject :: "byte list option \<Rightarrow> nat \<Rightarrow> 'x robj option" where
  "createRawStringObject ptr len = do { bs \<leftarrow> init_bytes ptr len; Some (createObject OBJ_STRING (Sds_ptr bs)) }"

text \<open>The length of an embedded string is a field of one byte.\<close>

definition createEmbeddedStringObject :: "byte list option \<Rightarrow> nat \<Rightarrow> 'x robj option" where
  "createEmbeddedStringObject ptr len = do {
     bs \<leftarrow> init_bytes ptr len;
     Some \<lparr>obj_type = OBJ_STRING, obj_encoding = OBJ_ENCODING_EMBSTR, obj_lru = 0, obj_constant = False, obj_refcount = - 1,
           obj_ptr = Sds_ptr (take (len mod 256) bs)\<rparr>
   }"

definition OBJ_ENCODING_EMBSTR_SIZE_LIMIT :: nat where "OBJ_ENCODING_EMBSTR_SIZE_LIMIT = 44"

definition createStringObject :: "byte list option \<Rightarrow> nat \<Rightarrow> 'x robj option" where
  "createStringObject ptr len =
     (if len \<le> OBJ_ENCODING_EMBSTR_SIZE_LIMIT then createEmbeddedStringObject ptr len else createRawStringObject ptr len)"

text \<open>The element \<open>j\<close> of \<open>shared.integers\<close>, made constant at the end of \<open>createSharedObjects\<close>.\<close>

definition shared_integers :: "int \<Rightarrow> 'x robj" where
  "shared_integers j = (createObject OBJ_STRING (Long_ptr j))\<lparr>obj_encoding := OBJ_ENCODING_INT, obj_constant := True\<rparr>"

text \<open>A number outside of the range of \<open>long\<close> would be printed; \<open>long\<close> has 64 bits here.\<close>

definition createStringObjectFromLongLong :: "int \<Rightarrow> 'x robj" where
  "createStringObjectFromLongLong v =
     (if v \<ge> 0 \<and> v < OBJ_SHARED_INTEGERS then shared_integers v
      else if v \<ge> LLONG_MIN \<and> v \<le> LLONG_MAX
      then (createObject OBJ_STRING (Long_ptr v))\<lparr>obj_encoding := OBJ_ENCODING_INT\<rparr>
      else createObject OBJ_STRING (Sds_ptr (int_text v)))"

definition dupStringObject :: "'x robj \<Rightarrow> 'x robj option" where
  "dupStringObject ob =
     (if obj_type ob \<noteq> OBJ_STRING then None
      else if obj_encoding ob = OBJ_ENCODING_RAW then do { s \<leftarrow> ptr_sds ob; createRawStringObject (Some s) (length s) }
      else if obj_encoding ob = OBJ_ENCODING_EMBSTR then do { s \<leftarrow> ptr_sds ob; createEmbeddedStringObject (Some s) (length s) }
      else if obj_encoding ob = OBJ_ENCODING_INT
      then Some ((createObject OBJ_STRING Null_ptr)\<lparr>obj_encoding := OBJ_ENCODING_INT, obj_ptr := obj_ptr ob\<rparr>)
      else None)"

definition dupStringObjectUnconstant :: "'x robj \<Rightarrow> 'x robj option" where
  "dupStringObjectUnconstant ob = (if obj_constant ob then Some ob else dupStringObject ob)"

text \<open>The containers the constructors of the other types allocate are arguments.\<close>

definition createQuicklistObject :: "'x \<Rightarrow> 'x robj" where
  "createQuicklistObject l = (createObject OBJ_LIST (Val_ptr l))\<lparr>obj_encoding := OBJ_ENCODING_QUICKLIST\<rparr>"

definition createZiplistObject :: "'x \<Rightarrow> 'x robj" where
  "createZiplistObject zl = (createObject OBJ_LIST (Val_ptr zl))\<lparr>obj_encoding := OBJ_ENCODING_ZIPLIST\<rparr>"

definition createSetObject :: "'x \<Rightarrow> 'x robj" where
  "createSetObject d = (createObject OBJ_SET (Val_ptr d))\<lparr>obj_encoding := OBJ_ENCODING_HT\<rparr>"

definition createIntsetObject :: "'x \<Rightarrow> 'x robj" where
  "createIntsetObject s = (createObject OBJ_SET (Val_ptr s))\<lparr>obj_encoding := OBJ_ENCODING_INTSET\<rparr>"

definition createHashObject :: "'x \<Rightarrow> 'x robj" where
  "createHashObject zl = (createObject OBJ_HASH (Val_ptr zl))\<lparr>obj_encoding := OBJ_ENCODING_ZIPLIST\<rparr>"

definition createZsetObject :: "'x \<Rightarrow> 'x robj" where
  "createZsetObject zs = (createObject OBJ_ZSET (Val_ptr zs))\<lparr>obj_encoding := OBJ_ENCODING_SKIPLIST\<rparr>"

definition createZsetZiplistObject :: "'x \<Rightarrow> 'x robj" where
  "createZsetZiplistObject zl = (createObject OBJ_ZSET (Val_ptr zl))\<lparr>obj_encoding := OBJ_ENCODING_ZIPLIST\<rparr>"

section \<open>Release\<close>

text \<open>The functions that release the value of an object accept the encodings of its type only. The result
  of \<open>decrRefCount\<close> is \<^term>\<open>Some None\<close> for an object that is released.\<close>

definition freeListObject :: "'x robj \<Rightarrow> unit option" where
  "freeListObject ob = (if obj_encoding ob = OBJ_ENCODING_QUICKLIST then Some () else None)"

definition freeSetObject :: "'x robj \<Rightarrow> unit option" where
  "freeSetObject ob = (if obj_encoding ob = OBJ_ENCODING_HT \<or> obj_encoding ob = OBJ_ENCODING_INTSET then Some () else None)"

definition freeZsetObject :: "'x robj \<Rightarrow> unit option" where
  "freeZsetObject ob = (if obj_encoding ob = OBJ_ENCODING_SKIPLIST \<or> obj_encoding ob = OBJ_ENCODING_ZIPLIST then Some () else None)"

definition freeHashObject :: "'x robj \<Rightarrow> unit option" where
  "freeHashObject ob = (if obj_encoding ob = OBJ_ENCODING_HT \<or> obj_encoding ob = OBJ_ENCODING_ZIPLIST then Some () else None)"

definition free_value :: "'x robj \<Rightarrow> unit option" where
  "free_value ob =
     (if obj_type ob = OBJ_STRING then Some ()
      else if obj_type ob = OBJ_LIST then freeListObject ob
      else if obj_type ob = OBJ_SET then freeSetObject ob
      else if obj_type ob = OBJ_ZSET then freeZsetObject ob
      else if obj_type ob = OBJ_HASH then freeHashObject ob
      else None)"

definition incrRefCount :: "'x robj \<Rightarrow> 'x robj" where
  "incrRefCount ob = ob\<lparr>obj_refcount := obj_refcount ob + 1\<rparr>"

definition decrRefCount :: "'x robj \<Rightarrow> 'x robj option option" where
  "decrRefCount ob =
     (if obj_refcount ob \<le> 0 then None
      else if obj_refcount ob = 1 then do { _ \<leftarrow> free_value ob; Some None }
      else Some (Some (ob\<lparr>obj_refcount := obj_refcount ob - 1\<rparr>)))"

definition freeObject :: "'x robj \<Rightarrow> unit option" where
  "freeObject ob = (if obj_constant ob then Some () else free_value ob)"

definition resetRefCount :: "'x robj \<Rightarrow> 'x robj" where
  "resetRefCount ob = ob\<lparr>obj_refcount := 0\<rparr>"

section \<open>Encodings\<close>

definition isObjectRepresentableAsLongLong :: "'x robj \<Rightarrow> int option option" where
  "isObjectRepresentableAsLongLong ob =
     (if obj_type ob \<noteq> OBJ_STRING then None
      else if obj_encoding ob = OBJ_ENCODING_INT then map_option Some (ptr_long ob)
      else do { bs \<leftarrow> ptr_sds ob; string2ll bs (length bs) })"

text \<open>Removing the free space of a raw string, the last step, does not change its content.\<close>

definition tryObjectEncoding :: "'x robj \<Rightarrow> 'x robj option" where
  "tryObjectEncoding ob =
     (if obj_type ob \<noteq> OBJ_STRING then None
      else if \<not> sdsEncodedObject ob then Some ob
      else if obj_constant ob then Some ob
      else do {
        s \<leftarrow> ptr_sds ob;
        let len = length s;
        r \<leftarrow> (if len \<le> 21 then string2l s len else Some None);
        case r of
          Some v \<Rightarrow>
            if v \<ge> 0 \<and> v < OBJ_SHARED_INTEGERS then do { _ \<leftarrow> freeObject ob; Some (shared_integers v) }
            else Some (ob\<lparr>obj_encoding := OBJ_ENCODING_INT, obj_ptr := Long_ptr v\<rparr>)
        | None \<Rightarrow>
            if len \<le> OBJ_ENCODING_EMBSTR_SIZE_LIMIT
            then if obj_encoding ob = OBJ_ENCODING_EMBSTR then Some ob
                 else do { emb \<leftarrow> createEmbeddedStringObject (Some s) (length s); _ \<leftarrow> freeObject ob; Some emb }
            else Some ob
      })"

text \<open>The text of the number in a local buffer of the given size, uninitialised before.\<close>

definition long_text :: "fill \<Rightarrow> nat \<Rightarrow> int \<Rightarrow> byte list option" where
  "long_text junk n v = do {
     (buf, len) \<leftarrow> ll2string (map junk [0..<n]) n v;
     mem_read buf 0 len
   }"

definition getDecodedObject :: "fill \<Rightarrow> 'x robj \<Rightarrow> 'x robj option" where
  "getDecodedObject junk ob =
     (if sdsEncodedObject ob then Some ob
      else if obj_type ob = OBJ_STRING \<and> obj_encoding ob = OBJ_ENCODING_INT
      then do {
        v \<leftarrow> ptr_long ob;
        (buf, len) \<leftarrow> ll2string (map junk [0..<32]) 32 v;
        n \<leftarrow> strlen buf;
        createStringObject (Some buf) n
      }
      else None)"

text \<open>\<open>compareStringObjectsWithFlags\<close> with \<open>REDIS_COMPARE_BINARY\<close>.\<close>

definition cmp_text :: "fill \<Rightarrow> 'x robj \<Rightarrow> byte list option" where
  "cmp_text junk ob = (if sdsEncodedObject ob then ptr_sds ob else do { v \<leftarrow> ptr_long ob; long_text junk 128 v })"

definition compareStringObjects :: "fill \<Rightarrow> 'x robj \<Rightarrow> 'x robj \<Rightarrow> int option" where
  "compareStringObjects junk a b =
     (if obj_type a \<noteq> OBJ_STRING \<or> obj_type b \<noteq> OBJ_STRING then None
      else do {
        astr \<leftarrow> cmp_text junk a;
        bstr \<leftarrow> cmp_text junk b;
        let minlen = (if length astr < length bstr then length astr else length bstr);
        let cmp = memcmp (take minlen astr) (take minlen bstr);
        Some (if cmp = 0 then cast_s 32 (int (length astr) - int (length bstr)) else cmp)
      })"

definition equalStringObjects :: "fill \<Rightarrow> 'x robj \<Rightarrow> 'x robj \<Rightarrow> bool option" where
  "equalStringObjects junk a b =
     (if obj_encoding a = OBJ_ENCODING_INT \<and> obj_encoding b = OBJ_ENCODING_INT
      then do { x \<leftarrow> ptr_long a; y \<leftarrow> ptr_long b; Some (x = y) }
      else map_option (\<lambda>c. c = 0) (compareStringObjects junk a b))"

definition stringObjectLen :: "'x robj \<Rightarrow> nat option" where
  "stringObjectLen ob =
     (if obj_type ob \<noteq> OBJ_STRING then None
      else if sdsEncodedObject ob then map_option length (ptr_sds ob)
      else map_option sdigits10 (ptr_long ob))"

text \<open>\<open>strtoll\<close> of the C library in base 10 on the string from an address on: the value (saturated when out
  of range), the number of characters read, and whether it was out of range.\<close>

definition is_digit :: "byte \<Rightarrow> bool" where
  "is_digit c \<longleftrightarrow> 48 \<le> c \<and> c \<le> 57"

definition strtoll10 :: "byte list \<Rightarrow> int \<times> nat \<times> bool" where
  "strtoll10 cs =
     (let sp = length (takeWhile isspace cs);
          r = drop sp cs;
          sg = (if r \<noteq> [] \<and> (hd r = 45 \<or> hd r = 43) then 1 else 0);
          ds = takeWhile is_digit (drop sg r);
          v = (if r \<noteq> [] \<and> hd r = 45 then - int (dec_val ds) else int (dec_val ds))
      in if ds = [] then (0, 0, False)
         else if v < LLONG_MIN then (LLONG_MIN, sp + sg + length ds, True)
         else if v > LLONG_MAX then (LLONG_MAX, sp + sg + length ds, True)
         else (v, sp + sg + length ds, False))"

text \<open>The outer option is an assertion or a panic, the inner one \<open>VR_ERROR\<close>. The object may be the null
  pointer.\<close>

definition getLongLongFromObject :: "'x robj option \<Rightarrow> int option option" where
  "getLongLongFromObject ob = (case ob of None \<Rightarrow> Some (Some 0) | Some ob \<Rightarrow>
     if obj_type ob \<noteq> OBJ_STRING then None
     else if sdsEncodedObject ob then do {
       bs \<leftarrow> ptr_sds ob;
       let p = bs @ [0];
       let (v, n, erange) = strtoll10 p;
       c \<leftarrow> byte_at p 0;
       e \<leftarrow> byte_at p n;
       Some (if isspace c \<or> e \<noteq> 0 \<or> erange then None else Some v)
     }
     else if obj_encoding ob = OBJ_ENCODING_INT then map_option Some (ptr_long ob)
     else None)"

definition getLongFromObject :: "'x robj option \<Rightarrow> int option option" where
  "getLongFromObject ob = do {
     r \<leftarrow> getLongLongFromObject ob;
     Some (case r of None \<Rightarrow> None | Some v \<Rightarrow> if v < LLONG_MIN \<or> v > LLONG_MAX then None else Some v)
   }"

definition strEncoding :: "nat \<Rightarrow> byte list" where
  "strEncoding encoding = asc
     (if encoding = OBJ_ENCODING_RAW then ''raw''
      else if encoding = OBJ_ENCODING_INT then ''int''
      else if encoding = OBJ_ENCODING_HT then ''hashtable''
      else if encoding = OBJ_ENCODING_QUICKLIST then ''quicklist''
      else if encoding = OBJ_ENCODING_ZIPLIST then ''ziplist''
      else if encoding = OBJ_ENCODING_INTSET then ''intset''
      else if encoding = OBJ_ENCODING_SKIPLIST then ''skiplist''
      else if encoding = OBJ_ENCODING_EMBSTR then ''embstr''
      else ''unknown'')"

definition LRU_CLOCK_MAX :: nat where "LRU_CLOCK_MAX = 2 ^ 24 - 1"
definition LRU_CLOCK_RESOLUTION :: nat where "LRU_CLOCK_RESOLUTION = 1000"

text \<open>\<open>lruclock\<close> is what \<open>LRU_CLOCK()\<close> returns.\<close>

definition estimateObjectIdleTime :: "nat \<Rightarrow> 'x robj \<Rightarrow> nat" where
  "estimateObjectIdleTime lruclock ob =
     (if lruclock \<ge> obj_lru ob then (lruclock - obj_lru ob) * LRU_CLOCK_RESOLUTION
      else (lruclock + (LRU_CLOCK_MAX - obj_lru ob)) * LRU_CLOCK_RESOLUTION)"

section \<open>Well-formed objects\<close>

text \<open>The type, the encoding and what the pointer refers to agree.\<close>

definition obj_wf :: "'x robj \<Rightarrow> bool" where
  "obj_wf ob \<longleftrightarrow> obj_lru ob \<le> LRU_CLOCK_MAX \<and>
     (case obj_ptr ob of
        Sds_ptr bs \<Rightarrow> obj_type ob = OBJ_STRING \<and>
          (obj_encoding ob = OBJ_ENCODING_RAW \<or> obj_encoding ob = OBJ_ENCODING_EMBSTR \<and> length bs < 256)
      | Long_ptr n \<Rightarrow> obj_type ob = OBJ_STRING \<and> obj_encoding ob = OBJ_ENCODING_INT \<and> LLONG_MIN \<le> n \<and> n \<le> LLONG_MAX
      | Val_ptr x \<Rightarrow> (obj_type ob, obj_encoding ob) \<in>
          {(OBJ_LIST, OBJ_ENCODING_QUICKLIST), (OBJ_LIST, OBJ_ENCODING_ZIPLIST), (OBJ_SET, OBJ_ENCODING_HT),
           (OBJ_SET, OBJ_ENCODING_INTSET), (OBJ_HASH, OBJ_ENCODING_HT), (OBJ_HASH, OBJ_ENCODING_ZIPLIST),
           (OBJ_ZSET, OBJ_ENCODING_SKIPLIST), (OBJ_ZSET, OBJ_ENCODING_ZIPLIST)}
      | Null_ptr \<Rightarrow> False)"

text \<open>The string a string object stands for, whatever its encoding.\<close>

definition obj_str :: "'x robj \<Rightarrow> byte list option" where
  "obj_str ob = (case obj_ptr ob of Sds_ptr bs \<Rightarrow> Some bs | Long_ptr n \<Rightarrow> Some (int_text n) | _ \<Rightarrow> None)"

lemmas obj_defs = obj_wf_def obj_str_def createObject_def obj_types obj_encodings

lemma obj_wf_string_cases:
  assumes "obj_wf ob" "obj_type ob = OBJ_STRING"
  obtains (chars) bs where "obj_ptr ob = Sds_ptr bs" "sdsEncodedObject ob" "obj_encoding ob \<noteq> OBJ_ENCODING_INT"
      "obj_str ob = Some bs" "obj_encoding ob = OBJ_ENCODING_EMBSTR \<Longrightarrow> length bs < 256"
      "obj_encoding ob = OBJ_ENCODING_RAW \<or> obj_encoding ob = OBJ_ENCODING_EMBSTR"
  | (number) n where "obj_ptr ob = Long_ptr n" "\<not> sdsEncodedObject ob" "obj_encoding ob = OBJ_ENCODING_INT"
      "obj_str ob = Some (int_text n)" "LLONG_MIN \<le> n" "n \<le> LLONG_MAX"
  using assms by (cases "obj_ptr ob") (auto simp: obj_defs sdsEncodedObject_def)

lemma obj_str_string: "obj_wf ob \<Longrightarrow> obj_type ob = OBJ_STRING \<longleftrightarrow> (\<exists>bs. obj_str ob = Some bs)"
  by (auto simp: obj_defs split: obj_ptr.splits)

lemma obj_str_type: "obj_wf ob \<Longrightarrow> obj_str ob = Some bs \<Longrightarrow> obj_type ob = OBJ_STRING"
  by (auto simp: obj_defs split: obj_ptr.splits)

lemma obj_str_text:
  assumes "obj_wf ob" "obj_str ob = Some bs" "\<And>v. LLONG_MIN \<le> v \<Longrightarrow> v \<le> LLONG_MAX \<Longrightarrow> bs \<noteq> int_text v"
  shows "obj_ptr ob = Sds_ptr bs \<and> sdsEncodedObject ob"
  using assms(1) obj_str_type [OF assms(1,2)]
proof (cases rule: obj_wf_string_cases)
  case (number n)
  then show ?thesis using assms(2) assms(3) [of n] by simp
qed (use assms(2) in simp)

text \<open>Creation.\<close>

definition is_new :: "'x robj \<Rightarrow> bool" where
  "is_new ob \<longleftrightarrow> \<not> obj_constant ob \<and> obj_refcount ob = - 1 \<and> obj_lru ob = 0"

lemma createRawStringObject_ok:
  assumes "init_bytes ptr len = Some bs"
  shows "\<exists>ob. createRawStringObject ptr len = Some ob \<and> obj_wf ob \<and> obj_type ob = OBJ_STRING \<and> is_new ob \<and>
    obj_encoding ob = OBJ_ENCODING_RAW \<and> obj_str ob = Some bs"
  using assms by (simp add: createRawStringObject_def obj_defs is_new_def)

lemma init_bytes_length: "init_bytes ptr len = Some bs \<Longrightarrow> length bs = len"
  by (auto simp: init_bytes_def mem_read_def split: option.splits if_splits)

lemma init_bytes_some: "init_bytes (Some bs) (length bs) = Some bs"
  by (simp add: init_bytes_def mem_read_def)

lemma createEmbeddedStringObject_ok:
  assumes "init_bytes ptr len = Some bs" "len < 256"
  shows "\<exists>ob. createEmbeddedStringObject ptr len = Some ob \<and> obj_wf ob \<and> obj_type ob = OBJ_STRING \<and> is_new ob \<and>
    obj_encoding ob = OBJ_ENCODING_EMBSTR \<and> obj_str ob = Some bs"
  using assms init_bytes_length [OF assms(1)] by (simp add: createEmbeddedStringObject_def obj_defs is_new_def)

lemma createStringObject_ok:
  assumes "init_bytes ptr len = Some bs"
  shows "\<exists>ob. createStringObject ptr len = Some ob \<and> obj_wf ob \<and> obj_type ob = OBJ_STRING \<and> is_new ob \<and> obj_str ob = Some bs"
proof (cases "len \<le> OBJ_ENCODING_EMBSTR_SIZE_LIMIT")
  case True
  then have "len < 256" by (simp add: OBJ_ENCODING_EMBSTR_SIZE_LIMIT_def)
  from createEmbeddedStringObject_ok [OF assms this] True show ?thesis by (auto simp: createStringObject_def)
next
  case False
  with createRawStringObject_ok [OF assms] show ?thesis by (auto simp: createStringObject_def)
qed

lemma createStringObjectFromLongLong_ok:
  assumes "LLONG_MIN \<le> v" "v \<le> LLONG_MAX"
  shows "obj_wf (createStringObjectFromLongLong v)" "obj_type (createStringObjectFromLongLong v) = OBJ_STRING"
    "obj_str (createStringObjectFromLongLong v) = Some (int_text v)"
    "obj_ptr (createStringObjectFromLongLong v) = Long_ptr v"
  using assms by (auto simp: createStringObjectFromLongLong_def shared_integers_def obj_defs)

lemma dupStringObject_ok:
  assumes "obj_wf ob" "obj_type ob = OBJ_STRING"
  shows "\<exists>ob'. dupStringObject ob = Some ob' \<and> obj_wf ob' \<and> obj_type ob' = OBJ_STRING \<and> is_new ob' \<and>
    obj_encoding ob' = obj_encoding ob \<and> obj_str ob' = obj_str ob"
  using assms
proof (cases rule: obj_wf_string_cases)
  case (chars bs)
  then show ?thesis
    using createRawStringObject_ok [OF init_bytes_some [of bs]]
      createEmbeddedStringObject_ok [OF init_bytes_some [of bs]] assms(2)
    by (auto simp: dupStringObject_def ptr_sds_def obj_encodings)
next
  case (number n)
  then show ?thesis using assms(2) by (simp add: dupStringObject_def is_new_def obj_defs)
qed

lemma container_objects_wf:
  "obj_wf (createQuicklistObject x)" "obj_wf (createZiplistObject x)" "obj_wf (createSetObject x)"
  "obj_wf (createIntsetObject x)" "obj_wf (createHashObject x)" "obj_wf (createZsetObject x)"
  "obj_wf (createZsetZiplistObject x)"
  by (simp_all add: createQuicklistObject_def createZiplistObject_def createSetObject_def createIntsetObject_def
    createHashObject_def createZsetObject_def createZsetZiplistObject_def obj_defs)

lemma shared_integers_wf:
  assumes "0 \<le> j" "j < OBJ_SHARED_INTEGERS"
  shows "obj_wf (shared_integers j)" "obj_type (shared_integers j) = OBJ_STRING" "obj_str (shared_integers j) = Some (int_text j)"
  using assms by (simp_all add: shared_integers_def obj_defs OBJ_SHARED_INTEGERS_def vire_limits)

text \<open>Encoding.\<close>

lemma string2l_value:
  obtains (number) v where "string2l bs (length bs) = Some (Some v)" "LLONG_MIN \<le> v" "v \<le> LLONG_MAX" "bs = int_text v"
  | (chars) "string2l bs (length bs) = Some None" "\<And>v. LLONG_MIN \<le> v \<Longrightarrow> v \<le> LLONG_MAX \<Longrightarrow> bs \<noteq> int_text v"
proof (cases "ll_parse bs")
  case None
  then have "string2l bs (length bs) = Some None" using string2ll_parse [of "length bs" bs] by (simp add: string2l_def)
  moreover have "bs \<noteq> int_text v" if "LLONG_MIN \<le> v" "v \<le> LLONG_MAX" for v
    using None ll_parse_iff [of bs v] that by auto
  ultimately show thesis by (rule chars)
next
  case (Some v)
  then have v: "LLONG_MIN \<le> v" "v \<le> LLONG_MAX" "bs = int_text v" using ll_parse_iff [of bs v] by auto
  then have "string2l bs (length bs) = Some (Some v)"
    using Some string2ll_parse [of "length bs" bs] by (simp add: string2l_def)
  from this v show thesis by (rule number)
qed

lemma int_text_inject:
  assumes "LLONG_MIN \<le> v" "v \<le> LLONG_MAX" "LLONG_MIN \<le> w" "w \<le> LLONG_MAX"
  shows "int_text v = int_text w \<longleftrightarrow> v = w"
  using ll_parse_iff [of "int_text v" v] ll_parse_iff [of "int_text v" w] assms by auto

lemma freeObject_string: "obj_type ob = OBJ_STRING \<Longrightarrow> freeObject ob = Some ()"
  by (simp add: freeObject_def free_value_def)

text \<open>The encoding chosen for a string that is not constant: a number when the string is the canonical text
  of a \<open>long\<close>, otherwise embedded when short.\<close>

lemma tryObjectEncoding_ok:
  assumes "obj_wf ob" "obj_type ob = OBJ_STRING"
  shows "\<exists>ob'. tryObjectEncoding ob = Some ob' \<and> obj_wf ob' \<and> obj_type ob' = OBJ_STRING \<and> obj_str ob' = obj_str ob \<and>
    (\<not> obj_constant ob \<longrightarrow>
      (obj_encoding ob' = OBJ_ENCODING_INT \<longleftrightarrow> (\<exists>v. LLONG_MIN \<le> v \<and> v \<le> LLONG_MAX \<and> obj_str ob = Some (int_text v))))"
  using assms
proof (cases rule: obj_wf_string_cases)
  case (number n)
  then show ?thesis using assms by (auto simp: tryObjectEncoding_def)
next
  case (chars bs)
  show ?thesis
  proof (cases "obj_constant ob")
    case True
    then show ?thesis using chars assms by (auto simp: tryObjectEncoding_def)
  next
    case False
    show ?thesis
    proof (cases bs rule: string2l_value)
      case (number v)
      have "length bs \<le> 21" using number length_int_text_le [of v] by simp
      then have "\<exists>ob'. tryObjectEncoding ob = Some ob' \<and> obj_wf ob' \<and> obj_type ob' = OBJ_STRING \<and>
          obj_str ob' = Some (int_text v) \<and> obj_encoding ob' = OBJ_ENCODING_INT"
        using number chars(1,2) assms False
        by (auto simp: tryObjectEncoding_def ptr_sds_def freeObject_string shared_integers_wf Let_def)
          (simp_all add: obj_defs shared_integers_def)
      then show ?thesis using number chars(4) by auto
    next
      case text': chars
      have nn: "\<not> (\<exists>v. LLONG_MIN \<le> v \<and> v \<le> LLONG_MAX \<and> obj_str ob = Some (int_text v))" using text' chars(4) by auto
      have "tryObjectEncoding ob = (if length bs \<le> OBJ_ENCODING_EMBSTR_SIZE_LIMIT
          then if obj_encoding ob = OBJ_ENCODING_EMBSTR then Some ob else createEmbeddedStringObject (Some bs) (length bs)
          else Some ob)"
        using text' chars assms False
        by (cases "createEmbeddedStringObject (Some bs) (length bs)")
          (auto simp: tryObjectEncoding_def ptr_sds_def freeObject_string Let_def)
      moreover have "\<exists>ob'. createEmbeddedStringObject (Some bs) (length bs) = Some ob' \<and> obj_wf ob' \<and>
          obj_type ob' = OBJ_STRING \<and> obj_encoding ob' \<noteq> OBJ_ENCODING_INT \<and> obj_str ob' = Some bs"
        if "length bs \<le> OBJ_ENCODING_EMBSTR_SIZE_LIMIT"
        using createEmbeddedStringObject_ok [OF init_bytes_some [of bs]] that
        by (auto simp: OBJ_ENCODING_EMBSTR_SIZE_LIMIT_def obj_encodings)
      ultimately show ?thesis using nn chars assms by (auto split: if_splits)
    qed
  qed
qed

lemma int_text_nonzero: "0 \<notin> set (int_text v)"
proof -
  have "(0 :: byte) \<notin> set (dec_text n)" for n using dec_text_digits [of n] by (auto simp: digits_only_def)
  then show ?thesis by (auto simp: int_text_def)
qed

lemma getDecodedObject_ok:
  fixes ob :: "'x robj"
  assumes "obj_wf ob" "obj_type ob = OBJ_STRING"
  shows "\<exists>ob'. getDecodedObject junk ob = Some ob' \<and> obj_wf ob' \<and> obj_type ob' = OBJ_STRING \<and> sdsEncodedObject ob' \<and>
    obj_str ob' = obj_str ob"
  using assms
proof (cases rule: obj_wf_string_cases)
  case (chars bs)
  then show ?thesis using assms by (simp add: getDecodedObject_def)
next
  case (number n)
  let ?buf = "int_text n @ 0 # drop (length (int_text n) + 1) (map junk [0..<32])"
  have l: "ll2string (map junk [0..<32]) 32 n = Some (?buf, length (int_text n))"
    using ll2string_ok [OF number(5,6), of 32 "map junk [0..<32]"] length_int_text_le [OF number(5,6)] by simp
  have b: "init_bytes (Some ?buf) (length (int_text n)) = Some (int_text n)"
    by (simp add: init_bytes_def mem_read_def)
  obtain ob' :: "'x robj" where ob': "createStringObject (Some ?buf) (length (int_text n)) = Some ob'" "obj_wf ob'"
      "obj_type ob' = OBJ_STRING" "obj_str ob' = Some (int_text n)"
    using createStringObject_ok [OF b] by blast
  have "sdsEncodedObject ob'"
    using ob'(1) by (auto simp: createStringObject_def createRawStringObject_def createEmbeddedStringObject_def
      createObject_def sdsEncodedObject_def split: if_splits bind_splits)
  moreover have "getDecodedObject junk ob = Some ob'"
    using number assms(2) l strlen_Some [OF int_text_nonzero] ob'(1)
    by (simp add: getDecodedObject_def ptr_long_def)
  ultimately show ?thesis using ob' number by simp
qed

text \<open>Reading.\<close>

lemma long_text_ok:
  assumes "LLONG_MIN \<le> v" "v \<le> LLONG_MAX" "21 \<le> n"
  shows "long_text junk n v = Some (int_text v)"
  using ll2string_ok [OF assms(1,2), of n "map junk [0..<n]"] length_int_text_le [OF assms(1,2)] assms(3)
  by (simp add: long_text_def mem_read_def)

lemma cmp_text_ok:
  assumes "obj_wf ob" "obj_type ob = OBJ_STRING"
  shows "cmp_text junk ob = obj_str ob"
  using assms
proof (cases rule: obj_wf_string_cases)
  case (number n)
  then show ?thesis using long_text_ok [of n 128 junk] by (simp add: cmp_text_def ptr_long_def)
qed (simp add: cmp_text_def ptr_sds_def)

lemma memcmp_sign_take:
  "memcmp (take (min (length xs) (length ys)) xs) (take (min (length xs) (length ys)) ys) = 0 \<longleftrightarrow>
    take (min (length xs) (length ys)) xs = take (min (length xs) (length ys)) ys"
  by (rule memcmp_eq) simp

lemma compareStringObjects_ok:
  assumes "obj_wf a" "obj_type a = OBJ_STRING" "obj_wf b" "obj_type b = OBJ_STRING"
    "obj_str a = Some x" "obj_str b = Some y" "length x < 2 ^ 31" "length y < 2 ^ 31"
  shows "\<exists>c. compareStringObjects junk a b = Some c \<and> (c = 0 \<longleftrightarrow> x = y)"
proof -
  let ?m = "min (length x) (length y)"
  let ?c = "memcmp (take ?m x) (take ?m y)"
  have m: "(if length x < length y then length x else length y) = ?m" by simp
  have "cast_s 32 (int (length x) - int (length y)) = int (length x) - int (length y)"
    using assms(7,8) by (intro cast_s_id) auto
  then have "compareStringObjects junk a b = Some (if ?c = 0 then int (length x) - int (length y) else ?c)"
    using assms unfolding compareStringObjects_def m by (simp add: cmp_text_ok Let_def m)
  moreover have "(if ?c = 0 then int (length x) - int (length y) else ?c) = 0 \<longleftrightarrow> x = y"
    using memcmp_sign_take [of x y] by auto
  ultimately show ?thesis by blast
qed

lemma equalStringObjects_ok:
  assumes "obj_wf a" "obj_type a = OBJ_STRING" "obj_wf b" "obj_type b = OBJ_STRING"
    "obj_str a = Some x" "obj_str b = Some y" "length x < 2 ^ 31" "length y < 2 ^ 31"
  shows "equalStringObjects junk a b = Some (x = y)"
proof (cases "obj_encoding a = OBJ_ENCODING_INT \<and> obj_encoding b = OBJ_ENCODING_INT")
  case True
  from assms(1,2) obtain m where m: "obj_ptr a = Long_ptr m" "x = int_text m" "LLONG_MIN \<le> m" "m \<le> LLONG_MAX"
    by (cases rule: obj_wf_string_cases) (use True assms(5) in auto)
  from assms(3,4) obtain n where n: "obj_ptr b = Long_ptr n" "y = int_text n" "LLONG_MIN \<le> n" "n \<le> LLONG_MAX"
    by (cases rule: obj_wf_string_cases) (use True assms(6) in auto)
  from True m n show ?thesis using int_text_inject [of m n] by (simp add: equalStringObjects_def ptr_long_def)
next
  case False
  then show ?thesis using compareStringObjects_ok [OF assms, of junk] by (auto simp: equalStringObjects_def)
qed

lemma stringObjectLen_ok:
  assumes "obj_wf ob" "obj_type ob = OBJ_STRING"
  shows "stringObjectLen ob = map_option length (obj_str ob)"
  using assms
proof (cases rule: obj_wf_string_cases)
  case (number n)
  then show ?thesis using assms sdigits10_counts [of n] by (simp add: stringObjectLen_def ptr_long_def)
qed (use assms in \<open>simp add: stringObjectLen_def ptr_sds_def\<close>)

lemma takeWhile_digits: "takeWhile is_digit (dec_text n @ 0 # cs) = dec_text n"
  using dec_text_digits [of n] by (subst takeWhile_append2) (auto simp: digits_only_def is_digit_def)

lemma dec_text_not: "dec_text n \<noteq> []" "hd (dec_text n) \<noteq> 45" "hd (dec_text n) \<noteq> 43" "\<not> isspace (hd (dec_text n))"
proof -
  show ne: "dec_text n \<noteq> []" using length_dec_text_pos(2) [of n] by auto
  then have h: "48 \<le> hd (dec_text n)" "hd (dec_text n) \<le> 57"
    using dec_text_digits [of n] hd_in_set [of "dec_text n"] by (auto simp: digits_only_def)
  then have u: "48 \<le> unat (hd (dec_text n))" "unat (hd (dec_text n)) \<le> 57" by (auto simp: word_le_nat_alt)
  show "hd (dec_text n) \<noteq> 45" "hd (dec_text n) \<noteq> 43" using u by auto
  show "\<not> isspace (hd (dec_text n))" using u by (auto simp: isspace_def word_le_nat_alt)
qed

lemma strtoll10_int_text:
  assumes "LLONG_MIN \<le> v" "v \<le> LLONG_MAX"
  shows "strtoll10 (int_text v @ [0]) = (v, length (int_text v), False)"
proof (cases "v < 0")
  case True
  have "\<not> isspace 45" by (simp add: isspace_def)
  then show ?thesis using True assms dec_text_not(1) [of "nat (- v)"]
    by (simp add: strtoll10_def int_text_def Let_def takeWhile_digits)
next
  case False
  have sp: "takeWhile isspace (dec_text (nat v) @ [0]) = []"
    using dec_text_not(1,4) [of "nat v"] by (cases "dec_text (nat v)") auto
  show ?thesis using False assms dec_text_not [of "nat v"]
    by (simp add: strtoll10_def int_text_def Let_def takeWhile_digits sp)
qed

lemma getLongLongFromObject_returns:
  assumes "obj_wf ob" "obj_type ob = OBJ_STRING"
  shows "\<exists>r. getLongLongFromObject (Some ob) = Some r"
  using assms
proof (cases rule: obj_wf_string_cases)
  case (chars bs)
  let ?p = "bs @ [0 :: byte]"
  define sp where "sp = length (takeWhile isspace ?p)"
  define sg :: nat where "sg = (if drop sp ?p \<noteq> [] \<and> (hd (drop sp ?p) = 45 \<or> hd (drop sp ?p) = 43) then 1 else 0)"
  have sp0: "takeWhile isspace ?p = takeWhile isspace bs" by (rule takeWhile_tail) (simp add: isspace_def)
  have dg: "takeWhile is_digit (cs @ [0]) = takeWhile is_digit cs" for cs :: "byte list"
    by (rule takeWhile_tail) (simp add: is_digit_def)
  have sp: "sp \<le> length bs" unfolding sp0 sp_def by (rule length_takeWhile_le)
  then have dr: "drop sp ?p = drop sp bs @ [0]" by simp
  have "Suc sp \<le> length bs" if "drop sp bs = c # list" for c list
    using arg_cong [OF that, of length] by simp
  then have sg: "sg + sp \<le> length bs" using sp unfolding sg_def dr by (cases "drop sp bs") auto
  have "drop sg (drop sp ?p) = drop (sg + sp) bs @ [0]" using sg by simp
  then have "length (takeWhile is_digit (drop sg (drop sp ?p))) \<le> length bs - (sg + sp)"
    using length_takeWhile_le [of is_digit "drop (sg + sp) bs"] by (simp add: dg)
  then have "sp + sg + length (takeWhile is_digit (drop sg (drop sp ?p))) \<le> length bs" using sg by linarith
  then have n: "fst (snd (strtoll10 ?p)) \<le> length bs"
    unfolding strtoll10_def Let_def sp_def [symmetric] sg_def [symmetric] by (simp del: drop_append drop_drop)
  show ?thesis using chars assms(2) n
    by (cases "strtoll10 ?p") (auto simp: getLongLongFromObject_def ptr_sds_def byte_at_def Let_def)
next
  case (number n)
  then show ?thesis using assms(2) by (simp add: getLongLongFromObject_def ptr_long_def)
qed

lemma getLongLongFromObject_canonical:
  assumes "obj_wf ob" "obj_str ob = Some (int_text v)" "LLONG_MIN \<le> v" "v \<le> LLONG_MAX"
  shows "getLongLongFromObject (Some ob) = Some (Some v)"
proof -
  have st: "obj_type ob = OBJ_STRING" using assms(1,2) by (rule obj_str_type)
  from assms(1) st show ?thesis
  proof (cases rule: obj_wf_string_cases)
    case (chars bs)
    then have bs: "bs = int_text v" using assms(2) by simp
    have "int_text v \<noteq> []" "\<not> isspace (hd (int_text v))"
      using dec_text_not by (auto simp: int_text_def isspace_def)
    then have "byte_at (bs @ [0]) 0 = Some (hd (int_text v))" by (simp add: byte_at_def bs nth_append hd_conv_nth)
    moreover have "byte_at (bs @ [0]) (length bs) = Some 0" by (simp add: byte_at_def)
    ultimately show ?thesis using chars st strtoll10_int_text [OF assms(3,4)] \<open>\<not> isspace _\<close>
      by (simp add: getLongLongFromObject_def ptr_sds_def bs)
  next
    case (number n)
    then show ?thesis using st assms int_text_inject [of n v] by (simp add: getLongLongFromObject_def ptr_long_def)
  qed
qed


section \<open>Properties\<close>

text \<open>The objects the server can build: what the constructors return, and what the operations on objects
  return for such objects.\<close>

inductive obj_made :: "'x robj \<Rightarrow> bool" where
  raw: "createRawStringObject ptr len = Some ob \<Longrightarrow> obj_made ob"
| str: "createStringObject ptr len = Some ob \<Longrightarrow> obj_made ob"
| num: "LLONG_MIN \<le> v \<Longrightarrow> v \<le> LLONG_MAX \<Longrightarrow> obj_made (createStringObjectFromLongLong v)"
| quicklist: "obj_made (createQuicklistObject x)"
| ziplist: "obj_made (createZiplistObject x)"
| set: "obj_made (createSetObject x)"
| intset: "obj_made (createIntsetObject x)"
| hash: "obj_made (createHashObject x)"
| zset: "obj_made (createZsetObject x)"
| zset_ziplist: "obj_made (createZsetZiplistObject x)"
| dup: "obj_made ob \<Longrightarrow> dupStringObject ob = Some ob' \<Longrightarrow> obj_made ob'"
| unconstant: "obj_made ob \<Longrightarrow> dupStringObjectUnconstant ob = Some ob' \<Longrightarrow> obj_made ob'"
| encode: "obj_made ob \<Longrightarrow> tryObjectEncoding ob = Some ob' \<Longrightarrow> obj_made ob'"
| decode: "obj_made ob \<Longrightarrow> getDecodedObject junk ob = Some ob' \<Longrightarrow> obj_made ob'"
| incr: "obj_made ob \<Longrightarrow> obj_made (incrRefCount ob)"
| decr: "obj_made ob \<Longrightarrow> decrRefCount ob = Some (Some ob') \<Longrightarrow> obj_made ob'"
| reset: "obj_made ob \<Longrightarrow> obj_made (resetRefCount ob)"

lemma createString_wf:
  fixes ob :: "'x robj"
  shows "createStringObject ptr len = Some ob \<Longrightarrow> obj_wf ob" "createRawStringObject ptr len = Some ob \<Longrightarrow> obj_wf ob"
proof -
  assume "createStringObject ptr len = Some ob"
  then have "\<exists>bs. init_bytes ptr len = Some bs"
    by (auto simp: createStringObject_def createRawStringObject_def createEmbeddedStringObject_def split: if_splits bind_splits)
  then obtain bs where "init_bytes ptr len = Some bs" by blast
  then have "\<exists>ob' :: 'x robj. createStringObject ptr len = Some ob' \<and> obj_wf ob'" using createStringObject_ok by blast
  then show "obj_wf ob" using \<open>createStringObject ptr len = Some ob\<close> by auto
next
  assume "createRawStringObject ptr len = Some ob"
  then show "obj_wf ob" by (auto simp: createRawStringObject_def obj_defs split: bind_splits)
qed

lemma obj_wf_refcount: "obj_wf (ob\<lparr>obj_refcount := n\<rparr>) \<longleftrightarrow> obj_wf ob"
  by (cases "obj_ptr ob") (simp_all add: obj_wf_def)

lemma refcount_wf:
  "obj_wf ob \<Longrightarrow> obj_wf (incrRefCount ob)" "obj_wf ob \<Longrightarrow> obj_wf (resetRefCount ob)"
  "obj_wf ob \<Longrightarrow> decrRefCount ob = Some (Some ob') \<Longrightarrow> obj_wf ob'"
  by (auto simp: obj_wf_refcount incrRefCount_def resetRefCount_def decrRefCount_def split: if_splits bind_splits)

lemma tryObjectEncoding_string: "tryObjectEncoding ob = Some ob' \<Longrightarrow> obj_type ob = OBJ_STRING"
  by (auto simp: tryObjectEncoding_def split: if_splits)

lemma dupStringObject_string: "dupStringObject ob = Some ob' \<Longrightarrow> obj_type ob = OBJ_STRING"
  by (auto simp: dupStringObject_def split: if_splits)

lemma getDecodedObject_string: "obj_wf ob \<Longrightarrow> getDecodedObject junk ob = Some ob' \<Longrightarrow> obj_type ob = OBJ_STRING"
  by (auto simp: getDecodedObject_def sdsEncodedObject_def obj_wf_def obj_encodings split: if_splits obj_ptr.splits)

lemma obj_ops_wf:
  assumes "obj_wf ob"
  shows "dupStringObject ob = Some ob' \<Longrightarrow> obj_wf ob'"
    and "tryObjectEncoding ob = Some ob' \<Longrightarrow> obj_wf ob'"
    and "getDecodedObject junk ob = Some ob' \<Longrightarrow> obj_wf ob'"
proof -
  assume a: "dupStringObject ob = Some ob'"
  from dupStringObject_ok [OF assms dupStringObject_string [OF a]] a show "obj_wf ob'" by auto
next
  assume a: "tryObjectEncoding ob = Some ob'"
  from tryObjectEncoding_ok [OF assms tryObjectEncoding_string [OF a]] a show "obj_wf ob'" by auto
next
  assume a: "getDecodedObject junk ob = Some ob'"
  from getDecodedObject_ok [OF assms getDecodedObject_string [OF assms a], of junk] a show "obj_wf ob'" by auto
qed





text \<open>Some strings are accepted as numbers that \<open>string2ll\<close> refuses: the empty string, and what \<open>strtoll\<close> reads
  before an embedded null byte.\<close>

lemma getLongLongFromObject_lenient:
  "getLongLongFromObject (Some (createObject OBJ_STRING (Sds_ptr []) :: nat robj)) = Some (Some 0)"
  "getLongLongFromObject (Some (createObject OBJ_STRING (Sds_ptr [49, 50, 0, 120]) :: nat robj)) = Some (Some 12)"
  by code_simp+

text \<open>The count of a new object is -1, which \<open>decrRefCount\<close> rejects, as it rejects the one of an object
  referenced once more.\<close>

lemma decrRefCount_new: "decrRefCount (incrRefCount (createObject t p)) = None"
  by (simp add: decrRefCount_def incrRefCount_def createObject_def)

text \<open>A list in the encoding \<open>createZiplistObject\<close> gives it cannot be released.\<close>

lemma freeObject_ziplist: "freeObject (createZiplistObject x) = None"
  by (simp add: freeObject_def free_value_def freeListObject_def createZiplistObject_def createObject_def obj_types obj_encodings)

end
