(* ===== verification/Spec2Isabelle.thy ===== *)
theory Spec2Isabelle
  imports Vire_Intset Vire_Dict_Iter Vire_Util Vire_Queue Vire_Darray Vire_Zipmap Vire_Lzf Vire_Bitops Vire_Digest Vire_Object
begin

text \<open>
  A verification library for the data structures of the vire server.
\<close>

end
